(* ===== verification/Prelude.thy ===== *)
theory Prelude
  imports Main "HOL-Library.Signed_Division" "HOL-Library.Multiset"
begin

text \<open>
  What every component theory shares.

  \<^item> Results: a TypeScript function that may throw returns \<open>'e + 'a\<close>, \<open>Inl\<close> for the thrown
    error. \<open>and_then\<close> sequences two such computations.
  \<^item> \<open>BigInt\<close>: a JavaScript \<open>bigint\<close> is an \<open>int\<close>; its \<open>/\<close> and \<open>%\<close> truncate
    towards zero, which is \<open>sdiv\<close> and \<open>smod\<close> of the library.
  \<^item> Strings are lists of code units below 256 (\<open>char\<close>). Decimal numerals are
    read and printed by \<open>nat_of_digits\<close> and \<open>digits_of_nat\<close>.
  \<^item> An insertion-ordered JavaScript \<open>Map\<close> is an association list without duplicate keys
    (\<open>jm_get\<close>, \<open>jm_set\<close>, \<open>jm_delete\<close>); \<open>dedupe\<close> is the order in which a
    \<open>Set\<close> built from a list is iterated.
\<close>

named_theorems result_laws \<open>inversion of computations that may throw\<close>

section \<open>Results\<close>

type_synonym ('e, 'a) result = "'e + 'a"

fun and_then :: "'e + 'a \<Rightarrow> ('a \<Rightarrow> 'e + 'b) \<Rightarrow> 'e + 'b" where
  "and_then (Inl e) f = Inl e"
| "and_then (Inr a) f = f a"

lemma and_then_Inr_iff [result_laws]:
  "and_then r f = Inr b \<longleftrightarrow> (\<exists>a. r = Inr a \<and> f a = Inr b)"
  by (cases r) auto

lemma and_then_Inl_iff:
  "and_then r f = Inl e \<longleftrightarrow> r = Inl e \<or> (\<exists>a. r = Inr a \<and> f a = Inl e)"
  by (cases r) auto

text \<open>\<open>map\<close> with a function that may throw: the first error wins.\<close>

fun map_result :: "('a \<Rightarrow> 'e + 'b) \<Rightarrow> 'a list \<Rightarrow> 'e + 'b list" where
  "map_result f [] = Inr []"
| "map_result f (x # xs) = and_then (f x) (\<lambda>y. and_then (map_result f xs) (\<lambda>ys. Inr (y # ys)))"

lemma map_result_length: "map_result f xs = Inr ys \<Longrightarrow> length ys = length xs"
  by (induction xs arbitrary: ys) (auto simp: result_laws)

lemma map_result_list_all2:
  "map_result f xs = Inr ys \<longleftrightarrow> list_all2 (\<lambda>x y. f x = Inr y) xs ys"
  by (induction xs arbitrary: ys) (auto simp: list_all2_Cons1 result_laws)

lemma map_result_total: "(\<And>x. x \<in> set xs \<Longrightarrow> f x = Inr (g x)) \<Longrightarrow> map_result f xs = Inr (map g xs)"
  by (induction xs) auto

text \<open>The exceptions of the language that the code throws or lets through, with their messages.\<close>

datatype js_error =
    RangeError string
  | SyntaxError string
  | TypeError string
  | PlainError string
  | BadRequest string
  | NotFound string

text \<open>The message of an error.\<close>

definition error_text :: "js_error \<Rightarrow> string" where
  "error_text e = (case e of RangeError m \<Rightarrow> m | SyntaxError m \<Rightarrow> m | TypeError m \<Rightarrow> m | PlainError m \<Rightarrow> m | BadRequest m \<Rightarrow> m | NotFound m \<Rightarrow> m)"

text \<open>A guard: throw unless the condition holds.\<close>

definition throw_if :: "bool \<Rightarrow> 'e \<Rightarrow> 'e + unit" where
  "throw_if b e = (if b then Inl e else Inr ())"

lemma throw_if_simps [simp]:
  "throw_if True e = Inl e" "throw_if False e = Inr ()"
  "(throw_if b e = Inr u) = (\<not> b)"
  by (simp_all add: throw_if_def)

section \<open>BigInt division\<close>

definition bigint_div :: "int \<Rightarrow> int \<Rightarrow> js_error + int" where
  "bigint_div a b = (if b = 0 then Inl (RangeError ''Division by zero'') else Inr (a sdiv b))"

lemma bigint_div_Inr_iff [simp]: "bigint_div a b = Inr q \<longleftrightarrow> b \<noteq> 0 \<and> q = a sdiv b"
  by (auto simp: bigint_div_def)

lemma sdiv_nonneg [simp]: "0 \<le> a \<Longrightarrow> 0 \<le> b \<Longrightarrow> a sdiv b = a div (b::int)"
  by (auto simp: signed_divide_int_def sgn_if)

lemma smod_nonneg [simp]: "0 \<le> a \<Longrightarrow> 0 \<le> b \<Longrightarrow> a smod b = a mod (b::int)"
  by (auto simp: signed_modulo_int_def sgn_if minus_div_mult_eq_mod)

lemma int_div_bounds:
  fixes a b :: int
  assumes "0 < b"
  shows "a div b * b \<le> a" and "a < (a div b + 1) * b"
proof -
  have "a div b * b + a mod b = a" by simp
  moreover have "0 \<le> a mod b" and "a mod b < b" using assms by simp_all
  ultimately show "a div b * b \<le> a" and "a < (a div b + 1) * b"
    unfolding distrib_right mult_1 by linarith+
qed

lemma int_le_div_iff:
  fixes a b k :: int
  assumes "0 < b"
  shows "k \<le> a div b \<longleftrightarrow> k * b \<le> a"
proof
  assume "k \<le> a div b"
  then have "k * b \<le> a div b * b" using assms by (intro mult_right_mono) auto
  also have "\<dots> \<le> a" by (rule int_div_bounds [OF assms])
  finally show "k * b \<le> a" .
next
  assume "k * b \<le> a"
  then have "(k * b) div b \<le> a div b" using assms by (intro zdiv_mono1)
  then show "k \<le> a div b" using assms by simp
qed

lemma int_div_le_iff: "0 < (b::int) \<Longrightarrow> a div b \<le> k \<longleftrightarrow> a < (k + 1) * b"
  using int_le_div_iff [of b "k + 1" a] by linarith

section \<open>Characters and decimal numerals\<close>

definition is_digit :: "char \<Rightarrow> bool" where
  "is_digit c \<longleftrightarrow> 48 \<le> (of_char c :: nat) \<and> (of_char c :: nat) \<le> 57"

definition digit_char :: "nat \<Rightarrow> char" where
  "digit_char d = char_of (48 + d)"

definition digit_val :: "char \<Rightarrow> nat" where
  "digit_val c = (of_char c :: nat) - 48"

lemma of_char_digit_char: "d < 10 \<Longrightarrow> (of_char (digit_char d) :: nat) = 48 + d"
  by (simp add: digit_char_def)

lemma is_digit_digit_char [simp]: "d < 10 \<Longrightarrow> is_digit (digit_char d)"
  by (simp add: is_digit_def of_char_digit_char)

lemma digit_val_digit_char [simp]: "d < 10 \<Longrightarrow> digit_val (digit_char d) = d"
  by (simp add: digit_val_def of_char_digit_char)

lemma digit_char_digit_val: "is_digit c \<Longrightarrow> digit_char (digit_val c) = c"
  by (simp add: is_digit_def digit_char_def digit_val_def)

lemma digit_val_less: "is_digit c \<Longrightarrow> digit_val c < 10"
  unfolding is_digit_def digit_val_def by linarith

lemma digit_chars [simp]:
  "digit_char 0 = CHR ''0''" "digit_char (Suc 0) = CHR ''1''" "digit_char 1 = CHR ''1''"
  "digit_char 2 = CHR ''2''" "digit_char 3 = CHR ''3''" "digit_char 4 = CHR ''4''"
  "digit_char 5 = CHR ''5''" "digit_char 6 = CHR ''6''" "digit_char 7 = CHR ''7''"
  "digit_char 8 = CHR ''8''" "digit_char 9 = CHR ''9''"
  by code_simp+

text \<open>\<open>Number.prototype.toString\<close> and \<open>BigInt.prototype.toString\<close> in base ten.\<close>

fun digits_of_nat :: "nat \<Rightarrow> string" where
  "digits_of_nat n =
     (if n < 10 then [digit_char n] else digits_of_nat (n div 10) @ [digit_char (n mod 10)])"

declare digits_of_nat.simps [simp del]

definition nat_of_digits :: "string \<Rightarrow> nat" where
  "nat_of_digits ds = foldl (\<lambda>a c. 10 * a + digit_val c) 0 ds"

lemma nat_of_digits_Nil [simp]: "nat_of_digits [] = 0"
  by (simp add: nat_of_digits_def)

lemma nat_of_digits_snoc [simp]: "nat_of_digits (ds @ [c]) = 10 * nat_of_digits ds + digit_val c"
  by (simp add: nat_of_digits_def)

lemma nat_of_digits_append:
  "nat_of_digits (xs @ ys) = nat_of_digits xs * 10 ^ length ys + nat_of_digits ys"
proof (induction ys rule: rev_induct)
  case (snoc c ys)
  then show ?case
    by (simp flip: append_assoc add: algebra_simps)
qed simp

lemma nat_of_digits_less: "list_all is_digit ds \<Longrightarrow> nat_of_digits ds < 10 ^ length ds"
proof (induction ds rule: rev_induct)
  case (snoc c ds)
  then have "nat_of_digits ds < 10 ^ length ds" and "digit_val c < 10"
    by (simp_all add: digit_val_less)
  then show ?case by simp
qed simp

lemma digits_of_nat_nonempty [simp]: "digits_of_nat n \<noteq> []"
  by (subst digits_of_nat.simps) simp

lemma digits_of_nat_digits [simp]: "list_all is_digit (digits_of_nat n)"
proof (induction n rule: digits_of_nat.induct)
  case (1 n)
  then show ?case
    by (subst digits_of_nat.simps) simp
qed

lemma nat_of_digits_of_nat [simp]: "nat_of_digits (digits_of_nat n) = n"
proof (induction n rule: digits_of_nat.induct)
  case (1 n)
  show ?case
  proof (cases "n < 10")
    case True
    then show ?thesis
      by (subst digits_of_nat.simps) (simp add: nat_of_digits_def)
  next
    case False
    with "1.IH" show ?thesis
      by (subst digits_of_nat.simps) simp
  qed
qed

lemma length_digits_of_nat: "n < 10 ^ k \<Longrightarrow> 0 < k \<Longrightarrow> length (digits_of_nat n) \<le> k"
proof (induction n arbitrary: k rule: digits_of_nat.induct)
  case (1 n)
  show ?case
  proof (cases "n < 10")
    case True
    with 1 show ?thesis by (subst digits_of_nat.simps) simp
  next
    case False
    then obtain m where m: "k = Suc m" "0 < m"
      using "1.prems" by (cases k; cases "k - 1") auto
    with False 1 have "length (digits_of_nat (n div 10)) \<le> m"
      by (simp add: less_mult_imp_div_less)
    with False m show ?thesis by (subst digits_of_nat.simps) simp
  qed
qed

lemma nat_of_digits_pad: "nat_of_digits (replicate k (CHR ''0'') @ ds) = nat_of_digits ds"
proof -
  have "nat_of_digits (replicate k (CHR ''0'')) = 0"
    by (induction k) (simp_all add: replicate_append_same [symmetric] digit_val_def)
  then show ?thesis by (simp add: nat_of_digits_append)
qed

lemma nat_of_digits_pad_end:
  "nat_of_digits (ds @ replicate k (CHR ''0'')) = nat_of_digits ds * 10 ^ k"
  using nat_of_digits_pad [of k "[]"] by (simp add: nat_of_digits_append)

definition int_to_string :: "int \<Rightarrow> string" where
  "int_to_string i = (if i < 0 then ''-'' else []) @ digits_of_nat (nat \<bar>i\<bar>)"

text \<open>\<open>String.prototype.padStart\<close>, \<open>padEnd\<close> with a one-character filler, and \<open>trim\<close>.\<close>

definition pad_start :: "nat \<Rightarrow> char \<Rightarrow> string \<Rightarrow> string" where
  "pad_start k c s = replicate (k - length s) c @ s"

definition pad_end :: "nat \<Rightarrow> char \<Rightarrow> string \<Rightarrow> string" where
  "pad_end k c s = s @ replicate (k - length s) c"

definition is_space :: "char \<Rightarrow> bool" where
  "is_space c \<longleftrightarrow> (of_char c :: nat) \<in> {9, 10, 11, 12, 13, 32, 160}"

definition trim :: "string \<Rightarrow> string" where
  "trim s = rev (dropWhile is_space (rev (dropWhile is_space s)))"

lemma is_digit_not_space: "is_digit c \<Longrightarrow> \<not> is_space c"
  by (auto simp: is_digit_def is_space_def)

lemma trim_id: "s = [] \<or> \<not> is_space (hd s) \<and> \<not> is_space (last s) \<Longrightarrow> trim s = s"
proof (cases "s = []")
  case False
  assume "s = [] \<or> \<not> is_space (hd s) \<and> \<not> is_space (last s)"
  moreover have id: "xs \<noteq> [] \<Longrightarrow> \<not> is_space (hd xs) \<Longrightarrow> dropWhile is_space xs = xs" for xs
    by (cases xs) auto
  ultimately show ?thesis
    using False by (simp add: trim_def id hd_rev)
qed (simp add: trim_def)

lemma length_pad_start [simp]: "length (pad_start k c s) = max k (length s)"
  by (simp add: pad_start_def)

lemma length_pad_end [simp]: "length (pad_end k c s) = max k (length s)"
  by (simp add: pad_end_def)

lemma digits_pad_start [simp]:
  "list_all is_digit s \<Longrightarrow> list_all is_digit (pad_start k (CHR ''0'') s)"
  by (auto simp: pad_start_def is_digit_def list_all_iff)

lemma digits_pad_end [simp]:
  "list_all is_digit s \<Longrightarrow> list_all is_digit (pad_end k (CHR ''0'') s)"
  by (auto simp: pad_end_def is_digit_def list_all_iff)

lemma nat_of_digits_pad_start [simp]:
  "nat_of_digits (pad_start k (CHR ''0'') s) = nat_of_digits s"
  by (simp add: pad_start_def nat_of_digits_pad)

text \<open>Splitting a string at the first character that is not a digit.\<close>

lemma takeWhile_digits_append:
  "list_all is_digit ds \<Longrightarrow> \<not> is_digit c \<Longrightarrow>
     takeWhile is_digit (ds @ c # rest) = ds \<and> dropWhile is_digit (ds @ c # rest) = c # rest"
  by (induction ds) auto

text \<open>
  The regular expression \<open>^(\d+)(?:\.(\d+))?$\<close>, with its two groups. A bounded
  repetition in the second group is a test of the length of what it matched.
\<close>

definition match_decimal :: "string \<Rightarrow> (string \<times> string option) option" where
  "match_decimal v =
     (let whole = takeWhile is_digit v
      in if whole = [] then None
         else (case dropWhile is_digit v of
                 [] \<Rightarrow> Some (whole, None)
               | c # frac \<Rightarrow>
                   if c = CHR ''.'' \<and> frac \<noteq> [] \<and> list_all is_digit frac
                   then Some (whole, Some frac) else None))"

lemma not_digit_dot [simp]: "\<not> is_digit (CHR ''.'')" "\<not> is_digit (CHR ''-'')"
  by (simp_all add: is_digit_def)

lemma match_decimal_whole:
  "ds \<noteq> [] \<Longrightarrow> list_all is_digit ds \<Longrightarrow> match_decimal ds = Some (ds, None)"
  by (simp add: match_decimal_def list_all_iff takeWhile_eq_all_conv [THEN iffD2]
      dropWhile_eq_Nil_conv [THEN iffD2])

lemma match_decimal_point:
  assumes "ds \<noteq> []" and "list_all is_digit ds" and "fs \<noteq> []" and "list_all is_digit fs"
  shows "match_decimal (ds @ CHR ''.'' # fs) = Some (ds, Some fs)"
  using assms takeWhile_digits_append [of ds "CHR ''.''" fs] by (simp add: match_decimal_def)

lemma match_decimal_SomeD:
  assumes "match_decimal v = Some (w, f)"
  shows "w \<noteq> []" and "list_all is_digit w"
    and "f = None \<Longrightarrow> v = w"
    and "f = Some fs \<Longrightarrow> v = w @ CHR ''.'' # fs \<and> fs \<noteq> [] \<and> list_all is_digit fs"
proof -
  have v: "dropWhile is_digit v = r \<Longrightarrow> v = takeWhile is_digit v @ r" for r
    by (metis takeWhile_dropWhile_id)
  have "list_all is_digit (takeWhile is_digit v)" by (auto simp: list_all_iff dest: set_takeWhileD)
  then show "w \<noteq> []" and "list_all is_digit w"
    using assms by (auto simp: match_decimal_def Let_def split: if_splits list.splits)
  have "dropWhile is_digit v = [] \<Longrightarrow> v = takeWhile is_digit v"
    using v [of "[]"] by simp
  then show "f = None \<Longrightarrow> v = w"
    using assms by (auto simp: match_decimal_def Let_def simp del: dropWhile_eq_Nil_conv
        split: if_splits list.splits)
  show "f = Some fs \<Longrightarrow> v = w @ CHR ''.'' # fs \<and> fs \<noteq> [] \<and> list_all is_digit fs"
    using assms v [of "CHR ''.'' # fs"]
    by (auto simp: match_decimal_def Let_def split: if_splits list.splits)
qed

text \<open>\<open>BigInt(s)\<close> of a string: blanks are trimmed, the empty text is zero, a decimal may be signed.\<close>

fun digit_in_base :: "nat \<Rightarrow> char \<Rightarrow> nat option" where
  "digit_in_base b c =
     (let k = of_char c :: nat;
          d = (if 48 \<le> k \<and> k \<le> 57 then k - 48
               else if 97 \<le> k \<and> k \<le> 122 then k - 87
               else if 65 \<le> k \<and> k \<le> 90 then k - 55 else 36)
      in if d < b then Some d else None)"

fun digits_in_base :: "nat \<Rightarrow> nat \<Rightarrow> string \<Rightarrow> nat option" where
  "digits_in_base b acc [] = Some acc"
| "digits_in_base b acc (c # cs) =
     (case digit_in_base b c of None \<Rightarrow> None | Some d \<Rightarrow> digits_in_base b (acc * b + d) cs)"

definition based_numeral :: "nat \<Rightarrow> string \<Rightarrow> int option" where
  "based_numeral b ds = (if ds = [] then None else map_option int (digits_in_base b 0 ds))"

definition decimal_numeral :: "string \<Rightarrow> int option" where
  "decimal_numeral ds =
     (if ds \<noteq> [] \<and> list_all is_digit ds then Some (int (nat_of_digits ds)) else None)"

fun string_to_bigint :: "string \<Rightarrow> int option" where
  "string_to_bigint [] = Some 0"
| "string_to_bigint (c # cs) =
     (if c = CHR ''0'' \<and> cs \<noteq> [] \<and> hd cs \<in> {CHR ''x'', CHR ''X''} then based_numeral 16 (tl cs)
      else if c = CHR ''0'' \<and> cs \<noteq> [] \<and> hd cs \<in> {CHR ''o'', CHR ''O''} then based_numeral 8 (tl cs)
      else if c = CHR ''0'' \<and> cs \<noteq> [] \<and> hd cs \<in> {CHR ''b'', CHR ''B''} then based_numeral 2 (tl cs)
      else if c = CHR ''-'' then map_option uminus (decimal_numeral cs)
      else if c = CHR ''+'' then decimal_numeral cs
      else decimal_numeral (c # cs))"

definition bigint_of_string :: "string \<Rightarrow> js_error + int" where
  "bigint_of_string s =
     (case string_to_bigint (trim s) of
        Some n \<Rightarrow> Inr n
      | None \<Rightarrow> Inl (SyntaxError (''Cannot convert '' @ s @ '' to a BigInt'')))"

lemma trim_digits: "list_all is_digit ds \<Longrightarrow> trim ds = ds"
  by (rule trim_id) (auto simp: list_all_iff is_digit_not_space intro: hd_in_set last_in_set)

lemma bigint_of_digits:
  assumes "list_all is_digit ds"
  shows "bigint_of_string ds = Inr (int (nat_of_digits ds))"
proof (cases ds)
  case (Cons c cs)
  have "is_digit c" and h: "cs \<noteq> [] \<Longrightarrow> is_digit (hd cs)" using assms Cons by (cases cs; simp)+
  then have "c \<noteq> CHR ''-''" and "c \<noteq> CHR ''+''" and
    "cs \<noteq> [] \<Longrightarrow> hd cs \<notin> {CHR ''x'', CHR ''X'', CHR ''o'', CHR ''O'', CHR ''b'', CHR ''B''}"
    by (auto simp: is_digit_def)
  then have "string_to_bigint ds = decimal_numeral ds" using Cons by auto
  then show ?thesis
    using assms Cons unfolding bigint_of_string_def trim_digits [OF assms]
    by (simp add: decimal_numeral_def del: string_to_bigint.simps)
qed (simp add: bigint_of_string_def trim_def)

text \<open>What the simplifier needs to evaluate conversions of concrete texts.\<close>

lemmas string_eval = digits_of_nat.simps int_to_string_def pad_start_def pad_end_def trim_def
  is_space_def is_digit_def nat_of_digits_def digit_val_def bigint_of_string_def
  decimal_numeral_def match_decimal_def

section \<open>Stable sorting with a comparator\<close>

text \<open>
  \<open>Array.prototype.sort\<close> is stable: for a comparator that is a total preorder its result is the
  one stable sorted permutation, which insertion from the right computes.
\<close>

fun insort_cmp :: "('a \<Rightarrow> 'a \<Rightarrow> int) \<Rightarrow> 'a \<Rightarrow> 'a list \<Rightarrow> 'a list" where
  "insort_cmp cmp x [] = [x]"
| "insort_cmp cmp x (y # ys) = (if cmp x y \<le> 0 then x # y # ys else y # insort_cmp cmp x ys)"

definition sort_cmp :: "('a \<Rightarrow> 'a \<Rightarrow> int) \<Rightarrow> 'a list \<Rightarrow> 'a list" where
  "sort_cmp cmp xs = foldr (insort_cmp cmp) xs []"

lemma mset_insort_cmp [simp]: "mset (insort_cmp cmp x xs) = add_mset x (mset xs)"
  by (induction xs) auto

lemma sort_cmp_simps [simp]:
  "sort_cmp cmp [] = []" "sort_cmp cmp (x # xs) = insort_cmp cmp x (sort_cmp cmp xs)"
  by (simp_all add: sort_cmp_def)

lemma mset_sort_cmp [simp]: "mset (sort_cmp cmp xs) = mset xs"
  by (induction xs) auto

lemma set_sort_cmp [simp]: "set (sort_cmp cmp xs) = set xs"
  by (metis mset_sort_cmp set_mset_mset)

lemma length_sort_cmp [simp]: "length (sort_cmp cmp xs) = length xs"
  by (metis mset_sort_cmp size_mset)

lemma set_insort_cmp [simp]: "set (insort_cmp cmp x xs) = insert x (set xs)"
  by (metis mset_insort_cmp set_mset_add_mset_insert set_mset_mset)

lemma sorted_insort_cmp:
  assumes total: "\<And>a b. cmp a b \<le> 0 \<or> cmp b a \<le> 0"
    and trans: "\<And>a b c. cmp a b \<le> 0 \<Longrightarrow> cmp b c \<le> 0 \<Longrightarrow> cmp a c \<le> 0"
    and "sorted_wrt (\<lambda>a b. cmp a b \<le> 0) xs"
  shows "sorted_wrt (\<lambda>a b. cmp a b \<le> 0) (insort_cmp cmp x xs)"
  using assms(3)
proof (induction xs)
  case (Cons y ys)
  show ?case
  proof (cases "cmp x y \<le> 0")
    case True
    with Cons.prems show ?thesis by (auto intro: trans)
  next
    case False
    then have "cmp y x \<le> 0" using total by blast
    with False Cons show ?thesis by simp
  qed
qed simp

lemma sorted_sort_cmp:
  assumes "\<And>a b. cmp a b \<le> 0 \<or> cmp b a \<le> 0"
    and "\<And>a b c. cmp a b \<le> 0 \<Longrightarrow> cmp b c \<le> 0 \<Longrightarrow> cmp a c \<le> 0"
  shows "sorted_wrt (\<lambda>a b. cmp a b \<le> 0) (sort_cmp cmp xs)"
  by (induction xs) (simp_all add: sorted_insort_cmp [OF assms])

lemma sort_cmp_sorted: "sorted_wrt (\<lambda>a b. cmp a b \<le> 0) xs \<Longrightarrow> sort_cmp cmp xs = xs"
proof (induction xs)
  case (Cons x xs)
  then show ?case by (cases xs) simp_all
qed simp

section \<open>Strings: the default order, join and split\<close>

text \<open>The order of \<open><\<close> on strings and of \<open>Array.prototype.sort\<close> without a comparator: by code units.\<close>

fun str_cmp :: "string \<Rightarrow> string \<Rightarrow> int" where
  "str_cmp [] [] = 0"
| "str_cmp [] (_ # _) = - 1"
| "str_cmp (_ # _) [] = 1"
| "str_cmp (a # as) (b # bs) =
     (if (of_char a :: nat) < of_char b then - 1 else if (of_char b :: nat) < of_char a then 1
      else str_cmp as bs)"

lemma of_char_eq_iff_nat: "(of_char a :: nat) = of_char b \<longleftrightarrow> a = b"
  by (metis char_of_char)

lemma str_cmp_eq_iff: "str_cmp a b = 0 \<longleftrightarrow> a = b"
proof (induction a b rule: str_cmp.induct)
  case (4 a as b bs)
  then show ?case using of_char_eq_iff_nat [of a b] by auto
qed simp_all

lemma str_cmp_refl [simp]: "str_cmp a a = 0"
  by (simp add: str_cmp_eq_iff)

lemma str_cmp_swap: "str_cmp b a = - str_cmp a b"
  by (induction a b rule: str_cmp.induct) simp_all

lemma str_cmp_total: "str_cmp a b \<le> 0 \<or> str_cmp b a \<le> 0"
  using str_cmp_swap [of a b] by linarith

lemma str_cmp_trans: "str_cmp a b \<le> 0 \<Longrightarrow> str_cmp b c \<le> 0 \<Longrightarrow> str_cmp a c \<le> 0"
proof (induction a c arbitrary: b rule: str_cmp.induct)
  case (3 a as)
  then show ?case by (cases b) auto
next
  case (4 a as c cs)
  then show ?case by (cases b) (auto split: if_splits)
qed simp_all

definition sort_strings :: "string list \<Rightarrow> string list" where
  "sort_strings = sort_cmp str_cmp"

lemma set_sort_strings [simp]: "set (sort_strings xs) = set xs"
  by (simp add: sort_strings_def)

lemma sort_strings_idem [simp]: "sort_strings (sort_strings xs) = sort_strings xs"
  unfolding sort_strings_def
  by (intro sort_cmp_sorted sorted_sort_cmp str_cmp_total) (rule str_cmp_trans)

text \<open>\<open>toLowerCase\<close> on Latin-1 letters.\<close>

definition lower_char :: "char \<Rightarrow> char" where
  "lower_char c =
     (let n = (of_char c :: nat)
      in if 65 \<le> n \<and> n \<le> 90 \<or> 192 \<le> n \<and> n \<le> 222 \<and> n \<noteq> 215 then char_of (n + 32) else c)"

definition to_lower :: "string \<Rightarrow> string" where
  "to_lower s = map lower_char s"

fun join_with :: "string \<Rightarrow> string list \<Rightarrow> string" where
  "join_with sep [] = []"
| "join_with sep [x] = x"
| "join_with sep (x # y # ys) = x @ sep @ join_with sep (y # ys)"

fun split_on :: "char \<Rightarrow> string \<Rightarrow> string list" where
  "split_on c [] = [[]]"
| "split_on c (x # xs) =
     (if x = c then [] # split_on c xs
      else case split_on c xs of [] \<Rightarrow> [[x]] | y # ys \<Rightarrow> (x # y) # ys)"

lemma split_on_plain: "c \<notin> set xs \<Longrightarrow> split_on c xs = [xs]"
  by (induction xs) auto

lemma split_on_append: "c \<notin> set xs \<Longrightarrow> split_on c (xs @ c # ys) = xs # split_on c ys"
  by (induction xs) auto

lemma split_join: "xs \<noteq> [] \<Longrightarrow> \<forall>x \<in> set xs. c \<notin> set x \<Longrightarrow> split_on c (join_with [c] xs) = xs"
  by (induction "[c]" xs rule: join_with.induct) (simp_all add: split_on_plain split_on_append)

lemma split_on_parts: "\<forall>p \<in> set (split_on c s). c \<notin> set p"
  by (induction s) (auto split: list.splits)

lemma split_on_not_Nil [simp]: "split_on c s \<noteq> []"
  by (cases s) (auto split: list.splits)

lemma join_split: "join_with [c] (split_on c s) = s"
proof (induction s)
  case (Cons x s)
  obtain y ys where y: "split_on c s = y # ys" by (meson neq_Nil_conv split_on_not_Nil)
  then show ?case using Cons by (cases ys) auto
qed simp

section \<open>Insertion-ordered maps and sets\<close>

type_synonym ('k, 'v) jmap = "('k \<times> 'v) list"

fun jm_get :: "('k, 'v) jmap \<Rightarrow> 'k \<Rightarrow> 'v option" where
  "jm_get [] k = None"
| "jm_get ((k', v) # m) k = (if k' = k then Some v else jm_get m k)"

text \<open>\<open>Map.prototype.set\<close>: a present key keeps its position, a new key goes last.\<close>

fun jm_set :: "('k, 'v) jmap \<Rightarrow> 'k \<Rightarrow> 'v \<Rightarrow> ('k, 'v) jmap" where
  "jm_set [] k v = [(k, v)]"
| "jm_set ((k', v') # m) k v = (if k' = k then (k, v) # m else (k', v') # jm_set m k v)"

definition jm_delete :: "('k, 'v) jmap \<Rightarrow> 'k \<Rightarrow> ('k, 'v) jmap" where
  "jm_delete m k = filter (\<lambda>e. fst e \<noteq> k) m"

definition jm_has :: "('k, 'v) jmap \<Rightarrow> 'k \<Rightarrow> bool" where
  "jm_has m k \<longleftrightarrow> jm_get m k \<noteq> None"

definition jm_ok :: "('k, 'v) jmap \<Rightarrow> bool" where
  "jm_ok m \<longleftrightarrow> distinct (map fst m)"

lemma jm_get_map_of: "jm_get m k = map_of m k"
  by (induction m) auto

lemma jm_get_set [simp]: "jm_get (jm_set m k v) k' = (if k' = k then Some v else jm_get m k')"
  by (induction m) auto

lemma jm_get_delete [simp]: "jm_get (jm_delete m k) k' = (if k' = k then None else jm_get m k')"
  by (induction m) (auto simp: jm_delete_def)

lemma jm_get_None_iff: "jm_get m k = None \<longleftrightarrow> k \<notin> fst ` set m"
  by (simp add: jm_get_map_of map_of_eq_None_iff)

lemma jm_get_Some_in: "jm_get m k = Some v \<Longrightarrow> (k, v) \<in> set m"
  by (induction m) (auto split: if_splits)

lemma jm_get_in: "jm_ok m \<Longrightarrow> (k, v) \<in> set m \<Longrightarrow> jm_get m k = Some v"
  by (simp add: jm_ok_def jm_get_map_of)

lemma jm_has_iff [simp]: "jm_has m k \<longleftrightarrow> k \<in> fst ` set m"
  by (simp add: jm_has_def jm_get_None_iff)

lemma keys_jm_set: "map fst (jm_set m k v) = (if k \<in> fst ` set m then map fst m else map fst m @ [k])"
  by (induction m k v rule: jm_set.induct) auto

lemma set_keys_jm_set [simp]: "fst ` set (jm_set m k v) = insert k (fst ` set m)"
  by (induction m k v rule: jm_set.induct) auto

lemma jm_ok_Nil [simp]: "jm_ok []"
  by (simp add: jm_ok_def)

lemma jm_ok_set [simp]: "jm_ok m \<Longrightarrow> jm_ok (jm_set m k v)"
  by (auto simp: jm_ok_def keys_jm_set)

lemma jm_ok_filter [simp]: "jm_ok m \<Longrightarrow> jm_ok (filter P m)"
  by (simp add: jm_ok_def distinct_map_filter)

lemma jm_ok_delete [simp]: "jm_ok m \<Longrightarrow> jm_ok (jm_delete m k)"
  by (simp add: jm_delete_def)

lemma length_jm_delete: "length (jm_delete m k) \<le> length m"
  by (simp add: jm_delete_def)

lemma jm_set_fresh: "k \<notin> fst ` set m \<Longrightarrow> jm_set m k v = m @ [(k, v)]"
  by (induction m k v rule: jm_set.induct) auto

lemma filter_jm_delete:
  "jm_ok m \<Longrightarrow> jm_get m k = Some v \<Longrightarrow>
    length (filter P m) = length (filter P (jm_delete m k)) + (if P (k, v) then 1 else 0)"
proof (induction m)
  case (Cons e m)
  obtain k' v' where e: "e = (k', v')" by (cases e)
  have "jm_delete m k = m" if "k' = k"
    using Cons.prems(1) that e by (auto simp: jm_ok_def jm_delete_def filter_id_conv)
  then show ?case using Cons e by (auto simp: jm_ok_def jm_delete_def)
qed simp

text \<open>The iteration order of \<open>new Set(xs)\<close>: first occurrences.\<close>

fun dedupe :: "'a list \<Rightarrow> 'a list" where
  "dedupe [] = []"
| "dedupe (x # xs) = x # filter (\<lambda>y. y \<noteq> x) (dedupe xs)"

lemma set_dedupe [simp]: "set (dedupe xs) = set xs"
  by (induction xs) auto

lemma distinct_dedupe [simp]: "distinct (dedupe xs)"
  by (induction xs) auto

lemma dedupe_empty_iff [simp]: "dedupe xs = [] \<longleftrightarrow> xs = []"
  by (cases xs) auto

text \<open>\<open>Set.prototype.add\<close>.\<close>

definition js_set_add :: "'a list \<Rightarrow> 'a \<Rightarrow> 'a list" where
  "js_set_add xs x = (if x \<in> set xs then xs else xs @ [x])"

lemma set_js_set_add [simp]: "set (js_set_add xs x) = insert x (set xs)"
  by (auto simp: js_set_add_def)

lemma distinct_js_set_add [simp]: "distinct xs \<Longrightarrow> distinct (js_set_add xs x)"
  by (simp add: js_set_add_def)

section \<open>Sums\<close>

lemma sum_list_filter_split:
  fixes f :: "'a \<Rightarrow> 'b :: comm_monoid_add"
  shows "sum_list (map f xs) = sum_list (map f (filter P xs)) + sum_list (map f (filter (\<lambda>x. \<not> P x) xs))"
  by (induction xs) (simp_all add: add_ac)

lemma sum_list_filter_le:
  "(\<And>x. x \<in> set xs \<Longrightarrow> (0::int) \<le> f x) \<Longrightarrow> sum_list (map f (filter P xs)) \<le> sum_list (map f xs)"
  by (induction xs) (auto simp: add_increasing add_mono)

end
