(* ===== verification/JsNumber.thy ===== *)
theory JsNumber
  imports Complex_Main Prelude
begin

text \<open>
  JavaScript numbers. A finite \<open>number\<close> is a rational (\<open>rat\<close>); every arithmetic operator
  computes the exact rational result and rounds it with \<open>fl\<close>, round to nearest, ties to even,
  to 53 significant bits. Overflow to infinity, subnormals and the sign of zero are outside the
  model: the code's magnitudes stay far from both ends of the exponent range.
  \<open>Number(n)\<close> of a \<open>bigint\<close> is \<open>fl (of_int n)\<close>: exact up to \<open>2 ^ 53\<close> and lossy
  beyond, which is where several of the program's properties need a bound.
\<close>

type_synonym js_num = rat

definition round_half_even :: "rat \<Rightarrow> int" where
  "round_half_even r =
     (let f = \<lfloor>r\<rfloor>; d = r - of_int f
      in if d < 1 / 2 then f else if 1 / 2 < d then f + 1 else if even f then f else f + 1)"

text \<open>The length of a binary numeral.\<close>

function bits :: "int \<Rightarrow> nat" where
  "bits n = (if n \<le> 0 then 0 else Suc (bits (n div 2)))"
  by pat_completeness auto
termination
  by (relation "measure nat") auto

declare bits.simps [simp del]

text \<open>The binary exponent of a positive rational: \<open>2 ^ e \<le> x < 2 ^ (e + 1)\<close>.\<close>

definition rat_exp :: "rat \<Rightarrow> int" where
  "rat_exp x =
     (case quotient_of x of (p, q) \<Rightarrow>
        let k = int (bits p) - int (bits q)
        in if 2 powi k \<le> x then k else k - 1)"

definition fl :: "rat \<Rightarrow> js_num" where
  "fl x = (if x = 0 then 0
           else let u = 2 powi (rat_exp \<bar>x\<bar> - 52) in of_int (round_half_even (x / u)) * u)"

definition js_number :: "int \<Rightarrow> js_num" where
  "js_number n = fl (of_int n)"

text \<open>\<open>Math.round\<close> (ties towards plus infinity) and \<open>Number.isInteger\<close>.\<close>

definition math_round :: "js_num \<Rightarrow> int" where
  "math_round x = \<lfloor>x + 1 / 2\<rfloor>"

definition js_add :: "js_num \<Rightarrow> js_num \<Rightarrow> js_num" where "js_add a b = fl (a + b)"
definition js_sub :: "js_num \<Rightarrow> js_num \<Rightarrow> js_num" where "js_sub a b = fl (a - b)"
definition js_mul :: "js_num \<Rightarrow> js_num \<Rightarrow> js_num" where "js_mul a b = fl (a * b)"
definition js_div :: "js_num \<Rightarrow> js_num \<Rightarrow> js_num" where "js_div a b = fl (a / b)"

lemmas js_ops = js_add_def js_sub_def js_mul_def js_div_def

text \<open>\<open>x.toFixed(d)\<close> below \<open>10 ^ 21\<close>, and \<open>parseInt(s, 10)\<close> (\<open>None\<close> is \<open>NaN\<close>).\<close>

definition to_fixed :: "nat \<Rightarrow> js_num \<Rightarrow> string" where
  "to_fixed d x =
     (let n = \<lfloor>\<bar>x\<bar> * 10 ^ d + 1 / 2\<rfloor>;
          ds = digits_of_nat (nat (n mod 10 ^ d))
      in (if x < 0 then ''-'' else []) @ digits_of_nat (nat (n div 10 ^ d))
         @ (if d = 0 then [] else CHR ''.'' # pad_start d (CHR ''0'') ds))"

definition parse_int :: "string \<Rightarrow> js_num option" where
  "parse_int s =
     (let t = dropWhile is_space s;
          (neg, u) = (case t of [] \<Rightarrow> (False, [])
                      | c # cs \<Rightarrow> if c = CHR ''-'' then (True, cs)
                                 else if c = CHR ''+'' then (False, cs) else (False, t));
          ds = takeWhile is_digit u
      in if ds = [] then None
         else Some ((if neg then - 1 else 1) * js_number (int (nat_of_digits ds))))"

section \<open>Rounding to an integer\<close>

lemma round_half_even_bounds: "\<lfloor>r\<rfloor> \<le> round_half_even r" "round_half_even r \<le> \<lfloor>r\<rfloor> + 1"
  by (simp_all add: round_half_even_def Let_def)

lemma round_half_even_of_int [simp]: "round_half_even (of_int n) = n"
  by (simp add: round_half_even_def)

lemma round_half_even_mono: "r \<le> s \<Longrightarrow> round_half_even r \<le> round_half_even s"
proof (cases "\<lfloor>r\<rfloor> = \<lfloor>s\<rfloor>")
  case True
  assume "r \<le> s"
  with True show ?thesis by (simp add: round_half_even_def Let_def)
next
  case False
  assume "r \<le> s"
  then have "\<lfloor>r\<rfloor> \<le> \<lfloor>s\<rfloor>" by (rule floor_mono)
  with False have "\<lfloor>r\<rfloor> + 1 \<le> \<lfloor>s\<rfloor>" by simp
  with round_half_even_bounds [of r] round_half_even_bounds [of s] show ?thesis by linarith
qed

lemma round_half_even_error: "\<bar>of_int (round_half_even r) - r\<bar> \<le> 1 / 2"
proof -
  have "of_int \<lfloor>r\<rfloor> \<le> r" and "r < of_int \<lfloor>r\<rfloor> + 1" by linarith+
  then show ?thesis
    unfolding round_half_even_def Let_def abs_le_iff by (simp add: not_less) linarith
qed

section \<open>The exponent\<close>

lemma bits_bounds: "0 < n \<Longrightarrow> 0 < bits n \<and> 2 ^ (bits n - 1) \<le> n \<and> n < 2 ^ bits n"
proof (induction n rule: bits.induct)
  case (1 n)
  show ?case
  proof (cases "n div 2 = 0")
    case True
    with "1.prems" have "n = 1" by simp
    then show ?thesis by (simp add: bits.simps)
  next
    case False
    with 1 have IH: "0 < bits (n div 2)" "2 ^ (bits (n div 2) - 1) \<le> n div 2"
      "n div 2 < 2 ^ bits (n div 2)" by auto
    have b: "bits n = Suc (bits (n div 2))" using "1.prems" by (subst bits.simps) simp
    obtain k where k: "bits (n div 2) = Suc k" using IH(1) by (cases "bits (n div 2)") auto
    have "2 * (n div 2) \<le> n" "n < 2 * (n div 2) + 2" by presburger+
    then have "2 * 2 ^ k \<le> n \<and> n < 4 * 2 ^ k" using IH(2,3) unfolding k by simp
    then show ?thesis unfolding b k by simp
  qed
qed

lemma powi_le_iff: "(2::rat) powi a \<le> 2 powi b \<longleftrightarrow> a \<le> b"
  using power_int_increasing [of a b "2::rat"] power_int_strict_increasing [of b a "2::rat"]
  by (metis linorder_not_le one_le_numeral one_less_numeral_iff semiring_norm(76))

lemma powi_less_iff: "(2::rat) powi a < 2 powi b \<longleftrightarrow> a < b"
  by (simp add: powi_le_iff flip: not_le)

lemma rat_exp_bounds:
  assumes "0 < x"
  shows "2 powi rat_exp x \<le> x" and "x < 2 powi (rat_exp x + 1)"
proof -
  obtain p q where pq: "quotient_of x = (p, q)" by (cases "quotient_of x")
  then have x: "x = of_int p / of_int q" and q: "0 < q"
    by (simp_all add: quotient_of_div quotient_of_denom_pos)
  with assms have p: "0 < p" by (simp add: zero_less_divide_iff)
  define a where "a = bits p"
  define b where "b = bits q"
  define k where "k = int a - int b"
  have ab: "0 < a" "0 < b" and P: "p < 2 ^ a" "2 ^ (a - 1) \<le> p" and Q: "q < 2 ^ b" "2 ^ (b - 1) \<le> q"
    using bits_bounds [of p] bits_bounds [of q] p q by (simp_all add: a_def b_def)
  have P': "of_int p < (2::rat) ^ a" "(2::rat) ^ (a - 1) \<le> of_int p"
    using P of_int_less_iff [of p "2 ^ a", where 'a = rat] of_int_le_iff [of "2 ^ (a - 1)" p, where 'a = rat]
    by simp_all
  have Q': "of_int q < (2::rat) ^ b" "(2::rat) ^ (b - 1) \<le> of_int q"
    using Q of_int_less_iff [of q "2 ^ b", where 'a = rat] of_int_le_iff [of "2 ^ (b - 1)" q, where 'a = rat]
    by simp_all
  have up: "x < 2 powi (k + 1)"
  proof -
    have "x < 2 ^ a / of_int q" using P'(1) q by (simp add: x divide_strict_right_mono)
    also have "\<dots> \<le> 2 ^ a / 2 ^ (b - 1)" using Q'(2) q by (intro divide_left_mono) auto
    also have "\<dots> = 2 powi (int a - int (b - 1))" by (simp add: power_int_diff)
    also have "int a - int (b - 1) = k + 1" using ab by (simp add: k_def of_nat_diff)
    finally show ?thesis .
  qed
  have lo: "2 powi (k - 1) \<le> x"
  proof -
    have "k - 1 = int (a - 1) - int b" using ab by (simp add: k_def of_nat_diff)
    then have "(2::rat) powi (k - 1) = 2 ^ (a - 1) / 2 ^ b" by (simp add: power_int_diff)
    also have "\<dots> \<le> of_int p / 2 ^ b" using P'(2) by (simp add: divide_right_mono)
    also have "\<dots> \<le> x" unfolding x using Q'(1) q p by (intro divide_left_mono) auto
    finally show ?thesis .
  qed
  have "rat_exp x = (if 2 powi k \<le> x then k else k - 1)"
    by (simp add: rat_exp_def pq k_def a_def b_def Let_def)
  with up lo show "2 powi rat_exp x \<le> x" and "x < 2 powi (rat_exp x + 1)"
    by (auto split: if_splits)
qed

lemma rat_exp_mono: "0 < x \<Longrightarrow> x \<le> y \<Longrightarrow> rat_exp x \<le> rat_exp y"
proof (rule ccontr)
  assume a: "0 < x" "x \<le> y" "\<not> rat_exp x \<le> rat_exp y"
  have "y < 2 powi (rat_exp y + 1)" using a by (intro rat_exp_bounds) auto
  also have "\<dots> \<le> 2 powi rat_exp x" using a by (simp add: powi_le_iff)
  also have "\<dots> \<le> x" using a by (intro rat_exp_bounds)
  finally show False using a by simp
qed

section \<open>Rounding to a double\<close>

lemma fl_0 [simp]: "fl 0 = 0"
  by (simp add: fl_def)

lemma fl_exact:
  assumes "x = of_int m * 2 powi (rat_exp \<bar>x\<bar> - 52)"
  shows "fl x = x"
proof (cases "x = 0")
  case False
  have "x / 2 powi (rat_exp \<bar>x\<bar> - 52) = of_int m"
    by (subst (1) assms) simp
  with False assms show ?thesis by (simp add: fl_def Let_def)
qed simp

text \<open>Every integer up to \<open>2 ^ 53\<close> is a double.\<close>

lemma fl_of_int:
  assumes "\<bar>n\<bar> \<le> 2 ^ 53"
  shows "fl (of_int n) = of_int n"
proof (cases "n = 0")
  case False
  define e where "e = rat_exp \<bar>of_int n\<bar>"
  have pos: "0 < \<bar>of_int n :: rat\<bar>" using False by simp
  have le53: "\<bar>of_int n :: rat\<bar> \<le> 2 powi 53"
    using assms of_int_le_iff [of "\<bar>n\<bar>" "2 ^ 53", where 'a = rat] by simp
  have "(2::rat) powi e \<le> 2 powi 53"
    using rat_exp_bounds(1) [OF pos] le53 unfolding e_def by (rule order.trans)
  then have e53: "e \<le> 53" by (simp only: powi_le_iff)
  have "\<exists>m. of_int n = of_int m * (2::rat) powi (e - 52)"
  proof (cases "e = 53")
    case True
    have "(2::rat) ^ 53 \<le> \<bar>of_int n\<bar>"
      using rat_exp_bounds(1) [OF pos] True by (simp add: e_def)
    then have "2 ^ 53 \<le> \<bar>n\<bar>"
      using of_int_le_iff [of "2 ^ 53" "\<bar>n\<bar>", where 'a = rat] by simp
    with assms have "n = 2 ^ 53 \<or> n = - (2 ^ 53)" by auto
    then have "of_int n = of_int (sgn n * 2 ^ 52) * (2::rat) powi (e - 52)"
      using True by auto
    then show ?thesis by blast
  next
    case False
    with e53 have "0 \<le> 52 - e" by simp
    then obtain j where j: "52 - e = int j" by (metis nonneg_int_cases)
    then have "e - 52 = - int j" by simp
    then have "of_int n = of_int (n * 2 ^ j) * (2::rat) powi (e - 52)"
      by (simp add: power_int_minus)
    then show ?thesis by blast
  qed
  then show ?thesis using fl_exact [of "of_int n"] by (auto simp: e_def)
qed simp

lemma fl_1 [simp]: "fl 1 = 1"
  using fl_of_int [of 1] by simp

lemma fl_nonneg: "0 \<le> x \<Longrightarrow> 0 \<le> fl x"
proof (cases "x = 0")
  case False
  assume "0 \<le> x"
  then have "(0::rat) \<le> x / 2 powi (rat_exp \<bar>x\<bar> - 52)" by simp
  then have "round_half_even 0 \<le> round_half_even (x / 2 powi (rat_exp \<bar>x\<bar> - 52))"
    by (rule round_half_even_mono)
  then show ?thesis using False by (simp add: fl_def Let_def round_half_even_def)
qed simp

lemma fl_upper_binade: "0 < x \<Longrightarrow> fl x \<le> 2 powi (rat_exp x + 1)"
proof -
  assume x: "0 < x"
  let ?u = "(2::rat) powi (rat_exp x - 52)"
  have u: "2 powi (rat_exp x + 1) = of_int (2 ^ 53) * ?u"
    using power_int_add [of "2::rat" 53 "rat_exp x - 52"] by (simp add: add.commute)
  have "x / ?u \<le> of_int (2 ^ 53)"
    using rat_exp_bounds(2) [OF x] unfolding u by (simp add: divide_le_eq)
  then have "round_half_even (x / ?u) \<le> 2 ^ 53"
    using round_half_even_mono [of "x / ?u" "of_int (2 ^ 53)"] by (simp only: round_half_even_of_int)
  then have "of_int (round_half_even (x / ?u)) * ?u \<le> of_int (2 ^ 53) * ?u"
    by (intro mult_right_mono) (simp_all del: of_int_power)
  then show ?thesis using x u by (simp add: fl_def Let_def)
qed

lemma fl_lower_binade: "0 < x \<Longrightarrow> 2 powi rat_exp x \<le> fl x"
proof -
  assume x: "0 < x"
  let ?u = "(2::rat) powi (rat_exp x - 52)"
  have u: "2 powi rat_exp x = of_int (2 ^ 52) * ?u"
    using power_int_add [of "2::rat" 52 "rat_exp x - 52"] by simp
  have "of_int (2 ^ 52) \<le> x / ?u"
    using rat_exp_bounds(1) [OF x] unfolding u by (simp add: le_divide_eq)
  then have "2 ^ 52 \<le> round_half_even (x / ?u)"
    using round_half_even_mono [of "of_int (2 ^ 52)" "x / ?u"] by (simp only: round_half_even_of_int)
  then have "of_int (2 ^ 52) * ?u \<le> of_int (round_half_even (x / ?u)) * ?u"
    by (intro mult_right_mono) (simp_all del: of_int_power)
  then show ?thesis using x u by (simp add: fl_def Let_def)
qed

lemma fl_mono_nonneg: "0 \<le> x \<Longrightarrow> x \<le> y \<Longrightarrow> fl x \<le> fl y"
proof -
  assume a: "0 \<le> x" "x \<le> y"
  consider "x = 0" | "0 < x" "rat_exp x = rat_exp y" | "0 < x" "rat_exp x < rat_exp y"
    using a rat_exp_mono [of x y] by fastforce
  then show ?thesis
  proof cases
    case 1
    then show ?thesis using a fl_nonneg [of y] by simp
  next
    case 2
    let ?u = "(2::rat) powi (rat_exp x - 52)"
    have "round_half_even (x / ?u) \<le> round_half_even (y / ?u)"
      using a by (intro round_half_even_mono divide_right_mono) auto
    then show ?thesis using 2 a by (simp add: fl_def Let_def mult_right_mono)
  next
    case 3
    have "fl x \<le> 2 powi (rat_exp x + 1)" using 3 by (intro fl_upper_binade)
    also have "\<dots> \<le> 2 powi rat_exp y" using 3 by (simp add: powi_le_iff)
    also have "\<dots> \<le> fl y" using 3 a by (intro fl_lower_binade) simp
    finally show ?thesis .
  qed
qed

text \<open>Rounding never crosses an integer that is a double.\<close>

lemma fl_le_of_int: "0 \<le> x \<Longrightarrow> x \<le> of_int n \<Longrightarrow> n \<le> 2 ^ 53 \<Longrightarrow> fl x \<le> of_int n"
  using fl_mono_nonneg [of x "of_int n"] fl_of_int [of n]
  by (metis abs_of_nonneg of_int_0_le_iff order.trans)

lemma fl_ge_of_int: "0 \<le> n \<Longrightarrow> of_int n \<le> x \<Longrightarrow> n \<le> 2 ^ 53 \<Longrightarrow> of_int n \<le> fl x"
  using fl_mono_nonneg [of "of_int n" x] fl_of_int [of n]
  by (metis abs_of_nonneg of_int_0_le_iff)

text \<open>The relative error of one rounding.\<close>

lemma fl_error:
  assumes "0 \<le> x"
  shows "\<bar>fl x - x\<bar> \<le> x / 2 ^ 53"
proof (cases "x = 0")
  case False
  then have x: "0 < x" using assms by simp
  let ?u = "(2::rat) powi (rat_exp x - 52)"
  have u: "0 < ?u" by simp
  have eq: "fl x - x = (of_int (round_half_even (x / ?u)) - x / ?u) * ?u"
    using x by (simp add: fl_def Let_def left_diff_distrib)
  have "\<bar>fl x - x\<bar> \<le> 1 / 2 * ?u"
    unfolding eq abs_mult using round_half_even_error [of "x / ?u"] by (simp add: mult_right_mono)
  also have "1 / 2 * ?u = 2 powi rat_exp x / 2 ^ 53"
    by (simp add: power_int_diff)
  also have "\<dots> \<le> x / 2 ^ 53" using rat_exp_bounds(1) [OF x] by (simp add: divide_right_mono)
  finally show ?thesis .
qed simp

lemma math_round_near: "\<bar>x - of_int n\<bar> < 1 / 2 \<Longrightarrow> math_round x = n"
  unfolding math_round_def abs_less_iff by (auto simp: floor_eq_iff)

text \<open>Dividing a small integer by a hundred and multiplying back finds it again.\<close>

lemma fl_hundredths:
  assumes "0 \<le> n" "n \<le> 2 ^ 40"
  shows "math_round (js_mul (js_div (of_int n) 100) 100) = n"
proof (rule math_round_near)
  let ?y = "fl (of_int n / 100)"
  have n: "(0::rat) \<le> of_int n" "of_int n \<le> (2::rat) ^ 40"
    using assms of_int_le_iff [of n "2 ^ 40", where 'a = rat] by simp_all
  have y: "\<bar>?y - of_int n / 100\<bar> \<le> of_int n / 100 / 2 ^ 53" and y0: "0 \<le> ?y"
    using n fl_error [of "of_int n / 100"] fl_nonneg [of "of_int n / 100"] by auto
  have z: "\<bar>fl (?y * 100) - ?y * 100\<bar> \<le> ?y * 100 / 2 ^ 53" using y0 by (intro fl_error) simp
  have y2: "?y * 100 \<le> 2 * of_int n" using y n unfolding abs_le_iff by simp
  have "\<bar>?y * 100 - of_int n\<bar> \<le> of_int n / 2 ^ 53" using y unfolding abs_le_iff by simp
  then have "\<bar>fl (?y * 100) - of_int n\<bar> \<le> of_int n / 2 ^ 53 + 2 * of_int n / 2 ^ 53"
    using z y2 unfolding abs_le_iff by simp
  also have "\<dots> < 1 / 2" using n by simp
  finally show "\<bar>js_mul (js_div (of_int n) 100) 100 - of_int n\<bar> < 1 / 2"
    by (simp add: js_ops)
qed

lemma js_number_exact: "\<bar>n\<bar> \<le> 2 ^ 53 \<Longrightarrow> js_number n = of_int n"
  by (simp add: js_number_def fl_of_int)

lemma js_number_mono: "0 \<le> m \<Longrightarrow> m \<le> n \<Longrightarrow> js_number m \<le> js_number n"
  by (simp add: js_number_def fl_mono_nonneg)

lemma math_round_mono: "x \<le> y \<Longrightarrow> math_round x \<le> math_round y"
  by (simp add: math_round_def floor_mono)

lemma math_round_of_int [simp]: "math_round (of_int n) = n"
  by (simp add: math_round_def floor_eq_iff)

text \<open>Beyond \<open>2 ^ 53\<close> the conversion loses the low bit.\<close>

lemma js_number_loses_odd: "js_number (2 ^ 53 + 1) = js_number (2 ^ 53)"
  by code_simp

lemma js_number_57: "js_number (2 ^ 57 + 1) = js_number (2 ^ 57)"
  by code_simp

section \<open>JSON values\<close>

text \<open>A parsed value; of a repeated key the last entry counts. Truthiness is that of the language.\<close>

datatype json = J_null | J_bool bool | J_num js_num | J_str string | J_arr "json list" | J_obj "(string \<times> json) list"

fun field :: "json \<Rightarrow> string \<Rightarrow> json option" where
  "field (J_obj m) k = map_of (rev m) k"
| "field _ k = None"

fun truthy :: "json \<Rightarrow> bool" where
  "truthy J_null = False"
| "truthy (J_bool b) = b"
| "truthy (J_num x) = (x \<noteq> 0)"
| "truthy (J_str s) = (s \<noteq> [])"
| "truthy _ = True"

end
