(* ===== verification/DecimalUtil.thy ===== *)
theory DecimalUtil
  imports Prelude
begin

text \<open>
  \<open>apps/api/src/common/decimal.util.ts\<close>: exact arithmetic on amounts and prices as
  \<open>bigint\<close> values scaled by ten million. \<open>DecimalFormatError\<close> is the error type; its
  constructor keeps the offending text of the message.

  The locale \<open>amount_codec\<close> is the contract between a printer of amounts and the parser that
  reads them back; \<open>exact_amount_codec\<close> adds that the parser never yields a negative amount.
  Both the functions of this file and those of \<open>lp-math.ts\<close> are instances.
\<close>

section \<open>The interface of a fixed-point codec\<close>

locale amount_codec =
  fixes parse :: "string \<Rightarrow> 'e + int"
    and format :: "int \<Rightarrow> string"
  assumes parse_format: "0 \<le> v \<Longrightarrow> parse (format v) = Inr v"
begin

lemma format_inj: "0 \<le> v \<Longrightarrow> 0 \<le> w \<Longrightarrow> format v = format w \<Longrightarrow> v = w"
  by (metis parse_format sum.inject(2))

lemma parse_format_list: "\<forall>v \<in> set vs. 0 \<le> v \<Longrightarrow> map_result parse (map format vs) = Inr vs"
  by (induction vs) (simp_all add: parse_format)

end

locale exact_amount_codec = amount_codec +
  assumes parse_nonneg: "parse s = Inr v \<Longrightarrow> 0 \<le> v"
begin

lemma parse_canonical: "parse s = Inr v \<Longrightarrow> parse (format v) = Inr v"
  by (simp add: parse_nonneg parse_format)

end

section \<open>Model\<close>

definition FIXED_DECIMALS :: nat where
  "FIXED_DECIMALS = 7"

definition FIXED_SCALE :: int where
  "FIXED_SCALE = 10000000"

datatype decimal_error = InvalidDecimal string | DivisionByZero

definition parseFixed :: "string \<Rightarrow> decimal_error + int" where
  "parseFixed value =
     (case match_decimal value of
        None \<Rightarrow> Inl (InvalidDecimal value)
      | Some (whole, None) \<Rightarrow> Inr (int (nat_of_digits whole) * FIXED_SCALE + 0)
      | Some (whole, Some frac) \<Rightarrow>
          if length frac \<le> 7
          then Inr (int (nat_of_digits whole) * FIXED_SCALE
                    + int (nat_of_digits (pad_end FIXED_DECIMALS (CHR ''0'') frac)))
          else Inl (InvalidDecimal value))"

definition formatFixed :: "int \<Rightarrow> string" where
  "formatFixed value =
     (let negative = value < 0;
          abs = (if negative then - value else value);
          whole = abs sdiv FIXED_SCALE;
          fraction = pad_start FIXED_DECIMALS (CHR ''0'') (int_to_string (abs smod FIXED_SCALE))
      in (if negative then ''-'' else []) @ int_to_string whole @ ''.'' @ fraction)"

definition mulFixed :: "int \<Rightarrow> int \<Rightarrow> int" where
  "mulFixed a b = (a * b) sdiv FIXED_SCALE"

definition divFixed :: "int \<Rightarrow> int \<Rightarrow> decimal_error + int" where
  "divFixed a b = (if b = 0 then Inl DivisionByZero else Inr ((a * FIXED_SCALE) sdiv b))"

definition divRound :: "int \<Rightarrow> int \<Rightarrow> decimal_error + int" where
  "divRound numerator denominator =
     (if denominator = 0 then Inl DivisionByZero
      else let negative = (numerator < 0) \<noteq> (denominator < 0);
               n = (if numerator < 0 then - numerator else numerator);
               d = (if denominator < 0 then - denominator else denominator);
               quotient = (2 * n + d) sdiv (2 * d)
           in Inr (if negative then - quotient else quotient))"

section \<open>Printing\<close>

lemma int_to_string_nonneg: "0 \<le> i \<Longrightarrow> int_to_string i = digits_of_nat (nat i)"
  by (simp add: int_to_string_def)

text \<open>The text of a non-negative amount: its whole part, a point and seven digits.\<close>

lemma formatFixed_nonneg:
  assumes "0 \<le> v"
  shows "formatFixed v = digits_of_nat (nat (v div FIXED_SCALE)) @ CHR ''.'' #
           pad_start 7 (CHR ''0'') (digits_of_nat (nat (v mod FIXED_SCALE)))"
  using assms by (simp add: formatFixed_def FIXED_SCALE_def FIXED_DECIMALS_def int_to_string_nonneg)

lemma length_fraction:
  "0 \<le> v \<Longrightarrow> length (pad_start 7 (CHR ''0'') (digits_of_nat (nat (v mod FIXED_SCALE)))) = 7"
proof -
  have "nat (v mod FIXED_SCALE) < 10 ^ 7" by (simp add: FIXED_SCALE_def nat_less_iff)
  then have "length (digits_of_nat (nat (v mod FIXED_SCALE))) \<le> 7"
    by (rule length_digits_of_nat) simp
  then show ?thesis by simp
qed

lemma pad_end_full: "length s = k \<Longrightarrow> pad_end k c s = s"
  by (simp add: pad_end_def)

lemma parseFixed_formatFixed: "0 \<le> v \<Longrightarrow> parseFixed (formatFixed v) = Inr v"
proof -
  assume v: "0 \<le> v"
  let ?w = "digits_of_nat (nat (v div FIXED_SCALE))"
  let ?f = "pad_start 7 (CHR ''0'') (digits_of_nat (nat (v mod FIXED_SCALE)))"
  have len: "length ?f = 7" using v by (rule length_fraction)
  then have "?f \<noteq> []" by (metis list.size(3) zero_neq_numeral)
  then have "match_decimal (formatFixed v) = Some (?w, Some ?f)"
    unfolding formatFixed_nonneg [OF v] by (intro match_decimal_point) simp_all
  then have "parseFixed (formatFixed v) =
      Inr (int (nat_of_digits ?w) * FIXED_SCALE + int (nat_of_digits ?f))"
    by (simp add: parseFixed_def FIXED_DECIMALS_def pad_end_full len del: length_pad_start)
  also have "\<dots> = Inr (v div FIXED_SCALE * FIXED_SCALE + v mod FIXED_SCALE)"
    using v by (simp add: FIXED_SCALE_def pos_imp_zdiv_nonneg_iff)
  finally show ?thesis by simp
qed

lemma parseFixed_nonneg: "parseFixed s = Inr v \<Longrightarrow> 0 \<le> v"
  by (auto simp: parseFixed_def FIXED_SCALE_def split: option.splits if_splits)

interpretation fixed: exact_amount_codec parseFixed formatFixed
  by unfold_locales (simp_all add: parseFixed_formatFixed parseFixed_nonneg)

text \<open>Signs are printed but never read back.\<close>

lemma parseFixed_negative: "v < 0 \<Longrightarrow> parseFixed (formatFixed v) = Inl (InvalidDecimal (formatFixed v))"
  by (simp add: parseFixed_def formatFixed_def Let_def match_decimal_def)

text \<open>A parsed amount is what the text denotes: \<open>whole.frac\<close> times ten million.\<close>

lemma parseFixed_value:
  assumes "ws \<noteq> []" "list_all is_digit ws" "fs \<noteq> []" "list_all is_digit fs" "length fs \<le> 7"
  shows "parseFixed (ws @ CHR ''.'' # fs) =
    Inr (int (nat_of_digits (ws @ fs)) * 10 ^ (7 - length fs))"
proof -
  have seven: "(10::int) ^ length fs * 10 ^ (7 - length fs) = 10000000"
    using assms(5) by (simp flip: power_add)
  have "parseFixed (ws @ CHR ''.'' # fs) = Inr (int (nat_of_digits ws) * 10000000 +
      int (nat_of_digits fs * 10 ^ (7 - length fs)))"
    using assms by (simp add: parseFixed_def match_decimal_point FIXED_DECIMALS_def FIXED_SCALE_def
        pad_end_def nat_of_digits_pad_end)
  also have "\<dots> = Inr (int (nat_of_digits (ws @ fs)) * 10 ^ (7 - length fs))"
    unfolding seven [symmetric] by (simp add: nat_of_digits_append algebra_simps)
  finally show ?thesis .
qed

section \<open>Arithmetic\<close>

lemma mulFixed_bounds:
  assumes "0 \<le> a" "0 \<le> b"
  shows "mulFixed a b * FIXED_SCALE \<le> a * b" and "a * b < (mulFixed a b + 1) * FIXED_SCALE"
  using assms int_div_bounds [of FIXED_SCALE "a * b"] by (simp_all add: mulFixed_def FIXED_SCALE_def)

lemma mulFixed_nonneg: "0 \<le> a \<Longrightarrow> 0 \<le> b \<Longrightarrow> 0 \<le> mulFixed a b"
  by (simp add: mulFixed_def FIXED_SCALE_def pos_imp_zdiv_nonneg_iff)

lemma mulFixed_mono: "0 \<le> a \<Longrightarrow> a \<le> a' \<Longrightarrow> 0 \<le> b \<Longrightarrow> b \<le> b' \<Longrightarrow> mulFixed a b \<le> mulFixed a' b'"
  by (simp add: mulFixed_def FIXED_SCALE_def zdiv_mono1 mult_mono)

lemma divFixed_pos: "0 \<le> a \<Longrightarrow> 0 < b \<Longrightarrow> divFixed a b = Inr (a * FIXED_SCALE div b)"
  by (simp add: divFixed_def FIXED_SCALE_def)

text \<open>Dividing and multiplying back loses less than \<open>b\<close> and never gains.\<close>

lemma div_then_mul:
  assumes "0 \<le> a" "0 < b" "divFixed a b = Inr q"
  shows "mulFixed q b \<le> a"
proof -
  have q: "q = a * FIXED_SCALE div b" using assms by (simp add: divFixed_pos)
  then have "q * b \<le> a * FIXED_SCALE" using assms(2) int_div_bounds by simp
  then have "q * b div FIXED_SCALE \<le> a * FIXED_SCALE div FIXED_SCALE"
    by (intro zdiv_mono1) (simp_all add: FIXED_SCALE_def)
  moreover have "0 \<le> q" using assms by (simp add: q FIXED_SCALE_def pos_imp_zdiv_nonneg_iff)
  ultimately show ?thesis using assms by (simp add: mulFixed_def FIXED_SCALE_def)
qed

lemma divRound_pos:
  "0 \<le> n \<Longrightarrow> 0 < d \<Longrightarrow> divRound n d = Inr ((2 * n + d) div (2 * d))"
  by (simp add: divRound_def)

lemma divRound_abs:
  assumes "d \<noteq> 0"
  shows "divRound n d = Inr ((if (n < 0) \<noteq> (d < 0) then - 1 else 1) *
    ((2 * \<bar>n\<bar> + \<bar>d\<bar>) div (2 * \<bar>d\<bar>)))"
  using assms unfolding divRound_def Let_def abs_if [symmetric] by simp

text \<open>Nearest: the doubled remainder is at most the divisor, and a tie rounds up.\<close>

lemma divRound_nearest:
  assumes "0 \<le> n" "0 < d" "divRound n d = Inr q"
  shows "2 * (q * d) \<le> 2 * n + d" and "2 * n < 2 * (q * d) + d"
proof -
  have "q = (2 * n + d) div (2 * d)" using assms by (simp add: divRound_pos)
  then show "2 * (q * d) \<le> 2 * n + d" and "2 * n < 2 * (q * d) + d"
    using int_div_bounds [of "2 * d" "2 * n + d"] assms(2) by (simp_all add: algebra_simps)
qed

lemma divRound_minus: "divRound (- n) d = map_sum id uminus (divRound n d)"
proof (cases "d = 0")
  case True
  then show ?thesis by (simp add: divRound_def)
next
  case False
  then have "\<bar>d\<bar> div (2 * \<bar>d\<bar>) = 0" by (simp add: div_pos_pos_trivial)
  with False show ?thesis by (cases "n = 0") (auto simp: divRound_abs)
qed

lemma divRound_le: "0 \<le> n \<Longrightarrow> 0 < d \<Longrightarrow> n \<le> k * d \<Longrightarrow> divRound n d = Inr q \<Longrightarrow> q \<le> k"
proof -
  assume a: "0 \<le> n" "0 < d" "n \<le> k * d" "divRound n d = Inr q"
  have "2 * (q * d) \<le> 2 * (k * d) + d" using divRound_nearest [OF a(1,2,4)] a(3) by linarith
  then have "(2 * q) * d < (2 * k + 2) * d" using a(2) by (simp add: algebra_simps)
  then show "q \<le> k" using a(2) by simp
qed

lemma divRound_nonneg: "0 \<le> n \<Longrightarrow> 0 < d \<Longrightarrow> divRound n d = Inr q \<Longrightarrow> 0 \<le> q"
  by (auto simp: divRound_pos pos_imp_zdiv_nonneg_iff)

section \<open>Properties\<close>



text \<open>
  \<open>divRound\<close> returns the integer nearest to the exact quotient, a tie going away from zero,
  for every sign of the operands; it fails exactly on a zero denominator.
\<close>

theorem divRound_correct:
  assumes "d \<noteq> 0"
  shows "\<exists>q. divRound n d = Inr q \<and> 2 * \<bar>n - q * d\<bar> \<le> \<bar>d\<bar>
    \<and> (2 * \<bar>n - q * d\<bar> = \<bar>d\<bar> \<longrightarrow> \<bar>n\<bar> < \<bar>q * d\<bar>)"
proof -
  define s :: int where "s = (if (n < 0) \<noteq> (d < 0) then - 1 else 1)"
  define q where "q = (2 * \<bar>n\<bar> + \<bar>d\<bar>) div (2 * \<bar>d\<bar>)"
  have r: "divRound n d = Inr (s * q)" using assms by (simp add: divRound_abs s_def q_def)
  have "divRound \<bar>n\<bar> \<bar>d\<bar> = Inr q" using assms by (simp add: divRound_pos q_def)
  then have b: "2 * (q * \<bar>d\<bar>) \<le> 2 * \<bar>n\<bar> + \<bar>d\<bar>" "2 * \<bar>n\<bar> < 2 * (q * \<bar>d\<bar>) + \<bar>d\<bar>"
    and q0: "0 \<le> q"
    using divRound_nearest [of "\<bar>n\<bar>" "\<bar>d\<bar>" q] divRound_nonneg [of "\<bar>n\<bar>" "\<bar>d\<bar>" q] assms by simp_all
  have p0: "0 \<le> q * \<bar>d\<bar>" using q0 by simp
  have sd: "s * q * d = (if n < 0 then - (q * \<bar>d\<bar>) else q * \<bar>d\<bar>)" by (auto simp: s_def abs_if)
  have "2 * \<bar>n - s * q * d\<bar> \<le> \<bar>d\<bar> \<and> (2 * \<bar>n - s * q * d\<bar> = \<bar>d\<bar> \<longrightarrow> \<bar>n\<bar> < \<bar>s * q * d\<bar>)"
    using b p0 assms unfolding sd by (auto simp: abs_if split: if_splits)
  with r show ?thesis by blast
qed

theorem divRound_correct_witness:
  "\<exists>q. divRound (- 25) 2 = Inr q \<and> 2 * \<bar>- 25 - q * 2\<bar> \<le> \<bar>2\<bar>
    \<and> (2 * \<bar>- 25 - q * 2\<bar> = \<bar>2\<bar> \<longrightarrow> \<bar>- 25\<bar> < \<bar>q * 2\<bar>)"
  by (rule divRound_correct) simp

end
