(* ===== verification/LpMath.thy ===== *)
theory LpMath
  imports Prelude JsNumber DecimalUtil
begin

text \<open>
  \<open>apps/api/src/modules/simulator/lp-math.ts\<close>: quotes for constant-product liquidity pools on
  \<open>bigint\<close> stroops. A thrown \<open>RangeError\<close> is \<open>Inl\<close>; the division operator of
  \<open>bigint\<close> throws on a zero divisor (\<open>bigint_div\<close>), which the code reaches for pools whose
  price rounds to zero. The Newton loop of \<open>isqrt\<close> runs on naturals: its guard has already
  excluded negative inputs and no step subtracts.
\<close>

section \<open>Model\<close>

definition STROOP :: int where
  "STROOP = 10000000"

definition FEE_DENOMINATOR :: int where
  "FEE_DENOMINATOR = 10000"

definition toStroops :: "string \<Rightarrow> js_error + int" where
  "toStroops decimal =
     (let trimmed = trim decimal
      in if CHR ''.'' \<notin> set trimmed
         then and_then (bigint_of_string trimmed) (\<lambda>n. Inr (n * STROOP))
         else let intPart = takeWhile (\<lambda>c. c \<noteq> CHR ''.'') trimmed;
                  fracPart = pad_end 7 (CHR ''0'')
                    (take 7 (tl (dropWhile (\<lambda>c. c \<noteq> CHR ''.'') trimmed)))
              in and_then (bigint_of_string intPart) (\<lambda>i.
                 and_then (bigint_of_string fracPart) (\<lambda>f. Inr (i * STROOP + f))))"

definition fromStroops :: "int \<Rightarrow> string" where
  "fromStroops stroops =
     (let abs = (if stroops < 0 then - stroops else stroops);
          sign = (if stroops < 0 then ''-'' else []);
          intPart = abs sdiv STROOP;
          fracPart = pad_start 7 (CHR ''0'') (int_to_string (abs smod STROOP))
      in sign @ int_to_string intPart @ ''.'' @ fracPart)"

text \<open>The loop \<open>while (y < x) { x = y; y = (x + n / x) / 2n; }\<close>.\<close>

function isqrt_loop :: "nat \<Rightarrow> nat \<Rightarrow> nat \<Rightarrow> js_error + nat" where
  "isqrt_loop n x y =
     (if y < x
      then if y = 0 then Inl (RangeError ''Division by zero'')
           else isqrt_loop n y ((y + n div y) div 2)
      else Inr x)"
  by pat_completeness auto
termination
  by (relation "measure (\<lambda>(n, x, y). x)") auto

declare isqrt_loop.simps [simp del]

definition isqrt :: "int \<Rightarrow> js_error + int" where
  "isqrt n =
     (if n < 0 then Inl (RangeError ''isqrt: negative input'')
      else if n = 0 then Inr 0
      else and_then (isqrt_loop (nat n) (nat n) ((nat n + 1) div 2)) (\<lambda>x. Inr (int x)))"

record deposit_input =
  di_reserveA :: int
  di_reserveB :: int
  di_totalShares :: int
  di_depositA :: "int option"
  di_depositB :: "int option"

record deposit_result =
  dr_depositA :: int
  dr_depositB :: int
  dr_sharesOut :: int
  dr_spotPriceAperB :: int
  dr_spotPriceBperA :: int
  dr_priceImpactPpm :: int

text \<open>The two sides of a deposit, from whichever one the caller fixed.\<close>

definition deposit_sides :: "deposit_input \<Rightarrow> js_error + (int \<times> int)" where
  "deposit_sides i =
     (case (di_depositA i, di_depositB i) of
        (Some depositA, None) \<Rightarrow>
          if depositA \<le> 0 then Inl (RangeError ''quoteDeposit: depositA must be positive'')
          else let depositB = (depositA * di_reserveB i) sdiv di_reserveA i
               in Inr (depositA, if depositB = 0 then 1 else depositB)
      | (None, Some depositB) \<Rightarrow>
          if depositB \<le> 0 then Inl (RangeError ''quoteDeposit: depositB must be positive'')
          else let depositA = (depositB * di_reserveA i) sdiv di_reserveB i
               in Inr (if depositA = 0 then 1 else depositA, depositB)
      | _ \<Rightarrow> Inl (RangeError ''quoteDeposit: supply exactly one of depositA or depositB''))"

definition deposit_shares :: "deposit_input \<Rightarrow> int \<Rightarrow> int \<Rightarrow> js_error + int" where
  "deposit_shares i depositA depositB =
     (if di_totalShares i = 0 then isqrt (depositA * depositB)
      else let sharesFromA = (depositA * di_totalShares i) sdiv di_reserveA i;
               sharesFromB = (depositB * di_totalShares i) sdiv di_reserveB i
           in Inr (if sharesFromA < sharesFromB then sharesFromA else sharesFromB))"

definition quoteDeposit :: "deposit_input \<Rightarrow> js_error + deposit_result" where
  "quoteDeposit i =
     and_then (throw_if (di_reserveA i \<le> 0 \<or> di_reserveB i \<le> 0)
       (RangeError ''quoteDeposit: pool reserves must be positive'')) (\<lambda>_.
     and_then (deposit_sides i) (\<lambda>(depositA, depositB).
     and_then (deposit_shares i depositA depositB) (\<lambda>sharesOut.
     and_then (throw_if (sharesOut = 0)
       (RangeError ''quoteDeposit: deposit too small - would mint zero shares'')) (\<lambda>_.
     and_then (bigint_div (di_reserveA i * STROOP) (di_reserveB i)) (\<lambda>spotPriceAperB.
     and_then (bigint_div (di_reserveB i * STROOP) (di_reserveA i)) (\<lambda>spotPriceBperA.
     and_then (bigint_div (depositA * STROOP) depositB) (\<lambda>depositRatio.
     and_then (bigint_div (di_reserveA i * STROOP) (di_reserveB i)) (\<lambda>poolRatio.
     let diff = (if depositRatio > poolRatio then depositRatio - poolRatio
                 else poolRatio - depositRatio)
     in and_then (bigint_div (diff * 1000000) poolRatio) (\<lambda>priceImpactPpm.
     Inr \<lparr>dr_depositA = depositA, dr_depositB = depositB, dr_sharesOut = sharesOut,
          dr_spotPriceAperB = spotPriceAperB, dr_spotPriceBperA = spotPriceBperA,
          dr_priceImpactPpm = priceImpactPpm\<rparr>)))))))))"

record withdrawal_input =
  wi_reserveA :: int
  wi_reserveB :: int
  wi_totalShares :: int
  wi_sharesToBurn :: "int option"
  wi_desiredA :: "int option"

record withdrawal_result =
  wr_sharesToBurn :: int
  wr_reserveAOut :: int
  wr_reserveBOut :: int
  wr_spotPriceAperB :: int
  wr_spotPriceBperA :: int
  wr_priceImpactPpm :: int

definition withdrawal_shares :: "withdrawal_input \<Rightarrow> js_error + int" where
  "withdrawal_shares i =
     (case (wi_sharesToBurn i, wi_desiredA i) of
        (Some sharesToBurn, None) \<Rightarrow>
          if sharesToBurn \<le> 0 then Inl (RangeError ''quoteWithdrawal: sharesToBurn must be positive'')
          else if sharesToBurn > wi_totalShares i
          then Inl (RangeError ''quoteWithdrawal: sharesToBurn exceeds totalShares'')
          else Inr sharesToBurn
      | (None, Some desiredA) \<Rightarrow>
          if desiredA \<le> 0 then Inl (RangeError ''quoteWithdrawal: desiredA must be positive'')
          else if desiredA > wi_reserveA i
          then Inl (RangeError ''quoteWithdrawal: desiredA exceeds pool reserves'')
          else let sharesToBurn = (desiredA * wi_totalShares i + wi_reserveA i - 1) sdiv wi_reserveA i
               in Inr (if sharesToBurn > wi_totalShares i then wi_totalShares i else sharesToBurn)
      | _ \<Rightarrow> Inl (RangeError ''quoteWithdrawal: supply exactly one of sharesToBurn or desiredA''))"

definition withdrawal_impact :: "int \<Rightarrow> int \<Rightarrow> int \<Rightarrow> js_error + int" where
  "withdrawal_impact newReserveA newReserveB spotPriceAperB =
     (if newReserveA > 0 \<and> newReserveB > 0
      then and_then (bigint_div (newReserveA * STROOP) newReserveB) (\<lambda>newSpot.
           let diff = (if newSpot > spotPriceAperB then newSpot - spotPriceAperB
                       else spotPriceAperB - newSpot)
           in bigint_div (diff * 1000000) spotPriceAperB)
      else Inr 0)"

definition quoteWithdrawal :: "withdrawal_input \<Rightarrow> js_error + withdrawal_result" where
  "quoteWithdrawal i =
     and_then (throw_if (wi_totalShares i \<le> 0)
       (RangeError ''quoteWithdrawal: pool has no shares (empty pool)'')) (\<lambda>_.
     and_then (throw_if (wi_reserveA i \<le> 0 \<or> wi_reserveB i \<le> 0)
       (RangeError ''quoteWithdrawal: pool reserves must be positive'')) (\<lambda>_.
     and_then (withdrawal_shares i) (\<lambda>sharesToBurn.
     let reserveAOut = (sharesToBurn * wi_reserveA i) sdiv wi_totalShares i;
         reserveBOut = (sharesToBurn * wi_reserveB i) sdiv wi_totalShares i
     in and_then (throw_if (reserveAOut = 0 \<and> reserveBOut = 0)
          (RangeError ''quoteWithdrawal: shares too small - would release zero reserves'')) (\<lambda>_.
        and_then (bigint_div (wi_reserveA i * STROOP) (wi_reserveB i)) (\<lambda>spotPriceAperB.
        and_then (bigint_div (wi_reserveB i * STROOP) (wi_reserveA i)) (\<lambda>spotPriceBperA.
        and_then (withdrawal_impact (wi_reserveA i - reserveAOut) (wi_reserveB i - reserveBOut)
                    spotPriceAperB) (\<lambda>priceImpactPpm.
        Inr \<lparr>wr_sharesToBurn = sharesToBurn, wr_reserveAOut = reserveAOut,
             wr_reserveBOut = reserveBOut, wr_spotPriceAperB = spotPriceAperB,
             wr_spotPriceBperA = spotPriceBperA, wr_priceImpactPpm = priceImpactPpm\<rparr>)))))))"

definition formatPoolFee :: "js_num \<Rightarrow> string" where
  "formatPoolFee feeInt = (let bps = js_div feeInt 100 in to_fixed 2 bps @ ''%'')"

text \<open>Horizon's \<open>fee_bp\<close> arrives as a string or a (finite) number.\<close>

datatype str_or_num = JsStr string | JsNum js_num

definition parseHorizonFee :: "str_or_num \<Rightarrow> js_error + js_num" where
  "parseHorizonFee feeBp =
     (let n = (case feeBp of JsStr s \<Rightarrow> parse_int s | JsNum x \<Rightarrow> Some x)
      in case n of
           None \<Rightarrow> Inl (RangeError ''parseHorizonFee: invalid fee value'')
         | Some x \<Rightarrow> if x < 0 then Inl (RangeError ''parseHorizonFee: invalid fee value'') else Inr x)"

definition feeNumerator :: "js_num \<Rightarrow> js_error + int" where
  "feeNumerator feeInt =
     (if of_int \<lfloor>feeInt\<rfloor> = feeInt then Inr \<lfloor>feeInt\<rfloor>
      else Inl (RangeError ''The number cannot be converted to a BigInt because it is not an integer''))"

text \<open>\<open>BigInt(Math.round((1 - slippagePct / 100) * 1_000_000))\<close>.\<close>

definition slippage_multiplier :: "js_num \<Rightarrow> int" where
  "slippage_multiplier slippagePct =
     math_round (js_mul (js_sub 1 (js_div slippagePct 100)) 1000000)"

definition depositMinShares :: "int \<Rightarrow> js_num \<Rightarrow> js_error + int" where
  "depositMinShares sharesOut slippagePct =
     (if slippagePct < 0 \<or> slippagePct > 100
      then Inl (RangeError ''depositMinShares: slippagePct must be between 0 and 100'')
      else Inr ((sharesOut * slippage_multiplier slippagePct) sdiv 1000000))"

definition withdrawalMinAmounts :: "int \<Rightarrow> int \<Rightarrow> js_num \<Rightarrow> js_error + (int \<times> int)" where
  "withdrawalMinAmounts reserveAOut reserveBOut slippagePct =
     (if slippagePct < 0 \<or> slippagePct > 100
      then Inl (RangeError ''withdrawalMinAmounts: slippagePct must be between 0 and 100'')
      else let multiplier = slippage_multiplier slippagePct
           in Inr ((reserveAOut * multiplier) sdiv 1000000, (reserveBOut * multiplier) sdiv 1000000))"

section \<open>Integer square root\<close>

text \<open>One Newton step never falls below the root (the mean inequality, with flooring).\<close>

lemma newton_step_above:
  fixes n x :: nat
  assumes "0 < x"
  shows "n < ((x + n div x) div 2 + 1) * ((x + n div x) div 2 + 1)"
proof -
  define b where "b = n div x + 1"
  define y where "y = (x + n div x) div 2 + 1"
  have "n < b * x" using assms by (simp add: b_def dividend_less_div_times)
  moreover have half: "k + (m + 1) \<le> 2 * ((k + m) div 2 + 1)" for k m :: nat by presburger
  have "x + b \<le> 2 * y" using half [of x "n div x"] by (simp only: y_def b_def)
  then have "(x + b) * (x + b) \<le> (2 * y) * (2 * y)" by (simp only: mult_le_mono)
  moreover have "4 * (b * x) \<le> (x + b) * (x + b)"
  proof -
    have "0 \<le> (int x - int b) * (int x - int b)" by simp
    then have "int (4 * (b * x)) \<le> int ((x + b) * (x + b))" by (simp add: algebra_simps)
    then show ?thesis by (simp only: of_nat_le_iff)
  qed
  ultimately show ?thesis unfolding y_def [symmetric] by simp
qed

lemma isqrt_loop_correct:
  assumes "0 < x" "0 < n" "n < (x + 1) * (x + 1)" "y = (x + n div x) div 2"
  shows "\<exists>r. isqrt_loop n x y = Inr r \<and> r * r \<le> n \<and> n < (r + 1) * (r + 1)"
  using assms
proof (induction n x y rule: isqrt_loop.induct)
  case (1 n x y)
  show ?case
  proof (cases "y < x")
    case True
    have step: "n < (y + 1) * (y + 1)" using newton_step_above [OF "1.prems"(1)] "1.prems"(4) by simp
    have "0 < y"
    proof (rule ccontr)
      assume "\<not> 0 < y"
      then have "n < 1" using step by simp
      then show False using "1.prems"(2) by simp
    qed
    then have "\<exists>r. isqrt_loop n y ((y + n div y) div 2) = Inr r \<and> r * r \<le> n \<and> n < (r + 1) * (r + 1)"
      using "1.IH" True "1.prems"(2) step by simp
    then show ?thesis using True \<open>0 < y\<close> by (subst isqrt_loop.simps) simp
  next
    case False
    then have "x \<le> n div x" using "1.prems"(4) by linarith
    then have "x * x \<le> n div x * x" by (rule mult_le_mono1)
    also have "\<dots> \<le> n" by simp
    finally show ?thesis using False "1.prems"(3) by (subst isqrt_loop.simps) simp
  qed
qed

lemma isqrt_spec:
  assumes "0 \<le> n"
  shows "\<exists>r. isqrt n = Inr r \<and> 0 \<le> r \<and> r * r \<le> n \<and> n < (r + 1) * (r + 1)"
proof (cases "n = 0")
  case False
  with assms have n: "0 < nat n" by simp
  have "(nat n + nat n div nat n) div 2 = (nat n + 1) div 2" using n by simp
  then obtain r where "isqrt_loop (nat n) (nat n) ((nat n + 1) div 2) = Inr r"
    and "r * r \<le> nat n" "nat n < (r + 1) * (r + 1)"
    using isqrt_loop_correct [of "nat n" "nat n"] n by auto
  then show ?thesis using assms False
    by (intro exI [of _ "int r"]) (simp add: isqrt_def le_nat_iff nat_less_iff algebra_simps)
qed (simp add: isqrt_def)

section \<open>Conversions\<close>

lemma fromStroops_eq: "fromStroops v = formatFixed v"
  by (simp add: fromStroops_def formatFixed_def STROOP_def FIXED_SCALE_def FIXED_DECIMALS_def Let_def)

lemma formatFixed_ends:
  assumes "0 \<le> v"
  shows "trim (formatFixed v) = formatFixed v"
proof (rule trim_id, rule disjI2, rule conjI)
  let ?w = "digits_of_nat (nat (v div FIXED_SCALE))"
  let ?f = "pad_start 7 (CHR ''0'') (digits_of_nat (nat (v mod FIXED_SCALE)))"
  have digits: "list_all is_digit ?w" "list_all is_digit ?f" by simp_all
  have "?w \<noteq> []" and "?f \<noteq> []" by (simp_all add: pad_start_def)
  then show "\<not> is_space (hd (formatFixed v))" and "\<not> is_space (last (formatFixed v))"
    using digits assms by (auto simp: formatFixed_nonneg list_all_iff intro!: is_digit_not_space
        hd_in_set last_in_set)
qed

lemma split_at_dot:
  assumes "list_all is_digit ws"
  shows "takeWhile (\<lambda>c. c \<noteq> CHR ''.'') (ws @ CHR ''.'' # fs) = ws"
    and "dropWhile (\<lambda>c. c \<noteq> CHR ''.'') (ws @ CHR ''.'' # fs) = CHR ''.'' # fs"
proof -
  have "\<forall>c \<in> set ws. c \<noteq> CHR ''.''" using assms not_digit_dot(1) by (auto simp: list_all_iff)
  then show "takeWhile (\<lambda>c. c \<noteq> CHR ''.'') (ws @ CHR ''.'' # fs) = ws"
    and "dropWhile (\<lambda>c. c \<noteq> CHR ''.'') (ws @ CHR ''.'' # fs) = CHR ''.'' # fs"
    by (simp_all add: takeWhile_append2 dropWhile_append2)
qed

lemma toStroops_fromStroops:
  assumes "0 \<le> v"
  shows "toStroops (fromStroops v) = Inr v"
proof -
  let ?w = "digits_of_nat (nat (v div FIXED_SCALE))"
  let ?f = "pad_start 7 (CHR ''0'') (digits_of_nat (nat (v mod FIXED_SCALE)))"
  have len: "length ?f = 7" using assms by (rule length_fraction)
  have t: "trim (formatFixed v) = ?w @ CHR ''.'' # ?f"
    using formatFixed_ends [OF assms] by (simp only: formatFixed_nonneg [OF assms])
  have "toStroops (fromStroops v) =
      and_then (bigint_of_string ?w) (\<lambda>i. and_then (bigint_of_string ?f) (\<lambda>f. Inr (i * STROOP + f)))"
    unfolding toStroops_def fromStroops_eq t Let_def
    by (simp add: split_at_dot pad_end_full len del: length_pad_start)
  also have "\<dots> = Inr (v div FIXED_SCALE * FIXED_SCALE + v mod FIXED_SCALE)"
    using assms by (simp add: bigint_of_digits STROOP_def FIXED_SCALE_def pos_imp_zdiv_nonneg_iff)
  finally show ?thesis by simp
qed

interpretation stroops: amount_codec toStroops fromStroops
  by unfold_locales (rule toStroops_fromStroops)

text \<open>
  A negative amount does not survive the round trip: the fraction of the text is added to the
  negative whole part instead of being subtracted.
\<close>

lemma fromStroops_negative_example: "fromStroops (- 15000000) = ''-1.5000000''"
  unfolding fromStroops_def STROOP_def Let_def pad_start_def by (simp add: string_eval)

lemma toStroops_negative_example: "toStroops ''-1.5000000'' = Inr (- 5000000)"
  unfolding toStroops_def STROOP_def Let_def pad_end_def by (simp add: string_eval)

section \<open>Deposits\<close>

lemma quoteDepositD:
  assumes "quoteDeposit i = Inr r"
  shows "0 < di_reserveA i" and "0 < di_reserveB i"
    and "deposit_sides i = Inr (dr_depositA r, dr_depositB r)"
    and "deposit_shares i (dr_depositA r) (dr_depositB r) = Inr (dr_sharesOut r)"
    and "dr_sharesOut r \<noteq> 0"
  using assms by (auto simp: quoteDeposit_def Let_def not_le result_laws)

lemma deposit_sides_pos:
  assumes "deposit_sides i = Inr (a, b)" "0 < di_reserveA i" "0 < di_reserveB i"
  shows "0 < a" and "0 < b"
proof -
  have other: "0 < (if (x * y) sdiv z = 0 then 1 else (x * y) sdiv z)"
    if "0 < x" "0 < y" "0 < z" for x y z :: int
  proof -
    have "(x * y) sdiv z = x * y div z" using that by simp
    moreover have "0 \<le> x * y div z" using that by (simp add: pos_imp_zdiv_nonneg_iff)
    ultimately show ?thesis by auto
  qed
  show "0 < a"
    using assms other [of b "di_reserveA i" "di_reserveB i"]
    by (cases "di_depositA i"; cases "di_depositB i")
       (auto simp: deposit_sides_def Let_def simp del: sdiv_nonneg split: if_splits)
  show "0 < b"
    using assms other [of a "di_reserveB i" "di_reserveA i"]
    by (cases "di_depositA i"; cases "di_depositB i")
       (auto simp: deposit_sides_def Let_def simp del: sdiv_nonneg split: if_splits)
qed

lemma deposit_shares_min:
  assumes "0 < di_totalShares i" "0 < di_reserveA i" "0 < di_reserveB i" "0 < a" "0 < b"
  shows "deposit_shares i a b =
    Inr (min (a * di_totalShares i div di_reserveA i) (b * di_totalShares i div di_reserveB i))"
  using assms by (auto simp: deposit_shares_def Let_def min_def)

lemma deposit_shares_bounds:
  assumes q: "quoteDeposit i = Inr r" and T: "0 < di_totalShares i"
  shows "0 < dr_sharesOut r"
    and "dr_sharesOut r * di_reserveA i \<le> dr_depositA r * di_totalShares i"
    and "dr_sharesOut r * di_reserveB i \<le> dr_depositB r * di_totalShares i"
    and "dr_depositA r * di_totalShares i < (dr_sharesOut r + 1) * di_reserveA i
       \<or> dr_depositB r * di_totalShares i < (dr_sharesOut r + 1) * di_reserveB i"
proof -
  let ?a = "dr_depositA r" and ?b = "dr_depositB r" and ?T = "di_totalShares i"
  note R = quoteDepositD(1,2) [OF q]
  note P = deposit_sides_pos [OF quoteDepositD(3) [OF q] R]
  have s: "dr_sharesOut r = min (?a * ?T div di_reserveA i) (?b * ?T div di_reserveB i)"
    using quoteDepositD(4) [OF q] deposit_shares_min [OF T R P] by simp
  have "0 \<le> ?a * ?T div di_reserveA i" "0 \<le> ?b * ?T div di_reserveB i"
    using P R T by (simp_all add: pos_imp_zdiv_nonneg_iff)
  then have "0 \<le> dr_sharesOut r" unfolding s by simp
  with quoteDepositD(5) [OF q] show "0 < dr_sharesOut r" by simp
  have "dr_sharesOut r \<le> ?a * ?T div di_reserveA i" "dr_sharesOut r \<le> ?b * ?T div di_reserveB i"
    unfolding s by simp_all
  then show "dr_sharesOut r * di_reserveA i \<le> ?a * ?T" "dr_sharesOut r * di_reserveB i \<le> ?b * ?T"
    using R by (simp_all add: int_le_div_iff)
  have "?a * ?T div di_reserveA i \<le> dr_sharesOut r \<or> ?b * ?T div di_reserveB i \<le> dr_sharesOut r"
    unfolding s by (auto simp: min_def)
  then show "?a * ?T < (dr_sharesOut r + 1) * di_reserveA i
       \<or> ?b * ?T < (dr_sharesOut r + 1) * di_reserveB i"
    using R by (simp add: int_div_le_iff)
qed

section \<open>Withdrawals\<close>

lemma quoteWithdrawalD:
  assumes "quoteWithdrawal i = Inr w"
  shows "0 < wi_totalShares i" and "0 < wi_reserveA i" and "0 < wi_reserveB i"
    and "withdrawal_shares i = Inr (wr_sharesToBurn w)"
    and "wr_reserveAOut w = (wr_sharesToBurn w * wi_reserveA i) sdiv wi_totalShares i"
    and "wr_reserveBOut w = (wr_sharesToBurn w * wi_reserveB i) sdiv wi_totalShares i"
  using assms by (auto simp: quoteWithdrawal_def Let_def not_le result_laws)

lemma withdrawal_shares_bounds:
  assumes "withdrawal_shares i = Inr s" "0 < wi_totalShares i" "0 < wi_reserveA i"
  shows "0 < s" and "s \<le> wi_totalShares i"
    and "wi_desiredA i = Some a \<Longrightarrow> a * wi_totalShares i \<le> s * wi_reserveA i"
proof -
  let ?T = "wi_totalShares i" and ?R = "wi_reserveA i"
  have ceil: "0 < a \<Longrightarrow> a * ?T \<le> ((a * ?T + ?R - 1) sdiv ?R) * ?R" for a
  proof -
    assume a: "0 < a"
    have "0 \<le> a * ?T" using a assms(2) by simp
    then have "0 \<le> a * ?T + ?R - 1" using assms(3) by linarith
    then have "(a * ?T + ?R - 1) sdiv ?R = (a * ?T + ?R - 1) div ?R" using assms(3) by simp
    then show ?thesis using int_div_bounds(2) [OF assms(3), of "a * ?T + ?R - 1"]
      by (simp add: distrib_right)
  qed
  have ceil_pos: "0 < a \<Longrightarrow> 0 < (a * ?T + ?R - 1) sdiv ?R" for a
  proof -
    assume a: "0 < a"
    then have "0 < a * ?T" using assms(2) by simp
    also note ceil [OF a]
    finally show ?thesis using assms(3) by (simp add: zero_less_mult_iff)
  qed
  show "0 < s" and "s \<le> ?T"
    using assms ceil_pos by (auto simp: withdrawal_shares_def Let_def split: option.splits if_splits)
  assume "wi_desiredA i = Some a"
  moreover have "0 < a \<Longrightarrow> a \<le> ?R \<Longrightarrow> a * ?T \<le> ?T * ?R"
    using assms(2) by (simp add: mult.commute [of a] mult_left_mono)
  ultimately show "a * ?T \<le> s * ?R"
    using assms(1) ceil [of a] by (auto simp: withdrawal_shares_def Let_def split: option.splits if_splits)
qed

lemma withdrawal_bounds:
  assumes q: "quoteWithdrawal i = Inr w"
  shows "0 \<le> wr_reserveAOut w" and "wr_reserveAOut w \<le> wi_reserveA i"
    and "0 \<le> wr_reserveBOut w" and "wr_reserveBOut w \<le> wi_reserveB i"
    and "wr_reserveAOut w * wi_totalShares i \<le> wr_sharesToBurn w * wi_reserveA i"
    and "wr_reserveBOut w * wi_totalShares i \<le> wr_sharesToBurn w * wi_reserveB i"
    and "wi_desiredA i = Some a \<Longrightarrow> a \<le> wr_reserveAOut w"
proof -
  note R = quoteWithdrawalD [OF q]
  note S = withdrawal_shares_bounds [OF R(4,1,2)]
  have out: "wr_reserveAOut w = wr_sharesToBurn w * wi_reserveA i div wi_totalShares i"
    "wr_reserveBOut w = wr_sharesToBurn w * wi_reserveB i div wi_totalShares i"
    using R S(1) by simp_all
  show "0 \<le> wr_reserveAOut w" "0 \<le> wr_reserveBOut w"
    using R S(1) by (simp_all add: out pos_imp_zdiv_nonneg_iff)
  show "wr_reserveAOut w * wi_totalShares i \<le> wr_sharesToBurn w * wi_reserveA i"
    "wr_reserveBOut w * wi_totalShares i \<le> wr_sharesToBurn w * wi_reserveB i"
    unfolding out using R(1) by (rule int_div_bounds(1))+
  have "wr_sharesToBurn w * x < (x + 1) * wi_totalShares i" if "0 < x" for x
  proof -
    have "wr_sharesToBurn w * x \<le> wi_totalShares i * x" using S(2) that by (intro mult_right_mono) auto
    then show ?thesis using R(1) by (simp add: algebra_simps)
  qed
  then show "wr_reserveAOut w \<le> wi_reserveA i" "wr_reserveBOut w \<le> wi_reserveB i"
    unfolding out using R(1,2,3) by (simp_all add: int_div_le_iff)
  assume "wi_desiredA i = Some a"
  then show "a \<le> wr_reserveAOut w" unfolding out using R(1) S(3) by (simp add: int_le_div_iff)
qed

section \<open>Slippage bounds\<close>

lemma slippage_multiplier_bounds:
  assumes "0 \<le> p" "p \<le> 100"
  shows "0 \<le> slippage_multiplier p" and "slippage_multiplier p \<le> 1000000"
proof -
  have "fl (p / 100) \<le> of_int 1" using assms by (intro fl_le_of_int) auto
  moreover have "0 \<le> fl (p / 100)" using assms by (intro fl_nonneg) auto
  ultimately have d: "0 \<le> 1 - fl (p / 100)" "1 - fl (p / 100) \<le> of_int 1" by simp_all
  then have "0 \<le> fl (1 - fl (p / 100))" "fl (1 - fl (p / 100)) \<le> of_int 1"
    by (intro fl_nonneg fl_le_of_int; simp)+
  then have m: "0 \<le> fl (1 - fl (p / 100)) * 1000000" "fl (1 - fl (p / 100)) * 1000000 \<le> of_int 1000000"
    by simp_all
  have "0 \<le> fl (fl (1 - fl (p / 100)) * 1000000)" using m(1) by (rule fl_nonneg)
  moreover have "fl (fl (1 - fl (p / 100)) * 1000000) \<le> of_int 1000000"
    using m by (intro fl_le_of_int) auto
  ultimately have "math_round (of_int 0) \<le> slippage_multiplier p"
    "slippage_multiplier p \<le> math_round (of_int 1000000)"
    unfolding slippage_multiplier_def js_ops by (auto intro: math_round_mono)
  then show "0 \<le> slippage_multiplier p" and "slippage_multiplier p \<le> 1000000"
    by (simp_all only: math_round_of_int)
qed

lemma scale_by_multiplier:
  assumes "0 \<le> x" "0 \<le> m" "m \<le> 1000000"
  shows "0 \<le> (x * m) sdiv 1000000" and "(x * m) sdiv 1000000 \<le> (x :: int)"
proof -
  have "x * m \<le> x * 1000000" using assms by (intro mult_left_mono) auto
  then have "x * m div 1000000 \<le> x * 1000000 div 1000000" by (intro zdiv_mono1) auto
  then show "0 \<le> (x * m) sdiv 1000000" and "(x * m) sdiv 1000000 \<le> x"
    using assms by (simp_all add: pos_imp_zdiv_nonneg_iff)
qed

section \<open>Properties\<close>

text \<open>
  C39. Integer square root: the Newton loop of \<open>isqrt\<close> terminates on every non-negative input,
  never divides by zero, and returns the floor of the root; a negative input throws.
\<close>

theorem isqrt_correct:
  "if n < 0 then isqrt n = Inl (RangeError ''isqrt: negative input'')
   else \<exists>r. isqrt n = Inr r \<and> 0 \<le> r \<and> r ^ 2 \<le> n \<and> n < (r + 1) ^ 2"
  using isqrt_spec [of n] by (simp add: isqrt_def power2_eq_square)

text \<open>
  A deposit quote never dilutes the pool: the shares minted are positive, on each side they are
  worth at most what was deposited on that side, and one share more would exceed one of the sides.
  On an empty pool they are the integer geometric mean of the two amounts.
\<close>

theorem deposit_no_dilution:
  assumes "quoteDeposit i = Inr r" and "0 \<le> di_totalShares i"
  shows "0 < dr_sharesOut r \<and>
    (if di_totalShares i = 0
     then dr_sharesOut r ^ 2 \<le> dr_depositA r * dr_depositB r
       \<and> dr_depositA r * dr_depositB r < (dr_sharesOut r + 1) ^ 2
     else dr_sharesOut r * di_reserveA i \<le> dr_depositA r * di_totalShares i
       \<and> dr_sharesOut r * di_reserveB i \<le> dr_depositB r * di_totalShares i
       \<and> (dr_depositA r * di_totalShares i < (dr_sharesOut r + 1) * di_reserveA i
          \<or> dr_depositB r * di_totalShares i < (dr_sharesOut r + 1) * di_reserveB i))"
proof (cases "di_totalShares i = 0")
  case True
  note Q = quoteDepositD [OF assms(1)]
  have "0 \<le> dr_depositA r * dr_depositB r" using deposit_sides_pos [OF Q(3,1,2)] by simp
  then obtain s where "isqrt (dr_depositA r * dr_depositB r) = Inr s" "0 \<le> s"
    "s * s \<le> dr_depositA r * dr_depositB r" "dr_depositA r * dr_depositB r < (s + 1) * (s + 1)"
    using isqrt_spec by blast
  then show ?thesis using Q(4,5) True by (simp add: deposit_shares_def power2_eq_square)
next
  case False
  then show ?thesis using deposit_shares_bounds [OF assms(1)] assms(2) by simp
qed

definition sample_deposit :: deposit_input where
  "sample_deposit = \<lparr>di_reserveA = 1000, di_reserveB = 4000, di_totalShares = 2000,
     di_depositA = Some 10, di_depositB = None\<rparr>"

definition sample_deposit_result :: deposit_result where
  "sample_deposit_result = \<lparr>dr_depositA = 10, dr_depositB = 40, dr_sharesOut = 20,
     dr_spotPriceAperB = 2500000, dr_spotPriceBperA = 40000000, dr_priceImpactPpm = 0\<rparr>"

lemma sample_deposit_quote: "quoteDeposit sample_deposit = Inr sample_deposit_result"
  by (simp add: quoteDeposit_def sample_deposit_def sample_deposit_result_def deposit_sides_def
      deposit_shares_def bigint_div_def STROOP_def)

theorem deposit_no_dilution_witness:
  "0 < dr_sharesOut sample_deposit_result \<and>
   dr_sharesOut sample_deposit_result * 1000 \<le> dr_depositA sample_deposit_result * 2000"
  using deposit_no_dilution [OF sample_deposit_quote] by (simp add: sample_deposit_def)

text \<open>
  When a deposit is quotable: with positive reserves, exactly one positive side and a nonzero
  number of shares, the quote is returned precisely when the price of the pool does not round to
  zero; for a pool whose B side outweighs the A side by more than ten million the impact
  computation divides by zero and the function throws.
\<close>

theorem quoteDeposit_succeeds_iff:
  "(\<exists>r. quoteDeposit i = Inr r) \<longleftrightarrow>
     0 < di_reserveA i \<and> 0 < di_reserveB i \<and>
     (\<exists>a b s. deposit_sides i = Inr (a, b) \<and> deposit_shares i a b = Inr s \<and> s \<noteq> 0) \<and>
     di_reserveB i \<le> di_reserveA i * 10000000"
proof -
  have price: "0 < x \<Longrightarrow> 0 < y \<Longrightarrow> (y * STROOP) sdiv x \<noteq> 0 \<longleftrightarrow> x \<le> y * 10000000" for x y :: int
    using int_le_div_iff [of x 1 "y * 10000000"]
    by (auto simp: STROOP_def div_pos_pos_trivial pos_imp_zdiv_neg_iff not_le)
  show ?thesis
    using price deposit_sides_pos
    by (fastforce simp: quoteDeposit_def Let_def result_laws not_le simp del: sdiv_nonneg)
qed

text \<open>
  A withdrawal quote stays within the pool: it burns between one and all of the shares,
  releases at most the reserves, at most the burned fraction of each side, and, when the caller
  asked for an amount of A, at least that amount.
\<close>

theorem withdrawal_within_pool:
  assumes "quoteWithdrawal i = Inr w"
  shows "0 < wr_sharesToBurn w \<and> wr_sharesToBurn w \<le> wi_totalShares i
    \<and> 0 \<le> wr_reserveAOut w \<and> wr_reserveAOut w \<le> wi_reserveA i
    \<and> 0 \<le> wr_reserveBOut w \<and> wr_reserveBOut w \<le> wi_reserveB i
    \<and> wr_reserveAOut w * wi_totalShares i \<le> wr_sharesToBurn w * wi_reserveA i
    \<and> wr_reserveBOut w * wi_totalShares i \<le> wr_sharesToBurn w * wi_reserveB i
    \<and> (\<forall>a. wi_desiredA i = Some a \<longrightarrow> a \<le> wr_reserveAOut w)"
  using withdrawal_bounds [OF assms] quoteWithdrawalD [OF assms]
    withdrawal_shares_bounds(1,2) [of i "wr_sharesToBurn w"] by simp

theorem withdrawal_within_pool_witness:
  "\<exists>w. quoteWithdrawal \<lparr>wi_reserveA = 1000, wi_reserveB = 4000, wi_totalShares = 2000,
        wi_sharesToBurn = None, wi_desiredA = Some 7\<rparr> = Inr w \<and> 7 \<le> wr_reserveAOut w"
proof -
  let ?i = "\<lparr>wi_reserveA = 1000, wi_reserveB = 4000, wi_totalShares = 2000,
        wi_sharesToBurn = None, wi_desiredA = Some 7\<rparr>"
  have "\<exists>w. quoteWithdrawal ?i = Inr w"
    by (simp add: quoteWithdrawal_def withdrawal_shares_def withdrawal_impact_def bigint_div_def STROOP_def)
  then obtain w where "quoteWithdrawal ?i = Inr w" by blast
  with withdrawal_within_pool [OF this] show ?thesis by simp
qed



text \<open>
  The slippage floor of a deposit lies between zero and the quoted shares for every tolerance
  from 0 to 100 percent, although the multiplier is computed in floating point; any other
  tolerance throws.
\<close>

theorem depositMinShares_bounds:
  assumes "0 \<le> shares"
  shows "if p < 0 \<or> 100 < p
    then depositMinShares shares p = Inl (RangeError ''depositMinShares: slippagePct must be between 0 and 100'')
    else \<exists>m. depositMinShares shares p = Inr m \<and> 0 \<le> m \<and> m \<le> shares"
proof (cases "p < 0 \<or> 100 < p")
  case False
  then have "0 \<le> slippage_multiplier p" "slippage_multiplier p \<le> 1000000"
    using slippage_multiplier_bounds [of p] by simp_all
  from scale_by_multiplier [OF assms this] False show ?thesis by (simp add: depositMinShares_def)
qed (auto simp: depositMinShares_def)

theorem depositMinShares_bounds_witness:
  "\<exists>m. depositMinShares 20000 (1 / 2) = Inr m \<and> 0 \<le> m \<and> m \<le> 20000"
  using depositMinShares_bounds [of 20000 "1 / 2"] by simp

end
