(* ===== verification/SlippageLab.thy ===== *)
theory SlippageLab
  imports Prelude JsNumber DecimalUtil LpMath
begin

text \<open>
  \<open>apps/api/src/modules/simulator/slippage-lab.ts\<close>: how much adverse rate movement a slippage
  tolerance absorbs. Amounts are \<open>bigint\<close> stroops, tolerances hundredths of a percent;
  percentages at the boundary are JavaScript numbers. A finite number is all the types of
  \<open>js_num\<close> hold, so the \<open>Number.isFinite\<close> guards never fire here.
\<close>

section \<open>Model\<close>

definition FULL_SCALE_BPS :: int where
  "FULL_SCALE_BPS = 10000"

datatype direction = Strict_send | Strict_receive

definition GUARANTEE_FIELD :: "direction \<Rightarrow> string" where
  "GUARANTEE_FIELD d = (case d of Strict_send \<Rightarrow> ''destinationMin'' | Strict_receive \<Rightarrow> ''sendMax'')"

datatype verdict = Pass | Fail | Exact

definition percentToBps :: "js_num \<Rightarrow> js_error + int" where
  "percentToBps percent =
     (let scaled = math_round (js_mul percent 100)
      in if scaled < 0 then Inl (RangeError ''percentToBps: percent must not be negative'')
         else Inr scaled)"

definition roundTo :: "js_num \<Rightarrow> nat \<Rightarrow> js_num" where
  "roundTo value decimals =
     (let factor = 10 ^ decimals
      in (if value < 0 then - 1 else 1)
         * js_div (of_int (math_round (js_mul \<bar>value\<bar> factor))) factor)"

definition bpsToPercent :: "int \<Rightarrow> js_error + js_num" where
  "bpsToPercent bps =
     (if bps < 0 then Inl (RangeError ''bpsToPercent: bps must not be negative'')
      else Inr (roundTo (js_div (js_number bps) 100) 2))"

definition percentOf :: "int \<Rightarrow> int \<Rightarrow> nat \<Rightarrow> js_num" where
  "percentOf part whole decimals =
     (if whole = 0 then 0
      else let negative = part < 0;
               magnitude = (if negative then - part else part);
               ppm = (magnitude * 1000000 * 2 + whole) sdiv (whole * 2)
           in roundTo ((if negative then - 1 else 1) * js_div (js_number ppm) 10000) decimals)"

definition checkedScale :: "int \<Rightarrow> int \<Rightarrow> js_error + int" where
  "checkedScale amount bps =
     (if amount < 0 then Inl (RangeError ''scale: amount must not be negative'')
      else if bps < 0 then Inl (RangeError ''scale: bps must not be negative'')
      else Inr (amount * bps))"

definition scaleDown :: "int \<Rightarrow> int \<Rightarrow> js_error + int" where
  "scaleDown amount bps = and_then (checkedScale amount bps) (\<lambda>p. Inr (p sdiv FULL_SCALE_BPS))"

definition scaleUp :: "int \<Rightarrow> int \<Rightarrow> js_error + int" where
  "scaleUp amount bps =
     and_then (checkedScale amount bps) (\<lambda>p. Inr ((p + FULL_SCALE_BPS - 1) sdiv FULL_SCALE_BPS))"

text \<open>
  The amount pattern \<open>^(?:0|[1-9]\d{0,14})(?:\.\d{1,7})?$\<close>, tested on the trimmed text, and the
  conversion, which trims again.
\<close>

definition lab_amount_pattern :: "string \<Rightarrow> bool" where
  "lab_amount_pattern t =
     (case match_decimal t of
        None \<Rightarrow> False
      | Some (whole, fraction) \<Rightarrow>
          (whole = ''0'' \<or> hd whole \<noteq> CHR ''0'' \<and> length whole \<le> 15)
          \<and> (case fraction of None \<Rightarrow> True | Some f \<Rightarrow> length f \<le> 7))"

definition parseLabAmount :: "string \<Rightarrow> string \<Rightarrow> js_error + int" where
  "parseLabAmount value label =
     (if \<not> lab_amount_pattern (trim value)
      then Inl (RangeError (label @ '' is not a valid Stellar amount: '' @ value))
      else and_then (toStroops value) (\<lambda>stroops.
           if stroops < 0 then Inl (RangeError (label @ '' must not be negative: '' @ value))
           else Inr stroops))"

record comparison_input =
  ci_direction :: direction
  ci_fixedAmountStroops :: int
  ci_variableAmountStroops :: int
  ci_slippageScenarios :: "js_num list"
  ci_adverseMovePercent :: js_num
  ci_bestVariableAmountStroops :: "int option"

record scenario_outcome =
  so_slippagePercent :: js_num
  so_guarantee :: string
  so_adverseAmount :: string
  so_headroom :: string
  so_headroomPercent :: js_num
  so_tolerableMovePercent :: js_num
  so_verdict :: verdict

record comparison_result =
  cr_direction :: direction
  cr_guaranteeField :: string
  cr_fixedAmount :: string
  cr_quotedVariableAmount :: string
  cr_adverseMovePercent :: js_num
  cr_adverseVariableAmount :: string
  cr_scenarios :: "scenario_outcome list"
  cr_tightestSlippagePercent :: js_num
  cr_widestSlippagePercent :: js_num
  cr_recommendedSlippagePercent :: "js_num option"
  cr_recommendedHeadroomPercent :: "js_num option"
  cr_exceededByEveryScenario :: bool
  cr_routeDispersionPercent :: "js_num option"

definition guaranteeAmount :: "direction \<Rightarrow> int \<Rightarrow> int \<Rightarrow> js_error + int" where
  "guaranteeAmount d variableAmount slippageBps =
     (if slippageBps > FULL_SCALE_BPS then Inl (RangeError ''slippageBps: must not exceed 100%'')
      else case d of
          Strict_send \<Rightarrow> scaleDown variableAmount (FULL_SCALE_BPS - slippageBps)
        | Strict_receive \<Rightarrow> scaleUp variableAmount (FULL_SCALE_BPS + slippageBps))"

definition adverseVariableAmount :: "direction \<Rightarrow> int \<Rightarrow> int \<Rightarrow> js_error + int" where
  "adverseVariableAmount d variableAmount moveBps =
     (if moveBps > FULL_SCALE_BPS then Inl (RangeError ''moveBps: must not exceed 100%'')
      else case d of
          Strict_send \<Rightarrow> scaleDown variableAmount (FULL_SCALE_BPS - moveBps)
        | Strict_receive \<Rightarrow> scaleUp variableAmount (FULL_SCALE_BPS + moveBps))"

definition readLegs :: "comparison_input \<Rightarrow> js_error + (int \<times> int)" where
  "readLegs i =
     (if ci_variableAmountStroops i < 0
      then Inl (RangeError ''variableAmountStroops must not be negative'')
      else if ci_fixedAmountStroops i < 0
      then Inl (RangeError ''fixedAmountStroops must not be negative'')
      else Inr (ci_fixedAmountStroops i, ci_variableAmountStroops i))"

definition readPercent :: "js_num \<Rightarrow> string \<Rightarrow> js_error + int" where
  "readPercent percent label =
     (case percentToBps percent of
        Inr bps \<Rightarrow> if bps > FULL_SCALE_BPS then Inl (RangeError (label @ '': must not exceed 100%''))
                   else Inr bps
      | Inl _ \<Rightarrow> Inl (RangeError (label @ '' must be a percentage between 0 and 100'')))"

definition routeDispersionPercent :: "direction \<Rightarrow> int \<Rightarrow> int option \<Rightarrow> js_error + js_num option" where
  "routeDispersionPercent d variableAmount best =
     (case best of
        None \<Rightarrow> Inr None
      | Some b \<Rightarrow>
          if b < 0 then Inl (RangeError ''bestVariableAmountStroops must not be negative'')
          else let behind = (case d of Strict_send \<Rightarrow> b - variableAmount
                                     | Strict_receive \<Rightarrow> variableAmount - b)
               in if behind \<le> 0 then Inr (Some 0) else Inr (Some (percentOf behind b 4)))"

definition headroom_of :: "direction \<Rightarrow> int \<Rightarrow> int \<Rightarrow> int" where
  "headroom_of d adverse guarantee =
     (case d of Strict_send \<Rightarrow> adverse - guarantee | Strict_receive \<Rightarrow> guarantee - adverse)"

definition verdict_of :: "int \<Rightarrow> verdict" where
  "verdict_of headroom = (if headroom > 0 then Pass else if headroom < 0 then Fail else Exact)"

definition scenario_row :: "direction \<Rightarrow> int \<Rightarrow> int \<Rightarrow> int \<Rightarrow> js_error + scenario_outcome" where
  "scenario_row d variable adverse bps =
     and_then (guaranteeAmount d variable bps) (\<lambda>guarantee.
     and_then (bpsToPercent bps) (\<lambda>percent.
     let headroom = headroom_of d adverse guarantee
     in Inr \<lparr>so_slippagePercent = percent, so_guarantee = fromStroops guarantee,
             so_adverseAmount = fromStroops adverse, so_headroom = fromStroops headroom,
             so_headroomPercent = percentOf headroom variable 4,
             so_tolerableMovePercent = percent, so_verdict = verdict_of headroom\<rparr>))"

text \<open>\<open>scenarios.find((s) => percentToBps(s.slippagePercent) >= moveBps)\<close>.\<close>

fun find_recommended :: "int \<Rightarrow> scenario_outcome list \<Rightarrow> js_error + scenario_outcome option" where
  "find_recommended moveBps [] = Inr None"
| "find_recommended moveBps (s # ss) =
     and_then (percentToBps (so_slippagePercent s)) (\<lambda>bps.
       if bps \<ge> moveBps then Inr (Some s) else find_recommended moveBps ss)"

definition unique_bps :: "int list \<Rightarrow> int list" where
  "unique_bps bs = sort_cmp (\<lambda>l r. if l < r then - 1 else if l > r then 1 else 0) (dedupe bs)"

definition compareSlippageScenarios :: "comparison_input \<Rightarrow> js_error + comparison_result" where
  "compareSlippageScenarios i =
     and_then (readLegs i) (\<lambda>(fixed, variable).
     and_then (throw_if (ci_slippageScenarios i = [])
       (RangeError ''compareSlippageScenarios: at least one scenario is required'')) (\<lambda>_.
     and_then (readPercent (ci_adverseMovePercent i) ''adverseMovePercent'') (\<lambda>moveBps.
     and_then (map_result (\<lambda>p. readPercent p ''slippageScenarios'') (ci_slippageScenarios i)) (\<lambda>bs.
     let uniqueBps = unique_bps bs
     in and_then (adverseVariableAmount (ci_direction i) variable moveBps) (\<lambda>adverse.
        and_then (map_result (scenario_row (ci_direction i) variable adverse) uniqueBps) (\<lambda>scenarios.
        and_then (find_recommended moveBps scenarios) (\<lambda>recommended.
        and_then (bpsToPercent moveBps) (\<lambda>movePercent.
        and_then (bpsToPercent (hd uniqueBps)) (\<lambda>tightest.
        and_then (bpsToPercent (last uniqueBps)) (\<lambda>widest.
        and_then (routeDispersionPercent (ci_direction i) variable (ci_bestVariableAmountStroops i)) (\<lambda>disp.
        Inr \<lparr>cr_direction = ci_direction i, cr_guaranteeField = GUARANTEE_FIELD (ci_direction i),
             cr_fixedAmount = fromStroops fixed, cr_quotedVariableAmount = fromStroops variable,
             cr_adverseMovePercent = movePercent, cr_adverseVariableAmount = fromStroops adverse,
             cr_scenarios = scenarios, cr_tightestSlippagePercent = tightest,
             cr_widestSlippagePercent = widest,
             cr_recommendedSlippagePercent = map_option so_slippagePercent recommended,
             cr_recommendedHeadroomPercent =
               map_option (\<lambda>r. roundTo (js_sub (so_slippagePercent r) movePercent) 4) recommended,
             cr_exceededByEveryScenario = (recommended = None),
             cr_routeDispersionPercent = disp\<rparr>)))))))))))"

section \<open>Percentages\<close>

lemma bpsToPercent_def':
  assumes "0 \<le> b" "b \<le> 2 ^ 40"
  shows "bpsToPercent b = Inr (js_div (of_int b) 100)"
proof -
  have "\<bar>b\<bar> \<le> 2 ^ 53" using assms by simp
  then have n: "js_number b = of_int b" by (rule js_number_exact)
  have p: "0 \<le> js_div (of_int b) 100" using assms by (simp add: js_div_def fl_nonneg)
  have "math_round (js_mul (js_div (of_int b) 100) 100) = b" using assms by (rule fl_hundredths)
  then have "roundTo (js_div (of_int b) 100) 2 = js_div (of_int b) 100"
    using p by (simp add: roundTo_def)
  then show ?thesis using assms(1) by (simp add: bpsToPercent_def n)
qed

lemma percentToBps_bpsToPercent:
  assumes "0 \<le> b" "b \<le> 2 ^ 40" "bpsToPercent b = Inr p"
  shows "percentToBps p = Inr b"
proof -
  have "p = js_div (of_int b) 100" using assms by (simp add: bpsToPercent_def')
  then show ?thesis using fl_hundredths [OF assms(1,2)] assms(1) by (simp add: percentToBps_def)
qed

lemma readPercent_range: "readPercent p l = Inr b \<Longrightarrow> 0 \<le> b \<and> b \<le> 10000"
  by (auto simp: readPercent_def percentToBps_def FULL_SCALE_BPS_def Let_def split: if_splits)

section \<open>Scaling\<close>

lemma scaleDown_eq: "0 \<le> a \<Longrightarrow> 0 \<le> b \<Longrightarrow> scaleDown a b = Inr (a * b div 10000)"
  by (simp add: scaleDown_def checkedScale_def FULL_SCALE_BPS_def)

lemma scaleUp_eq: "0 \<le> a \<Longrightarrow> 0 \<le> b \<Longrightarrow> scaleUp a b = Inr ((a * b + 9999) div 10000)"
  by (simp add: scaleUp_def checkedScale_def FULL_SCALE_BPS_def)

lemma guaranteeAmount_eq:
  assumes "0 \<le> v" "0 \<le> b" "b \<le> 10000"
  shows "guaranteeAmount d v b = Inr (case d of
      Strict_send \<Rightarrow> v * (10000 - b) div 10000
    | Strict_receive \<Rightarrow> (v * (10000 + b) + 9999) div 10000)"
  using assms by (cases d) (simp_all add: guaranteeAmount_def FULL_SCALE_BPS_def scaleDown_eq scaleUp_eq)

lemma adverseVariableAmount_eq: "adverseVariableAmount d v b = Inr a \<longleftrightarrow> guaranteeAmount d v b = Inr a"
  by (cases d) (simp_all add: guaranteeAmount_def adverseVariableAmount_def)

lemma headroom_mono:
  assumes "0 \<le> v" "0 \<le> b" "b \<le> c" "c \<le> 10000"
    and "guaranteeAmount d v b = Inr gb" "guaranteeAmount d v c = Inr gc"
  shows "0 \<le> headroom_of d gb gc"
proof -
  have "v * (10000 - c) \<le> v * (10000 - b)" using assms(1,3) by (intro mult_left_mono) auto
  then have down: "v * (10000 - c) div 10000 \<le> v * (10000 - b) div 10000" by (rule zdiv_mono1) simp
  have "v * (10000 + b) + 9999 \<le> v * (10000 + c) + 9999"
    using assms(1,3) by (intro add_right_mono mult_left_mono) auto
  then have up: "(v * (10000 + b) + 9999) div 10000 \<le> (v * (10000 + c) + 9999) div 10000"
    by (rule zdiv_mono1) simp
  show ?thesis
  proof (cases d)
    case Strict_send
    then show ?thesis
      using down assms(5,6) guaranteeAmount_eq [of v b d] guaranteeAmount_eq [of v c d] assms(1-4)
      by (simp add: headroom_of_def)
  next
    case Strict_receive
    then show ?thesis
      using up assms(5,6) guaranteeAmount_eq [of v b d] guaranteeAmount_eq [of v c d] assms(1-4)
      by (simp add: headroom_of_def)
  qed
qed

lemma headroom_of_swap: "headroom_of d b a = - headroom_of d a b"
  by (cases d) (simp_all add: headroom_of_def)

section \<open>The comparison table\<close>

lemma set_unique_bps [simp]: "set (unique_bps bs) = set bs"
  by (simp add: unique_bps_def)

lemma unique_bps_sorted: "sorted_wrt (<) (unique_bps bs)"
proof -
  let ?cmp = "\<lambda>l r :: int. if l < r then - 1 else if l > r then 1 else (0::int)"
  have "sorted_wrt (\<lambda>a b. ?cmp a b \<le> 0) (unique_bps bs)"
    unfolding unique_bps_def by (rule sorted_sort_cmp) (auto split: if_splits)
  then have "sorted (unique_bps bs)" by (rule sorted_wrt_mono_rel [rotated]) (auto split: if_splits)
  moreover have "distinct (unique_bps bs)"
    unfolding unique_bps_def
    by (rule mset_eq_imp_distinct_iff [THEN iffD2, OF mset_sort_cmp distinct_dedupe])
  ultimately show ?thesis by (simp add: strict_sorted_iff)
qed

text \<open>The row of one tolerance, and the tolerance a row carries.\<close>

definition row_bps :: "scenario_outcome \<Rightarrow> int" where
  "row_bps s = (case percentToBps (so_slippagePercent s) of Inr b \<Rightarrow> b | Inl _ \<Rightarrow> 0)"

lemma scenario_rowD:
  assumes "scenario_row d v adv b = Inr s" "0 \<le> b" "b \<le> 10000"
  shows "percentToBps (so_slippagePercent s) = Inr b" "row_bps s = b"
    and "\<exists>g. guaranteeAmount d v b = Inr g \<and> so_verdict s = verdict_of (headroom_of d adv g)
           \<and> so_guarantee s = fromStroops g"
proof -
  obtain g p where g: "guaranteeAmount d v b = Inr g" "bpsToPercent b = Inr p"
    "so_slippagePercent s = p" "so_verdict s = verdict_of (headroom_of d adv g)" "so_guarantee s = fromStroops g"
    using assms(1) by (auto simp: scenario_row_def result_laws Let_def)
  then show *: "percentToBps (so_slippagePercent s) = Inr b"
    using assms(2,3) percentToBps_bpsToPercent [of b p] by simp
  then show "row_bps s = b" by (simp add: row_bps_def)
  show "\<exists>g. guaranteeAmount d v b = Inr g \<and> so_verdict s = verdict_of (headroom_of d adv g)
      \<and> so_guarantee s = fromStroops g"
    using g by blast
qed

lemma rows_bps:
  assumes "map_result (scenario_row d v adv) bs = Inr ss" "\<forall>b \<in> set bs. 0 \<le> b \<and> b \<le> 10000"
  shows "map row_bps ss = bs" and "\<forall>s \<in> set ss. percentToBps (so_slippagePercent s) = Inr (row_bps s)
    \<and> scenario_row d v adv (row_bps s) = Inr s"
  using assms by (induction bs arbitrary: ss) (auto simp: result_laws scenario_rowD)

lemma find_recommended_correct:
  assumes "\<forall>s \<in> set ss. percentToBps (so_slippagePercent s) = Inr (row_bps s)"
  shows "find_recommended m ss = Inr (find (\<lambda>s. m \<le> row_bps s) ss)"
  using assms by (induction ss) simp_all

lemma compareD:
  assumes "compareSlippageScenarios i = Inr r"
    and "readPercent (ci_adverseMovePercent i) ''adverseMovePercent'' = Inr m"
  obtains bs adv rec where
    "0 \<le> ci_variableAmountStroops i" "0 \<le> m" "m \<le> 10000"
    "map_result (\<lambda>p. readPercent p ''slippageScenarios'') (ci_slippageScenarios i) = Inr bs"
    "\<forall>b \<in> set bs. 0 \<le> b \<and> b \<le> 10000"
    "guaranteeAmount (ci_direction i) (ci_variableAmountStroops i) m = Inr adv"
    "map_result (scenario_row (ci_direction i) (ci_variableAmountStroops i) adv) (unique_bps bs) =
       Inr (cr_scenarios r)"
    "find_recommended m (cr_scenarios r) = Inr rec"
    "cr_recommendedSlippagePercent r = map_option so_slippagePercent rec"
    "cr_exceededByEveryScenario r = (rec = None)"
proof -
  obtain bs adv rec where f:
    "map_result (\<lambda>p. readPercent p ''slippageScenarios'') (ci_slippageScenarios i) = Inr bs"
    "adverseVariableAmount (ci_direction i) (ci_variableAmountStroops i) m = Inr adv"
    "map_result (scenario_row (ci_direction i) (ci_variableAmountStroops i) adv) (unique_bps bs) =
       Inr (cr_scenarios r)"
    "find_recommended m (cr_scenarios r) = Inr rec"
    "cr_recommendedSlippagePercent r = map_option so_slippagePercent rec"
    "cr_exceededByEveryScenario r = (rec = None)" and v: "0 \<le> ci_variableAmountStroops i"
    using assms
    by (auto simp: compareSlippageScenarios_def readLegs_def Let_def result_laws split: if_splits)
  have "\<forall>b \<in> set bs. 0 \<le> b \<and> b \<le> 10000"
  proof
    fix b assume "b \<in> set bs"
    then obtain p where "readPercent p ''slippageScenarios'' = Inr b"
      using f(1) by (auto simp: map_result_list_all2 in_set_conv_nth list_all2_conv_all_nth)
    then show "0 \<le> b \<and> b \<le> 10000" by (rule readPercent_range)
  qed
  with f v readPercent_range [OF assms(2)] show thesis
    by (intro that [of bs adv rec]) (simp_all add: adverseVariableAmount_eq)
qed

section \<open>Properties\<close>

text \<open>
  The tolerance fields are rounded to the safe side: for a tolerance of \<open>b\<close> hundredths of a
  percent, \<open>destinationMin\<close> is the floor of \<open>variable * (1 - b)\<close> and \<open>sendMax\<close> the ceiling of
  \<open>variable * (1 + b)\<close>, exactly, with no floating point involved.
\<close>

theorem guaranteeAmount_exact:
  assumes "0 \<le> v" "0 \<le> b" "b \<le> 10000"
  shows "\<exists>g. guaranteeAmount d v b = Inr g \<and>
    (case d of
       Strict_send \<Rightarrow> g * 10000 \<le> v * (10000 - b) \<and> v * (10000 - b) < (g + 1) * 10000
     | Strict_receive \<Rightarrow> (g - 1) * 10000 < v * (10000 + b) \<and> v * (10000 + b) \<le> g * 10000)"
proof (cases d)
  case Strict_send
  then show ?thesis using guaranteeAmount_eq [OF assms, of d] int_div_bounds [of 10000 "v * (10000 - b)"]
    by simp
next
  case Strict_receive
  then show ?thesis
    using guaranteeAmount_eq [OF assms, of d] int_div_bounds [of 10000 "v * (10000 + b) + 9999"] by simp
qed

theorem guaranteeAmount_exact_witness:
  "\<exists>g. guaranteeAmount Strict_send 12345 50 = Inr g \<and> g * 10000 \<le> 12345 * 9950 \<and> 12345 * 9950 < (g + 1) * 10000"
  using guaranteeAmount_exact [of 12345 50 Strict_send] by simp

text \<open>
  A percentage is not lost in the response: every tolerance in hundredths of a percent, once
  converted to a floating-point percentage and back, is the same tolerance.
\<close>

theorem percent_roundtrip:
  assumes "0 \<le> b" "b \<le> 10000"
  shows "\<exists>p. bpsToPercent b = Inr p \<and> percentToBps p = Inr b"
  using bpsToPercent_def' [of b] percentToBps_bpsToPercent [of b] assms by fastforce

theorem percent_roundtrip_witness: "\<exists>p. bpsToPercent 29 = Inr p \<and> percentToBps p = Inr 29"
  by (rule percent_roundtrip) simp_all

text \<open>
  The verdicts of the comparison agree with the tolerances: a row whose tolerance covers the
  simulated move never fails, a row whose tolerance does not exceed it never passes, and every row
  carries the tolerance field of its own tolerance.
\<close>

theorem verdict_matches_tolerance:
  assumes "compareSlippageScenarios i = Inr r" and "s \<in> set (cr_scenarios r)"
    and "readPercent (ci_adverseMovePercent i) ''adverseMovePercent'' = Inr m"
  shows "\<exists>b g. percentToBps (so_slippagePercent s) = Inr b
    \<and> guaranteeAmount (ci_direction i) (ci_variableAmountStroops i) b = Inr g
    \<and> so_guarantee s = fromStroops g
    \<and> (m \<le> b \<longrightarrow> so_verdict s \<noteq> Fail) \<and> (b \<le> m \<longrightarrow> so_verdict s \<noteq> Pass)"
proof -
  let ?d = "ci_direction i" and ?v = "ci_variableAmountStroops i"
  obtain bs adv where v: "0 \<le> ?v" and m: "0 \<le> m" "m \<le> 10000"
    and bs: "\<forall>b \<in> set bs. 0 \<le> b \<and> b \<le> 10000" and adv: "guaranteeAmount ?d ?v m = Inr adv"
    and rows: "map_result (scenario_row ?d ?v adv) (unique_bps bs) = Inr (cr_scenarios r)"
    by (rule compareD [OF assms(1,3)])
  note R = rows_bps [OF rows]
  define b where "b = row_bps s"
  have "b \<in> set bs" using R(1) assms(2) bs by (metis b_def image_eqI list.set_map set_unique_bps)
  then have b: "0 \<le> b" "b \<le> 10000" using bs by auto
  have row: "scenario_row ?d ?v adv b = Inr s" using R(2) assms(2) bs by (simp add: b_def)
  then obtain g where g: "guaranteeAmount ?d ?v b = Inr g" "so_guarantee s = fromStroops g"
    and ver: "so_verdict s = verdict_of (headroom_of ?d adv g)"
    using scenario_rowD(3) [OF row b] by blast
  have "m \<le> b \<Longrightarrow> 0 \<le> headroom_of ?d adv g"
    using headroom_mono [OF v m(1) _ b(2) adv g(1)] by simp
  moreover have "b \<le> m \<Longrightarrow> headroom_of ?d adv g \<le> 0"
    using headroom_mono [OF v b(1) _ m(2) g(1) adv] headroom_of_swap [of ?d g adv] by simp
  ultimately show ?thesis
    using scenario_rowD(1) [OF row b] g ver
    by (intro exI [of _ b] exI [of _ g]) (auto simp: verdict_of_def)
qed

definition sample_comparison :: comparison_input where
  "sample_comparison = \<lparr>ci_direction = Strict_send, ci_fixedAmountStroops = 100,
     ci_variableAmountStroops = 100000, ci_slippageScenarios = [1, 1 / 2],
     ci_adverseMovePercent = 1 / 2, ci_bestVariableAmountStroops = None\<rparr>"

lemma js_one_percent: "percentToBps 1 = Inr 100" "percentToBps (1 / 2) = Inr 50"
  by code_simp+

lemma sample_comparison_runs:
  "\<exists>r s. compareSlippageScenarios sample_comparison = Inr r \<and> s \<in> set (cr_scenarios r)
     \<and> percentToBps (so_slippagePercent s) = Inr 50"
proof -
  have u: "unique_bps [100, 50] = [50, 100]" by (simp add: unique_bps_def)
  have p: "bpsToPercent 50 = Inr (js_div 50 100)" "bpsToPercent 100 = Inr (js_div 100 100)"
    using bpsToPercent_def' [of 50] bpsToPercent_def' [of 100] by simp_all
  have q: "percentToBps (js_div 50 100) = Inr 50" "percentToBps (js_div 100 100) = Inr 100"
    using percentToBps_bpsToPercent [OF _ _ p(1)] percentToBps_bpsToPercent [OF _ _ p(2)] by simp_all
  have "\<exists>r s. compareSlippageScenarios sample_comparison = Inr r \<and> cr_scenarios r = s # tl (cr_scenarios r)
      \<and> percentToBps (so_slippagePercent s) = Inr 50"
    by (simp add: compareSlippageScenarios_def sample_comparison_def readLegs_def readPercent_def
        js_one_percent FULL_SCALE_BPS_def u p q adverseVariableAmount_def guaranteeAmount_def
        scaleDown_eq scenario_row_def routeDispersionPercent_def Let_def)
  then show ?thesis by (metis list.set_intros(1))
qed

theorem verdict_matches_tolerance_witness:
  "\<exists>r s g. compareSlippageScenarios sample_comparison = Inr r \<and> s \<in> set (cr_scenarios r)
     \<and> guaranteeAmount Strict_send 100000 50 = Inr g \<and> so_guarantee s = fromStroops g
     \<and> so_verdict s = Exact"
proof -
  obtain r s where r: "compareSlippageScenarios sample_comparison = Inr r"
    and s: "s \<in> set (cr_scenarios r)" "percentToBps (so_slippagePercent s) = Inr 50"
    using sample_comparison_runs by blast
  have m: "readPercent (ci_adverseMovePercent sample_comparison) ''adverseMovePercent'' = Inr 50"
    by (simp add: sample_comparison_def readPercent_def js_one_percent FULL_SCALE_BPS_def)
  have "ci_direction sample_comparison = Strict_send" "ci_variableAmountStroops sample_comparison = 100000"
    by (simp_all add: sample_comparison_def)
  then show ?thesis using r s verdict_matches_tolerance [OF r s(1) m]
    by (cases "so_verdict s") auto
qed

text \<open>
  The recommendation is the narrowest compared tolerance that covers the move: the table is
  strictly ascending and lists exactly the requested tolerances; if none covers the move the
  recommendation is \<open>null\<close> and \<open>exceededByEveryScenario\<close> is set, otherwise it is the least
  tolerance at or above the move, and its row does not fail.
\<close>

theorem recommendation_narrowest:
  assumes "compareSlippageScenarios i = Inr r"
    and "readPercent (ci_adverseMovePercent i) ''adverseMovePercent'' = Inr m"
    and "map_result (\<lambda>p. readPercent p ''slippageScenarios'') (ci_slippageScenarios i) = Inr bs"
  shows "sorted_wrt (<) (map row_bps (cr_scenarios r)) \<and> row_bps ` set (cr_scenarios r) = set bs
    \<and> (case cr_recommendedSlippagePercent r of
         None \<Rightarrow> cr_exceededByEveryScenario r \<and> (\<forall>b \<in> set bs. b < m)
       | Some p \<Rightarrow> \<not> cr_exceededByEveryScenario r \<and> (\<exists>b \<in> set bs. percentToBps p = Inr b \<and> m \<le> b
           \<and> (\<forall>c \<in> set bs. m \<le> c \<longrightarrow> b \<le> c)))"
proof -
  let ?d = "ci_direction i" and ?v = "ci_variableAmountStroops i" and ?ss = "cr_scenarios r"
  obtain bs' adv rec where
    "map_result (\<lambda>p. readPercent p ''slippageScenarios'') (ci_slippageScenarios i) = Inr bs'"
    and bs': "\<forall>b \<in> set bs'. 0 \<le> b \<and> b \<le> 10000"
    and rows': "map_result (scenario_row ?d ?v adv) (unique_bps bs') = Inr ?ss"
    and rec: "find_recommended m ?ss = Inr rec"
      "cr_recommendedSlippagePercent r = map_option so_slippagePercent rec"
      "cr_exceededByEveryScenario r = (rec = None)"
    by (rule compareD [OF assms(1,2)])
  then have "bs' = bs" using assms(3) by simp
  note bs = bs' [unfolded this] and rows = rows' [unfolded this]
  have R: "map row_bps ?ss = unique_bps bs"
    "\<forall>s \<in> set ?ss. percentToBps (so_slippagePercent s) = Inr (row_bps s)"
    using rows_bps [OF rows] bs by simp_all
  have sorted: "sorted_wrt (<) (map row_bps ?ss)" by (simp add: R unique_bps_sorted)
  have img: "row_bps ` set ?ss = set bs" by (metis R(1) list.set_map set_unique_bps)
  have "rec = find (\<lambda>s. m \<le> row_bps s) ?ss" using rec(1) find_recommended_correct [OF R(2)] by simp
  then show ?thesis
  proof (cases rec)
    case None
    with \<open>rec = find _ _\<close> have "\<forall>s \<in> set ?ss. \<not> m \<le> row_bps s" by (metis find_None_iff)
    then have "\<forall>b \<in> set bs. b < m" unfolding img [symmetric] by auto
    with None sorted img rec show ?thesis by simp
  next
    case (Some s)
    with \<open>rec = find _ _\<close> obtain k where k: "k < length ?ss" "m \<le> row_bps (?ss ! k)" "s = ?ss ! k"
      "\<forall>j<k. \<not> m \<le> row_bps (?ss ! j)" by (metis find_Some_iff)
    have least: "row_bps s \<le> row_bps t" if t: "t \<in> set ?ss" "m \<le> row_bps t" for t
    proof -
      from t(1) obtain j where j: "j < length ?ss" "t = ?ss ! j" by (metis in_set_conv_nth)
      then have "k \<le> j" using k(4) t(2) by (metis not_le)
      then show ?thesis using sorted_wrt_nth_less [OF sorted, of k j] j k
        by (cases "k = j") simp_all
    qed
    have "s \<in> set ?ss" using k by simp
    then show ?thesis using Some sorted rec R(2) k least unfolding img [symmetric] by auto
  qed
qed

theorem recommendation_narrowest_witness:
  "\<exists>r p. compareSlippageScenarios sample_comparison = Inr r \<and>
     cr_recommendedSlippagePercent r = Some p \<and> percentToBps p = Inr 50"
proof -
  obtain r where r: "compareSlippageScenarios sample_comparison = Inr r"
    using sample_comparison_runs by blast
  have m: "readPercent (ci_adverseMovePercent sample_comparison) ''adverseMovePercent'' = Inr 50"
    and bs: "map_result (\<lambda>p. readPercent p ''slippageScenarios'')
      (ci_slippageScenarios sample_comparison) = Inr [100, 50]"
    by (simp_all add: sample_comparison_def readPercent_def js_one_percent FULL_SCALE_BPS_def)
  show ?thesis using r recommendation_narrowest [OF r m bs]
    by (cases "cr_recommendedSlippagePercent r") auto
qed

text \<open>
  The recommended row may be the one whose verdict is \<open>exact\<close>, which the verdict's own comment
  says is not a pass.
\<close>

lemma recommended_may_be_exact:
  "\<exists>s. scenario_row Strict_send 100000 99500 50 = Inr s \<and> so_verdict s = Exact
     \<and> find_recommended 50 [s] = Inr (Some s)"
proof -
  have p: "bpsToPercent 50 = Inr (js_div 50 100)" using bpsToPercent_def' [of 50] by simp
  have q: "percentToBps (js_div 50 100) = Inr 50" using percentToBps_bpsToPercent [OF _ _ p] by simp
  show ?thesis
    by (simp add: scenario_row_def guaranteeAmount_def FULL_SCALE_BPS_def scaleDown_eq p q Let_def
        headroom_of_def verdict_of_def)
qed

end
