(* ===== verification/BoundedTtlMap.thy ===== *)
theory BoundedTtlMap
  imports Prelude JsNumber
begin

text \<open>
  \<open>apps/api/src/common/bounded-ttl-map.ts\<close>: the cache that every replica-local store of the API
  uses. \<open>bm_entries\<close> is the insertion-ordered \<open>Map\<close>, coldest key first; the clock
  (\<open>Date.now()\<close>) is the argument \<open>now\<close> of every operation. The locale \<open>ttl_cache\<close> is
  the interface the clients rely on; the cache is its instance.
\<close>

section \<open>Model\<close>

record cache_options =
  co_maxEntries :: js_num
  co_ttlMs :: js_num
  co_sweepIntervalMs :: "js_num option"

record 'v cache_entry =
  ce_value :: 'v
  ce_expiresAt :: js_num

record ('k, 'v) bounded_map =
  bm_entries :: "('k, 'v cache_entry) jmap"
  bm_maxEntries :: js_num
  bm_ttlMs :: js_num
  bm_sweepTimer :: "js_num option"

definition new_bounded_map :: "cache_options \<Rightarrow> js_error + ('k, 'v) bounded_map" where
  "new_bounded_map options =
     (if of_int \<lfloor>co_maxEntries options\<rfloor> \<noteq> co_maxEntries options \<or> co_maxEntries options \<le> 0
      then Inl (RangeError ''BoundedTtlMap: maxEntries must be a positive integer'')
      else if co_ttlMs options \<le> 0
      then Inl (RangeError ''BoundedTtlMap: ttlMs must be a positive number'')
      else case co_sweepIntervalMs options of
          Some interval \<Rightarrow>
            if interval \<le> 0
            then Inl (RangeError ''BoundedTtlMap: sweepIntervalMs must be a positive number'')
            else Inr \<lparr>bm_entries = [], bm_maxEntries = co_maxEntries options,
                      bm_ttlMs = co_ttlMs options, bm_sweepTimer = Some interval\<rparr>
        | None \<Rightarrow> Inr \<lparr>bm_entries = [], bm_maxEntries = co_maxEntries options,
                        bm_ttlMs = co_ttlMs options, bm_sweepTimer = None\<rparr>)"

definition bm_size :: "('k, 'v) bounded_map \<Rightarrow> nat" where
  "bm_size m = length (bm_entries m)"

definition bm_get :: "('k, 'v) bounded_map \<Rightarrow> 'k \<Rightarrow> js_num \<Rightarrow> 'v option \<times> ('k, 'v) bounded_map" where
  "bm_get m key now =
     (case jm_get (bm_entries m) key of
        None \<Rightarrow> (None, m)
      | Some entry \<Rightarrow>
          if ce_expiresAt entry \<le> now
          then (None, m\<lparr>bm_entries := jm_delete (bm_entries m) key\<rparr>)
          else (Some (ce_value entry),
                m\<lparr>bm_entries := jm_set (jm_delete (bm_entries m) key) key entry\<rparr>))"

definition bm_has :: "('k, 'v) bounded_map \<Rightarrow> 'k \<Rightarrow> js_num \<Rightarrow> bool \<times> ('k, 'v) bounded_map" where
  "bm_has m key now = (let (v, m') = bm_get m key now in (v \<noteq> None, m'))"

text \<open>\<open>while (this.entries.size > this.maxEntries)\<close> delete the oldest key.\<close>

function trim_entries :: "js_num \<Rightarrow> ('k, 'v) jmap \<Rightarrow> ('k, 'v) jmap" where
  "trim_entries maxEntries m =
     (if of_nat (length m) > maxEntries
      then case m of [] \<Rightarrow> m | e # _ \<Rightarrow> trim_entries maxEntries (jm_delete m (fst e))
      else m)"
  by pat_completeness auto
termination
  by (relation "measure (\<lambda>(_, m). length m)")
    (auto simp: jm_delete_def less_Suc_eq_le)

definition bm_set :: "('k, 'v) bounded_map \<Rightarrow> 'k \<Rightarrow> 'v \<Rightarrow> js_num \<Rightarrow> ('k, 'v) bounded_map" where
  "bm_set m key v now =
     m\<lparr>bm_entries := trim_entries (bm_maxEntries m)
        (jm_set (jm_delete (bm_entries m) key) key
           \<lparr>ce_value = v, ce_expiresAt = js_add now (bm_ttlMs m)\<rparr>)\<rparr>"

definition bm_delete :: "('k, 'v) bounded_map \<Rightarrow> 'k \<Rightarrow> bool \<times> ('k, 'v) bounded_map" where
  "bm_delete m key = (jm_has (bm_entries m) key, m\<lparr>bm_entries := jm_delete (bm_entries m) key\<rparr>)"

definition bm_clear :: "('k, 'v) bounded_map \<Rightarrow> ('k, 'v) bounded_map" where
  "bm_clear m = m\<lparr>bm_entries := []\<rparr>"

definition bm_keys :: "('k, 'v) bounded_map \<Rightarrow> js_num \<Rightarrow> 'k list" where
  "bm_keys m now = map fst (filter (\<lambda>e. ce_expiresAt (snd e) > now) (bm_entries m))"

fun sweep_entries :: "js_num \<Rightarrow> ('k, 'v cache_entry) jmap \<Rightarrow> nat \<times> ('k, 'v cache_entry) jmap" where
  "sweep_entries now [] = (0, [])"
| "sweep_entries now (e # m) =
     (let (removed, m') = sweep_entries now m
      in if ce_expiresAt (snd e) \<le> now then (removed + 1, m') else (removed, e # m'))"

definition bm_sweep :: "('k, 'v) bounded_map \<Rightarrow> js_num \<Rightarrow> nat \<times> ('k, 'v) bounded_map" where
  "bm_sweep m now =
     (let (removed, es) = sweep_entries now (bm_entries m) in (removed, m\<lparr>bm_entries := es\<rparr>))"

definition bm_dispose :: "('k, 'v) bounded_map \<Rightarrow> ('k, 'v) bounded_map" where
  "bm_dispose m = m\<lparr>bm_sweepTimer := None\<rparr>"

text \<open>The state-changing calls, and a run of them.\<close>

datatype ('k, 'v) cache_op =
    Op_get 'k js_num
  | Op_has 'k js_num
  | Op_set 'k 'v js_num
  | Op_delete 'k
  | Op_clear
  | Op_sweep js_num
  | Op_dispose

fun bm_step :: "('k, 'v) cache_op \<Rightarrow> ('k, 'v) bounded_map \<Rightarrow> ('k, 'v) bounded_map" where
  "bm_step (Op_get k now) m = snd (bm_get m k now)"
| "bm_step (Op_has k now) m = snd (bm_has m k now)"
| "bm_step (Op_set k v now) m = bm_set m k v now"
| "bm_step (Op_delete k) m = snd (bm_delete m k)"
| "bm_step Op_clear m = bm_clear m"
| "bm_step (Op_sweep now) m = snd (bm_sweep m now)"
| "bm_step Op_dispose m = bm_dispose m"

definition bm_run :: "('k, 'v) cache_op list \<Rightarrow> ('k, 'v) bounded_map \<Rightarrow> ('k, 'v) bounded_map" where
  "bm_run ops m = fold bm_step ops m"

section \<open>The interface\<close>

text \<open>
  What a client may assume of a cache. \<open>view s k\<close> is the stored value and its expiry. A write may
  evict other keys, so \<open>view_set_other\<close> only promises that it changes none of them.
\<close>

locale ttl_cache =
  fixes inv :: "'s \<Rightarrow> bool"
    and view :: "'s \<Rightarrow> 'k \<Rightarrow> ('v \<times> js_num) option"
    and get :: "'s \<Rightarrow> 'k \<Rightarrow> js_num \<Rightarrow> 'v option \<times> 's"
    and put :: "'s \<Rightarrow> 'k \<Rightarrow> 'v \<Rightarrow> js_num \<Rightarrow> 's"
    and del :: "'s \<Rightarrow> 'k \<Rightarrow> bool \<times> 's"
    and expiry :: "'s \<Rightarrow> js_num \<Rightarrow> js_num"
  assumes inv_get: "inv s \<Longrightarrow> inv (snd (get s k now))"
    and inv_put: "inv s \<Longrightarrow> inv (put s k v now)"
    and inv_del: "inv s \<Longrightarrow> inv (snd (del s k))"
    and get_value: "inv s \<Longrightarrow> fst (get s k now) =
      (case view s k of None \<Rightarrow> None | Some (v, e) \<Rightarrow> if e \<le> now then None else Some v)"
    and view_get: "inv s \<Longrightarrow> view (snd (get s k now)) k' =
      (if k' = k then (case view s k of None \<Rightarrow> None
         | Some (v, e) \<Rightarrow> if e \<le> now then None else Some (v, e)) else view s k')"
    and view_put: "inv s \<Longrightarrow> view (put s k v now) k = Some (v, expiry s now)"
    and view_put_other: "inv s \<Longrightarrow> k' \<noteq> k \<Longrightarrow>
      view (put s k v now) k' = None \<or> view (put s k v now) k' = view s k'"
    and view_del: "inv s \<Longrightarrow> view (snd (del s k)) k' = (if k' = k then None else view s k')"
begin

lemma get_after_put: "inv s \<Longrightarrow> now' < expiry s now \<Longrightarrow> fst (get (put s k v now) k now') = Some v"
  by (simp add: get_value inv_put view_put)

lemma get_after_expiry: "inv s \<Longrightarrow> expiry s now \<le> now' \<Longrightarrow> fst (get (put s k v now) k now') = None"
  by (simp add: get_value inv_put view_put)

lemma get_after_del: "inv s \<Longrightarrow> fst (get (snd (del s k)) k now) = None"
  by (simp add: get_value inv_del view_del)

text \<open>A read followed by a delete: what the clients use to make a value single-use.\<close>

lemma take_inv: "inv s \<Longrightarrow> inv (snd (del (snd (get s k now)) k))"
  by (simp add: inv_get inv_del)

lemma take_view:
  "inv s \<Longrightarrow> view (snd (del (snd (get s k now)) k)) k' = (if k' = k then None else view s k')"
  by (simp add: view_del inv_get view_get)

lemma take_once: "inv s \<Longrightarrow> fst (get (snd (del (snd (get s k now)) k)) k now') = None"
  by (simp add: get_value take_inv take_view)

end

section \<open>The cache satisfies the interface\<close>

definition bm_ok :: "('k, 'v) bounded_map \<Rightarrow> bool" where
  "bm_ok m \<longleftrightarrow> jm_ok (bm_entries m) \<and> of_nat (length (bm_entries m)) \<le> bm_maxEntries m
     \<and> 1 \<le> bm_maxEntries m"

definition bm_view :: "('k, 'v) bounded_map \<Rightarrow> 'k \<Rightarrow> ('v \<times> js_num) option" where
  "bm_view m k = map_option (\<lambda>e. (ce_value e, ce_expiresAt e)) (jm_get (bm_entries m) k)"

definition bm_expiry :: "('k, 'v) bounded_map \<Rightarrow> js_num \<Rightarrow> js_num" where
  "bm_expiry m now = js_add now (bm_ttlMs m)"

declare trim_entries.simps [simp del]

text \<open>With distinct keys the trim drops a prefix: the coldest keys.\<close>

lemma jm_delete_head: "jm_ok (e # m) \<Longrightarrow> jm_delete (e # m) (fst e) = m"
  unfolding jm_ok_def jm_delete_def by (auto intro!: filter_True simp: image_iff)

lemma jm_ok_tl: "jm_ok (e # m) \<Longrightarrow> jm_ok m"
  by (simp add: jm_ok_def)

lemma trim_entries_Cons:
  "jm_ok (e # m) \<Longrightarrow> of_nat (length (e # m)) > n \<Longrightarrow> trim_entries n (e # m) = trim_entries n m"
  by (subst trim_entries.simps) (simp add: jm_delete_head)

lemma trim_entries_id: "of_nat (length m) \<le> n \<Longrightarrow> trim_entries n m = m"
  by (subst trim_entries.simps) simp

lemma trim_entries_drop:
  assumes "jm_ok m" "0 \<le> n"
  obtains j where "trim_entries n m = drop j m" "of_nat (length m - j) \<le> n"
    "j = 0 \<or> n < of_nat (length m - j + 1)"
proof -
  have "\<exists>j. trim_entries n m = drop j m \<and> of_nat (length m - j) \<le> n
      \<and> (j = 0 \<or> n < of_nat (length m - j + 1))"
    using assms(1)
  proof (induction m)
    case Nil
    then show ?case using assms(2) by (simp add: trim_entries_id)
  next
    case (Cons e m)
    show ?case
    proof (cases "of_nat (length (e # m)) > n")
      case True
      obtain j where j: "trim_entries n m = drop j m" "of_nat (length m - j) \<le> n"
        "j = 0 \<or> n < of_nat (length m - j + 1)"
        using Cons jm_ok_tl by blast
      have "trim_entries n (e # m) = drop (Suc j) (e # m)"
        using trim_entries_Cons [OF Cons.prems True] j(1) by simp
      moreover have "n < of_nat (length (e # m) - Suc j + 1)" using j(3) True by auto
      ultimately show ?thesis using j(2) by (intro exI [of _ "Suc j"]) simp
    next
      case False
      then show ?thesis by (intro exI [of _ 0]) (simp add: trim_entries_id)
    qed
  qed
  then show thesis using that by blast
qed

lemma jm_ok_drop: "jm_ok m \<Longrightarrow> jm_ok (drop j m)"
  by (simp add: jm_ok_def drop_map [symmetric] distinct_drop)

lemma jm_get_drop: "jm_ok m \<Longrightarrow> jm_get (drop j m) k = None \<or> jm_get (drop j m) k = jm_get m k"
proof (induction m arbitrary: j)
  case (Cons e m)
  then show ?case
  proof (cases j)
    case (Suc i)
    then have "jm_get (drop i m) k = None \<or> jm_get (drop i m) k = jm_get m k"
      using Cons jm_ok_tl by blast
    moreover have "fst e = k \<Longrightarrow> jm_get m k = None"
      using Cons.prems by (auto simp: jm_ok_def jm_get_None_iff)
    ultimately show ?thesis using Suc by (cases e) auto
  qed simp
qed simp

lemma jm_set_absent: "k \<notin> fst ` set m \<Longrightarrow> jm_set m k v = m @ [(k, v)]"
  by (induction m k v rule: jm_set.induct) auto

lemma jm_reinsert: "jm_set (jm_delete m k) k v = jm_delete m k @ [(k, v)]"
  by (rule jm_set_absent) (auto simp: jm_delete_def)

lemma bm_sizes: "length (jm_delete m k @ [(k, v)]) \<le> Suc (length m)"
  using length_jm_delete [of m k] by simp

lemma jm_delete_present: "jm_get m k = Some e \<Longrightarrow> length (jm_delete m k) < length m"
  using jm_get_Some_in [of m k e] unfolding jm_delete_def by (intro length_filter_less) auto

lemma bm_set_entries:
  assumes "bm_ok m"
  obtains j where "bm_entries (bm_set m k v now) =
      drop j (jm_delete (bm_entries m) k) @ [(k, \<lparr>ce_value = v, ce_expiresAt = bm_expiry m now\<rparr>)]"
    "of_nat (length (bm_entries (bm_set m k v now))) \<le> bm_maxEntries m"
    "j = 0 \<or> bm_maxEntries m < of_nat (length (bm_entries (bm_set m k v now)) + 1)"
proof -
  let ?e = "(k, \<lparr>ce_value = v, ce_expiresAt = bm_expiry m now\<rparr>)"
  let ?d = "jm_delete (bm_entries m) k"
  have ok: "jm_ok (?d @ [?e])"
    using assms by (auto simp: bm_ok_def jm_ok_def jm_delete_def distinct_map_filter)
  obtain j where j: "trim_entries (bm_maxEntries m) (?d @ [?e]) = drop j (?d @ [?e])"
    "of_nat (length (?d @ [?e]) - j) \<le> bm_maxEntries m"
    "j = 0 \<or> bm_maxEntries m < of_nat (length (?d @ [?e]) - j + 1)"
    by (rule trim_entries_drop [OF ok, of "bm_maxEntries m"]) (use assms in \<open>simp add: bm_ok_def\<close>)
  have set_eq: "bm_entries (bm_set m k v now) = drop j (?d @ [?e])"
    using j(1) by (simp add: bm_set_def jm_reinsert bm_expiry_def)
  have "j \<le> length ?d"
  proof (rule ccontr)
    assume "\<not> j \<le> length ?d"
    then have "bm_maxEntries m < 1" using j(3) by auto
    then show False using assms by (simp add: bm_ok_def)
  qed
  then show thesis using that [of j] set_eq j(2,3) by simp
qed


lemma jm_get_append:
  "jm_get (xs @ ys) k = (case jm_get xs k of None \<Rightarrow> jm_get ys k | Some v \<Rightarrow> Some v)"
  by (induction xs) auto

lemma bm_set_ok: "bm_ok m \<Longrightarrow> bm_ok (bm_set m k v now)"
proof -
  assume ok: "bm_ok m"
  obtain j where j: "bm_entries (bm_set m k v now) =
      drop j (jm_delete (bm_entries m) k) @ [(k, \<lparr>ce_value = v, ce_expiresAt = bm_expiry m now\<rparr>)]"
    "of_nat (length (bm_entries (bm_set m k v now))) \<le> bm_maxEntries m"
    by (rule bm_set_entries [OF ok])
  have "k \<notin> fst ` set (drop j (jm_delete (bm_entries m) k))"
    by (auto dest!: in_set_dropD simp: jm_delete_def)
  then have "jm_ok (bm_entries (bm_set m k v now))"
    using jm_ok_drop [of "jm_delete (bm_entries m) k" j] jm_ok_delete [of "bm_entries m" k] ok
    unfolding j(1) by (simp add: bm_ok_def jm_ok_def)
  then show ?thesis using j(2) ok by (simp add: bm_ok_def bm_set_def)
qed

lemma bm_get_ok: "bm_ok m \<Longrightarrow> bm_ok (snd (bm_get m k now))"
proof -
  assume ok: "bm_ok m"
  have "of_nat (length (jm_delete (bm_entries m) k)) \<le> bm_maxEntries m"
    using ok length_jm_delete [of "bm_entries m" k] order_trans [OF of_nat_mono] by (auto simp: bm_ok_def)
  moreover have "of_nat (Suc (length (jm_delete (bm_entries m) k))) \<le> bm_maxEntries m"
    if "jm_get (bm_entries m) k = Some e" for e
    using ok jm_delete_present [OF that] order_trans [OF of_nat_mono [OF Suc_leI]]
    unfolding bm_ok_def by blast
  ultimately show ?thesis using ok
    by (auto simp: bm_get_def bm_ok_def jm_reinsert split: option.splits)
      (auto simp: jm_ok_def jm_delete_def distinct_map_filter)
qed

lemma bm_delete_ok: "bm_ok m \<Longrightarrow> bm_ok (snd (bm_delete m k))"
  using length_jm_delete [of "bm_entries m" k] order_trans [OF of_nat_mono]
  by (auto simp: bm_delete_def bm_ok_def)

lemma bm_view_set:
  assumes "bm_ok m"
  shows "bm_view (bm_set m k v now) k = Some (v, bm_expiry m now)"
    and "k' \<noteq> k \<Longrightarrow> bm_view (bm_set m k v now) k' = None \<or> bm_view (bm_set m k v now) k' = bm_view m k'"
proof -
  let ?d = "jm_delete (bm_entries m) k"
  obtain j where j: "bm_entries (bm_set m k v now) =
      drop j ?d @ [(k, \<lparr>ce_value = v, ce_expiresAt = bm_expiry m now\<rparr>)]"
    by (rule bm_set_entries [OF assms])
  have d: "jm_ok ?d" using assms by (simp add: bm_ok_def)
  have "jm_get (drop j ?d) k = None"
    using jm_get_drop [OF d, of j k] by simp
  then show "bm_view (bm_set m k v now) k = Some (v, bm_expiry m now)"
    by (simp add: bm_view_def j jm_get_append)
  show "bm_view (bm_set m k v now) k' = None \<or> bm_view (bm_set m k v now) k' = bm_view m k'"
    if "k' \<noteq> k"
    using jm_get_drop [OF d, of j k'] that
    by (auto simp: bm_view_def j jm_get_append split: option.splits)
qed

lemma bm_view_get:
  "bm_view (snd (bm_get m k now)) k' =
      (if k' = k then (case bm_view m k of None \<Rightarrow> None
         | Some (v, e) \<Rightarrow> if e \<le> now then None else Some (v, e)) else bm_view m k')"
  by (auto simp: bm_view_def bm_get_def jm_reinsert jm_get_append split: option.splits)

lemma bm_get_value:
  "fst (bm_get m k now) =
      (case bm_view m k of None \<Rightarrow> None | Some (v, e) \<Rightarrow> if e \<le> now then None else Some v)"
  by (simp add: bm_view_def bm_get_def split: option.splits)

lemma bm_view_delete: "bm_view (snd (bm_delete m k)) k' = (if k' = k then None else bm_view m k')"
  by (simp add: bm_view_def bm_delete_def)

interpretation bm: ttl_cache bm_ok bm_view bm_get bm_set bm_delete bm_expiry
  by unfold_locales
    (auto simp: bm_get_ok bm_set_ok bm_delete_ok bm_get_value bm_view_get bm_view_delete
       bm_view_set dest: bm_view_set(2))


section \<open>Runs of the cache\<close>

text \<open>The last write of a key that no later call has deleted, with the time of the write.\<close>

fun last_write_step :: "'k \<Rightarrow> ('k, 'v) cache_op \<Rightarrow> ('v \<times> js_num) option \<Rightarrow> ('v \<times> js_num) option" where
  "last_write_step k (Op_set k' v now) w = (if k' = k then Some (v, now) else w)"
| "last_write_step k (Op_delete k') w = (if k' = k then None else w)"
| "last_write_step k Op_clear w = None"
| "last_write_step k _ w = w"

definition last_write :: "'k \<Rightarrow> ('k, 'v) cache_op list \<Rightarrow> ('v \<times> js_num) option" where
  "last_write k ops = fold (last_write_step k) ops None"

lemma sweep_entries_filter:
  "snd (sweep_entries now m) = filter (\<lambda>e. now < ce_expiresAt (snd e)) m"
  "fst (sweep_entries now m) = length (filter (\<lambda>e. \<not> now < ce_expiresAt (snd e)) m)"
  by (induction m) (auto simp: split_beta)

lemma bm_sweep_entries:
  "snd (bm_sweep m now) = m\<lparr>bm_entries := filter (\<lambda>e. now < ce_expiresAt (snd e)) (bm_entries m)\<rparr>"
  by (simp add: bm_sweep_def split_beta sweep_entries_filter)

lemma bm_has_state [simp]: "snd (bm_has m k now) = snd (bm_get m k now)"
  by (simp add: bm_has_def split_beta)

lemma jm_get_filter:
  "jm_ok m \<Longrightarrow> jm_get (filter P m) k = (case jm_get m k of None \<Rightarrow> None | Some v \<Rightarrow> if P (k, v) then Some v else None)"
proof (induction m)
  case (Cons e m)
  have ok: "jm_ok m" using Cons.prems by (rule jm_ok_tl)
  have "fst e = k \<Longrightarrow> jm_get m k = None"
    using Cons.prems by (auto simp: jm_ok_def jm_get_None_iff)
  then show ?case using Cons.IH [OF ok] by (cases e) (auto split: option.splits)
qed simp

lemma bm_sweep_ok: "bm_ok m \<Longrightarrow> bm_ok (snd (bm_sweep m now))"
  using order_trans [OF of_nat_mono [OF length_filter_le]]
  by (auto simp: bm_ok_def bm_sweep_entries)

lemma bm_step_ok: "bm_ok m \<Longrightarrow> bm_ok (bm_step op m)"
  by (cases op) (simp_all add: bm_get_ok bm_set_ok bm_delete_ok bm_sweep_ok,
    simp_all add: bm_clear_def bm_dispose_def bm_ok_def)

lemma bm_step_limits [simp]:
  "bm_maxEntries (bm_step op m) = bm_maxEntries m" "bm_ttlMs (bm_step op m) = bm_ttlMs m"
  by (cases op; simp add: bm_get_def bm_set_def bm_delete_def bm_clear_def bm_dispose_def
      bm_sweep_entries split: option.split)+

lemma bm_run_ok: "bm_ok m \<Longrightarrow> bm_ok (bm_run ops m) \<and> bm_maxEntries (bm_run ops m) = bm_maxEntries m
    \<and> bm_ttlMs (bm_run ops m) = bm_ttlMs m"
  unfolding bm_run_def by (induction ops arbitrary: m) (simp_all add: bm_step_ok)

text \<open>What the cache holds of a key is the value of its last write, or nothing.\<close>

definition holds_write :: "('k, 'v) bounded_map \<Rightarrow> 'k \<Rightarrow> ('v \<times> js_num) option \<Rightarrow> bool" where
  "holds_write m k w \<longleftrightarrow> (\<forall>v e. bm_view m k = Some (v, e) \<longrightarrow> (\<exists>t. w = Some (v, t) \<and> e = bm_expiry m t))"

lemma bm_expiry_step [simp]: "bm_expiry (bm_step op m) t = bm_expiry m t"
  by (simp add: bm_expiry_def)

lemmas bm_expiry_ops [simp] =
  bm_expiry_step [of "Op_set k v now" for k v now, simplified]
  bm_expiry_step [of "Op_delete k" for k, simplified]

lemma bm_step_view:
  assumes "bm_ok m"
  shows "bm_view (bm_step op m) k = None \<or> bm_view (bm_step op m) k = bm_view m k
    \<or> (\<exists>v t. op = Op_set k v t \<and> bm_view (bm_step op m) k = Some (v, bm_expiry m t))"
proof (cases op)
  case (Op_set k' v t)
  then show ?thesis using bm_view_set(1) [OF assms, of k v t] bm_view_set(2) [OF assms, of k k' v t]
    by (cases "k' = k") auto
next
  case (Op_sweep t)
  then show ?thesis using assms
    by (auto simp: bm_sweep_entries bm_view_def bm_ok_def jm_get_filter split: option.split)
qed (simp_all add: bm_view_get bm_view_delete split: option.split,
    simp_all add: bm_clear_def bm_dispose_def bm_view_def)

lemma holds_write_step:
  assumes "bm_ok m" "holds_write m k w"
  shows "holds_write (bm_step op m) k (last_write_step k op w)"
proof (cases op)
  case (Op_set k' v t)
  then show ?thesis using assms(2) bm_view_set(1) [OF assms(1), of k v t] bm_view_set(2) [OF assms(1), of k k' v t]
    by (cases "k' = k") (auto simp: holds_write_def)
next
  case (Op_delete k')
  then show ?thesis using assms(2) by (auto simp: holds_write_def bm_view_delete)
next
  case Op_clear
  then show ?thesis by (simp add: holds_write_def bm_clear_def bm_view_def)
qed (use assms(2) bm_step_view [OF assms(1), of op k] bm_expiry_step [of op m] in \<open>auto simp: holds_write_def\<close>)

lemma holds_write_run:
  "bm_ok m \<Longrightarrow> holds_write m k w \<Longrightarrow> holds_write (bm_run ops m) k (fold (last_write_step k) ops w)"
  unfolding bm_run_def
  by (induction ops arbitrary: m w) (simp_all add: bm_step_ok holds_write_step)

lemma new_bounded_mapD:
  assumes "new_bounded_map options = Inr m"
  shows "bm_ok m" "bm_entries m = []" "bm_maxEntries m = co_maxEntries options"
    "bm_ttlMs m = co_ttlMs options"
proof -
  have n: "0 < \<lfloor>co_maxEntries options\<rfloor>" if "of_int \<lfloor>co_maxEntries options\<rfloor> = co_maxEntries options"
    "0 < co_maxEntries options"
    using that by (metis of_int_0_less_iff)
  show "bm_entries m = []" "bm_maxEntries m = co_maxEntries options" "bm_ttlMs m = co_ttlMs options"
    using assms by (auto simp: new_bounded_map_def split: if_splits option.splits)
  moreover have "1 \<le> co_maxEntries options"
    using assms n by (auto simp: new_bounded_map_def split: if_splits)
  ultimately show "bm_ok m" by (simp add: bm_ok_def)
qed

section \<open>Least recently used\<close>

text \<open>The keys a call moves to the hot end, and the calls that cannot remove \<open>k\<close> by themselves.\<close>

fun op_touches :: "('k, 'v) cache_op \<Rightarrow> 'k list" where
  "op_touches (Op_get k _) = [k]"
| "op_touches (Op_has k _) = [k]"
| "op_touches (Op_set k _ _) = [k]"
| "op_touches _ = []"

fun spares :: "'k \<Rightarrow> js_num \<Rightarrow> ('k, 'v) cache_op \<Rightarrow> bool" where
  "spares k e (Op_get k' now) = (k' = k \<longrightarrow> now < e)"
| "spares k e (Op_has k' now) = (k' = k \<longrightarrow> now < e)"
| "spares k e (Op_set k' _ _) = (k' \<noteq> k)"
| "spares k e (Op_delete k') = (k' \<noteq> k)"
| "spares k e Op_clear = False"
| "spares k e (Op_sweep now) = (now < e)"
| "spares k e Op_dispose = True"

text \<open>Everything hotter than \<open>k\<close> has been touched since.\<close>

definition hot :: "('k, 'v cache_entry) jmap \<Rightarrow> 'k \<Rightarrow> 'v cache_entry \<Rightarrow> 'k set \<Rightarrow> bool" where
  "hot es k e T \<longleftrightarrow> (\<exists>xs ys. es = xs @ (k, e) # ys \<and> (\<forall>p \<in> set ys. fst p \<in> T))"

lemma hot_filter: "hot es k e T \<Longrightarrow> P (k, e) \<Longrightarrow> hot (filter P es) k e T"
  unfolding hot_def by (elim exE conjE, rule exI, rule exI) (auto intro: conjI [OF refl])

lemma hot_delete: "hot es k e T \<Longrightarrow> k' \<noteq> k \<Longrightarrow> hot (jm_delete es k') k e T"
  unfolding jm_delete_def by (rule hot_filter) auto

lemma hot_append: "hot es k e T \<Longrightarrow> k' \<in> T \<Longrightarrow> hot (es @ [(k', e')]) k e T"
  unfolding hot_def by (elim exE conjE, rule exI, rule exI) (auto intro: conjI [OF refl])

lemma hot_end: "hot (es @ [(k, e)]) k e T"
  unfolding hot_def by (intro exI [of _ es] exI [of _ "[]"]) simp

lemma hot_drop:
  assumes "hot es k e T" "jm_ok es" "finite T" "card T < length (drop j es)"
  shows "hot (drop j es) k e T"
proof -
  obtain xs ys where es: "es = xs @ (k, e) # ys" "fst ` set ys \<subseteq> T" using assms(1) by (auto simp: hot_def)
  have "distinct (map fst ys)" using assms(2) es by (simp add: jm_ok_def)
  then have "length ys = card (fst ` set ys)" by (metis distinct_card length_map list.set_map)
  then have "length ys \<le> card T" using es(2) assms(3) by (simp add: card_mono)
  then have "j \<le> length xs" using assms(4) es(1) by simp
  then show ?thesis unfolding hot_def using es by (intro exI [of _ "drop j xs"] exI [of _ ys]) auto
qed


lemma hot_get: "hot es k e T \<Longrightarrow> jm_ok es \<Longrightarrow> jm_get es k = Some e"
  by (rule jm_get_in) (auto simp: hot_def)

lemma hot_step:
  assumes ok: "bm_ok m" and hot: "hot (bm_entries m) k e T"
    and T: "finite T" "of_nat (card T + 1) \<le> bm_maxEntries m"
    and op: "spares k (ce_expiresAt e) op" "set (op_touches op) \<subseteq> insert k T"
  shows "hot (bm_entries (bm_step op m)) k e T"
proof -
  have jm: "jm_ok (bm_entries m)" using ok by (simp add: bm_ok_def)
  note get = hot_get [OF hot jm]
  have g: "hot (bm_entries (snd (bm_get m k' now))) k e T"
    if "k' = k \<longrightarrow> now < ce_expiresAt e" "k' \<in> insert k T" for k' now
  proof (cases "k' = k")
    case True
    then show ?thesis using get that by (simp add: bm_get_def jm_reinsert hot_end)
  next
    case False
    then show ?thesis using that hot hot_delete [OF hot False]
      by (auto simp: bm_get_def jm_reinsert hot_append split: option.split)
  qed
  show ?thesis
  proof (cases op)
    case (Op_set k' v now)
    then have k': "k' \<noteq> k" "k' \<in> T" using op by auto
    let ?x = "(k', \<lparr>ce_value = v, ce_expiresAt = bm_expiry m now\<rparr>)"
    let ?d = "jm_delete (bm_entries m) k'"
    have hot': "hot (?d @ [?x]) k e T" by (intro hot_append hot_delete hot k')
    have okd: "jm_ok (?d @ [?x])" using jm by (auto simp: jm_ok_def jm_delete_def distinct_map_filter)
    obtain j where j: "trim_entries (bm_maxEntries m) (?d @ [?x]) = drop j (?d @ [?x])"
      "j = 0 \<or> bm_maxEntries m < of_nat (length (?d @ [?x]) - j + 1)"
      by (rule trim_entries_drop [OF okd, of "bm_maxEntries m"]) (use ok in \<open>simp add: bm_ok_def\<close>)
    have "hot (drop j (?d @ [?x])) k e T"
    proof (cases "j = 0")
      case False
      then have "of_nat (card T + 1) < (of_nat (length (?d @ [?x]) - j + 1) :: js_num)"
        using j(2) T(2) by linarith
      then have "card T + 1 < length (?d @ [?x]) - j + 1" by (simp only: of_nat_less_iff)
      then show ?thesis by (intro hot_drop [OF hot' okd T(1)]) simp
    qed (use hot' in simp)
    then show ?thesis using j(1) Op_set by (simp add: bm_set_def jm_reinsert bm_expiry_def)
  next
    case (Op_sweep now)
    then show ?thesis using hot op by (simp add: bm_sweep_entries hot_filter)
  next
    case (Op_delete k')
    then show ?thesis using hot op by (simp add: bm_delete_def hot_delete)
  qed (use op hot g in \<open>simp_all add: bm_dispose_def\<close>)
qed

lemma hot_run:
  assumes "bm_ok m" "hot (bm_entries m) k e T" "finite T" "of_nat (card T + 1) \<le> bm_maxEntries m"
    and "list_all (spares k (ce_expiresAt e)) ops" "set (concat (map op_touches ops)) \<subseteq> insert k T"
  shows "hot (bm_entries (bm_run ops m)) k e T"
  using assms unfolding bm_run_def
  by (induction ops arbitrary: m) (simp_all add: bm_step_ok hot_step)

section \<open>Properties\<close>

text \<open>
  Bounded memory: after any sequence of calls on a freshly constructed cache, the number of
  stored entries is at most \<open>maxEntries\<close> and no key is stored twice.
\<close>

theorem cache_bounded:
  assumes "new_bounded_map options = Inr m"
  shows "of_nat (bm_size (bm_run ops m)) \<le> co_maxEntries options
    \<and> distinct (map fst (bm_entries (bm_run ops m)))"
  using bm_run_ok [of m ops] new_bounded_mapD [OF assms] by (simp add: bm_ok_def bm_size_def jm_ok_def)

definition sample_options :: cache_options where
  "sample_options = \<lparr>co_maxEntries = 2, co_ttlMs = 10, co_sweepIntervalMs = None\<rparr>"

definition sample_cache :: "(nat, nat) bounded_map" where
  "sample_cache = \<lparr>bm_entries = [], bm_maxEntries = 2, bm_ttlMs = 10, bm_sweepTimer = None\<rparr>"

lemma sample_cache_new: "new_bounded_map sample_options = Inr sample_cache"
  by (simp add: new_bounded_map_def sample_options_def sample_cache_def)

theorem cache_bounded_witness:
  "of_nat (bm_size (bm_run [Op_set 1 5 0, Op_set 2 6 0, Op_set 3 7 0] sample_cache)) \<le> (2 :: rat)"
  using cache_bounded [OF sample_cache_new, of "[Op_set 1 5 0, Op_set 2 6 0, Op_set 3 7 0]"]
  by (simp add: sample_options_def)

text \<open>
  C20. The cache never serves a stale or a wrong value: what a read returns, after any sequence of
  calls, is the value of the last write of that key, with no later delete of it, and the TTL has
  not passed since that write.
\<close>

theorem cache_serves_last_write:
  assumes "new_bounded_map options = Inr m" and "fst (bm_get (bm_run ops m) k now) = Some v"
  shows "\<exists>t. last_write k ops = Some (v, t) \<and> now < js_add t (co_ttlMs options)"
proof -
  note new = new_bounded_mapD [OF assms(1)]
  have "holds_write m k None" by (simp add: holds_write_def bm_view_def new)
  then have "holds_write (bm_run ops m) k (last_write k ops)"
    unfolding last_write_def by (rule holds_write_run [OF new(1)])
  moreover obtain e where "bm_view (bm_run ops m) k = Some (v, e)" "now < e"
    using assms(2) by (auto simp: bm_get_value split: option.splits if_splits)
  ultimately show ?thesis
    using bm_run_ok [OF new(1), of ops] new(4) by (auto simp: holds_write_def bm_expiry_def)
qed

theorem cache_serves_last_write_witness:
  "\<exists>t. last_write 1 [Op_set 1 5 0, Op_get (1::nat) 3] = Some (5::nat, t) \<and> 4 < js_add t 10"
proof -
  have "fst (bm_get (bm_run [Op_set 1 5 0, Op_get 1 3] sample_cache) 1 4) = Some 5"
    by code_simp
  from cache_serves_last_write [OF sample_cache_new this] show ?thesis
    by (simp add: sample_options_def)
qed

text \<open>
  Least recently used: a value just written is still served, within its TTL, after any calls
  that neither rewrite, delete nor clear it and touch fewer than \<open>maxEntries\<close> other keys; so
  the entry evicted is never one of the \<open>maxEntries\<close> hottest.
\<close>

theorem cache_keeps_hot:
  assumes "new_bounded_map options = Inr m0" and "m = bm_run before m0"
    and "list_all (spares k (js_add t (co_ttlMs options))) ops"
    and "of_nat (card (set (concat (map op_touches ops)) - {k}) + 1) \<le> co_maxEntries options"
    and "now < js_add t (co_ttlMs options)"
  shows "fst (bm_get (bm_run ops (bm_set m k v t)) k now) = Some v"
proof -
  let ?T = "set (concat (map op_touches ops)) - {k}"
  let ?e = "\<lparr>ce_value = v, ce_expiresAt = js_add t (co_ttlMs options)\<rparr>"
  let ?m = "bm_set m k v t"
  have ok: "bm_ok m" "bm_ttlMs m = co_ttlMs options" "bm_maxEntries m = co_maxEntries options"
    using bm_run_ok [of m0 before] new_bounded_mapD [OF assms(1)] assms(2) by simp_all
  then have m: "bm_ok ?m" "bm_maxEntries ?m = co_maxEntries options"
    by (simp_all add: bm_set_ok) (simp add: bm_set_def)
  obtain j where "bm_entries ?m = drop j (jm_delete (bm_entries m) k) @ [(k, ?e)]"
    using bm_set_entries [OF ok(1), of k v t] ok(2) by (auto simp: bm_expiry_def)
  then have "hot (bm_entries ?m) k ?e ?T" by (simp add: hot_end)
  then have "hot (bm_entries (bm_run ops ?m)) k ?e ?T"
    by (rule hot_run [OF m(1)]) (use assms(3,4) m in auto)
  moreover have "jm_ok (bm_entries (bm_run ops ?m))" using bm_run_ok [OF m(1)] by (simp add: bm_ok_def)
  ultimately have "jm_get (bm_entries (bm_run ops ?m)) k = Some ?e" by (rule hot_get)
  then show ?thesis using assms(5) by (simp add: bm_get_def)
qed

theorem cache_keeps_hot_witness:
  "fst (bm_get (bm_run [Op_set 2 6 1, Op_get 1 2, Op_get 2 3] (bm_set sample_cache 1 5 0)) 1 4) = Some 5"
proof -
  have e: "js_add 0 10 = 10" by code_simp
  show ?thesis
    by (rule cache_keeps_hot [OF sample_cache_new, of _ "[]"])
      (simp_all add: bm_run_def sample_options_def e card_insert_if)
qed

end
