(* ===== verification/PasskeyChallenges.thy ===== *)
theory PasskeyChallenges
  imports BoundedTtlMap
begin

text \<open>
  The WebAuthn challenge store of \<open>apps/api/src/modules/auth/auth.service.ts\<close>
  (\<open>storePasskeyChallenge\<close>, \<open>takePasskeyChallenge\<close>, \<open>userIdForChallenge\<close>,
  \<open>claimAssertionChallenge\<close> and the store step of \<open>beginPasskeyLogin\<close>): a client of the cache.
  The SHA-256 hex digest of \<open>node:crypto\<close> is the parameter \<open>sha\<close>. A handler reads the clock
  once, \<open>now\<close>. Errors are returned beside the store, because a rejected claim still consumes
  the challenge. The proofs use only the interface \<open>ttl_cache\<close>.
\<close>

section \<open>Model\<close>

datatype challenge_type = Registration | Assertion

record passkey_challenge =
  pc_challenge :: string
  pc_type :: challenge_type
  pc_rpId :: string

datatype passkey_error = Challenge_invalid | Challenge_mismatch | Not_in_allow_list

record passkey_store =
  ps_challenges :: "(string, passkey_challenge) bounded_map"
  ps_keys :: "(string, string) bounded_map"

definition DISCOVERABLE_CHALLENGE_OWNER :: string where
  "DISCOVERABLE_CHALLENGE_OWNER = ''anonymous''"

definition PASSKEY_CHALLENGE_MAX_ENTRIES :: js_num where
  "PASSKEY_CHALLENGE_MAX_ENTRIES = 10000"

definition PASSKEY_CHALLENGE_TTL_SECONDS :: js_num where
  "PASSKEY_CHALLENGE_TTL_SECONDS = 120"

definition passkey_cache_options :: cache_options where
  "passkey_cache_options = \<lparr>co_maxEntries = PASSKEY_CHALLENGE_MAX_ENTRIES,
     co_ttlMs = js_mul PASSKEY_CHALLENGE_TTL_SECONDS 1000, co_sweepIntervalMs = None\<rparr>"

definition new_passkey_store :: "js_error + passkey_store" where
  "new_passkey_store =
     and_then (new_bounded_map passkey_cache_options) (\<lambda>challenges.
     and_then (new_bounded_map passkey_cache_options) (\<lambda>keys.
     Inr \<lparr>ps_challenges = challenges, ps_keys = keys\<rparr>))"

text \<open>The template \<open>`${userId}:${challenge}`\<close>.\<close>

definition challenge_key :: "string \<Rightarrow> string \<Rightarrow> string" where
  "challenge_key userId challenge = userId @ '':'' @ challenge"

definition storePasskeyChallenge ::
  "passkey_store \<Rightarrow> string \<Rightarrow> challenge_type \<Rightarrow> string \<Rightarrow> string \<Rightarrow> string list option \<Rightarrow> js_num
    \<Rightarrow> passkey_store" where
  "storePasskeyChallenge s userId type challenge rpId allowedCredentialIds now =
     (let s1 = s\<lparr>ps_challenges := bm_set (ps_challenges s) (challenge_key userId challenge)
                   \<lparr>pc_challenge = challenge, pc_type = type, pc_rpId = rpId\<rparr> now\<rparr>
      in case allowedCredentialIds of
           Some ids \<Rightarrow> s1\<lparr>ps_keys := bm_set (ps_keys s1) challenge (join_with '','' (sort_strings ids)) now\<rparr>
         | None \<Rightarrow> s1)"

definition takePasskeyChallenge ::
  "passkey_store \<Rightarrow> string \<Rightarrow> string \<Rightarrow> challenge_type \<Rightarrow> string \<Rightarrow> js_num
    \<Rightarrow> (passkey_error + unit) \<times> passkey_store" where
  "takePasskeyChallenge s userId challenge type rpId now =
     (let key = challenge_key userId challenge;
          (entry, m1) = bm_get (ps_challenges s) key now;
          s' = s\<lparr>ps_challenges := snd (bm_delete m1 key)\<rparr>
      in case entry of
           None \<Rightarrow> (Inl Challenge_invalid, s')
         | Some e \<Rightarrow> if pc_type e \<noteq> type \<or> pc_rpId e \<noteq> rpId then (Inl Challenge_mismatch, s')
                     else (Inr (), s'))"

definition userIdForChallenge :: "(string \<Rightarrow> string) \<Rightarrow> string list \<Rightarrow> string" where
  "userIdForChallenge sha ids = take 24 (sha (join_with '','' (sort_strings ids)))"

definition claimAssertionChallenge ::
  "(string \<Rightarrow> string) \<Rightarrow> passkey_store \<Rightarrow> string \<Rightarrow> string \<Rightarrow> string \<Rightarrow> string \<Rightarrow> js_num
    \<Rightarrow> (passkey_error + unit) \<times> passkey_store" where
  "claimAssertionChallenge sha s challenge credentialId credentialUserId rpId now =
     (let (allowedRaw, k1) = bm_get (ps_keys s) challenge now;
          s1 = s\<lparr>ps_keys := snd (bm_delete k1 challenge)\<rparr>;
          raw = (case allowedRaw of None \<Rightarrow> [] | Some r \<Rightarrow> r)
      in if raw \<noteq> []
         then let allowed = split_on (CHR '','') raw
              in if credentialId \<notin> set allowed then (Inl Not_in_allow_list, s1)
                 else takePasskeyChallenge s1 (userIdForChallenge sha allowed) challenge Assertion rpId now
         else let (held, m1) = bm_has (ps_challenges s1) (challenge_key credentialUserId challenge) now;
                  s2 = s1\<lparr>ps_challenges := m1\<rparr>;
                  owner = (if held then credentialUserId else DISCOVERABLE_CHALLENGE_OWNER)
              in takePasskeyChallenge s2 owner challenge Assertion rpId now)"

text \<open>What \<open>beginPasskeyLogin\<close> stores, once the options are generated.\<close>

definition beginPasskeyLogin ::
  "(string \<Rightarrow> string) \<Rightarrow> passkey_store \<Rightarrow> string list option \<Rightarrow> string \<Rightarrow> string \<Rightarrow> js_num \<Rightarrow> passkey_store" where
  "beginPasskeyLogin sha s allowCredentials challenge rpId now =
     (let challengeOwner = (case allowCredentials of
            Some ids \<Rightarrow> userIdForChallenge sha ids
          | None \<Rightarrow> DISCOVERABLE_CHALLENGE_OWNER)
      in storePasskeyChallenge s challengeOwner Assertion challenge rpId allowCredentials now)"

text \<open>The calls that reach the store, and the results of a run.\<close>

datatype passkey_call =
    Begin_login "string list option" string string js_num
  | Begin_registration string string string js_num
  | Claim string string string string js_num
  | Finish_registration string string string js_num

fun passkey_step :: "(string \<Rightarrow> string) \<Rightarrow> passkey_call \<Rightarrow> passkey_store \<Rightarrow> (passkey_error + unit) \<times> passkey_store" where
  "passkey_step sha (Begin_login allow challenge rpId now) s =
     (Inr (), beginPasskeyLogin sha s allow challenge rpId now)"
| "passkey_step sha (Begin_registration userId challenge rpId now) s =
     (Inr (), storePasskeyChallenge s userId Registration challenge rpId None now)"
| "passkey_step sha (Claim challenge credentialId userId rpId now) s =
     claimAssertionChallenge sha s challenge credentialId userId rpId now"
| "passkey_step sha (Finish_registration userId challenge rpId now) s =
     takePasskeyChallenge s userId challenge Registration rpId now"

fun passkey_run ::
  "(string \<Rightarrow> string) \<Rightarrow> passkey_call list \<Rightarrow> passkey_store \<Rightarrow> (passkey_error + unit) list" where
  "passkey_run sha [] s = []"
| "passkey_run sha (c # cs) s =
     (let (r, s') = passkey_step sha c s in r # passkey_run sha cs s')"

fun issues :: "string \<Rightarrow> passkey_call \<Rightarrow> bool" where
  "issues c (Begin_login _ c' _ _) = (c' = c)"
| "issues c (Begin_registration _ c' _ _) = (c' = c)"
| "issues c _ = False"

fun redeems :: "string \<Rightarrow> passkey_call \<Rightarrow> bool" where
  "redeems c (Claim c' _ _ _ _) = (c' = c)"
| "redeems c (Finish_registration _ c' _ _) = (c' = c)"
| "redeems c _ = False"

definition redeemed :: "(string \<Rightarrow> string) \<Rightarrow> string \<Rightarrow> passkey_call list \<Rightarrow> passkey_store \<Rightarrow> nat" where
  "redeemed sha c calls s =
     length (filter (\<lambda>(call, r). redeems c call \<and> r = Inr ()) (zip calls (passkey_run sha calls s)))"

section \<open>Challenge keys\<close>

lemma split_last_colon:
  assumes "u @ '':'' @ c = u' @ '':'' @ c'" "CHR '':'' \<notin> set c" "CHR '':'' \<notin> set c'"
  shows "u = u' \<and> c = c'"
proof -
  have e: "rev c @ CHR '':'' # rev u = rev c' @ CHR '':'' # rev u'"
    using arg_cong [OF assms(1), of rev] by simp
  have "takeWhile (\<lambda>x. x \<noteq> CHR '':'') (rev d @ CHR '':'' # rev v) = rev d"
    if "CHR '':'' \<notin> set d" for d v :: string
    using that by (subst takeWhile_append2) auto
  from this [OF assms(2), of u] this [OF assms(3), of u'] have "rev c = rev c'" unfolding e by simp
  then show ?thesis using e by simp
qed

text \<open>The keys of a challenge that are present in the store.\<close>

definition present :: "passkey_store \<Rightarrow> string \<Rightarrow> string set" where
  "present s c = {u. bm_view (ps_challenges s) (challenge_key u c) \<noteq> None}"

definition store_ok :: "passkey_store \<Rightarrow> bool" where
  "store_ok s \<longleftrightarrow> bm_ok (ps_challenges s) \<and> bm_ok (ps_keys s)"

lemma challenge_key_inj:
  "CHR '':'' \<notin> set c \<Longrightarrow> CHR '':'' \<notin> set c' \<Longrightarrow> challenge_key u c = challenge_key u' c' \<Longrightarrow> u = u' \<and> c = c'"
  unfolding challenge_key_def by (rule split_last_colon)

lemma store_ok_store: "store_ok s \<Longrightarrow> store_ok (storePasskeyChallenge s u ty c rp al now)"
  by (auto simp: store_ok_def storePasskeyChallenge_def Let_def bm.inv_put split: option.split)

lemma take_challenges:
  "ps_challenges (snd (takePasskeyChallenge s u c ty rp now)) =
     snd (bm_delete (snd (bm_get (ps_challenges s) (challenge_key u c) now)) (challenge_key u c))"
  "ps_keys (snd (takePasskeyChallenge s u c ty rp now)) = ps_keys s"
  by (simp_all add: takePasskeyChallenge_def Let_def split: prod.split option.split)

lemma take_result:
  "fst (takePasskeyChallenge s u c ty rp now) =
     (case fst (bm_get (ps_challenges s) (challenge_key u c) now) of
        None \<Rightarrow> Inl Challenge_invalid
      | Some e \<Rightarrow> if pc_type e \<noteq> ty \<or> pc_rpId e \<noteq> rp then Inl Challenge_mismatch else Inr ())"
  by (simp add: takePasskeyChallenge_def Let_def split: prod.split option.split)

lemma store_ok_take: "store_ok s \<Longrightarrow> store_ok (snd (takePasskeyChallenge s u c ty rp now))"
  by (simp add: store_ok_def take_challenges bm.take_inv)

lemma present_take:
  assumes "store_ok s" "CHR '':'' \<notin> set c" "CHR '':'' \<notin> set c'"
  shows "present (snd (takePasskeyChallenge s u c ty rp now)) c' =
    (if c' = c then present s c - {u} else present s c')"
proof -
  have "challenge_key v c' = challenge_key u c \<longleftrightarrow> v = u \<and> c' = c" for v
    using challenge_key_inj [OF assms(3,2)] by auto
  then show ?thesis using assms(1)
    by (auto simp: present_def take_challenges store_ok_def bm.take_view)
qed

lemma take_succeeds_present:
  "store_ok s \<Longrightarrow> fst (takePasskeyChallenge s u c ty rp now) = Inr () \<Longrightarrow> u \<in> present s c"
  by (auto simp: take_result present_def store_ok_def bm.get_value split: option.splits if_splits)

lemma present_store:
  assumes "store_ok s" "CHR '':'' \<notin> set c" "CHR '':'' \<notin> set c'"
  shows "present (storePasskeyChallenge s u ty c rp al now) c' \<subseteq>
    (if c' = c then insert u (present s c') else present s c')"
proof -
  have k: "challenge_key v c' = challenge_key u c \<longleftrightarrow> v = u \<and> c' = c" for v
    using challenge_key_inj [OF assms(3,2)] by auto
  have store: "ps_challenges (storePasskeyChallenge s u ty c rp al now) =
      bm_set (ps_challenges s) (challenge_key u c) \<lparr>pc_challenge = c, pc_type = ty, pc_rpId = rp\<rparr> now"
    by (simp add: storePasskeyChallenge_def Let_def split: option.split)
  have ok: "bm_ok (ps_challenges s)" using assms(1) by (simp add: store_ok_def)
  have "v = u \<and> c' = c \<or> v \<in> present s c'"
    if v: "v \<in> present (storePasskeyChallenge s u ty c rp al now) c'" for v
  proof (cases "challenge_key v c' = challenge_key u c")
    case True
    then show ?thesis using k by simp
  next
    case False
    let ?e = "\<lparr>pc_challenge = c, pc_type = ty, pc_rpId = rp\<rparr>"
    from bm.view_put_other [OF ok False, of ?e now] v store show ?thesis
      by (auto simp: present_def)
  qed
  then show ?thesis by auto
qed

section \<open>Single use\<close>

fun call_challenge :: "passkey_call \<Rightarrow> string" where
  "call_challenge (Begin_login _ c _ _) = c"
| "call_challenge (Begin_registration _ c _ _) = c"
| "call_challenge (Claim c _ _ _ _) = c"
| "call_challenge (Finish_registration _ c _ _) = c"

text \<open>A claim is a redemption of one key, in a store whose keys can only have expired.\<close>

lemma claim_cases:
  assumes "store_ok s"
  obtains "fst (claimAssertionChallenge sha s c cred user rp now) \<noteq> Inr ()"
      "store_ok (snd (claimAssertionChallenge sha s c cred user rp now))"
      "\<And>c'. present (snd (claimAssertionChallenge sha s c cred user rp now)) c' = present s c'"
  | s2 u where "claimAssertionChallenge sha s c cred user rp now = takePasskeyChallenge s2 u c Assertion rp now"
      "store_ok s2" "\<And>c'. present s2 c' \<subseteq> present s c'"
proof -
  define k where "k = bm_get (ps_keys s) c now"
  define s1 where "s1 = s\<lparr>ps_keys := snd (bm_delete (snd k) c)\<rparr>"
  define h where "h = bm_has (ps_challenges s1) (challenge_key user c) now"
  define s2 where "s2 = s1\<lparr>ps_challenges := snd h\<rparr>"
  define raw where "raw = (case fst k of None \<Rightarrow> [] | Some r \<Rightarrow> r)"
  have ok1: "store_ok s1" using assms by (simp add: store_ok_def s1_def k_def bm.take_inv)
  have p1: "present s1 c' = present s c'" for c' by (simp add: present_def s1_def)
  have ok2: "store_ok s2" using ok1 by (simp add: store_ok_def s2_def h_def bm.inv_get)
  have p2: "present s2 c' \<subseteq> present s c'" for c'
    using ok1 by (auto simp: present_def s2_def s1_def h_def store_ok_def bm.view_get split: if_splits option.splits)
  have claim: "claimAssertionChallenge sha s c cred user rp now =
      (if raw \<noteq> []
       then if cred \<notin> set (split_on (CHR '','') raw) then (Inl Not_in_allow_list, s1)
            else takePasskeyChallenge s1 (userIdForChallenge sha (split_on (CHR '','') raw)) c Assertion rp now
       else takePasskeyChallenge s2 (if fst h then user else DISCOVERABLE_CHALLENGE_OWNER) c Assertion rp now)"
    by (simp add: claimAssertionChallenge_def Let_def split_beta k_def [symmetric] s1_def [symmetric]
        h_def [symmetric] s2_def [symmetric] raw_def [symmetric])
  consider "raw \<noteq> []" "cred \<notin> set (split_on (CHR '','') raw)" | "raw \<noteq> []" "cred \<in> set (split_on (CHR '','') raw)"
    | "raw = []" by blast
  then show thesis
  proof cases
    case 1
    then show thesis using that(1) claim ok1 p1 by simp
  next
    case 2
    then show thesis using that(2) [OF _ ok1] claim p1 by simp
  next
    case 3
    then show thesis using that(2) [OF _ ok2 p2] claim by simp
  qed
qed

text \<open>Each successful redemption uses up one stored key, and only an issue adds one.\<close>

definition spends :: "string \<Rightarrow> passkey_call \<Rightarrow> (passkey_error + unit) \<Rightarrow> nat" where
  "spends c call r = (if redeems c call \<and> r = Inr () then 1 else 0)"

definition step_budget :: "string \<Rightarrow> passkey_call \<Rightarrow> passkey_store \<Rightarrow> (passkey_error + unit) \<times> passkey_store \<Rightarrow> bool" where
  "step_budget c call s rs \<longleftrightarrow> store_ok (snd rs) \<and> finite (present (snd rs) c)
     \<and> card (present (snd rs) c) + spends c call (fst rs) \<le> card (present s c) + (if issues c call then 1 else 0)"

lemma budget_store:
  assumes "store_ok s" "finite (present s c)" "CHR '':'' \<notin> set c" "CHR '':'' \<notin> set c'"
    and "issues c call = (c' = c)" "spends c call (Inr ()) = 0"
  shows "step_budget c call s (Inr (), storePasskeyChallenge s u ty c' rp al now)"
proof -
  note sub = present_store [OF assms(1,4,3), of u ty rp al now]
  let ?S = "present (storePasskeyChallenge s u ty c' rp al now) c"
  have "?S \<subseteq> insert u (present s c)" and "c' \<noteq> c \<Longrightarrow> ?S \<subseteq> present s c" using sub by (auto split: if_splits)
  then have "finite ?S" "card ?S \<le> card (insert u (present s c))" "c' \<noteq> c \<Longrightarrow> card ?S \<le> card (present s c)"
    using assms(2) by (auto intro: finite_subset card_mono)
  moreover have "card (insert u (present s c)) \<le> card (present s c) + 1"
    using assms(2) by (simp add: card_insert_if)
  ultimately have "card ?S \<le> card (present s c) + (if issues c call then 1 else 0)"
    using assms(5) by auto
  then show ?thesis using \<open>finite ?S\<close> assms(1,6) by (simp add: step_budget_def store_ok_store)
qed

lemma budget_take:
  assumes "store_ok s2" "present s2 c \<subseteq> present s c" "finite (present s c)" "CHR '':'' \<notin> set c" "CHR '':'' \<notin> set c'"
    and "redeems c call = (c' = c)" "\<not> issues c call"
  shows "step_budget c call s (takePasskeyChallenge s2 u c' ty rp now)"
proof -
  let ?r = "takePasskeyChallenge s2 u c' ty rp now"
  have p: "present (snd ?r) c = (if c = c' then present s2 c - {u} else present s2 c)"
    using present_take [OF assms(1,5,4)] by simp
  have fin: "finite (present s2 c)" and le: "card (present s2 c) \<le> card (present s c)"
    using assms(2,3) by (auto intro: finite_subset card_mono)
  have less: "card (present s2 c - {u}) \<le> card (present s2 c)" by (rule card_Diff1_le)
  have drop: "card (present s2 c - {u}) + 1 = card (present s2 c)" if "fst ?r = Inr ()" "c' = c"
    using take_succeeds_present [OF assms(1) that(1)] that(2) card_Suc_Diff1 [OF fin, of u] by simp
  have "card (present (snd ?r) c) + spends c call (fst ?r) \<le> card (present s2 c)"
    using p less drop assms(6) by (cases "c' = c") (simp_all add: spends_def)
  moreover have "finite (present (snd ?r) c)" using p fin by (cases "c = c'") simp_all
  ultimately show ?thesis using le assms(7) store_ok_take [OF assms(1), of u c' ty rp now]
    by (simp add: step_budget_def)
qed

lemma budget_step:
  assumes "store_ok s" "finite (present s c)" "CHR '':'' \<notin> set c" "CHR '':'' \<notin> set (call_challenge call)"
  shows "step_budget c call s (passkey_step sha call s)"
proof (cases call)
  case (Claim c' cred user rp now)
  show ?thesis
  proof (rule claim_cases [OF assms(1), of sha c' cred user rp now])
    assume "fst (claimAssertionChallenge sha s c' cred user rp now) \<noteq> Inr ()"
      "store_ok (snd (claimAssertionChallenge sha s c' cred user rp now))"
      "\<And>d. present (snd (claimAssertionChallenge sha s c' cred user rp now)) d = present s d"
    then show ?thesis using Claim assms(2) by (simp add: step_budget_def spends_def)
  next
    fix s2 u
    assume "claimAssertionChallenge sha s c' cred user rp now = takePasskeyChallenge s2 u c' Assertion rp now"
      "store_ok s2" "\<And>d. present s2 d \<subseteq> present s d"
    then show ?thesis using Claim assms by (simp add: budget_take)
  qed
qed (use assms in \<open>auto simp: beginPasskeyLogin_def Let_def spends_def intro: budget_store budget_take\<close>)


lemma redeemed_Cons:
  "redeemed sha c (call # calls) s =
     spends c call (fst (passkey_step sha call s)) + redeemed sha c calls (snd (passkey_step sha call s))"
  by (simp add: redeemed_def spends_def split_beta Let_def)

lemma redeemed_budget:
  assumes "store_ok s" "finite (present s c)" "CHR '':'' \<notin> set c"
    and "\<forall>call \<in> set calls. CHR '':'' \<notin> set (call_challenge call)"
  shows "redeemed sha c calls s \<le> card (present s c) + length (filter (issues c) calls)"
  using assms
proof (induction calls arbitrary: s)
  case Nil
  then show ?case by (simp add: redeemed_def)
next
  case (Cons call calls)
  let ?rs = "passkey_step sha call s"
  have b: "step_budget c call s ?rs" using Cons.prems by (intro budget_step) auto
  then have "redeemed sha c calls (snd ?rs) \<le> card (present (snd ?rs) c) + length (filter (issues c) calls)"
    using Cons by (simp add: step_budget_def)
  with b show ?case by (cases "issues c call") (auto simp: step_budget_def redeemed_Cons)
qed

lemma new_passkey_storeD:
  assumes "new_passkey_store = Inr s"
  shows "store_ok s" "present s c = {}"
    "bm_ttlMs (ps_challenges s) = js_mul PASSKEY_CHALLENGE_TTL_SECONDS 1000"
proof -
  obtain m k where "new_bounded_map passkey_cache_options = Inr m"
    "new_bounded_map passkey_cache_options = Inr k" "s = \<lparr>ps_challenges = m, ps_keys = k\<rparr>"
    using assms by (auto simp: new_passkey_store_def result_laws)
  note m = new_bounded_mapD [OF this(1)] and k = new_bounded_mapD [OF this(2)] and s = this(3)
  show "store_ok s" using m k s by (simp add: store_ok_def)
  show "present s c = {}" using m s by (simp add: present_def bm_view_def)
  show "bm_ttlMs (ps_challenges s) = js_mul PASSKEY_CHALLENGE_TTL_SECONDS 1000"
    using m s by (simp add: passkey_cache_options_def)
qed

lemma new_passkey_store_runs: "\<exists>s. new_passkey_store = Inr s"
proof -
  have "js_mul PASSKEY_CHALLENGE_TTL_SECONDS 1000 = 120000" by code_simp
  then show ?thesis
    by (simp add: new_passkey_store_def new_bounded_map_def passkey_cache_options_def
        PASSKEY_CHALLENGE_MAX_ENTRIES_def)
qed

section \<open>Properties\<close>

text \<open>
  C1. Passkey challenges are single-use: in any sequence of registrations and logins, whatever the
  callers send, a challenge is successfully redeemed at most as often as the server issued it.
  (Challenges are base64url, without a colon; this is what keeps the store's keys apart.)
\<close>

theorem passkey_single_use:
  assumes "new_passkey_store = Inr s" and "CHR '':'' \<notin> set c"
    and "\<forall>call \<in> set calls. CHR '':'' \<notin> set (call_challenge call)"
  shows "redeemed sha c calls s \<le> length (filter (issues c) calls)"
  using redeemed_budget [of s c calls sha] new_passkey_storeD [OF assms(1)] assms(2,3) by simp

theorem passkey_single_use_witness:
  "\<exists>s. new_passkey_store = Inr s \<and>
     redeemed id ''xyz'' [Begin_login None ''xyz'' ''rp'' 0, Claim ''xyz'' ''k'' ''u'' ''rp'' 5,
       Claim ''xyz'' ''k'' ''u'' ''rp'' 6] s \<le> 1"
proof -
  obtain s where s: "new_passkey_store = Inr s" using new_passkey_store_runs by blast
  show ?thesis by (rule exI [of _ s])
    (use s passkey_single_use [OF s, of "''xyz''"
      "[Begin_login None ''xyz'' ''rp'' 0, Claim ''xyz'' ''k'' ''u'' ''rp'' 5, Claim ''xyz'' ''k'' ''u'' ''rp'' 6]" id] in \<open>simp\<close>)
qed

text \<open>
  A login challenge issued for an account's credentials is honoured exactly for them: until the
  TTL has passed, a claim succeeds if and only if the credential is on the allow-list and the
  relying party is the one the challenge was issued for; afterwards no claim succeeds. (The
  allow-list is rebuilt from its comma-separated form, so ids must not contain commas.)
\<close>

theorem passkey_login_allow_list:
  assumes "store_ok s" and "ids \<noteq> []" and "\<forall>i \<in> set ids. CHR '','' \<notin> set i \<and> i \<noteq> []"
    and "bm_ttlMs (ps_keys s) = bm_ttlMs (ps_challenges s)"
    and "now < js_add t (bm_ttlMs (ps_challenges s))"
  shows "fst (claimAssertionChallenge sha (beginPasskeyLogin sha s (Some ids) c rp t) c cred user rp' now) = Inr ()
    \<longleftrightarrow> cred \<in> set ids \<and> rp' = rp"
proof -
  let ?raw = "join_with '','' (sort_strings ids)" and ?o = "userIdForChallenge sha ids"
  let ?e = "\<lparr>pc_challenge = c, pc_type = Assertion, pc_rpId = rp\<rparr>"
  let ?ch = "bm_set (ps_challenges s) (challenge_key ?o c) ?e t" and ?ks = "bm_set (ps_keys s) c ?raw t"
  have ne: "sort_strings ids \<noteq> []" using assms(2) set_sort_strings [of ids] by (metis set_empty)
  have split: "split_on (CHR '','') ?raw = sort_strings ids"
    using split_join [OF ne, of "CHR '',''"] assms(3) by simp
  then have raw: "?raw \<noteq> []" using ne assms(3) by (metis list.set_intros(1) set_sort_strings split_on.simps(1))
  have k: "fst (bm_get ?ks c now) = Some ?raw" and e: "fst (bm_get ?ch (challenge_key ?o c) now) = Some ?e"
    using assms by (auto intro!: bm.get_after_put simp: store_ok_def bm_expiry_def)
  have o: "userIdForChallenge sha (sort_strings ids) = ?o" by (simp add: userIdForChallenge_def)
  have "fst (claimAssertionChallenge sha (beginPasskeyLogin sha s (Some ids) c rp t) c cred user rp' now) =
      (if cred \<notin> set ids then Inl Not_in_allow_list
       else if rp \<noteq> rp' then Inl Challenge_mismatch else Inr ())"
    using raw split k e o
    by (simp add: claimAssertionChallenge_def beginPasskeyLogin_def storePasskeyChallenge_def Let_def
        split_beta take_result)
  then show ?thesis by simp
qed

theorem passkey_login_allow_list_witness:
  "\<exists>s. new_passkey_store = Inr s \<and>
     fst (claimAssertionChallenge id (beginPasskeyLogin id s (Some [''b'', ''a'']) ''xyz'' ''rp'' 0)
            ''xyz'' ''a'' ''user'' ''rp'' 100) = Inr ()"
proof -
  obtain s where s: "new_passkey_store = Inr s" using new_passkey_store_runs by blast
  note n = new_passkey_storeD [OF s]
  have ttl: "js_add 0 (js_mul PASSKEY_CHALLENGE_TTL_SECONDS 1000) = 120000" by code_simp
  have "bm_ttlMs (ps_keys s) = bm_ttlMs (ps_challenges s)"
    using s by (auto simp: new_passkey_store_def result_laws dest!: new_bounded_mapD(4))
  then show ?thesis
    by (intro exI [of _ s]) (use s passkey_login_allow_list [OF n(1), of "[''b'', ''a'']" 100 0 id "''xyz''" "''rp''" "''a''" "''user''" "''rp''"] in \<open>simp add: n(3) ttl\<close>)
qed

end
