(* ===== verification/MultisigWeights.thy ===== *)
theory MultisigWeights
  imports Prelude JsNumber
begin

text \<open>
  \<open>apps/api/src/modules/multisig/multisig-weights.ts\<close> and \<open>multisig.service.ts\<close>: the weighted
  multisig simulator. Weights and thresholds are integers (the code rejects any other number
  before it computes with them), percentages are JavaScript numbers. \<open>String.localeCompare\<close>,
  which depends on the host's locale data, is the parameter \<open>lc\<close>; \<open>Date.parse\<close> and the wall
  clock are the parameters \<open>date_parse\<close> and \<open>clock\<close>. The theorems hold for every \<open>lc\<close>.
\<close>

section \<open>Data\<close>

definition MAX_SIGNER_WEIGHT :: int where
  "MAX_SIGNER_WEIGHT = 255"

definition MAX_SIGNERS :: nat where
  "MAX_SIGNERS = 21"

datatype threshold_kind = Low | Medium | High

datatype risk_code =
    THRESHOLD_UNREACHABLE
  | THRESHOLD_ZERO
  | SINGLE_SIGNER_CONTROLS
  | REQUIRES_EVERY_SIGNER
  | REQUIRED_SIGNER_MISSING
  | REQUIRED_SIGNER_UNSIGNED
  | ZERO_WEIGHT_SIGNERS
  | REDUNDANT_SIGNER
  | QUORUM_SINGLE_POINT_OF_FAILURE
  | DUPLICATE_SIGNER
  | THRESHOLD_ABOVE_TOTAL_WEIGHT

datatype risk_severity = Critical | Warning | Info

text \<open>The table \<open>{ critical: 0, warning: 1, info: 2 }\<close>, and the order it puts on severities.\<close>

definition severity_order :: "risk_severity \<Rightarrow> int" where
  "severity_order s = (case s of Critical \<Rightarrow> 0 | Warning \<Rightarrow> 1 | Info \<Rightarrow> 2)"

lemma severity_order_inj: "severity_order a = severity_order b \<longleftrightarrow> a = b"
  by (cases a; cases b) (simp_all add: severity_order_def)

instantiation risk_severity :: linorder
begin

definition less_eq_risk_severity :: "risk_severity \<Rightarrow> risk_severity \<Rightarrow> bool" where
  "less_eq_risk_severity a b \<longleftrightarrow> severity_order a \<le> severity_order b"

definition less_risk_severity :: "risk_severity \<Rightarrow> risk_severity \<Rightarrow> bool" where
  "less_risk_severity a b \<longleftrightarrow> severity_order a < severity_order b"

instance
  by intro_classes
    (auto simp: less_eq_risk_severity_def less_risk_severity_def severity_order_inj)

end

record multisig_risk =
  mr_code :: risk_code
  mr_severity :: risk_severity
  mr_message :: string
  mr_signers :: "string list option"

record signer_input =
  si_key :: string
  si_weight :: int
  si_signed :: bool
  si_required :: "bool option"

record multisig_input =
  mi_threshold :: int
  mi_signers :: "signer_input list"
  mi_lowThreshold :: "int option"
  mi_highThreshold :: "int option"
  mi_minTime :: "js_num option"
  mi_maxTime :: "js_num option"
  mi_now :: "js_num option"

record signer_outcome =
  sg_key :: string
  sg_weight :: int
  sg_signed :: bool
  sg_required :: bool
  sg_shareOfTotalPercent :: js_num
  sg_shareOfThresholdPercent :: js_num
  sg_controlsAccount :: bool
  sg_indispensable :: bool
  sg_redundant :: bool

record threshold_outcome =
  to_kind :: threshold_kind
  to_requiredWeight :: int
  to_collectedWeight :: int
  to_deficit :: int
  to_cleared :: bool

record time_bounds =
  tb_minTime :: "js_num option"
  tb_maxTime :: "js_num option"
  tb_notYetActive :: bool
  tb_expired :: bool
  tb_invalid :: bool

record multisig_result =
  ms_threshold :: int
  ms_lowThreshold :: int
  ms_mediumThreshold :: int
  ms_highThreshold :: int
  ms_totalWeight :: int
  ms_signedWeight :: int
  ms_deficit :: int
  ms_surplus :: int
  ms_progressPercent :: js_num
  ms_satisfied :: bool
  ms_canSubmit :: bool
  ms_signers :: "signer_outcome list"
  ms_operationThresholds :: "threshold_outcome list"
  ms_outstandingRequiredSigners :: "string list"
  ms_minimumSignersNeeded :: "string list option"
  ms_minimumSetWeight :: int
  ms_duplicateSigners :: "string list"
  ms_risks :: "multisig_risk list"
  ms_timeBounds :: time_bounds

section \<open>The minimum set of signers\<close>

definition weight_sum :: "signer_input list \<Rightarrow> int" where
  "weight_sum ss = sum_list (map si_weight ss)"

text \<open>\<open>signer.required\<close> read as a condition: \<open>undefined\<close> is falsy.\<close>

definition is_required :: "signer_input \<Rightarrow> bool" where
  "is_required s \<longleftrightarrow> si_required s = Some True"

definition compareSolutions ::
  "(string \<Rightarrow> string \<Rightarrow> int) \<Rightarrow> string list \<Rightarrow> string list \<Rightarrow> int" where
  "compareSolutions lc left right =
     (if length left \<noteq> length right then int (length left) - int (length right)
      else lc (join_with '' '' left) (join_with '' '' right))"

definition sort_signers :: "(string \<Rightarrow> string \<Rightarrow> int) \<Rightarrow> signer_input list \<Rightarrow> signer_input list" where
  "sort_signers lc = sort_cmp (\<lambda>left right.
     if si_weight left = si_weight right then lc (si_key left) (si_key right)
     else si_weight right - si_weight left)"

text \<open>The body of the inner loop: extend one entry of the snapshot by the signer.\<close>

definition extend_solution ::
  "(string \<Rightarrow> string \<Rightarrow> int) \<Rightarrow> int \<Rightarrow> signer_input \<Rightarrow> int \<times> string list
    \<Rightarrow> (int, string list) jmap \<Rightarrow> (int, string list) jmap" where
  "extend_solution lc tot signer entry best =
     (let (weight, keys) = entry;
          reached = weight + si_weight signer
      in if reached > tot then best
         else let candidate = sort_strings (keys @ [si_key signer])
              in case jm_get best reached of
                   None \<Rightarrow> jm_set best reached candidate
                 | Some incumbent \<Rightarrow>
                     if compareSolutions lc candidate incumbent < 0
                     then jm_set best reached candidate else best)"

definition add_signer ::
  "(string \<Rightarrow> string \<Rightarrow> int) \<Rightarrow> int \<Rightarrow> signer_input \<Rightarrow> (int, string list) jmap \<Rightarrow> (int, string list) jmap" where
  "add_signer lc tot signer best =
     (if si_weight signer = 0 then best
      else let snapshot = best in fold (extend_solution lc tot signer) snapshot best)"

definition pick_winner ::
  "(string \<Rightarrow> string \<Rightarrow> int) \<Rightarrow> int \<Rightarrow> int \<times> string list \<Rightarrow> (string list \<times> int) option
    \<Rightarrow> (string list \<times> int) option" where
  "pick_winner lc deficit entry winner =
     (let (weight, keys) = entry
      in if weight < deficit then winner
         else case winner of
             None \<Rightarrow> Some (keys, weight)
           | Some (w, winnerWeight) \<Rightarrow>
               if compareSolutions lc keys w < 0 \<or> (length keys = length w \<and> weight < winnerWeight)
               then Some (keys, weight) else Some (w, winnerWeight))"

definition solveMinimumSigners ::
  "(string \<Rightarrow> string \<Rightarrow> int) \<Rightarrow> signer_input list \<Rightarrow> int \<Rightarrow> string list option" where
  "solveMinimumSigners lc signers deficit =
     (if deficit \<le> 0 then Some []
      else let total = weight_sum signers
           in if total < deficit then None
              else let best = fold (add_signer lc total) (sort_signers lc signers) [(0, [])]
                   in map_option fst (fold (pick_winner lc deficit) best None))"

section \<open>Risks\<close>

record risk_context =
  rc_threshold :: int
  rc_signers :: "signer_input list"
  rc_totalWeight :: int
  rc_outstandingRequiredSigners :: "string list"
  rc_duplicateSigners :: "string list"
  rc_minimumSignersNeeded :: "string list option"

definition risk :: "risk_code \<Rightarrow> risk_severity \<Rightarrow> string \<Rightarrow> string list option \<Rightarrow> multisig_risk" where
  "risk code severity message signers =
     \<lparr>mr_code = code, mr_severity = severity, mr_message = message, mr_signers = signers\<rparr>"

text \<open>The risks in the order the code pushes them.\<close>

definition pushed_risks :: "risk_context \<Rightarrow> multisig_risk list" where
  "pushed_risks c =
     (let threshold = rc_threshold c; signers = rc_signers c; totalWeight = rc_totalWeight c;
          weighted = filter (\<lambda>s. si_weight s > 0) signers;
          redundant = filter (\<lambda>s. totalWeight - si_weight s \<ge> threshold) weighted;
          everySignerRequired = (weighted \<noteq> [] \<and> list_all (\<lambda>s. totalWeight - si_weight s < threshold) weighted);
          controller = find (\<lambda>s. threshold > 0 \<and> si_weight s \<ge> threshold) weighted;
          zeroWeight = map si_key (filter (\<lambda>s. \<not> is_required s \<and> si_weight s = 0) signers)
      in (if threshold = 0 then [risk THRESHOLD_ZERO Critical
            ''A threshold of 0 authorises the operation without any signature, so the account is not actually protected.''
            None] else [])
       @ (if totalWeight = 0 then [risk THRESHOLD_UNREACHABLE Critical
            ''No signer carries weight, so no set of signatures can reach a threshold of 1 or more.'' None]
          else if totalWeight < threshold then [risk THRESHOLD_ABOVE_TOTAL_WEIGHT Critical
            (''Total weight '' @ int_to_string totalWeight @ '' is below the threshold of '' @
             int_to_string threshold @ '', so the operation can never be authorised.'') None]
          else [])
       @ (case controller of None \<Rightarrow> []
          | Some s \<Rightarrow> [risk SINGLE_SIGNER_CONTROLS Warning
            (''Signer weight '' @ int_to_string (si_weight s) @ '' alone reaches the threshold of '' @
             int_to_string threshold @ ''.'') (Some [si_key s])])
       @ (if everySignerRequired then [risk REQUIRES_EVERY_SIGNER Warning
            ''Every weighted signer has to sign: removing any one of them leaves the account below the threshold.''
            None] else [])
       @ (case rc_minimumSignersNeeded c of None \<Rightarrow> []
          | Some ks \<Rightarrow> if length ks = 1 \<and> length weighted > 1
            then [risk QUORUM_SINGLE_POINT_OF_FAILURE Warning
              ''A single outstanding signature completes the quorum, so that signer can stall the account on its own.''
              (Some ks)] else [])
       @ (if rc_outstandingRequiredSigners c \<noteq> [] then [risk REQUIRED_SIGNER_UNSIGNED Critical
            (''Required '' @ (if length (rc_outstandingRequiredSigners c) = 1 then ''signer is'' else ''signers are'') @
             '' still outstanding: the account cannot be modified until they sign.'')
            (Some (rc_outstandingRequiredSigners c))] else [])
       @ (if zeroWeight \<noteq> [] then [risk ZERO_WEIGHT_SIGNERS Info
            ''Zero-weight signers are recorded on the account but add no weight to the quorum.''
            (Some zeroWeight)] else [])
       @ (if redundant \<noteq> [] then [risk REDUNDANT_SIGNER Info
            (''Dropping '' @ (if length redundant = 1 then ''this signer'' else ''these signers'') @
             '' leaves the remaining weight at or above the threshold.'')
            (Some (map si_key redundant))] else [])
       @ (if rc_duplicateSigners c \<noteq> [] then [risk DUPLICATE_SIGNER Warning
            ''The same key appears more than once. Stellar counts each key once, so the duplicates inflate the totals in this simulation only.''
            (Some (rc_duplicateSigners c))] else []))"

definition collectRisks :: "risk_context \<Rightarrow> multisig_risk list" where
  "collectRisks c = sort_cmp (\<lambda>left right.
     severity_order (mr_severity left) - severity_order (mr_severity right)) (pushed_risks c)"

section \<open>The simulation\<close>

definition assertWeight :: "int \<Rightarrow> string \<Rightarrow> js_error + unit" where
  "assertWeight value label =
     throw_if (value < 0 \<or> value > MAX_SIGNER_WEIGHT)
       (RangeError (label @ '' must be an integer between 0 and 255''))"

definition assertThreshold :: "int \<Rightarrow> string \<Rightarrow> js_error + unit" where
  "assertThreshold value label = assertWeight value label"

text \<open>The validation loop; it returns the duplicated keys in the order they were found.\<close>

fun check_signers :: "signer_input list \<Rightarrow> string list \<Rightarrow> string list \<Rightarrow> js_error + string list" where
  "check_signers [] seen duplicates = Inr duplicates"
| "check_signers (s # ss) seen duplicates =
     (let duplicates' = (if si_key s \<in> set seen \<and> si_key s \<notin> set duplicates
                         then duplicates @ [si_key s] else duplicates)
      in and_then (assertWeight (si_weight s) (''signer '' @ si_key s @ '' weight'')) (\<lambda>_.
         and_then (throw_if (is_required s \<and> si_weight s \<noteq> 0)
           (RangeError (''signer '' @ si_key s @ '' is required and must have weight 0''))) (\<lambda>_.
         check_signers ss (si_key s # seen) duplicates')))"

definition weightPercent :: "int \<Rightarrow> int \<Rightarrow> js_num" where
  "weightPercent part whole =
     (if whole = 0 then 0
      else js_div (of_int (math_round (js_mul (js_div (of_int part) (of_int whole)) 10000))) 100)"

definition buildSignerOutcomes :: "signer_input list \<Rightarrow> int \<Rightarrow> int \<Rightarrow> signer_outcome list" where
  "buildSignerOutcomes signers totalWeight threshold =
     map (\<lambda>s. let remaining = totalWeight - si_weight s in
       \<lparr>sg_key = si_key s, sg_weight = si_weight s, sg_signed = si_signed s,
        sg_required = is_required s,
        sg_shareOfTotalPercent = weightPercent (si_weight s) totalWeight,
        sg_shareOfThresholdPercent = weightPercent (si_weight s) threshold,
        sg_controlsAccount = (threshold > 0 \<and> si_weight s \<ge> threshold),
        sg_indispensable = (remaining < threshold),
        sg_redundant = (remaining \<ge> threshold)\<rparr>) signers"

definition evaluateTimeBounds :: "js_num \<Rightarrow> multisig_input \<Rightarrow> js_error + time_bounds" where
  "evaluateTimeBounds clock i =
     (let now = (case mi_now i of Some n \<Rightarrow> n | None \<Rightarrow> of_int \<lfloor>js_div clock 1000\<rfloor>);
          before = (case mi_minTime i of Some m \<Rightarrow> now < m | None \<Rightarrow> False);
          after = (case mi_maxTime i of Some m \<Rightarrow> now > m | None \<Rightarrow> False)
      in and_then (throw_if (case (mi_minTime i, mi_maxTime i) of (Some a, Some b) \<Rightarrow> a > b | _ \<Rightarrow> False)
           (RangeError ''minTime must not be after maxTime'')) (\<lambda>_.
         Inr \<lparr>tb_minTime = mi_minTime i, tb_maxTime = mi_maxTime i, tb_notYetActive = before,
              tb_expired = after, tb_invalid = (before \<or> after)\<rparr>))"

definition threshold_row :: "int \<Rightarrow> threshold_kind \<times> int \<Rightarrow> threshold_outcome" where
  "threshold_row signedWeight kr = (let (kind, requiredWeight) = kr in
     \<lparr>to_kind = kind, to_requiredWeight = requiredWeight, to_collectedWeight = signedWeight,
      to_deficit = max 0 (requiredWeight - signedWeight), to_cleared = (signedWeight \<ge> requiredWeight)\<rparr>)"

text \<open>\<open>signers.find((entry) => entry.key === key)\<close>, and the weight it contributes.\<close>

definition weight_of_key :: "signer_input list \<Rightarrow> string \<Rightarrow> int" where
  "weight_of_key signers key =
     (case find (\<lambda>s. si_key s = key) signers of Some s \<Rightarrow> si_weight s | None \<Rightarrow> 0)"

definition simulateMultisig ::
  "(string \<Rightarrow> string \<Rightarrow> int) \<Rightarrow> js_num \<Rightarrow> multisig_input \<Rightarrow> js_error + multisig_result" where
  "simulateMultisig lc clock i =
     (let threshold = mi_threshold i; signers = mi_signers i in
      and_then (assertThreshold threshold ''threshold'') (\<lambda>_.
      and_then (throw_if (length signers > MAX_SIGNERS)
        (RangeError ''signers must hold at most 21 entries'')) (\<lambda>_.
      let lowThreshold = (case mi_lowThreshold i of Some t \<Rightarrow> t | None \<Rightarrow> threshold);
          highThreshold = (case mi_highThreshold i of Some t \<Rightarrow> t | None \<Rightarrow> threshold) in
      and_then (assertThreshold lowThreshold ''lowThreshold'') (\<lambda>_.
      and_then (assertThreshold highThreshold ''highThreshold'') (\<lambda>_.
      and_then (check_signers signers [] []) (\<lambda>duplicates.
      let totalWeight = weight_sum signers;
          signedWeight = weight_sum (filter si_signed signers);
          satisfied = (signedWeight \<ge> threshold);
          outstandingRequired = map si_key (filter (\<lambda>s. is_required s \<and> \<not> si_signed s) signers);
          outstanding = filter (\<lambda>s. \<not> si_signed s) signers;
          minimum = (if satisfied then Some []
                     else solveMinimumSigners lc outstanding (threshold - signedWeight));
          duplicateSigners = sort_strings duplicates in
      and_then (evaluateTimeBounds clock i) (\<lambda>timeBounds.
      Inr \<lparr>ms_threshold = threshold, ms_lowThreshold = lowThreshold, ms_mediumThreshold = threshold,
           ms_highThreshold = highThreshold, ms_totalWeight = totalWeight, ms_signedWeight = signedWeight,
           ms_deficit = max 0 (threshold - signedWeight), ms_surplus = max 0 (signedWeight - threshold),
           ms_progressPercent = (if threshold = 0 then 100
             else min 100 (js_div (of_int (math_round
               (js_mul (js_div (of_int signedWeight) (of_int threshold)) 10000))) 100)),
           ms_satisfied = satisfied, ms_canSubmit = (satisfied \<and> length outstandingRequired = 0),
           ms_signers = buildSignerOutcomes signers totalWeight threshold,
           ms_operationThresholds = map (threshold_row signedWeight)
             [(Low, lowThreshold), (Medium, threshold), (High, highThreshold)],
           ms_outstandingRequiredSigners = outstandingRequired, ms_minimumSignersNeeded = minimum,
           ms_minimumSetWeight = (case minimum of
             Some ks \<Rightarrow> sum_list (map (weight_of_key signers) ks) | None \<Rightarrow> 0),
           ms_duplicateSigners = duplicateSigners,
           ms_risks = collectRisks \<lparr>rc_threshold = threshold, rc_signers = signers,
             rc_totalWeight = totalWeight, rc_outstandingRequiredSigners = outstandingRequired,
             rc_duplicateSigners = duplicateSigners, rc_minimumSignersNeeded = minimum\<rparr>,
           ms_timeBounds = timeBounds\<rparr>)))))))"

section \<open>The service\<close>

definition matches_integer :: "string \<Rightarrow> bool" where
  "matches_integer s =
     (case s of [] \<Rightarrow> False
      | c # cs \<Rightarrow> if c = CHR ''-'' then cs \<noteq> [] \<and> list_all is_digit cs else list_all is_digit s)"

definition integer_value :: "string \<Rightarrow> int" where
  "integer_value s =
     (case s of [] \<Rightarrow> 0
      | c # cs \<Rightarrow> if c = CHR ''-'' then - int (nat_of_digits cs) else int (nat_of_digits s))"

definition parseTimeBound ::
  "(string \<Rightarrow> js_num option) \<Rightarrow> string option \<Rightarrow> string \<Rightarrow> js_error + js_num option" where
  "parseTimeBound date_parse value label =
     (case value of None \<Rightarrow> Inr None
      | Some v \<Rightarrow>
          if trim v = [] then Inr None
          else let trimmed = trim v
               in if matches_integer trimmed
                  then let seconds = js_number (integer_value trimmed)
                       in if \<bar>seconds\<bar> > 2 ^ 53 - 1 \<or> seconds < 0
                          then Inl (BadRequest (label @ '' must be a non-negative unix timestamp''))
                          else Inr (Some seconds)
                  else case date_parse trimmed of
                      None \<Rightarrow> Inl (BadRequest (label @
                        '' must be unix seconds or an ISO 8601 timestamp, got \"'' @ v @ ''\"''))
                    | Some parsed \<Rightarrow> Inr (Some (of_int \<lfloor>js_div parsed 1000\<rfloor>)))"

record signer_dto =
  sd_key :: string
  sd_weight :: int
  sd_signed :: "bool option"
  sd_required :: "bool option"

record simulate_dto =
  md_threshold :: int
  md_lowThreshold :: "int option"
  md_highThreshold :: "int option"
  md_minTime :: "string option"
  md_maxTime :: "string option"
  md_signers :: "signer_dto list"

definition dto_signer :: "signer_dto \<Rightarrow> signer_input" where
  "dto_signer s = \<lparr>si_key = sd_key s, si_weight = sd_weight s,
     si_signed = (case sd_signed s of Some b \<Rightarrow> b | None \<Rightarrow> False),
     si_required = Some (case sd_required s of Some b \<Rightarrow> b | None \<Rightarrow> False)\<rparr>"

definition simulate_service ::
  "(string \<Rightarrow> string \<Rightarrow> int) \<Rightarrow> (string \<Rightarrow> js_num option) \<Rightarrow> js_num \<Rightarrow> simulate_dto
    \<Rightarrow> js_error + multisig_result" where
  "simulate_service lc date_parse clock dto =
     and_then (parseTimeBound date_parse (md_minTime dto) ''minTime'') (\<lambda>minTime.
     and_then (parseTimeBound date_parse (md_maxTime dto) ''maxTime'') (\<lambda>maxTime.
     case simulateMultisig lc clock
         \<lparr>mi_threshold = md_threshold dto, mi_signers = map dto_signer (md_signers dto),
          mi_lowThreshold = md_lowThreshold dto, mi_highThreshold = md_highThreshold dto,
          mi_minTime = minTime, mi_maxTime = maxTime, mi_now = None\<rparr> of
       Inl (RangeError message) \<Rightarrow> Inl (BadRequest message)
     | r \<Rightarrow> r))"


section \<open>The knapsack\<close>

definition mweight :: "signer_input multiset \<Rightarrow> int" where
  "mweight M = sum_mset (image_mset si_weight M)"

text \<open>\<open>keys\<close> is the key list of some of the signers, of total weight \<open>w\<close>.\<close>

definition chosen :: "signer_input multiset \<Rightarrow> int \<Rightarrow> string list \<Rightarrow> bool" where
  "chosen S w keys \<longleftrightarrow> (\<exists>M. M \<subseteq># S \<and> mweight M = w \<and> mset keys = image_mset si_key M)"

lemma mweight_simps [simp]:
  "mweight {#} = 0" "mweight (add_mset s M) = si_weight s + mweight M" "mweight (mset ss) = weight_sum ss"
  "mweight (M + N) = mweight M + mweight N"
  by (simp_all add: mweight_def weight_sum_def sum_mset_sum_list flip: mset_map)

lemma chosen_mono: "chosen S w keys \<Longrightarrow> S \<subseteq># T \<Longrightarrow> chosen T w keys"
  unfolding chosen_def using subset_mset.order_trans by blast

lemma chosen_add:
  assumes "chosen S w keys" "mset keys' = add_mset (si_key s) (mset keys)"
  shows "chosen (add_mset s S) (w + si_weight s) keys'"
proof -
  obtain M where M: "M \<subseteq># S" "mweight M = w" "mset keys = image_mset si_key M"
    using assms(1) by (auto simp: chosen_def)
  then show ?thesis unfolding chosen_def
    by (intro exI [of _ "add_mset s M"]) (simp add: assms(2))
qed

lemma mset_sort_strings [simp]: "mset (sort_strings xs) = mset xs"
  by (simp add: sort_strings_def)

lemma length_sort_strings [simp]: "length (sort_strings xs) = length xs"
  by (simp add: sort_strings_def)

text \<open>One map is at least as good as another when it reaches the same weights with no more signers.\<close>

definition improves :: "(int, string list) jmap \<Rightarrow> (int, string list) jmap \<Rightarrow> bool" where
  "improves m m' \<longleftrightarrow>
     (\<forall>w a. jm_get m w = Some a \<longrightarrow> (\<exists>b. jm_get m' w = Some b \<and> length b \<le> length a))"

lemma improves_refl [simp]: "improves m m"
  by (auto simp: improves_def)

lemma improves_trans: "improves m m' \<Longrightarrow> improves m' m'' \<Longrightarrow> improves m m''"
  unfolding improves_def by (meson order_trans)

lemma compareSolutions_length: "compareSolutions lc a b < 0 \<Longrightarrow> length a \<le> length b"
  by (auto simp: compareSolutions_def split: if_splits)

lemma compareSolutions_kept: "\<not> compareSolutions lc a b < 0 \<Longrightarrow> length b \<le> length a"
  by (auto simp: compareSolutions_def split: if_splits)

lemma extend_solution_spec:
  shows "improves m (extend_solution lc tot s (w, keys) m)"
    and "w + si_weight s \<le> tot \<Longrightarrow>
      \<exists>b. jm_get (extend_solution lc tot s (w, keys) m) (w + si_weight s) = Some b \<and> length b \<le> length keys + 1"
    and "jm_get (extend_solution lc tot s (w, keys) m) w' = Some b \<Longrightarrow>
      jm_get m w' = Some b \<or> w' = w + si_weight s \<and> mset b = add_mset (si_key s) (mset keys)"
    and "jm_ok m \<Longrightarrow> jm_ok (extend_solution lc tot s (w, keys) m)"
  by (auto simp: extend_solution_def Let_def improves_def split: option.splits if_splits
      dest: compareSolutions_length compareSolutions_kept)

lemma extend_fold_spec:
  shows "improves m (fold (extend_solution lc tot s) es m)"
    and "jm_ok m \<Longrightarrow> jm_ok (fold (extend_solution lc tot s) es m)"
    and "(w, keys) \<in> set es \<Longrightarrow> w + si_weight s \<le> tot \<Longrightarrow>
      \<exists>b. jm_get (fold (extend_solution lc tot s) es m) (w + si_weight s) = Some b \<and> length b \<le> length keys + 1"
    and "jm_get (fold (extend_solution lc tot s) es m) w' = Some b \<Longrightarrow> jm_get m w' = Some b \<or>
      (\<exists>(w, keys) \<in> set es. w' = w + si_weight s \<and> mset b = add_mset (si_key s) (mset keys))"
proof -
  let ?f = "extend_solution lc tot s"
  note spec = extend_solution_spec [where lc = lc and tot = tot and s = s]
  show imp: "improves m (fold (extend_solution lc tot s) es m)" for es m
  proof (induction es arbitrary: m)
    case (Cons e es)
    then show ?case using improves_trans spec(1) [where m = m and w = "fst e" and keys = "snd e"] by simp
  qed simp
  show "jm_ok m \<Longrightarrow> jm_ok (fold (extend_solution lc tot s) es m)" for es
    by (induction es arbitrary: m) (auto simp: spec(4))
  show "(w, keys) \<in> set es \<Longrightarrow> w + si_weight s \<le> tot \<Longrightarrow>
      \<exists>b. jm_get (fold (extend_solution lc tot s) es m) (w + si_weight s) = Some b \<and> length b \<le> length keys + 1"
  proof (induction es arbitrary: m)
    case (Cons e es)
    show ?case
    proof (cases "e = (w, keys)")
      case True
      then show ?thesis
        using spec(2) [where m = m, OF Cons.prems(2), of keys] imp [of "?f e m" es] by (fastforce simp: improves_def)
    next
      case False
      then show ?thesis using Cons by simp
    qed
  qed simp
  show "jm_get (fold (extend_solution lc tot s) es m) w' = Some b \<Longrightarrow> jm_get m w' = Some b \<or>
      (\<exists>(w, keys) \<in> set es. w' = w + si_weight s \<and> mset b = add_mset (si_key s) (mset keys))"
  proof (induction es arbitrary: m)
    case (Cons e es)
    then have "jm_get (?f e m) w' = Some b \<or>
      (\<exists>(w, keys) \<in> set es. w' = w + si_weight s \<and> mset b = add_mset (si_key s) (mset keys))" by simp
    then show ?case using spec(3) [where m = m and w = "fst e" and keys = "snd e" and w' = w' and b = b] by (auto simp: split_beta)
  qed simp
qed

text \<open>The table after some signers: every entry is real, and no set of them is beaten.\<close>

definition table_ok :: "int \<Rightarrow> signer_input multiset \<Rightarrow> (int, string list) jmap \<Rightarrow> bool" where
  "table_ok tot S m \<longleftrightarrow> jm_ok m
     \<and> (\<forall>w keys. jm_get m w = Some keys \<longrightarrow> chosen S w keys)
     \<and> (\<forall>M. M \<subseteq># S \<longrightarrow> mweight M \<le> tot \<longrightarrow>
          (\<exists>keys. jm_get m (mweight M) = Some keys \<and> length keys \<le> size M))"

lemma table_ok_init: "table_ok tot {#} [(0, [])]"
  by (simp add: table_ok_def chosen_def jm_ok_def)

lemma table_ok_add:
  assumes "table_ok tot S m" "0 \<le> si_weight s"
  shows "table_ok tot (add_mset s S) (add_signer lc tot s m)"
proof (cases "si_weight s = 0")
  case True
  have "\<exists>keys. jm_get m (mweight M) = Some keys \<and> length keys \<le> size M"
    if M: "M \<subseteq># add_mset s S" "mweight M \<le> tot" for M
  proof (cases "s \<in># M")
    case in_M: True
    then obtain N where N: "M = add_mset s N" by (metis multi_member_split)
    then have "N \<subseteq># S" "mweight N = mweight M" using M(1) True by simp_all
    moreover have "size N \<le> size M" using N by simp
    ultimately show ?thesis using assms(1) M(2) unfolding table_ok_def by (metis order_trans)
  next
    case False
    then have "M \<subseteq># S" using M(1) by (metis add_mset_remove_trivial diff_single_trivial subset_eq_diff_conv add_mset_add_single)
    then show ?thesis using assms(1) M(2) by (simp add: table_ok_def)
  qed
  moreover have "chosen (add_mset s S) w keys" if "jm_get m w = Some keys" for w keys
    using assms(1) that chosen_mono [of S w keys "add_mset s S"] by (auto simp: table_ok_def)
  ultimately show ?thesis using assms(1) True by (simp add: table_ok_def add_signer_def)
next
  case False
  define m' where "m' = fold (extend_solution lc tot s) m m"
  have add: "add_signer lc tot s m = m'" using False by (simp add: add_signer_def m'_def)
  note ext = extend_fold_spec [where lc = lc and tot = tot and s = s and m = m and es = m]
  have ok: "jm_ok m" using assms(1) by (simp add: table_ok_def)
  have in_m: "jm_get m w = Some keys" if "(w, keys) \<in> set m" for w keys
    using jm_get_in [OF ok that] .
  have sound: "chosen (add_mset s S) w keys" if "jm_get m' w = Some keys" for w keys
    using ext(4) [of w keys] that assms(1) chosen_mono [of S w keys "add_mset s S"]
    by (auto simp: m'_def table_ok_def dest!: in_m intro: chosen_add)
  have complete: "\<exists>keys. jm_get m' (mweight M) = Some keys \<and> length keys \<le> size M"
    if M: "M \<subseteq># add_mset s S" "mweight M \<le> tot" for M
  proof (cases "s \<in># M")
    case True
    then obtain N where N: "M = add_mset s N" by (metis multi_member_split)
    then have "N \<subseteq># S" "mweight N \<le> tot" using M assms(2) by simp_all
    then obtain keys where "jm_get m (mweight N) = Some keys" "length keys \<le> size N"
      using assms(1) by (auto simp: table_ok_def)
    then show ?thesis using ext(3) [of "mweight N" keys] N M(2) jm_get_Some_in
      by (fastforce simp: m'_def add.commute)
  next
    case False
    then have "M \<subseteq># S" using M(1) by (metis add_mset_remove_trivial diff_single_trivial subset_eq_diff_conv add_mset_add_single)
    then show ?thesis using assms(1) M(2) ext(1) unfolding m'_def table_ok_def improves_def
      by (meson order_trans)
  qed
  show ?thesis unfolding add table_ok_def using ok ext(2) sound complete by (simp add: m'_def)
qed

lemma table_ok_fold:
  assumes "table_ok tot S m" "\<forall>s \<in> set ss. 0 \<le> si_weight s"
  shows "table_ok tot (S + mset ss) (fold (add_signer lc tot) ss m)"
  using assms
proof (induction ss arbitrary: S m)
  case (Cons s ss)
  then have "table_ok tot (add_mset s S) (add_signer lc tot s m)" by (simp add: table_ok_add)
  from Cons.IH [OF this] Cons.prems show ?case by simp
qed simp

section \<open>The selection\<close>

definition winner_ok :: "int \<Rightarrow> (int \<times> string list) set \<Rightarrow> (string list \<times> int) option \<Rightarrow> bool" where
  "winner_ok d E winner \<longleftrightarrow>
     (case winner of
        None \<Rightarrow> \<forall>(w, keys) \<in> E. w < d
      | Some (keys, w) \<Rightarrow> (w, keys) \<in> E \<and> d \<le> w \<and> (\<forall>(w', keys') \<in> E. d \<le> w' \<longrightarrow> length keys \<le> length keys'))"

lemma pick_winner_ok: "winner_ok d E a \<Longrightarrow> winner_ok d (insert e E) (pick_winner lc d e a)"
proof (cases a)
  case None
  then show "winner_ok d E a \<Longrightarrow> winner_ok d (insert e E) (pick_winner lc d e a)"
    by (cases e) (force simp: winner_ok_def pick_winner_def)
next
  case (Some kw)
  obtain w keys w0 keys0 where e: "e = (w, keys)" and kw: "kw = (keys0, w0)" by (metis surj_pair)
  have "compareSolutions lc keys keys0 < 0 \<Longrightarrow> length keys \<le> length keys0"
    "\<not> compareSolutions lc keys keys0 < 0 \<Longrightarrow> length keys0 \<le> length keys"
    by (rule compareSolutions_length compareSolutions_kept; assumption)+
  then show "winner_ok d E a \<Longrightarrow> winner_ok d (insert e E) (pick_winner lc d e a)"
    unfolding Some e kw winner_ok_def
    by (cases "w < d"; cases "compareSolutions lc keys keys0 < 0 \<or> length keys = length keys0 \<and> w < w0")
      (auto simp: pick_winner_def intro: order_trans)
qed

lemma pick_winner_fold: "winner_ok d E a \<Longrightarrow> winner_ok d (E \<union> set es) (fold (pick_winner lc d) es a)"
proof (induction es arbitrary: E a)
  case (Cons e es)
  from Cons.IH [OF pick_winner_ok [OF Cons.prems]] show ?case by simp
qed simp


lemma solve_spec:
  assumes "\<forall>s \<in> set signers. 0 \<le> si_weight s"
  shows "case solveMinimumSigners lc signers d of
      None \<Rightarrow> 0 < d \<and> weight_sum signers < d
    | Some ks \<Rightarrow> d \<le> max 0 (weight_sum signers) \<and> (\<exists>w. chosen (mset signers) w ks \<and> d \<le> w)
        \<and> (\<forall>M. M \<subseteq># mset signers \<longrightarrow> d \<le> mweight M \<longrightarrow> length ks \<le> size M)"
proof -
  let ?tot = "weight_sum signers"
  consider "d \<le> 0" | "0 < d" "?tot < d" | "0 < d" "d \<le> ?tot" by linarith
  then show ?thesis
  proof cases
    case 1
    have "chosen (mset signers) 0 []" by (simp add: chosen_def)
    then show ?thesis using 1 by (auto simp: solveMinimumSigners_def)
  next
    case 2
    then show ?thesis by (simp add: solveMinimumSigners_def Let_def)
  next
    case 3
    define best where "best = fold (add_signer lc ?tot) (sort_signers lc signers) [(0, [])]"
    have "mset (sort_signers lc signers) = mset signers" by (simp add: sort_signers_def)
    moreover have "\<forall>s \<in> set (sort_signers lc signers). 0 \<le> si_weight s"
      using assms by (simp add: sort_signers_def)
    ultimately have tab: "table_ok ?tot (mset signers) best"
      using table_ok_fold [OF table_ok_init, of "sort_signers lc signers"] by (simp add: best_def)
    have win: "winner_ok d (set best) (fold (pick_winner lc d) best None)"
      using pick_winner_fold [of d "{}" None best lc] by (simp add: winner_ok_def)
    have le_tot: "mweight M \<le> ?tot" if "M \<subseteq># mset signers" for M
    proof -
      define N where "N = mset signers - M"
      have N: "mset signers = M + N" using that by (simp add: N_def subset_mset.add_diff_inverse)
      then have "\<forall>s \<in># N. 0 \<le> si_weight s" using assms by (metis set_mset_mset union_iff)
      then have "0 \<le> mweight N" unfolding mweight_def by (induction N) auto
      then show ?thesis using N mweight_simps(3) [of signers] mweight_simps(4) [of M N] by simp
    qed
    have entry: "\<exists>keys. (mweight M, keys) \<in> set best \<and> length keys \<le> size M" if "M \<subseteq># mset signers" for M
      using tab that le_tot [OF that] jm_get_Some_in unfolding table_ok_def by metis
    have sol: "solveMinimumSigners lc signers d = map_option fst (fold (pick_winner lc d) best None)"
      using 3 by (simp add: solveMinimumSigners_def Let_def best_def)
    obtain ks w where ksw: "fold (pick_winner lc d) best None = Some (ks, w)"
      using win entry [of "mset signers"] 3(2)
      by (cases "fold (pick_winner lc d) best None") (fastforce simp: winner_ok_def)+
    then have ks: "(w, ks) \<in> set best" "d \<le> w"
      "\<And>w' keys. (w', keys) \<in> set best \<Longrightarrow> d \<le> w' \<Longrightarrow> length ks \<le> length keys"
      using win by (auto simp: winner_ok_def)
    have "chosen (mset signers) w ks" using tab jm_get_in [OF _ ks(1)] by (simp add: table_ok_def)
    moreover have "length ks \<le> size M" if "M \<subseteq># mset signers" "d \<le> mweight M" for M
      using entry [OF that(1)] ks(3) that(2) by (meson order_trans)
    ultimately show ?thesis using 3(2) sol ksw ks(2) by auto
  qed
qed

section \<open>The simulation\<close>

lemma check_signersD:
  "check_signers ss seen dups = Inr ds \<Longrightarrow> s \<in> set ss \<Longrightarrow>
     0 \<le> si_weight s \<and> si_weight s \<le> 255 \<and> (is_required s \<longrightarrow> si_weight s = 0)"
  by (induction ss seen dups arbitrary: ds rule: check_signers.induct)
    (auto simp: Let_def result_laws assertWeight_def MAX_SIGNER_WEIGHT_def)

lemma simulateD:
  assumes "simulateMultisig lc clock i = Inr r"
  obtains dups where
    "check_signers (mi_signers i) [] [] = Inr dups" "0 \<le> mi_threshold i" "length (mi_signers i) \<le> 21"
    "ms_threshold r = mi_threshold i" "ms_totalWeight r = weight_sum (mi_signers i)"
    "ms_signedWeight r = weight_sum (filter si_signed (mi_signers i))"
    "ms_satisfied r \<longleftrightarrow> mi_threshold i \<le> weight_sum (filter si_signed (mi_signers i))"
    "ms_canSubmit r \<longleftrightarrow> ms_satisfied r \<and> filter (\<lambda>s. is_required s \<and> \<not> si_signed s) (mi_signers i) = []"
    "ms_minimumSignersNeeded r = (if ms_satisfied r then Some []
       else solveMinimumSigners lc (filter (\<lambda>s. \<not> si_signed s) (mi_signers i))
              (mi_threshold i - weight_sum (filter si_signed (mi_signers i))))"
    "ms_risks r = collectRisks \<lparr>rc_threshold = mi_threshold i, rc_signers = mi_signers i,
       rc_totalWeight = ms_totalWeight r, rc_outstandingRequiredSigners = ms_outstandingRequiredSigners r,
       rc_duplicateSigners = sort_strings dups, rc_minimumSignersNeeded = ms_minimumSignersNeeded r\<rparr>"
  using assms
  by (auto simp: simulateMultisig_def Let_def result_laws assertThreshold_def assertWeight_def MAX_SIGNERS_def
      split: option.split_asm)

lemma weight_sum_split:
  "weight_sum (filter si_signed ss) + weight_sum (filter (\<lambda>s. \<not> si_signed s) ss) = weight_sum ss"
  unfolding weight_sum_def by (rule sum_list_filter_split [symmetric])

lemma weight_sum_nonneg: "\<forall>s \<in> set ss. 0 \<le> si_weight s \<Longrightarrow> 0 \<le> weight_sum ss"
  unfolding weight_sum_def by (induction ss) auto


section \<open>Risks\<close>

lemma severity_cmp: "severity_order a - severity_order b \<le> 0 \<longleftrightarrow> a \<le> b"
  by (simp add: less_eq_risk_severity_def)

lemma risks_sorted: "sorted (map mr_severity (collectRisks c))"
proof -
  have "sorted_wrt (\<lambda>a b. severity_order (mr_severity a) - severity_order (mr_severity b) \<le> 0) (collectRisks c)"
    unfolding collectRisks_def by (rule sorted_sort_cmp) linarith+
  then show ?thesis unfolding severity_cmp by (simp add: sorted_wrt_map)
qed

lemma risk_codes: "mr_code ` set (collectRisks c) = mr_code ` set (pushed_risks c)"
  by (simp add: collectRisks_def)

lemma code_risk [simp]: "mr_code (risk code sev msg sg) = code"
  by (simp add: risk_def)

lemma codes_if:
  "mr_code ` set (if b then [risk a s m k] else rs) = (if b then {a} else mr_code ` set rs)"
  by simp

lemma codes_option:
  "mr_code ` set (case x of None \<Rightarrow> [] | Some y \<Rightarrow> [risk a s (m y) (k y)]) = (if x = None then {} else {a})"
  by (cases x) simp_all

lemma codes_option_if:
  "mr_code ` set (case x of None \<Rightarrow> [] | Some y \<Rightarrow> if P y then [risk a s m (k y)] else [])
     = (if \<exists>y. x = Some y \<and> P y then {a} else {})"
  by (cases x) simp_all

lemma code_mem:
  "x \<in> (if b then {a} else S) \<longleftrightarrow> b \<and> x = a \<or> \<not> b \<and> x \<in> S"
  "x \<in> (if b then {} else {a}) \<longleftrightarrow> \<not> b \<and> x = a"
  by simp_all

lemmas pushed_codes = pushed_risks_def Let_def set_append image_Un codes_if codes_option codes_option_if

lemma above_total_iff:
  "THRESHOLD_ABOVE_TOTAL_WEIGHT \<in> mr_code ` set (pushed_risks c) \<longleftrightarrow>
     rc_totalWeight c \<noteq> 0 \<and> rc_totalWeight c < rc_threshold c"
  unfolding pushed_codes
  by (simp only: Un_iff code_mem list.set(1) image_empty empty_iff risk_code.distinct simp_thms)

lemma unreachable_iff:
  "THRESHOLD_UNREACHABLE \<in> mr_code ` set (pushed_risks c) \<longleftrightarrow> rc_totalWeight c = 0"
  unfolding pushed_codes
  by (simp only: Un_iff code_mem list.set(1) image_empty empty_iff risk_code.distinct simp_thms)

lemma single_iff:
  "SINGLE_SIGNER_CONTROLS \<in> mr_code ` set (pushed_risks c) \<longleftrightarrow>
     0 < rc_threshold c \<and> (\<exists>s \<in> set (rc_signers c). rc_threshold c \<le> si_weight s)"
proof -
  have "SINGLE_SIGNER_CONTROLS \<in> mr_code ` set (pushed_risks c) \<longleftrightarrow>
      find (\<lambda>s. rc_threshold c > 0 \<and> si_weight s \<ge> rc_threshold c)
        (filter (\<lambda>s. si_weight s > 0) (rc_signers c)) \<noteq> None"
    unfolding pushed_codes
    by (simp only: Un_iff code_mem list.set(1) image_empty empty_iff risk_code.distinct simp_thms)
  also have "\<dots> \<longleftrightarrow> (\<exists>s \<in> set (rc_signers c). 0 < si_weight s \<and> 0 < rc_threshold c \<and> rc_threshold c \<le> si_weight s)"
    unfolding find_None_iff by auto
  also have "\<dots> \<longleftrightarrow> 0 < rc_threshold c \<and> (\<exists>s \<in> set (rc_signers c). rc_threshold c \<le> si_weight s)"
    by force
  finally show ?thesis .
qed

section \<open>Properties\<close>

text \<open>
  C8. The signers still needed are a true minimum: \<open>solveMinimumSigners\<close> answers \<open>null\<close> exactly
  when all the signers together fall short; otherwise its keys are those of distinct entries of the
  list whose weights reach the deficit, and no set of entries that reaches it is smaller.
\<close>

theorem minimum_signers_optimal:
  assumes "\<forall>s \<in> set signers. 0 \<le> si_weight s"
  shows "case solveMinimumSigners lc signers deficit of
      None \<Rightarrow> 0 < deficit \<and> weight_sum signers < deficit
    | Some keys \<Rightarrow> deficit \<le> max 0 (weight_sum signers)
        \<and> (\<exists>w. chosen (mset signers) w keys \<and> deficit \<le> w)
        \<and> (\<forall>M. M \<subseteq># mset signers \<longrightarrow> deficit \<le> mweight M \<longrightarrow> length keys \<le> size M)"
  using assms by (rule solve_spec)

definition sample_signer :: "string \<Rightarrow> int \<Rightarrow> bool \<Rightarrow> signer_input" where
  "sample_signer key weight signed =
     \<lparr>si_key = key, si_weight = weight, si_signed = signed, si_required = None\<rparr>"

theorem minimum_signers_optimal_witness:
  "\<exists>w. chosen (mset [sample_signer ''a'' 60 False, sample_signer ''b'' 40 False, sample_signer ''c'' 20 False])
       w [''a'', ''b''] \<and> 100 \<le> w"
proof -
  let ?ss = "[sample_signer ''a'' 60 False, sample_signer ''b'' 40 False, sample_signer ''c'' 20 False]"
  have "solveMinimumSigners str_cmp ?ss 100 = Some [''a'', ''b'']" by code_simp
  moreover have "\<forall>s \<in> set ?ss. 0 \<le> si_weight s" by (simp add: sample_signer_def)
  from minimum_signers_optimal [OF this, where lc = str_cmp and deficit = 100]
  have "case solveMinimumSigners str_cmp ?ss 100 of None \<Rightarrow> (0::int) < 100 \<and> weight_sum ?ss < 100
    | Some keys \<Rightarrow> 100 \<le> max 0 (weight_sum ?ss) \<and> (\<exists>w. chosen (mset ?ss) w keys \<and> 100 \<le> w)
        \<and> (\<forall>M. M \<subseteq># mset ?ss \<longrightarrow> 100 \<le> mweight M \<longrightarrow> length keys \<le> size M)" .
  ultimately show ?thesis by simp
qed

text \<open>
  The simulation answers its two questions: the operation can be submitted exactly when the
  collected weight reaches the threshold and every required signer has signed; and the minimum set
  is \<open>null\<close> exactly when the whole account cannot reach the threshold, empty when it is already
  reached, and otherwise names outstanding signers whose weight, added to the collected weight,
  reaches the threshold.
\<close>

theorem simulation_answers:
  assumes "simulateMultisig lc clock i = Inr r"
  shows "(ms_canSubmit r \<longleftrightarrow> ms_threshold r \<le> ms_signedWeight r
           \<and> (\<forall>s \<in> set (mi_signers i). is_required s \<longrightarrow> si_signed s))
    \<and> (ms_minimumSignersNeeded r = None \<longleftrightarrow> ms_totalWeight r < ms_threshold r)
    \<and> (case ms_minimumSignersNeeded r of None \<Rightarrow> True
       | Some keys \<Rightarrow> \<exists>w. chosen (mset (filter (\<lambda>s. \<not> si_signed s) (mi_signers i))) w keys
           \<and> ms_threshold r \<le> ms_signedWeight r + w)"
proof -
  let ?ss = "mi_signers i" and ?out = "filter (\<lambda>s. \<not> si_signed s) (mi_signers i)"
  let ?signed = "weight_sum (filter si_signed ?ss)"
  obtain dups where D: "check_signers ?ss [] [] = Inr dups" "ms_threshold r = mi_threshold i"
    "ms_totalWeight r = weight_sum ?ss" "ms_signedWeight r = ?signed"
    "ms_satisfied r \<longleftrightarrow> mi_threshold i \<le> ?signed"
    "ms_canSubmit r \<longleftrightarrow> ms_satisfied r \<and> filter (\<lambda>s. is_required s \<and> \<not> si_signed s) ?ss = []"
    "ms_minimumSignersNeeded r = (if ms_satisfied r then Some []
       else solveMinimumSigners lc ?out (mi_threshold i - ?signed))"
    by (rule simulateD [OF assms])
  have nn: "\<forall>s \<in> set ?ss. 0 \<le> si_weight s" using check_signersD [OF D(1)] by blast
  then have out: "0 \<le> weight_sum ?out" by (intro weight_sum_nonneg) simp
  have submit: "ms_canSubmit r \<longleftrightarrow> ms_threshold r \<le> ms_signedWeight r
      \<and> (\<forall>s \<in> set ?ss. is_required s \<longrightarrow> si_signed s)"
    by (auto simp: D filter_empty_conv)
  show ?thesis
  proof (cases "ms_satisfied r")
    case True
    have "chosen (mset ?out) 0 []" by (simp add: chosen_def)
    then show ?thesis using True submit D out weight_sum_split [of ?ss] by auto
  next
    case False
    have "case solveMinimumSigners lc ?out (mi_threshold i - ?signed) of
        None \<Rightarrow> 0 < mi_threshold i - ?signed \<and> weight_sum ?out < mi_threshold i - ?signed
      | Some ks \<Rightarrow> mi_threshold i - ?signed \<le> max 0 (weight_sum ?out)
          \<and> (\<exists>w. chosen (mset ?out) w ks \<and> mi_threshold i - ?signed \<le> w)
          \<and> (\<forall>M. M \<subseteq># mset ?out \<longrightarrow> mi_threshold i - ?signed \<le> mweight M \<longrightarrow> length ks \<le> size M)"
      by (rule solve_spec) (use nn in simp)
    then show ?thesis using False submit D out weight_sum_split [of ?ss]
      by (cases "solveMinimumSigners lc ?out (mi_threshold i - ?signed)") (auto simp: algebra_simps)
  qed
qed

definition sample_multisig :: multisig_input where
  "sample_multisig = \<lparr>mi_threshold = 3, mi_signers = [sample_signer ''a'' 2 True, sample_signer ''b'' 1 False],
     mi_lowThreshold = None, mi_highThreshold = None, mi_minTime = None, mi_maxTime = None, mi_now = Some 0\<rparr>"

lemma sample_multisig_runs:
  "\<exists>r. simulateMultisig str_cmp 0 sample_multisig = Inr r \<and> ms_totalWeight r = 3 \<and> ms_threshold r = 3"
  by (simp add: simulateMultisig_def sample_multisig_def sample_signer_def assertThreshold_def assertWeight_def
      MAX_SIGNER_WEIGHT_def MAX_SIGNERS_def is_required_def evaluateTimeBounds_def weight_sum_def Let_def)

theorem simulation_answers_witness:
  "\<exists>r. simulateMultisig str_cmp 0 sample_multisig = Inr r \<and> ms_minimumSignersNeeded r \<noteq> None"
proof -
  obtain r where r: "simulateMultisig str_cmp 0 sample_multisig = Inr r" "ms_totalWeight r = 3" "ms_threshold r = 3"
    using sample_multisig_runs by blast
  then show ?thesis using simulation_answers [OF r(1)] by auto
qed

text \<open>
  The risk report: it is sorted by severity; a threshold above zero that no set of signatures
  can reach is always reported as critical, and never otherwise; and a signer who alone reaches a
  threshold above zero is reported exactly when there is one.
\<close>

theorem risk_report:
  assumes "simulateMultisig lc clock i = Inr r"
  shows "sorted (map mr_severity (ms_risks r))
    \<and> (0 < ms_threshold r \<longrightarrow>
        (THRESHOLD_ABOVE_TOTAL_WEIGHT \<in> mr_code ` set (ms_risks r)
          \<or> THRESHOLD_UNREACHABLE \<in> mr_code ` set (ms_risks r) \<longleftrightarrow> ms_totalWeight r < ms_threshold r))
    \<and> (SINGLE_SIGNER_CONTROLS \<in> mr_code ` set (ms_risks r) \<longleftrightarrow>
        0 < ms_threshold r \<and> (\<exists>s \<in> set (mi_signers i). ms_threshold r \<le> si_weight s))"
proof -
  obtain dups where R: "ms_threshold r = mi_threshold i"
    "ms_risks r = collectRisks \<lparr>rc_threshold = mi_threshold i, rc_signers = mi_signers i,
       rc_totalWeight = ms_totalWeight r, rc_outstandingRequiredSigners = ms_outstandingRequiredSigners r,
       rc_duplicateSigners = sort_strings dups, rc_minimumSignersNeeded = ms_minimumSignersNeeded r\<rparr>"
    by (rule simulateD [OF assms])
  show ?thesis unfolding R risk_codes above_total_iff unreachable_iff single_iff
    using risks_sorted by auto
qed

theorem risk_report_witness:
  "\<exists>r. simulateMultisig str_cmp 0 sample_multisig = Inr r
     \<and> SINGLE_SIGNER_CONTROLS \<notin> mr_code ` set (ms_risks r)
     \<and> THRESHOLD_ABOVE_TOTAL_WEIGHT \<notin> mr_code ` set (ms_risks r)"
proof -
  obtain r where r: "simulateMultisig str_cmp 0 sample_multisig = Inr r" "ms_totalWeight r = 3" "ms_threshold r = 3"
    using sample_multisig_runs by blast
  then show ?thesis using risk_report [OF r(1)] by (auto simp: sample_multisig_def sample_signer_def)
qed

text \<open>
  Ties are not always broken by the smallest overshoot: the lexicographic comparison also replaces
  a winner of equal size, so here a set of weight 14 is preferred to one of exactly 11.
\<close>

lemma minimum_signers_not_tightest:
  "solveMinimumSigners str_cmp [sample_signer ''a'' 10 False, sample_signer ''b'' 6 False,
       sample_signer ''c'' 5 False, sample_signer ''d'' 4 False] 11 = Some [''a'', ''d'']"
  by code_simp

end
