(* ===== verification/SequencePlanner.thy ===== *)
theory SequencePlanner
  imports Prelude JsNumber
begin

text \<open>
  \<open>apps/api/src/modules/sequence-planner/sequence-planner.service.ts\<close>: assigning Stellar sequence
  numbers to a batch of transactions. Horizon's \<open>loadAccount\<close> is the parameter \<open>load\<close>: the
  sequence string of an account, \<open>None\<close> when the request fails. Sequence numbers are \<open>bigint\<close>
  while they come from Horizon and JavaScript numbers once assigned, as in the code. The texts of
  issues and conflicts are represented by the values they mention.
\<close>

section \<open>Model\<close>

datatype stellar_network = Testnet | Mainnet

type_synonym sequence_loader = "stellar_network \<Rightarrow> string \<Rightarrow> string option"

datatype seq_issue =
    Already_used js_num
  | Duplicate_sequence js_num string
  | Cannot_fetch string
  | Dependency_missing string
  | Dependency_not_before string js_num js_num

datatype conflict_type = Conflict_duplicate js_num | Conflict_gap js_num js_num

record seq_conflict =
  sc_type :: conflict_type
  sc_transactions :: "string list"
  sc_accounts :: "string list"

record account_info =
  ai_account :: string
  ai_currentSequence :: string
  ai_nextSequence :: string
  ai_plannedSequences :: "js_num list"

record tx_plan =
  tp_id :: string
  tp_sourceAccount :: string
  tp_sequenceNumber :: "js_num option"
  tp_dependencies :: "string list option"

datatype tx_status = Tx_valid | Tx_conflict | Tx_warning

record planned_tx = tx_plan +
  pt_assignedSequence :: js_num
  pt_status :: tx_status
  pt_issues :: "seq_issue list"

text \<open>\<open>BigInt(n)\<close> of a number: a \<open>RangeError\<close> unless it is an integer.\<close>

definition bigint_of_number :: "js_num \<Rightarrow> js_error + int" where
  "bigint_of_number n =
     (if of_int \<lfloor>n\<rfloor> = n then Inr \<lfloor>n\<rfloor>
      else Inl (RangeError ''The number cannot be converted to a BigInt because it is not an integer''))"

definition getAccountSequence ::
  "sequence_loader \<Rightarrow> stellar_network \<Rightarrow> string \<Rightarrow> js_error + (string \<times> string)" where
  "getAccountSequence load network account =
     (case load network account of
        None \<Rightarrow> Inl (BadRequest ''Failed to fetch account sequence'')
      | Some s \<Rightarrow> (case bigint_of_string s of
            Inr n \<Rightarrow> Inr (s, int_to_string (n + 1))
          | Inl _ \<Rightarrow> Inl (BadRequest ''Failed to fetch account sequence'')))"

datatype sequence_verdict = Seq_used | Seq_gap js_num | Seq_ready

record sequence_check =
  sq_isValid :: bool
  sq_currentSequence :: string
  sq_nextValidSequence :: string
  sq_gap :: js_num
  sq_issues :: "sequence_verdict list"

definition validateSequence ::
  "sequence_loader \<Rightarrow> string \<Rightarrow> js_num \<Rightarrow> stellar_network \<Rightarrow> js_error + sequence_check" where
  "validateSequence load account proposedSequence network =
     and_then (getAccountSequence load network account) (\<lambda>(currentSequence, _).
     and_then (bigint_of_string currentSequence) (\<lambda>current.
     and_then (bigint_of_number proposedSequence) (\<lambda>proposed.
     let nextValid = current + 1; gap = js_number (proposed - nextValid)
     in Inr \<lparr>sq_isValid = (\<not> proposed \<le> current \<and> \<not> proposed > nextValid),
             sq_currentSequence = currentSequence, sq_nextValidSequence = int_to_string nextValid,
             sq_gap = gap,
             sq_issues = (if proposed \<le> current then [Seq_used]
                          else if proposed > nextValid then [Seq_gap gap]
                          else if proposed = nextValid then [Seq_ready] else [])\<rparr>)))"

definition groupByAccount :: "tx_plan list \<Rightarrow> (string, tx_plan list) jmap" where
  "groupByAccount txs = fold (\<lambda>tx groups.
     jm_set groups (tp_sourceAccount tx)
       ((case jm_get groups (tp_sourceAccount tx) of Some g \<Rightarrow> g | None \<Rightarrow> []) @ [tx])) txs []"

text \<open>The current sequences, fetched account by account; a failed fetch is skipped.\<close>

definition fetch_sequences ::
  "sequence_loader \<Rightarrow> stellar_network \<Rightarrow> string list \<Rightarrow> (string, int) jmap \<times> account_info list" where
  "fetch_sequences load network accounts =
     fold (\<lambda>account (currents, infos).
       case getAccountSequence load network account of
         Inl _ \<Rightarrow> (currents, infos)
       | Inr (current, nxt) \<Rightarrow> (case bigint_of_string current of
             Inl _ \<Rightarrow> (currents, infos)
           | Inr n \<Rightarrow> (jm_set currents account n,
               infos @ [\<lparr>ai_account = account, ai_currentSequence = current,
                         ai_nextSequence = nxt, ai_plannedSequences = []\<rparr>])))
       accounts ([], [])"

definition buildDependencyGraph :: "tx_plan list \<Rightarrow> (string, string list) jmap" where
  "buildDependencyGraph txs = fold (\<lambda>tx graph. jm_set graph (tp_id tx)
     (case tp_dependencies tx of Some ds \<Rightarrow> ds | None \<Rightarrow> [])) txs []"

definition checkDependencies ::
  "tx_plan \<Rightarrow> (string, string list) jmap \<Rightarrow> planned_tx list \<Rightarrow> seq_issue list" where
  "checkDependencies tx graph planned =
     concat (map (\<lambda>depId.
       case find (\<lambda>t. tp_id t = depId) planned of
         None \<Rightarrow> [Dependency_missing depId]
       | Some depTx \<Rightarrow>
           (case tp_sequenceNumber tx of
              Some n \<Rightarrow> if tp_sourceAccount depTx = tp_sourceAccount tx \<and> pt_assignedSequence depTx \<ge> n
                        then [Dependency_not_before depId (pt_assignedSequence depTx) n] else []
            | None \<Rightarrow> []))
       (case jm_get graph (tp_id tx) of Some ds \<Rightarrow> ds | None \<Rightarrow> []))"

text \<open>\<open>while (usedSeqs.has(Number(nextSeq))) nextSeq += 1n\<close>.\<close>

lemma js_number_half: "0 \<le> n \<Longrightarrow> of_int n \<le> 2 * js_number n"
proof -
  assume "0 \<le> n"
  then have n: "(0::rat) \<le> of_int n" by simp
  have "of_int n - js_number n \<le> of_int n / 2 ^ 53"
    using fl_error [OF n] unfolding js_number_def by linarith
  also have "\<dots> \<le> of_int n / 2" using n by (intro divide_left_mono) auto
  finally show ?thesis by simp
qed

function next_free :: "js_num list \<Rightarrow> int \<Rightarrow> int" where
  "next_free used n = (if js_number n \<in> set used then next_free used (n + 1) else n)"
  by pat_completeness auto
termination
proof (relation "measure (\<lambda>(used, n). nat (\<lceil>2 * sum_list (map abs used)\<rceil> + 1 - n))")
  fix used n
  assume u: "js_number n \<in> set used"
  have nn: "0 \<le> sum_list (map abs us)" for us :: "js_num list" by (rule sum_list_nonneg) auto
  have "\<bar>js_number n\<bar> \<le> sum_list (map abs used)" using u
    by (induction used) (auto intro: add_increasing nn)
  then have "0 \<le> n \<Longrightarrow> of_int n \<le> 2 * sum_list (map abs used)" using js_number_half [of n] by linarith
  then have "of_int n \<le> 2 * sum_list (map abs used)" using nn [of used] by (cases "0 \<le> n") linarith+
  then have "n \<le> \<lceil>2 * sum_list (map abs used)\<rceil>" by linarith
  then show "((used, n + 1), (used, n)) \<in> measure (\<lambda>(used, n). nat (\<lceil>2 * sum_list (map abs used)\<rceil> + 1 - n))"
    by simp
qed simp

declare next_free.simps [simp del]

record planner =
  pl_planned :: "planned_tx list"
  pl_conflicts :: "seq_conflict list"
  pl_used :: "(string, js_num list) jmap"
  pl_infos :: "account_info list"

definition used_of :: "planner \<Rightarrow> string \<Rightarrow> js_num list" where
  "used_of p account = (case jm_get (pl_used p) account of Some s \<Rightarrow> s | None \<Rightarrow> [])"

definition use_sequence :: "planner \<Rightarrow> string \<Rightarrow> js_num \<Rightarrow> planner" where
  "use_sequence p account n = p\<lparr>pl_used := jm_set (pl_used p) account (js_set_add (used_of p account) n)\<rparr>"

text \<open>Append the planned transaction, and note its sequence with its account.\<close>

definition push_planned ::
  "tx_plan \<Rightarrow> js_num \<Rightarrow> tx_status \<Rightarrow> seq_issue list \<Rightarrow> planner \<Rightarrow> planner" where
  "push_planned tx assigned status issues p =
     p\<lparr>pl_planned := pl_planned p @ [tx_plan.extend tx
         \<lparr>pt_assignedSequence = assigned, pt_status = status, pt_issues = issues\<rparr>],
       pl_infos := (case find (\<lambda>k. ai_account (pl_infos p ! k) = tp_sourceAccount tx) [0..<length (pl_infos p)] of
           None \<Rightarrow> pl_infos p
         | Some k \<Rightarrow> (pl_infos p)[k := (pl_infos p ! k)\<lparr>ai_plannedSequences :=
                        ai_plannedSequences (pl_infos p ! k) @ [assigned]\<rparr>])\<rparr>"

text \<open>A transaction with a sequence of its own.\<close>

definition plan_given ::
  "(string, int) jmap \<Rightarrow> tx_plan \<Rightarrow> js_num \<Rightarrow> seq_issue list \<Rightarrow> planner \<Rightarrow> js_error + planner" where
  "plan_given currents tx n issues p =
     (let account = tp_sourceAccount tx in
      and_then (case jm_get currents account of
          None \<Rightarrow> Inr False
        | Some current \<Rightarrow> and_then (bigint_of_number n) (\<lambda>b. Inr (b \<le> current))) (\<lambda>stale.
      let duplicate = (n \<in> set (used_of p account));
          issues' = issues @ (if stale then [Already_used n] else [])
                      @ (if duplicate then [Duplicate_sequence n account] else []);
          p1 = (if duplicate then p\<lparr>pl_conflicts := pl_conflicts p @ [\<lparr>sc_type = Conflict_duplicate n,
                  sc_transactions = [tp_id tx], sc_accounts = [account]\<rparr>]\<rparr> else p)
      in Inr (push_planned tx n (if stale \<or> duplicate then Tx_conflict else Tx_valid) issues'
                (use_sequence p1 account n))))"

text \<open>A transaction whose sequence is assigned here.\<close>

definition plan_auto ::
  "(string, int) jmap \<Rightarrow> tx_plan \<Rightarrow> seq_issue list \<Rightarrow> planner \<Rightarrow> planner" where
  "plan_auto currents tx issues p =
     (let account = tp_sourceAccount tx in
      case jm_get currents account of
        None \<Rightarrow> push_planned tx 0 Tx_warning (issues @ [Cannot_fetch account]) p
      | Some current \<Rightarrow>
          let assigned = js_number (next_free (used_of p account) (current + 1))
          in push_planned tx assigned Tx_valid issues (use_sequence p account assigned))"

definition plan_tx ::
  "(string, int) jmap \<Rightarrow> (string, string list) jmap \<Rightarrow> tx_plan \<Rightarrow> planner \<Rightarrow> js_error + planner" where
  "plan_tx currents graph tx p =
     (let issues = checkDependencies tx graph (pl_planned p) in
      case tp_sequenceNumber tx of
        Some n \<Rightarrow> plan_given currents tx n issues p
      | None \<Rightarrow> Inr (plan_auto currents tx issues p))"

fun plan_all ::
  "(string, int) jmap \<Rightarrow> (string, string list) jmap \<Rightarrow> tx_plan list \<Rightarrow> planner \<Rightarrow> js_error + planner" where
  "plan_all currents graph [] p = Inr p"
| "plan_all currents graph (tx # txs) p = and_then (plan_tx currents graph tx p) (plan_all currents graph txs)"

definition number_cmp :: "js_num \<Rightarrow> js_num \<Rightarrow> int" where
  "number_cmp a b = (if a < b then - 1 else if a > b then 1 else 0)"

definition account_gaps :: "planned_tx list \<Rightarrow> string \<Rightarrow> js_num list \<Rightarrow> int \<Rightarrow> seq_conflict list" where
  "account_gaps planned account sequences current =
     (let sortedSeqs = sort_cmp number_cmp sequences;
          expectedNext = js_add (js_number current) 1
      in concat (map (\<lambda>i.
           let expectedSeq = js_add expectedNext (of_nat i); actualSeq = sortedSeqs ! i
           in if actualSeq \<noteq> expectedSeq
              then [\<lparr>sc_type = Conflict_gap expectedSeq actualSeq,
                     sc_transactions = map tp_id (filter (\<lambda>t. tp_sourceAccount t = account
                       \<and> pt_assignedSequence t = actualSeq) planned),
                     sc_accounts = [account]\<rparr>]
              else []) [0..<length sortedSeqs]))"

definition detect_gaps :: "(string, int) jmap \<Rightarrow> planner \<Rightarrow> seq_conflict list" where
  "detect_gaps currents p =
     concat (map (\<lambda>(account, sequences).
       case jm_get currents account of
         Some current \<Rightarrow> account_gaps (pl_planned p) account sequences current
       | None \<Rightarrow> []) (pl_used p))"

record plan_result =
  pr_planned :: "planned_tx list"
  pr_conflicts :: "seq_conflict list"
  pr_accounts :: "account_info list"
  pr_total :: nat
  pr_valid :: nat
  pr_conflicted :: nat
  pr_warnings :: nat

definition planSequences ::
  "sequence_loader \<Rightarrow> tx_plan list \<Rightarrow> stellar_network \<Rightarrow> js_error + plan_result" where
  "planSequences load txs network =
     (let (currents, infos) = fetch_sequences load network (map fst (groupByAccount txs)) in
      and_then (plan_all currents (buildDependencyGraph txs) txs
          \<lparr>pl_planned = [], pl_conflicts = [], pl_used = [], pl_infos = infos\<rparr>) (\<lambda>p.
      Inr \<lparr>pr_planned = pl_planned p, pr_conflicts = pl_conflicts p @ detect_gaps currents p,
           pr_accounts = pl_infos p, pr_total = length (pl_planned p),
           pr_valid = length (filter (\<lambda>t. pt_status t = Tx_valid) (pl_planned p)),
           pr_conflicted = length (filter (\<lambda>t. pt_status t = Tx_conflict) (pl_planned p)),
           pr_warnings = length (filter (\<lambda>t. pt_status t = Tx_warning) (pl_planned p))\<rparr>))"


section \<open>Invariants of a run\<close>

lemma used_of_use [simp]:
  "used_of (use_sequence p a n) b = (if b = a then js_set_add (used_of p a) n else used_of p b)"
  by (simp add: used_of_def use_sequence_def)

lemma used_of_push [simp]: "used_of (push_planned tx n st is p) a = used_of p a"
  by (simp add: used_of_def push_planned_def)

lemma used_of_conflicts [simp]: "used_of (p\<lparr>pl_conflicts := c\<rparr>) a = used_of p a"
  by (simp add: used_of_def)

lemma planned_push [simp]:
  "pl_planned (push_planned tx n st is p) = pl_planned p @
     [tx_plan.extend tx \<lparr>pt_assignedSequence = n, pt_status = st, pt_issues = is\<rparr>]"
  by (simp add: push_planned_def)

lemma planned_use [simp]: "pl_planned (use_sequence p a n) = pl_planned p"
  by (simp add: use_sequence_def)

lemma extend_fields [simp]:
  "pt_assignedSequence (tx_plan.extend tx \<lparr>pt_assignedSequence = n, pt_status = st, pt_issues = is\<rparr>) = n"
  "pt_status (tx_plan.extend tx \<lparr>pt_assignedSequence = n, pt_status = st, pt_issues = is\<rparr>) = st"
  "tp_sourceAccount (tx_plan.extend tx m) = tp_sourceAccount tx" "tp_id (tx_plan.extend tx m) = tp_id tx"
  by (simp_all add: tx_plan.defs)

text \<open>The account and sequence of a planned transaction.\<close>

definition slot :: "planned_tx \<Rightarrow> string \<times> js_num" where
  "slot t = (tp_sourceAccount t, pt_assignedSequence t)"

definition valid_slots :: "planned_tx list \<Rightarrow> (string \<times> js_num) list" where
  "valid_slots ts = map slot (filter (\<lambda>t. pt_status t = Tx_valid) ts)"

definition planner_ok :: "planner \<Rightarrow> bool" where
  "planner_ok p \<longleftrightarrow> distinct (valid_slots (pl_planned p))
     \<and> (\<forall>(a, n) \<in> set (valid_slots (pl_planned p)). n \<in> set (used_of p a))"

lemma next_free_fresh: "js_number (next_free used n) \<notin> set used"
  by (induction used n rule: next_free.induct) (metis next_free.simps)

lemma next_free_ge: "n \<le> next_free used n"
  by (induction used n rule: next_free.induct) (subst next_free.simps, fastforce)

lemma planner_ok_push:
  assumes "planner_ok p" "pl_planned p' = pl_planned p" "\<And>a. set (used_of p a) \<subseteq> set (used_of p' a)"
    and "st = Tx_valid \<Longrightarrow> n \<in> set (used_of p' (tp_sourceAccount tx)) \<and> n \<notin> set (used_of p (tp_sourceAccount tx))"
  shows "planner_ok (push_planned tx n st is p')"
  using assms by (auto simp: planner_ok_def valid_slots_def slot_def)

lemma planner_ok_plan_tx:
  assumes "planner_ok p" "plan_tx currents graph tx p = Inr p'"
  shows "planner_ok p'"
proof (cases "tp_sequenceNumber tx")
  case None
  then show ?thesis using assms
    by (auto simp: plan_tx_def plan_auto_def Let_def next_free_fresh split: option.splits
        intro!: planner_ok_push [OF assms(1)])
next
  case (Some n)
  then show ?thesis using assms
    by (auto simp: plan_tx_def plan_given_def Let_def result_laws split: option.splits if_splits
        intro!: planner_ok_push [OF assms(1)])
qed

lemma planner_ok_plan_all: "planner_ok p \<Longrightarrow> plan_all currents graph txs p = Inr p' \<Longrightarrow> planner_ok p'"
  by (induction txs arbitrary: p) (fastforce simp: result_laws dest: planner_ok_plan_tx)+

lemma plan_all_length:
  "plan_all currents graph txs p = Inr p' \<Longrightarrow>
     map (\<lambda>t. (tp_id t, tp_sourceAccount t)) (pl_planned p') =
     map (\<lambda>t. (tp_id t, tp_sourceAccount t)) (pl_planned p) @ map (\<lambda>t. (tp_id t, tp_sourceAccount t)) txs"
proof (induction txs arbitrary: p)
  case (Cons tx txs)
  obtain p1 where p1: "plan_tx currents graph tx p = Inr p1" "plan_all currents graph txs p1 = Inr p'"
    using Cons.prems by (auto simp: result_laws)
  have "map (\<lambda>t. (tp_id t, tp_sourceAccount t)) (pl_planned p1) =
      map (\<lambda>t. (tp_id t, tp_sourceAccount t)) (pl_planned p) @ [(tp_id tx, tp_sourceAccount tx)]"
    using p1(1) by (auto simp: plan_tx_def plan_given_def plan_auto_def Let_def result_laws
        split: option.splits if_splits)
  then show ?case using Cons.IH [OF p1(2)] by simp
qed simp


section \<open>Automatic assignment\<close>

definition current_of :: "sequence_loader \<Rightarrow> stellar_network \<Rightarrow> string \<Rightarrow> int option" where
  "current_of load network a =
     (case load network a of None \<Rightarrow> None
      | Some s \<Rightarrow> (case bigint_of_string s of Inr n \<Rightarrow> Some n | Inl _ \<Rightarrow> None))"

lemma keys_group: "fst ` set (groupByAccount txs) = tp_sourceAccount ` set txs"
proof -
  have "fst ` set (fold (\<lambda>tx groups. jm_set groups (tp_sourceAccount tx)
      ((case jm_get groups (tp_sourceAccount tx) of Some g \<Rightarrow> g | None \<Rightarrow> []) @ [tx])) txs g)
      = fst ` set g \<union> tp_sourceAccount ` set txs" for g
    by (induction txs arbitrary: g) auto
  from this [of "[]"] show ?thesis unfolding groupByAccount_def by simp
qed

lemma fetch_currents:
  "jm_get (fst (fetch_sequences load network accounts)) a =
     (if a \<in> set accounts then current_of load network a else None)"
proof -
  let ?step = "\<lambda>account (currents, infos).
       case getAccountSequence load network account of
         Inl _ \<Rightarrow> (currents, infos)
       | Inr (current, nxt) \<Rightarrow> (case bigint_of_string current of
             Inl _ \<Rightarrow> (currents, infos)
           | Inr n \<Rightarrow> (jm_set currents account n,
               infos @ [\<lparr>ai_account = account, ai_currentSequence = current,
                         ai_nextSequence = nxt, ai_plannedSequences = []\<rparr>]))"
  have step: "fst (?step b s) = (case current_of load network b of None \<Rightarrow> fst s | Some n \<Rightarrow> jm_set (fst s) b n)" for b s
    by (cases s) (auto simp: getAccountSequence_def current_of_def split: option.split sum.split)
  have "jm_get (fst (fold ?step accounts s)) a =
      (if a \<in> set accounts \<and> current_of load network a \<noteq> None then current_of load network a
       else jm_get (fst s) a)" for s
  proof (induction accounts arbitrary: s)
    case (Cons b bs)
    have *: "jm_get (fst (?step b s)) a = (if a = b \<and> current_of load network a \<noteq> None
        then current_of load network a else jm_get (fst s) a)"
      unfolding step by (cases "current_of load network b") auto
    show ?case unfolding fold_simps comp_apply Cons.IH * by auto
  qed simp
  from this [of "([], [])"] show ?thesis unfolding fetch_sequences_def by simp
qed

lemma next_free_upto:
  assumes "0 \<le> c" "c + 1 \<le> n" "n \<le> d + 1" "d + 1 \<le> 2 ^ 53"
  shows "next_free (map of_int [c + 1..d]) n = d + 1"
  using assms
proof (induction "nat (d + 1 - n)" arbitrary: n)
  case 0
  then have n: "n = d + 1" by simp
  then have "js_number n = of_int n" using 0 by (intro js_number_exact) auto
  then have "js_number n \<notin> set (map of_int [c + 1..d])" using n by auto
  then show ?case unfolding n [symmetric] by (subst next_free.simps) (simp only: if_False)
next
  case (Suc k)
  then have "js_number n = of_int n" by (intro js_number_exact) auto
  then have "js_number n \<in> set (map of_int [c + 1..d])" using Suc(2-4) by auto
  moreover have "next_free (map of_int [c + 1..d]) (n + 1) = d + 1"
    by (rule Suc.hyps(1)) (use Suc in auto)
  ultimately show ?case by (subst next_free.simps) (simp only: if_True)
qed

text \<open>What holds after the transactions in \<open>done\<close>, all of them automatic.\<close>

definition auto_ok :: "(string \<Rightarrow> int) \<Rightarrow> tx_plan list \<Rightarrow> planner \<Rightarrow> bool" where
  "auto_ok cur done p \<longleftrightarrow> pl_conflicts p = [] \<and> jm_ok (pl_used p)
     \<and> fst ` set (pl_used p) \<subseteq> tp_sourceAccount ` set done
     \<and> (\<forall>t \<in> set (pl_planned p). pt_status t = Tx_valid)
     \<and> (\<forall>a. used_of p a = map of_int [cur a + 1..cur a + int (length (filter (\<lambda>t. tp_sourceAccount t = a) done))])
     \<and> (\<forall>a. map pt_assignedSequence (filter (\<lambda>t. tp_sourceAccount t = a) (pl_planned p)) = used_of p a)"

lemma auto_ok_step:
  assumes "auto_ok cur done p" and tx: "tp_sequenceNumber tx = None" "jm_get currents (tp_sourceAccount tx) = Some (cur (tp_sourceAccount tx))"
    and bound: "0 \<le> cur (tp_sourceAccount tx)" "cur (tp_sourceAccount tx) + int (length done) + 1 \<le> 2 ^ 53"
  shows "\<exists>p'. plan_tx currents graph tx p = Inr p' \<and> auto_ok cur (done @ [tx]) p'"
proof -
  let ?a = "tp_sourceAccount tx"
  let ?k = "int (length (filter (\<lambda>t. tp_sourceAccount t = ?a) done))"
  have k: "cur ?a + ?k + 1 \<le> 2 ^ 53" using bound(2) length_filter_le [of "\<lambda>t. tp_sourceAccount t = ?a" "done"] by linarith
  have used: "used_of p ?a = map of_int [cur ?a + 1..cur ?a + ?k]" using assms(1) by (simp add: auto_ok_def)
  have nf: "next_free (used_of p ?a) (cur ?a + 1) = cur ?a + ?k + 1"
    unfolding used using bound(1) k by (intro next_free_upto) auto
  have num: "js_number (cur ?a + ?k + 1) = of_int (cur ?a + ?k + 1)"
    using bound(1) k by (intro js_number_exact) auto
  have up: "[cur ?a + 1..cur ?a + (?k + 1)] = [cur ?a + 1..cur ?a + ?k] @ [cur ?a + ?k + 1]"
    using upto_rec2 [of "cur ?a + 1" "cur ?a + (?k + 1)"] by (simp add: algebra_simps)
  have add: "js_set_add (used_of p ?a) (of_int (cur ?a + ?k + 1)) = map of_int [cur ?a + 1..cur ?a + (?k + 1)]"
    unfolding up used by (auto simp: js_set_add_def)
  define p' where "p' = push_planned tx (of_int (cur ?a + ?k + 1)) Tx_valid
      (checkDependencies tx graph (pl_planned p)) (use_sequence p ?a (of_int (cur ?a + ?k + 1)))"
  have "plan_tx currents graph tx p = Inr p'"
    using tx by (simp add: plan_tx_def plan_auto_def Let_def nf num p'_def)
  moreover have "auto_ok cur (done @ [tx]) p'"
  proof -
    have used': "pl_used p' = jm_set (pl_used p) ?a (js_set_add (used_of p ?a) (of_int (cur ?a + ?k + 1)))"
      by (simp add: p'_def push_planned_def use_sequence_def)
    have "pl_conflicts p' = []" "jm_ok (pl_used p')"
      using assms(1) used' by (simp_all add: auto_ok_def p'_def push_planned_def use_sequence_def)
    moreover have "fst ` set (pl_used p') \<subseteq> tp_sourceAccount ` set (done @ [tx])"
      using assms(1) unfolding auto_ok_def used' set_keys_jm_set by auto
    moreover have "\<forall>t \<in> set (pl_planned p'). pt_status t = Tx_valid"
      using assms(1) by (simp add: auto_ok_def p'_def)
    moreover have "used_of p' a = map of_int [cur a + 1..cur a + int (length (filter (\<lambda>t. tp_sourceAccount t = a) (done @ [tx])))]" for a
      using assms(1) add by (cases "a = ?a") (simp_all add: p'_def auto_ok_def add.commute)
    moreover have "map pt_assignedSequence (filter (\<lambda>t. tp_sourceAccount t = a) (pl_planned p')) = used_of p' a" for a
    proof (cases "a = ?a")
      case True
      have "map pt_assignedSequence (filter (\<lambda>t. tp_sourceAccount t = ?a) (pl_planned p)) = used_of p ?a"
        using assms(1) by (simp add: auto_ok_def)
      moreover have "used_of p' ?a = used_of p ?a @ [of_int (cur ?a + ?k + 1)]"
        using add unfolding up used by (simp add: p'_def used)
      ultimately show ?thesis using True by (simp add: p'_def)
    next
      case False
      then show ?thesis using assms(1) by (simp add: p'_def auto_ok_def)
    qed
    ultimately show ?thesis unfolding auto_ok_def by blast
  qed
  ultimately show ?thesis by blast
qed

lemma auto_ok_all:
  assumes "auto_ok cur done p"
    and "\<forall>tx \<in> set txs. tp_sequenceNumber tx = None \<and> jm_get currents (tp_sourceAccount tx) = Some (cur (tp_sourceAccount tx))
      \<and> 0 \<le> cur (tp_sourceAccount tx) \<and> cur (tp_sourceAccount tx) + int (length done + length txs) \<le> 2 ^ 53"
  shows "\<exists>p'. plan_all currents graph txs p = Inr p' \<and> auto_ok cur (done @ txs) p'"
  using assms
proof (induction txs arbitrary: p "done")
  case (Cons tx txs)
  have "\<exists>p'. plan_tx currents graph tx p = Inr p' \<and> auto_ok cur (done @ [tx]) p'"
    by (rule auto_ok_step [OF Cons.prems(1)]) (use Cons.prems(2) in auto)
  then obtain p1 where p1: "plan_tx currents graph tx p = Inr p1" "auto_ok cur (done @ [tx]) p1" by blast
  have "\<exists>p'. plan_all currents graph txs p1 = Inr p' \<and> auto_ok cur ((done @ [tx]) @ txs) p'"
    by (rule Cons.IH [OF p1(2)]) (use Cons.prems(2) in auto)
  then show ?case using p1(1) by simp
qed simp

lemma no_gaps:
  assumes "0 \<le> c" "c + int k \<le> 2 ^ 53"
  shows "account_gaps planned account (map of_int [c + 1..c + int k]) c = []"
proof -
  let ?seq = "map of_int [c + 1..c + int k] :: js_num list"
  have "sorted_wrt (\<lambda>a b. number_cmp a b \<le> 0) ?seq"
    by (simp add: sorted_wrt_map number_cmp_def sorted_wrt_upto sorted_wrt_mono_rel [OF _ sorted_wrt_upto])
  then have sort: "sort_cmp number_cmp ?seq = ?seq" by (rule sort_cmp_sorted)
  have "?seq ! i = js_add (js_add (js_number c) 1) (of_nat i)" if i: "i < k" for i
  proof -
    have "js_add (js_number c) 1 = of_int (c + 1)"
      using fl_of_int [of "c + 1"] js_number_exact [of c] assms i by (simp add: js_add_def)
    moreover have "js_add (of_int (c + 1)) (of_nat i) = of_int (c + 1 + int i)"
      using fl_of_int [of "c + 1 + int i"] assms i by (simp add: js_add_def)
    moreover have "?seq ! i = of_int (c + 1 + int i)" using i by (simp add: nth_upto)
    ultimately show ?thesis by simp
  qed
  then show ?thesis unfolding account_gaps_def sort Let_def by simp
qed


section \<open>Properties\<close>

text \<open>
  C12. No sequence is planned twice: among the transactions the plan marks valid, no two of the same
  account carry the same sequence number; and the plan lists every transaction, in the order
  given, each counted under exactly one status.
\<close>

theorem plan_valid_distinct:
  assumes "planSequences load txs network = Inr r"
  shows "distinct (map (\<lambda>t. (tp_sourceAccount t, pt_assignedSequence t))
           (filter (\<lambda>t. pt_status t = Tx_valid) (pr_planned r)))
    \<and> map tp_id (pr_planned r) = map tp_id txs
    \<and> pr_valid r + pr_conflicted r + pr_warnings r = pr_total r"
proof -
  obtain currents infos p where p: "plan_all currents (buildDependencyGraph txs) txs
      \<lparr>pl_planned = [], pl_conflicts = [], pl_used = [], pl_infos = infos\<rparr> = Inr p"
    and r: "pr_planned r = pl_planned p" "pr_total r = length (pl_planned p)"
      "pr_valid r = length (filter (\<lambda>t. pt_status t = Tx_valid) (pl_planned p))"
      "pr_conflicted r = length (filter (\<lambda>t. pt_status t = Tx_conflict) (pl_planned p))"
      "pr_warnings r = length (filter (\<lambda>t. pt_status t = Tx_warning) (pl_planned p))"
    using assms by (auto simp: planSequences_def result_laws split_beta)
  have "planner_ok p" by (rule planner_ok_plan_all [OF _ p]) (simp add: planner_ok_def valid_slots_def)
  then have "distinct (map (\<lambda>t. (tp_sourceAccount t, pt_assignedSequence t))
      (filter (\<lambda>t. pt_status t = Tx_valid) (pl_planned p)))"
    by (simp add: planner_ok_def valid_slots_def slot_def [abs_def])
  moreover have "map fst (map (\<lambda>t. (tp_id t, tp_sourceAccount t)) (pl_planned p))
      = map fst (map (\<lambda>t. (tp_id t, tp_sourceAccount t)) txs)"
    using plan_all_length [OF p] by simp
  moreover have "length (filter (\<lambda>t. pt_status t = Tx_valid) ts) + length (filter (\<lambda>t. pt_status t = Tx_conflict) ts)
      + length (filter (\<lambda>t. pt_status t = Tx_warning) ts) = length ts" for ts :: "planned_tx list"
  proof (induction ts)
    case (Cons t ts)
    then show ?case by (cases "pt_status t") simp_all
  qed simp
  ultimately show ?thesis using r by (simp add: comp_def)
qed

definition auto_tx :: "string \<Rightarrow> string \<Rightarrow> tx_plan" where
  "auto_tx name account = \<lparr>tp_id = name, tp_sourceAccount = account, tp_sequenceNumber = None, tp_dependencies = None\<rparr>"

definition sample_loader :: sequence_loader where
  "sample_loader network account = (if account = ''G'' then Some ''41'' else None)"

lemma sample_plan_runs: "\<exists>r. planSequences sample_loader [auto_tx ''a'' ''G'', auto_tx ''b'' ''H''] Testnet = Inr r"
  by (auto simp: planSequences_def split_beta plan_tx_def auto_tx_def)

theorem plan_valid_distinct_witness:
  "\<exists>r. planSequences sample_loader [auto_tx ''a'' ''G'', auto_tx ''b'' ''H''] Testnet = Inr r
     \<and> map tp_id (pr_planned r) = [''a'', ''b''] \<and> pr_valid r + pr_conflicted r + pr_warnings r = pr_total r"
proof -
  obtain r where r: "planSequences sample_loader [auto_tx ''a'' ''G'', auto_tx ''b'' ''H''] Testnet = Inr r"
    using sample_plan_runs by blast
  then show ?thesis using plan_valid_distinct [OF r] by (auto simp: auto_tx_def)
qed

text \<open>
  Automatic assignment is gap-free: when no transaction brings its own sequence number and every
  account's current sequence leaves room below \<open>2 ^ 53\<close>, the plan succeeds with no conflict, every
  transaction is valid, and each account's transactions get, in order, exactly the sequence numbers
  that follow its current one.
\<close>

theorem plan_auto_contiguous:
  assumes "\<forall>tx \<in> set txs. tp_sequenceNumber tx = None
    \<and> (\<exists>c. current_of load network (tp_sourceAccount tx) = Some c \<and> 0 \<le> c \<and> c + int (length txs) \<le> 2 ^ 53)"
  shows "\<exists>r. planSequences load txs network = Inr r \<and> pr_conflicts r = [] \<and> pr_valid r = length txs
    \<and> (\<forall>a c. current_of load network a = Some c \<longrightarrow>
         map pt_assignedSequence (filter (\<lambda>t. tp_sourceAccount t = a) (pr_planned r))
           = map of_int [c + 1..c + int (length (filter (\<lambda>t. tp_sourceAccount t = a) txs))])"
proof -
  define fs where "fs = fetch_sequences load network (map fst (groupByAccount txs))"
  define cur where "cur a = the (current_of load network a)" for a
  let ?p = "\<lparr>pl_planned = [], pl_conflicts = [], pl_used = [], pl_infos = snd fs\<rparr>"
  have get: "jm_get (fst fs) a = (if a \<in> tp_sourceAccount ` set txs then current_of load network a else None)" for a
    unfolding fs_def fetch_currents by (simp add: keys_group)
  have src: "jm_get (fst fs) a = Some (cur a) \<and> 0 \<le> cur a \<and> cur a + int (length txs) \<le> 2 ^ 53"
    if "a \<in> tp_sourceAccount ` set txs" for a
    using assms that by (auto simp: get cur_def)
  have "auto_ok cur [] ?p" by (simp add: auto_ok_def used_of_def)
  then have "\<exists>p. plan_all (fst fs) (buildDependencyGraph txs) txs ?p = Inr p \<and> auto_ok cur ([] @ txs) p"
    by (rule auto_ok_all) (use assms src in auto)
  then obtain p where p: "plan_all (fst fs) (buildDependencyGraph txs) txs ?p = Inr p" and ok: "auto_ok cur txs p"
    by auto
  have gaps: "(case jm_get (fst fs) a of Some current \<Rightarrow> account_gaps (pl_planned p) a s current | None \<Rightarrow> []) = []"
    if as: "(a, s) \<in> set (pl_used p)" for a s
  proof -
    have "a \<in> tp_sourceAccount ` set txs" using ok as by (force simp: auto_ok_def)
    note b = src [OF this]
    have "s = used_of p a" using ok as jm_get_in [of "pl_used p" a s] by (simp add: auto_ok_def used_of_def)
    moreover have "used_of p a = map of_int [cur a + 1..cur a + int (length (filter (\<lambda>t. tp_sourceAccount t = a) txs))]"
      using ok by (simp add: auto_ok_def)
    moreover have "length (filter (\<lambda>t. tp_sourceAccount t = a) txs) \<le> length txs" by (rule length_filter_le)
    then have "cur a + int (length (filter (\<lambda>t. tp_sourceAccount t = a) txs)) \<le> 2 ^ 53" using b by linarith
    ultimately show ?thesis using b no_gaps by simp
  qed
  have "detect_gaps (fst fs) p = []"
    unfolding detect_gaps_def concat_eq_Nil_conv by (auto simp: gaps)
  moreover have "filter (\<lambda>t. pt_status t = Tx_valid) (pl_planned p) = pl_planned p"
    using ok by (simp add: auto_ok_def filter_id_conv)
  moreover have "length (pl_planned p) = length txs" using arg_cong [OF plan_all_length [OF p], of length] by simp
  ultimately show ?thesis using p ok
    by (auto simp: planSequences_def fs_def [symmetric] split_beta auto_ok_def cur_def)
qed

theorem plan_auto_contiguous_witness:
  "\<exists>r. planSequences sample_loader [auto_tx ''a'' ''G'', auto_tx ''b'' ''G''] Mainnet = Inr r
     \<and> pr_conflicts r = [] \<and> pr_valid r = 2
     \<and> map pt_assignedSequence (filter (\<lambda>t. tp_sourceAccount t = ''G'') (pr_planned r)) = [42, 43]"
proof -
  have c: "current_of sample_loader Mainnet ''G'' = Some 41"
    by (simp add: current_of_def sample_loader_def string_eval)
  have "\<forall>tx \<in> set [auto_tx ''a'' ''G'', auto_tx ''b'' ''G'']. tp_sequenceNumber tx = None
    \<and> (\<exists>c. current_of sample_loader Mainnet (tp_sourceAccount tx) = Some c \<and> 0 \<le> c
         \<and> c + int (length [auto_tx ''a'' ''G'', auto_tx ''b'' ''G'']) \<le> 2 ^ 53)"
    by (simp add: auto_tx_def c)
  from plan_auto_contiguous [OF this] show ?thesis using c by (auto simp: auto_tx_def)
qed

text \<open>
  Real sequence numbers start near \<open>2 ^ 32\<close> times a ledger number and lie beyond \<open>2 ^ 53\<close>. There
  the conversion to a number rounds, and the sequence assigned can be the one already used.
\<close>

lemma auto_assignment_reuses_current:
  "js_number (next_free [] (2 ^ 57 + 1)) = js_number (2 ^ 57)"
  by (subst next_free.simps) (simp only: list.set(1) empty_iff if_False js_number_57)

end
