(* ===== verification/Orderbook.thy ===== *)
theory Orderbook
  imports Prelude JsNumber DecimalUtil
begin

text \<open>
  \<open>apps/api/src/modules/simulator/orderbook.service.ts\<close> and \<open>horizon.util.ts\<close>: asset and pair
  names, order-book analytics and the quote of an order against the book. Horizon's response is
  the input; the clock is the parameter \<open>now\<close>. Amounts and prices are \<open>bigint\<close> stroops.
\<close>

section \<open>Assets and pairs\<close>

record parsed_asset =
  pa_type :: string
  pa_code :: "string option"
  pa_issuer :: "string option"

definition getHorizonUrl :: "string \<Rightarrow> js_error + string" where
  "getHorizonUrl network =
     (if network = ''mainnet'' then Inr ''https://horizon.stellar.org''
      else if network = ''testnet'' then Inr ''https://horizon-testnet.stellar.org''
      else Inl (BadRequest (''Invalid network: \"'' @ network @ ''\". Use \"testnet\" or \"mainnet\"'')))"

definition parseAssetParams :: "string \<Rightarrow> js_error + parsed_asset" where
  "parseAssetParams assetString =
     (if assetString = ''XLM'' then Inr \<lparr>pa_type = ''native'', pa_code = None, pa_issuer = None\<rparr>
      else let parts = split_on (CHR '':'') assetString
           in if length parts \<noteq> 2 \<or> parts ! 0 = [] \<or> parts ! 1 = []
              then Inl (BadRequest (''Invalid asset format: \"'' @ assetString @ ''\". Use \"XLM\" or \"CODE:ISSUER\"''))
              else let code = parts ! 0; issuer = parts ! 1
                   in Inr \<lparr>pa_type = (if length code \<le> 4 then ''credit_alphanum4'' else ''credit_alphanum12''),
                           pa_code = Some code, pa_issuer = Some issuer\<rparr>)"

definition formatAssetString :: "parsed_asset \<Rightarrow> string" where
  "formatAssetString asset =
     (case pa_code asset of
        None \<Rightarrow> ''XLM''
      | Some code \<Rightarrow>
          if pa_type asset = ''native'' \<or> code = [] then ''XLM''
          else code @ '':'' @ (case pa_issuer asset of Some i \<Rightarrow> i | None \<Rightarrow> []))"

definition canonicalAssetString :: "string \<Rightarrow> js_error + string" where
  "canonicalAssetString s =
     (if s = ''native'' then Inr ''XLM''
      else and_then (parseAssetParams s) (\<lambda>a. Inr (formatAssetString a)))"

definition legacyAssetString :: "string \<Rightarrow> js_error + string" where
  "legacyAssetString s =
     (if s = ''native'' then Inr ''native''
      else and_then (parseAssetParams s) (\<lambda>a.
        Inr (if pa_type a = ''native'' then ''native''
             else (case pa_code a of Some c \<Rightarrow> c | None \<Rightarrow> ''undefined'') @ '':'' @
                  (case pa_issuer a of Some i \<Rightarrow> i | None \<Rightarrow> ''undefined''))))"

definition pairKey :: "string \<Rightarrow> string \<Rightarrow> string" where
  "pairKey selling buying = selling @ ''|'' @ buying"

definition canonicalPairKey :: "string \<Rightarrow> string \<Rightarrow> js_error + string" where
  "canonicalPairKey selling buying =
     and_then (canonicalAssetString selling) (\<lambda>s.
     and_then (canonicalAssetString buying) (\<lambda>b. Inr (pairKey s b)))"

section \<open>The book\<close>

text \<open>\<open>parseFixed\<close> of this file: a malformed decimal is a 400.\<close>

definition parse_decimal :: "string \<Rightarrow> js_error + int" where
  "parse_decimal s = (case parseFixed s of Inr v \<Rightarrow> Inr v
     | Inl _ \<Rightarrow> Inl (BadRequest (''Invalid decimal value: \"'' @ s @
         ''\" (expected a non-negative decimal with at most 7 fractional digits)'')))"

text \<open>Divisions of \<open>decimal.util\<close> as they surface here: a \<open>DecimalFormatError\<close> is an \<open>Error\<close>.\<close>

definition decimal_result :: "decimal_error + 'a \<Rightarrow> js_error + 'a" where
  "decimal_result r = (case r of Inr v \<Rightarrow> Inr v | Inl _ \<Rightarrow> Inl (PlainError ''DecimalFormatError''))"

record horizon_level =
  hl_price :: string
  hl_amount :: string

record horizon_book =
  hb_bids :: "horizon_level list option"
  hb_asks :: "horizon_level list option"

record parsed_level =
  lv_raw :: horizon_level
  lv_price :: int
  lv_amount :: int

record book_level =
  bl_price :: string
  bl_amount :: string
  bl_cumulativeAmount :: string
  bl_cumulativePercent :: js_num

record orderbook_result =
  ob_selling :: string
  ob_buying :: string
  ob_network :: string
  ob_spread :: string
  ob_spreadBps :: js_num
  ob_midPrice :: string
  ob_bestBid :: string
  ob_bestAsk :: string
  ob_liquidityScore :: js_num
  ob_bids :: "book_level list"
  ob_asks :: "book_level list"
  ob_lastUpdated :: js_num

definition parseLevels :: "horizon_level list \<Rightarrow> js_error + parsed_level list" where
  "parseLevels = map_result (\<lambda>raw.
     and_then (parse_decimal (hl_price raw)) (\<lambda>price.
     and_then (parse_decimal (hl_amount raw)) (\<lambda>amount.
     Inr \<lparr>lv_raw = raw, lv_price = price, lv_amount = amount\<rparr>)))"

definition sumAmounts :: "parsed_level list \<Rightarrow> int" where
  "sumAmounts levels = sum_list (map lv_amount levels)"

text \<open>The \<open>map\<close> of \<open>buildLevels\<close> with its running total.\<close>

fun build_levels :: "int \<Rightarrow> int \<Rightarrow> parsed_level list \<Rightarrow> js_error + book_level list" where
  "build_levels tot cumulative [] = Inr []"
| "build_levels tot cumulative (level # levels) =
     (let cumulative' = cumulative + lv_amount level in
      and_then (if tot > 0 then decimal_result (divRound (cumulative' * 10000) tot) else Inr 0) (\<lambda>percentBps.
      and_then (build_levels tot cumulative' levels) (\<lambda>rest.
      Inr (\<lparr>bl_price = hl_price (lv_raw level), bl_amount = hl_amount (lv_raw level),
            bl_cumulativeAmount = formatFixed cumulative',
            bl_cumulativePercent = js_div (js_number percentBps) 100\<rparr> # rest))))"

definition buildLevels :: "parsed_level list \<Rightarrow> js_error + book_level list" where
  "buildLevels levels = build_levels (sumAmounts levels) 0 levels"

datatype book_side = Bids | Asks

definition volumeWithinOnePercent :: "parsed_level list \<Rightarrow> int \<Rightarrow> book_side \<Rightarrow> int" where
  "volumeWithinOnePercent levels midTwice side =
     sum_list (map lv_amount (filter (\<lambda>level.
       let scaled = lv_price level * 200
       in case side of Bids \<Rightarrow> scaled \<ge> midTwice * 99 | Asks \<Rightarrow> scaled \<le> midTwice * 101) levels))"

text \<open>The first level's price, or zero; and twice the mid price.\<close>

definition best_price :: "parsed_level list \<Rightarrow> int" where
  "best_price levels = (case levels of [] \<Rightarrow> 0 | level # _ \<Rightarrow> lv_price level)"

definition mid_twice :: "int \<Rightarrow> int \<Rightarrow> int" where
  "mid_twice bid ask =
     (if bid > 0 \<and> ask > 0 then bid + ask else if bid > 0 then bid * 2 else ask * 2)"

definition book_spread :: "int \<Rightarrow> int \<Rightarrow> int" where
  "book_spread bid ask = (if bid > 0 \<and> ask > 0 then ask - bid else 0)"

definition liquidity_score :: "parsed_level list \<Rightarrow> parsed_level list \<Rightarrow> int \<Rightarrow> js_error + js_num" where
  "liquidity_score bids asks midTwice =
     (let totalVolume = sumAmounts bids + sumAmounts asks;
          volumeWithin1Pct = volumeWithinOnePercent bids midTwice Bids + volumeWithinOnePercent asks midTwice Asks
      in if totalVolume > 0
         then and_then (decimal_result (divRound (volumeWithin1Pct * 100) totalVolume)) (\<lambda>score.
              Inr (min 100 (js_number score)))
         else Inr 0)"

definition first_price_string :: "horizon_level list \<Rightarrow> string" where
  "first_price_string levels = (case levels of [] \<Rightarrow> ''0'' | level # _ \<Rightarrow> hl_price level)"

definition computeOrderbook ::
  "js_num \<Rightarrow> string \<Rightarrow> string \<Rightarrow> string \<Rightarrow> horizon_book \<Rightarrow> js_error + orderbook_result" where
  "computeOrderbook now selling buying network raw =
     (let rawBids = (case hb_bids raw of Some b \<Rightarrow> b | None \<Rightarrow> []);
          rawAsks = (case hb_asks raw of Some a \<Rightarrow> a | None \<Rightarrow> []) in
      and_then (parseLevels rawBids) (\<lambda>bids.
      and_then (parseLevels rawAsks) (\<lambda>asks.
      let bestBidFixed = best_price bids; bestAskFixed = best_price asks;
          midTwice = mid_twice bestBidFixed bestAskFixed;
          midPrice = (midTwice + 1) sdiv 2;
          spread = book_spread bestBidFixed bestAskFixed in
      and_then (if midTwice > 0 then decimal_result (divRound (spread * 2000000) midTwice) else Inr 0)
        (\<lambda>spreadBpsHundredths.
      and_then (liquidity_score bids asks midTwice) (\<lambda>liquidityScore.
      and_then (buildLevels bids) (\<lambda>bidLevels.
      and_then (buildLevels asks) (\<lambda>askLevels.
      Inr \<lparr>ob_selling = selling, ob_buying = buying, ob_network = network,
           ob_spread = formatFixed spread, ob_spreadBps = js_div (js_number spreadBpsHundredths) 100,
           ob_midPrice = formatFixed midPrice, ob_bestBid = first_price_string rawBids,
           ob_bestAsk = first_price_string rawAsks, ob_liquidityScore = liquidityScore,
           ob_bids = bidLevels, ob_asks = askLevels, ob_lastUpdated = now\<rparr>)))))))"

section \<open>Quotes\<close>

datatype quote_side = Buy | Sell

datatype quote_status = Filled | Partial | Unfilled

record order_quote_dto =
  oq_selling :: string
  oq_buying :: string
  oq_network :: "string option"
  oq_side :: quote_side
  oq_amount :: string

record order_quote =
  qt_selling :: string
  qt_buying :: string
  qt_network :: string
  qt_side :: quote_side
  qt_requestedAmount :: string
  qt_filledAmount :: string
  qt_unfilledAmount :: string
  qt_status :: quote_status
  qt_averagePrice :: "string option"
  qt_worstPrice :: "string option"
  qt_bestPrice :: "string option"
  qt_cost :: string
  qt_priceImpactBps :: "js_num option"
  qt_estimatedFee :: string
  qt_levelsConsumed :: nat
  qt_lastUpdated :: js_num

definition ESTIMATED_TRADE_FEE_STROOPS :: string where
  "ESTIMATED_TRADE_FEE_STROOPS = ''100''"

definition level_cmp :: "quote_side \<Rightarrow> int \<times> int \<Rightarrow> int \<times> int \<Rightarrow> int" where
  "level_cmp side a b =
     (if fst a = fst b then 0
      else case side of
          Buy \<Rightarrow> if fst a < fst b then - 1 else 1
        | Sell \<Rightarrow> if fst a > fst b then - 1 else 1)"

text \<open>The usable levels (price, amount), best first.\<close>

definition quote_levels :: "quote_side \<Rightarrow> horizon_book \<Rightarrow> js_error + (int \<times> int) list" where
  "quote_levels side raw =
     and_then (map_result (\<lambda>level.
         and_then (parse_decimal (hl_price level)) (\<lambda>price.
         and_then (parse_decimal (hl_amount level)) (\<lambda>amount. Inr (price, amount))))
       (case side of Buy \<Rightarrow> (case hb_asks raw of Some a \<Rightarrow> a | None \<Rightarrow> [])
                   | Sell \<Rightarrow> (case hb_bids raw of Some b \<Rightarrow> b | None \<Rightarrow> []))) (\<lambda>levels.
     Inr (sort_cmp (level_cmp side) (filter (\<lambda>(price, amount). price > 0 \<and> amount > 0) levels)))"

record fill_state =
  fs_remaining :: int
  fs_filled :: int
  fs_cost :: int
  fs_worstPrice :: "int option"
  fs_levelsConsumed :: nat

definition take_level :: "int \<times> int \<Rightarrow> fill_state \<Rightarrow> fill_state" where
  "take_level level s =
     (let (price, amount) = level;
          taken = (if amount < fs_remaining s then amount else fs_remaining s)
      in \<lparr>fs_remaining = fs_remaining s - taken, fs_filled = fs_filled s + taken,
          fs_cost = fs_cost s + mulFixed taken price, fs_worstPrice = Some price,
          fs_levelsConsumed = fs_levelsConsumed s + 1\<rparr>)"

fun fill_levels :: "(int \<times> int) list \<Rightarrow> fill_state \<Rightarrow> fill_state" where
  "fill_levels [] s = s"
| "fill_levels (level # levels) s =
     (if fs_remaining s \<le> 0 then s else fill_levels levels (take_level level s))"

definition price_impact :: "quote_side \<Rightarrow> int option \<Rightarrow> int option \<Rightarrow> js_num option" where
  "price_impact side averagePrice bestPrice =
     (case (averagePrice, bestPrice) of
        (Some a, Some b) \<Rightarrow>
          if b > 0 then
            (let delta = (case side of Buy \<Rightarrow> a - b | Sell \<Rightarrow> b - a);
                 bps = (delta * 10000) sdiv b
             in Some (if bps > 0 then js_number bps else 0))
          else None
      | _ \<Rightarrow> None)"

definition getQuote :: "js_num \<Rightarrow> order_quote_dto \<Rightarrow> (js_error + horizon_book) \<Rightarrow> js_error + order_quote" where
  "getQuote now dto book =
     and_then (parse_decimal (oq_amount dto)) (\<lambda>requested.
     and_then (throw_if (requested \<le> 0) (BadRequest ''amount must be positive'')) (\<lambda>_.
     and_then book (\<lambda>raw.
     and_then (quote_levels (oq_side dto) raw) (\<lambda>levels.
     let s = fill_levels levels \<lparr>fs_remaining = requested, fs_filled = 0, fs_cost = 0,
                fs_worstPrice = None, fs_levelsConsumed = 0\<rparr>;
         filled = fs_filled s;
         bestPrice = (if fs_levelsConsumed s > 0 then Some (fst (levels ! 0)) else None) in
     and_then (if filled > 0 then map_sum id Some (decimal_result (divFixed (fs_cost s) filled)) else Inr None)
       (\<lambda>averagePrice.
     Inr \<lparr>qt_selling = oq_selling dto, qt_buying = oq_buying dto,
          qt_network = (case oq_network dto of Some n \<Rightarrow> n | None \<Rightarrow> ''testnet''), qt_side = oq_side dto,
          qt_requestedAmount = formatFixed requested, qt_filledAmount = formatFixed filled,
          qt_unfilledAmount = formatFixed (fs_remaining s),
          qt_status = (if filled = requested then Filled else if filled = 0 then Unfilled else Partial),
          qt_averagePrice = map_option formatFixed averagePrice,
          qt_worstPrice = map_option formatFixed (fs_worstPrice s),
          qt_bestPrice = map_option formatFixed bestPrice, qt_cost = formatFixed (fs_cost s),
          qt_priceImpactBps = price_impact (oq_side dto) averagePrice bestPrice,
          qt_estimatedFee = (if filled > 0 then ESTIMATED_TRADE_FEE_STROOPS else ''0''),
          qt_levelsConsumed = fs_levelsConsumed s, qt_lastUpdated = now\<rparr>)))))"


section \<open>Levels\<close>

lemma parse_decimal_nonneg: "parse_decimal s = Inr v \<Longrightarrow> 0 \<le> v"
  by (auto simp: parse_decimal_def intro: parseFixed_nonneg split: sum.splits)

lemma decimal_result_Inr [simp]: "decimal_result (Inr v) = Inr v"
  by (simp add: decimal_result_def)

lemma divRound_total: "0 \<le> n \<Longrightarrow> 0 < d \<Longrightarrow> \<exists>q. divRound n d = Inr q"
  by (simp add: divRound_pos)

definition levels_ok :: "parsed_level list \<Rightarrow> bool" where
  "levels_ok ls \<longleftrightarrow> (\<forall>l \<in> set ls. 0 \<le> lv_price l \<and> 0 \<le> lv_amount l)"

lemma parseLevels_ok: "parseLevels raw = Inr ls \<Longrightarrow> levels_ok ls"
  unfolding parseLevels_def levels_ok_def
  by (induction raw arbitrary: ls) (auto simp: result_laws parse_decimal_nonneg)

lemma sumAmounts_simps [simp]:
  "sumAmounts [] = 0" "sumAmounts (l # ls) = lv_amount l + sumAmounts ls"
  by (simp_all add: sumAmounts_def)

lemma sumAmounts_nonneg: "levels_ok ls \<Longrightarrow> 0 \<le> sumAmounts ls"
  by (induction ls) (auto simp: levels_ok_def)

lemma sumAmounts_take: "levels_ok ls \<Longrightarrow> sumAmounts (take k ls) \<le> sumAmounts ls"
proof (induction ls arbitrary: k)
  case (Cons l ls)
  then show ?case using sumAmounts_nonneg [of ls] by (cases k) (auto simp: levels_ok_def)
qed simp

text \<open>A share of a total, in basis points, is a percentage between 0 and 100.\<close>

lemma share_bounds:
  assumes "0 \<le> c" "c \<le> tot" "0 < tot" "divRound (c * 10000) tot = Inr q"
  shows "0 \<le> js_div (js_number q) 100" "js_div (js_number q) 100 \<le> 100"
proof -
  have q: "0 \<le> q" "q \<le> 10000"
    using divRound_nonneg [of "c * 10000" tot q] divRound_le [of "c * 10000" tot 10000 q] assms by auto
  then have n: "js_number q = of_int q" by (intro js_number_exact) auto
  show "0 \<le> js_div (js_number q) 100" using q by (simp add: js_div_def n fl_nonneg)
  have "of_int q / 100 \<le> (100 :: rat)" using q by simp
  then show "js_div (js_number q) 100 \<le> 100"
    using fl_le_of_int [of "of_int q / 100" 100] q by (simp add: js_div_def n)
qed

lemma share_full: "0 < tot \<Longrightarrow> divRound (tot * 10000) tot = Inr 10000"
proof -
  assume t: "0 < tot"
  then have "(2 * (tot * 10000) + tot) div (2 * tot) = 10000"
    by (intro int_div_pos_eq) (auto simp: algebra_simps)
  with t show ?thesis by (simp add: divRound_pos)
qed

lemma js_hundred: "js_div (js_number 10000) 100 = 100"
  by code_simp

text \<open>What the level at position \<open>i\<close> reports.\<close>

definition level_report :: "int \<Rightarrow> int \<Rightarrow> book_level \<Rightarrow> bool" where
  "level_report tot c out \<longleftrightarrow> bl_cumulativeAmount out = formatFixed c
     \<and> 0 \<le> bl_cumulativePercent out \<and> bl_cumulativePercent out \<le> 100
     \<and> (0 < tot \<and> c = tot \<longrightarrow> bl_cumulativePercent out = 100)"

lemma build_levels_spec:
  assumes "levels_ok ls" "0 \<le> c" "c + sumAmounts ls \<le> tot"
  shows "\<exists>out. build_levels tot c ls = Inr out \<and> length out = length ls
    \<and> (\<forall>i < length ls. level_report tot (c + sumAmounts (take (Suc i) ls)) (out ! i)
         \<and> bl_price (out ! i) = hl_price (lv_raw (ls ! i)) \<and> bl_amount (out ! i) = hl_amount (lv_raw (ls ! i)))"
  using assms
proof (induction ls arbitrary: c)
  case (Cons l ls)
  let ?c = "c + lv_amount l"
  have l: "0 \<le> lv_amount l" "levels_ok ls" using Cons.prems by (auto simp: levels_ok_def)
  then have c: "0 \<le> ?c" "?c \<le> tot" "?c + sumAmounts ls \<le> tot"
    using Cons.prems sumAmounts_nonneg [of ls] by auto
  obtain rest where rest: "build_levels tot ?c ls = Inr rest" "length rest = length ls"
    "\<forall>i < length ls. level_report tot (?c + sumAmounts (take (Suc i) ls)) (rest ! i)
         \<and> bl_price (rest ! i) = hl_price (lv_raw (ls ! i)) \<and> bl_amount (rest ! i) = hl_amount (lv_raw (ls ! i))"
    using Cons.IH [OF l(2) c(1,3)] by auto
  define share where "share = (if tot > 0 then decimal_result (divRound (?c * 10000) tot) else Inr 0)"
  obtain q where q: "share = Inr q" "0 \<le> js_div (js_number q) 100" "js_div (js_number q) 100 \<le> 100"
    "0 < tot \<and> ?c = tot \<Longrightarrow> js_div (js_number q) 100 = 100"
  proof (cases "tot > 0")
    case True
    then obtain q where "divRound (?c * 10000) tot = Inr q" using divRound_total [of "?c * 10000" tot] c by auto
    then show thesis using True c share_bounds [of ?c tot q] share_full [of tot] js_hundred
      by (intro that [of q]) (auto simp: share_def)
  next
    case False
    then show thesis by (intro that [of 0]) (simp_all add: share_def js_div_def js_number_def)
  qed
  let ?l = "\<lparr>bl_price = hl_price (lv_raw l), bl_amount = hl_amount (lv_raw l),
      bl_cumulativeAmount = formatFixed ?c, bl_cumulativePercent = js_div (js_number q) 100\<rparr>"
  have "build_levels tot c (l # ls) = Inr (?l # rest)"
    using q(1) rest(1) by (simp add: share_def [symmetric])
  moreover have "level_report tot ?c ?l" using q by (simp add: level_report_def)
  ultimately show ?case using rest by (auto simp: nth_Cons add.assoc split: nat.split)
qed simp

lemma volume_bounds:
  assumes "levels_ok ls"
  shows "0 \<le> volumeWithinOnePercent ls m side" "volumeWithinOnePercent ls m side \<le> sumAmounts ls"
  using assms unfolding volumeWithinOnePercent_def sumAmounts_def levels_ok_def
  by (auto intro!: sum_list_nonneg sum_list_filter_le)

lemma best_price_nonneg: "levels_ok ls \<Longrightarrow> 0 \<le> best_price ls"
  by (cases ls) (auto simp: best_price_def levels_ok_def)

lemma liquidity_score_bounds:
  assumes "levels_ok bids" "levels_ok asks"
  shows "\<exists>s. liquidity_score bids asks m = Inr s \<and> 0 \<le> s \<and> s \<le> 100"
proof -
  let ?v = "volumeWithinOnePercent bids m Bids + volumeWithinOnePercent asks m Asks"
  let ?t = "sumAmounts bids + sumAmounts asks"
  have v: "0 \<le> ?v" using volume_bounds [OF assms(1)] volume_bounds [OF assms(2)] by (simp add: add_nonneg_nonneg)
  show ?thesis
  proof (cases "?t > 0")
    case True
    then obtain q where q: "divRound (?v * 100) ?t = Inr q" using divRound_total [of "?v * 100"] v by auto
    then have "0 \<le> q" using divRound_nonneg [of "?v * 100" ?t q] v True by simp
    then have "0 \<le> js_number q" by (simp add: js_number_def fl_nonneg)
    then show ?thesis using True q by (simp add: liquidity_score_def Let_def)
  next
    case False
    then show ?thesis by (simp add: liquidity_score_def Let_def)
  qed
qed


section \<open>Filling an order\<close>

text \<open>What a quote takes from each level.\<close>

fun takes :: "int \<Rightarrow> (int \<times> int) list \<Rightarrow> int list" where
  "takes r [] = []"
| "takes r ((price, amount) # levels) = (let x = min amount r in x # takes (r - x) levels)"

definition depth :: "(int \<times> int) list \<Rightarrow> int" where
  "depth levels = sum_list (map snd levels)"

definition value_of :: "int list \<Rightarrow> (int \<times> int) list \<Rightarrow> int" where
  "value_of xs levels = sum_list (map2 (\<lambda>x (price, _). x * price) xs levels)"

definition floored_value :: "int list \<Rightarrow> (int \<times> int) list \<Rightarrow> int" where
  "floored_value xs levels = sum_list (map2 (\<lambda>x (price, _). mulFixed x price) xs levels)"

definition allocation :: "int list \<Rightarrow> (int \<times> int) list \<Rightarrow> bool" where
  "allocation xs levels \<longleftrightarrow> list_all2 (\<lambda>x (_, amount). 0 \<le> x \<and> x \<le> amount) xs levels"

lemma value_simps [simp]:
  "value_of [] levels = 0" "value_of (x # xs) ((p, a) # levels) = x * p + value_of xs levels"
  "floored_value [] levels = 0" "floored_value (x # xs) ((p, a) # levels) = mulFixed x p + floored_value xs levels"
  "depth [] = 0" "depth ((p, a) # levels) = a + depth levels"
  by (simp_all add: value_of_def floored_value_def depth_def)

lemma takes_zero: "\<forall>(p, a) \<in> set levels. 0 \<le> a \<Longrightarrow> takes 0 levels = map (\<lambda>_. 0) levels"
  by (induction levels) auto

lemma value_zero [simp]: "floored_value (map (\<lambda>_. 0) levels) levels = 0"
  by (induction levels) (auto simp: mulFixed_def)

lemma sum_list_zeros [simp]: "sum_list (map (\<lambda>_. 0) xs) = (0 :: int)"
  by (induction xs) simp_all

lemma depth_nonneg: "\<forall>(p, a) \<in> set levels. 0 \<le> a \<Longrightarrow> 0 \<le> depth levels"
  by (induction levels) auto

lemma takes_sum: "0 \<le> r \<Longrightarrow> \<forall>(p, a) \<in> set levels. 0 \<le> a \<Longrightarrow> sum_list (takes r levels) = min r (depth levels)"
proof (induction r levels rule: takes.induct)
  case (2 r p a levels)
  have "0 \<le> depth levels" by (rule depth_nonneg) (use 2 in auto)
  then show ?case using 2 by (auto simp: Let_def min_def)
qed simp

lemma takes_allocation: "0 \<le> r \<Longrightarrow> \<forall>(p, a) \<in> set levels. 0 \<le> a \<Longrightarrow> allocation (takes r levels) levels"
  by (induction r levels rule: takes.induct) (auto simp: allocation_def Let_def)

lemma fill_levels_spec:
  assumes "0 \<le> fs_remaining s" "\<forall>(p, a) \<in> set levels. 0 < a"
  shows "fs_filled (fill_levels levels s) = fs_filled s + sum_list (takes (fs_remaining s) levels)"
    and "fs_remaining (fill_levels levels s) = fs_remaining s - sum_list (takes (fs_remaining s) levels)"
    and "fs_cost (fill_levels levels s) = fs_cost s + floored_value (takes (fs_remaining s) levels) levels"
proof -
  have "fs_filled (fill_levels levels s) = fs_filled s + sum_list (takes (fs_remaining s) levels)
    \<and> fs_remaining (fill_levels levels s) = fs_remaining s - sum_list (takes (fs_remaining s) levels)
    \<and> fs_cost (fill_levels levels s) = fs_cost s + floored_value (takes (fs_remaining s) levels) levels"
    using assms
  proof (induction levels arbitrary: s)
    case (Cons l levels)
    obtain p a where l: "l = (p, a)" by fastforce
    show ?case
    proof (cases "fs_remaining s \<le> 0")
      case True
      then have "fs_remaining s = 0" using Cons.prems by simp
      moreover have "\<forall>(p, a) \<in> set (l # levels). 0 \<le> a" using Cons.prems by auto
      then have "takes 0 (l # levels) = map (\<lambda>_. 0) (l # levels)" by (rule takes_zero)
      ultimately show ?thesis using value_zero [of "l # levels"] sum_list_zeros [of "l # levels"]
        by (simp del: value_simps list.map)
    next
      case False
      have "0 \<le> fs_remaining (take_level l s)" using Cons.prems False by (simp add: take_level_def l Let_def)
      from Cons.IH [OF this] Cons.prems False show ?thesis
        by (simp add: l take_level_def Let_def min_def)
    qed
  qed simp
  then show "fs_filled (fill_levels levels s) = fs_filled s + sum_list (takes (fs_remaining s) levels)"
    "fs_remaining (fill_levels levels s) = fs_remaining s - sum_list (takes (fs_remaining s) levels)"
    "fs_cost (fill_levels levels s) = fs_cost s + floored_value (takes (fs_remaining s) levels) levels"
    by auto
qed

text \<open>Taking the cheapest levels first is optimal; \<open>d\<close> is what the other allocation holds more.\<close>

lemma takes_cheapest:
  assumes "sorted (map fst levels)" "\<forall>(p, a) \<in> set levels. q \<le> p \<and> 0 \<le> a" "0 \<le> r" "0 \<le> d"
    and "allocation xs levels" "sum_list xs = sum_list (takes r levels) + d"
  shows "value_of (takes r levels) levels + d * q \<le> value_of xs levels"
  using assms
proof (induction r levels arbitrary: q d xs rule: takes.induct)
  case (1 r)
  then show ?case by (simp add: allocation_def)
next
  case (2 r p a levels)
  obtain x ys where xs: "xs = x # ys" and x: "0 \<le> x" "x \<le> a" and ys: "allocation ys levels"
    using 2(6) by (auto simp: allocation_def list_all2_Cons2)
  let ?t = "min a r"
  have nn: "\<forall>(p', a') \<in> set levels. p \<le> p' \<and> 0 \<le> a'" using 2(2,3) by auto
  have ys0: "0 \<le> sum_list ys" using ys
    by (intro sum_list_nonneg) (fastforce simp: allocation_def list_all2_conv_all_nth in_set_conv_nth)
  have sum: "sum_list ys = sum_list (takes (r - ?t) levels) + (d + ?t - x)"
    using 2(7) by (simp add: xs Let_def)
  have d': "0 \<le> d + ?t - x"
  proof (cases "a \<le> r")
    case True
    then show ?thesis using x 2(5) by simp
  next
    case False
    have "takes 0 levels = map (\<lambda>_. 0) levels" by (rule takes_zero) (use nn in auto)
    then show ?thesis using sum ys0 False by (simp add: sum_list_zeros)
  qed
  have "value_of (takes (r - ?t) levels) levels + (d + ?t - x) * p \<le> value_of ys levels"
    by (rule 2(1) [OF refl _ nn _ d' ys sum]) (use 2(2,4) in auto)
  moreover have "d * q \<le> d * p" using 2(3,5) by (intro mult_left_mono) auto
  ultimately show ?case by (simp add: xs Let_def algebra_simps)
qed

lemma level_cmp_order:
  "level_cmp side a b \<le> 0 \<longleftrightarrow> (case side of Buy \<Rightarrow> fst a \<le> fst b | Sell \<Rightarrow> fst b \<le> fst a)"
  by (cases side) (auto simp: level_cmp_def)

lemma quote_levels_ok:
  assumes "quote_levels side raw = Inr levels"
  shows "\<forall>(p, a) \<in> set levels. 0 < p \<and> 0 < a"
    and "case side of Buy \<Rightarrow> sorted (map fst levels) | Sell \<Rightarrow> sorted (map (\<lambda>l. - fst l) levels)"
proof -
  obtain ls where levels: "levels = sort_cmp (level_cmp side) (filter (\<lambda>(p, a). p > 0 \<and> a > 0) ls)"
    using assms by (auto simp: quote_levels_def result_laws)
  then show "\<forall>(p, a) \<in> set levels. 0 < p \<and> 0 < a" by auto
  have "sorted_wrt (\<lambda>a b. level_cmp side a b \<le> 0) levels"
    unfolding levels by (rule sorted_sort_cmp) (auto simp: level_cmp_order split: quote_side.splits)
  then show "case side of Buy \<Rightarrow> sorted (map fst levels) | Sell \<Rightarrow> sorted (map (\<lambda>l. - fst l) levels)"
    by (cases side) (simp_all add: sorted_wrt_map level_cmp_order)
qed

lemma takes_negated: "takes r (map (\<lambda>(p, a). (- p, a)) levels) = takes r levels"
  by (induction r levels rule: takes.induct) (simp_all add: Let_def)

lemma value_negated: "length xs = length levels \<Longrightarrow>
    value_of xs (map (\<lambda>(p, a). (- p, a)) levels) = - value_of xs levels"
  by (induction xs levels rule: list_induct2) auto

lemma le_sum_of_pos: "\<forall>p \<in> set ps. 0 < p \<Longrightarrow> p \<in> set ps \<Longrightarrow> p \<le> sum_list ps" for p :: int
proof (induction ps)
  case (Cons a ps)
  then have "0 \<le> sum_list ps" by (intro sum_list_nonneg) auto
  with Cons show ?case by (auto intro: add_increasing)
qed simp

lemma takes_best:
  assumes "quote_levels side raw = Inr levels" "0 \<le> r" "allocation xs levels"
    and "sum_list xs = sum_list (takes r levels)"
  shows "case side of Buy \<Rightarrow> value_of (takes r levels) levels \<le> value_of xs levels
    | Sell \<Rightarrow> value_of xs levels \<le> value_of (takes r levels) levels"
proof (cases side)
  case Buy
  have "value_of (takes r levels) levels + 0 * 0 \<le> value_of xs levels"
    by (rule takes_cheapest) (use quote_levels_ok [OF assms(1)] assms Buy in auto)
  then show ?thesis using Buy by simp
next
  case Sell
  let ?neg = "map (\<lambda>(p, a). (- p, a)) levels"
  define q where "q = - sum_list (map fst levels)"
  have "\<forall>(p, a) \<in> set levels. 0 < p" using quote_levels_ok(1) [OF assms(1)] by auto
  then have q: "\<forall>(p, a) \<in> set levels. q \<le> - p"
    unfolding q_def using le_sum_of_pos [of "map fst levels"] by force
  have "value_of (takes r ?neg) ?neg + 0 * q \<le> value_of xs ?neg"
  proof (rule takes_cheapest)
    show "sorted (map fst ?neg)"
      using quote_levels_ok(2) [OF assms(1)] Sell by (simp add: comp_def case_prod_beta)
    show "allocation xs ?neg" using assms(3) by (simp add: allocation_def list_all2_map2 case_prod_beta)
  qed (use assms q quote_levels_ok(1) [OF assms(1)] in \<open>auto simp: takes_negated\<close>)
  moreover have "length xs = length levels" "length (takes r levels) = length levels"
    using assms(3) takes_allocation [OF assms(2), of levels] quote_levels_ok(1) [OF assms(1)]
    by (fastforce simp: allocation_def dest: list_all2_lengthD)+
  ultimately show ?thesis using Sell by (simp add: takes_negated value_negated)
qed


section \<open>Names\<close>

lemma parse_format_asset:
  assumes "parseAssetParams s = Inr a"
  shows "formatAssetString a = s"
proof (cases "s = ''XLM''")
  case False
  then obtain code issuer where p: "split_on (CHR '':'') s = [code, issuer]" "code \<noteq> []" "issuer \<noteq> []"
    "a = \<lparr>pa_type = (if length code \<le> 4 then ''credit_alphanum4'' else ''credit_alphanum12''),
          pa_code = Some code, pa_issuer = Some issuer\<rparr>"
    using assms
    by (auto simp: parseAssetParams_def Let_def length_Suc_conv numeral_2_eq_2 split: if_splits)
  have "code @ '':'' @ issuer = s" using join_split [of "CHR '':''" s] p(1) by simp
  then show ?thesis using p by (simp add: formatAssetString_def)
qed (use assms in \<open>auto simp: parseAssetParams_def formatAssetString_def\<close>)

lemma canonical_eq: "canonicalAssetString s = Inr c \<Longrightarrow> c = (if s = ''native'' then ''XLM'' else s)"
  by (auto simp: canonicalAssetString_def result_laws parse_format_asset split: if_splits)

lemma canonical_idem: "canonicalAssetString s = Inr c \<Longrightarrow> canonicalAssetString c = Inr c"
  using canonical_eq [of s c] by (auto simp: canonicalAssetString_def parseAssetParams_def formatAssetString_def split: if_splits)

section \<open>Properties\<close>

text \<open>
  C11. A quote is the best the book can give: it fills the smaller of the requested amount and the
  depth of the book and reports the rest as unfilled, its cost is the sum of the floored costs of
  what it takes, and no other way of taking the same total from the levels is cheaper for a buyer
  or pays a seller more.
\<close>

theorem getQuote_best_fill:
  assumes "getQuote now dto (Inr raw) = Inr q"
    and "parse_decimal (oq_amount dto) = Inr requested" and "quote_levels (oq_side dto) raw = Inr levels"
  shows "sum_list (takes requested levels) = min requested (depth levels)
    \<and> qt_filledAmount q = formatFixed (min requested (depth levels))
    \<and> qt_unfilledAmount q = formatFixed (requested - min requested (depth levels))
    \<and> qt_cost q = formatFixed (floored_value (takes requested levels) levels)
    \<and> (qt_status q = Filled \<longleftrightarrow> requested \<le> depth levels)
    \<and> (\<forall>xs. allocation xs levels \<longrightarrow> sum_list xs = min requested (depth levels) \<longrightarrow>
         (case oq_side dto of Buy \<Rightarrow> value_of (takes requested levels) levels \<le> value_of xs levels
                             | Sell \<Rightarrow> value_of xs levels \<le> value_of (takes requested levels) levels))"
proof -
  let ?s = "\<lparr>fs_remaining = requested, fs_filled = 0, fs_cost = 0, fs_worstPrice = None, fs_levelsConsumed = 0\<rparr>"
  have r: "0 < requested" using assms(1,2) by (auto simp: getQuote_def result_laws)
  have pos: "\<forall>(p, a) \<in> set levels. 0 < a" using quote_levels_ok(1) [OF assms(3)] by auto
  then have sum: "sum_list (takes requested levels) = min requested (depth levels)"
    using r by (intro takes_sum) auto
  have fill: "fs_filled (fill_levels levels ?s) = min requested (depth levels)"
    "fs_remaining (fill_levels levels ?s) = requested - min requested (depth levels)"
    "fs_cost (fill_levels levels ?s) = floored_value (takes requested levels) levels"
    using fill_levels_spec [of ?s levels] pos r by (simp_all add: sum)
  have q: "qt_filledAmount q = formatFixed (min requested (depth levels))"
    "qt_unfilledAmount q = formatFixed (requested - min requested (depth levels))"
    "qt_cost q = formatFixed (floored_value (takes requested levels) levels)"
    "qt_status q = (if min requested (depth levels) = requested then Filled
       else if min requested (depth levels) = 0 then Unfilled else Partial)"
    using assms(1) r by (auto simp: getQuote_def assms(2,3) and_then_Inr_iff Let_def fill)
  then have "qt_status q = Filled \<longleftrightarrow> requested \<le> depth levels" by (simp add: min_def)
  with q show ?thesis using sum takes_best [OF assms(3), of requested] r by simp
qed

definition sample_book :: horizon_book where
  "sample_book = \<lparr>hb_bids = None,
     hb_asks = Some [\<lparr>hl_price = ''2'', hl_amount = ''5''\<rparr>, \<lparr>hl_price = ''1'', hl_amount = ''3''\<rparr>]\<rparr>"

definition sample_order :: order_quote_dto where
  "sample_order = \<lparr>oq_selling = ''XLM'', oq_buying = ''A:B'', oq_network = None, oq_side = Buy, oq_amount = ''4''\<rparr>"

lemma sample_decimals:
  "parse_decimal ''1'' = Inr 10000000" "parse_decimal ''2'' = Inr 20000000" "parse_decimal ''3'' = Inr 30000000"
  "parse_decimal ''4'' = Inr 40000000" "parse_decimal ''5'' = Inr 50000000"
  by code_simp+

lemma sample_quote_levels: "quote_levels Buy sample_book = Inr [(10000000, 30000000), (20000000, 50000000)]"
  by (simp add: quote_levels_def sample_book_def sample_decimals level_cmp_def)

lemma sample_quote_runs: "\<exists>q. getQuote 0 sample_order (Inr sample_book) = Inr q"
  by (simp add: getQuote_def sample_order_def sample_decimals sample_quote_levels Let_def take_level_def
      divFixed_def mulFixed_def FIXED_SCALE_def)

theorem getQuote_best_fill_witness:
  "\<exists>q. getQuote 0 sample_order (Inr sample_book) = Inr q \<and> qt_filledAmount q = formatFixed 40000000
     \<and> qt_cost q = formatFixed 50000000 \<and> qt_status q = Filled"
proof -
  obtain q where q: "getQuote 0 sample_order (Inr sample_book) = Inr q" using sample_quote_runs by blast
  have "parse_decimal (oq_amount sample_order) = Inr 40000000" "quote_levels (oq_side sample_order) sample_book =
      Inr [(10000000, 30000000), (20000000, 50000000)]"
    by (simp_all add: sample_order_def sample_decimals sample_quote_levels)
  from getQuote_best_fill [OF q this] q show ?thesis
    by (intro exI [of _ q]) (simp add: Let_def mulFixed_def FIXED_SCALE_def)
qed

text \<open>
  The depth chart is exact: every level of a parsed side keeps Horizon's strings and reports the
  exact sum of the amounts up to it; the percentages lie between 0 and 100, and the last one of a
  side with any volume is exactly 100.
\<close>

theorem buildLevels_cumulative:
  assumes "parseLevels raw = Inr ls"
  shows "\<exists>out. buildLevels ls = Inr out \<and> length out = length ls
    \<and> (\<forall>i < length ls. bl_price (out ! i) = hl_price (lv_raw (ls ! i))
         \<and> bl_cumulativeAmount (out ! i) = formatFixed (sumAmounts (take (Suc i) ls))
         \<and> 0 \<le> bl_cumulativePercent (out ! i) \<and> bl_cumulativePercent (out ! i) \<le> 100)
    \<and> (ls \<noteq> [] \<and> 0 < sumAmounts ls \<longrightarrow> bl_cumulativePercent (last out) = 100)"
proof -
  have ok: "levels_ok ls" using assms by (rule parseLevels_ok)
  obtain out where out: "buildLevels ls = Inr out" "length out = length ls"
    "\<forall>i < length ls. level_report (sumAmounts ls) (sumAmounts (take (Suc i) ls)) (out ! i)
         \<and> bl_price (out ! i) = hl_price (lv_raw (ls ! i)) \<and> bl_amount (out ! i) = hl_amount (lv_raw (ls ! i))"
    using build_levels_spec [OF ok, of 0 "sumAmounts ls"] by (auto simp: buildLevels_def)
  have "bl_cumulativePercent (last out) = 100" if "ls \<noteq> []" "0 < sumAmounts ls"
  proof -
    have "last out = out ! (length ls - 1)" using out(2) that(1) by (metis last_conv_nth length_0_conv)
    moreover have "take (Suc (length ls - 1)) ls = ls" using that(1) by simp
    ultimately show ?thesis using out(3) that by (auto simp: level_report_def)
  qed
  with out show ?thesis by (auto simp: level_report_def)
qed

theorem buildLevels_cumulative_witness:
  "\<exists>ls out. parseLevels [\<lparr>hl_price = ''1'', hl_amount = ''3''\<rparr>, \<lparr>hl_price = ''2'', hl_amount = ''5''\<rparr>] = Inr ls
     \<and> buildLevels ls = Inr out \<and> bl_cumulativePercent (last out) = 100"
proof -
  let ?raw = "[\<lparr>hl_price = ''1'', hl_amount = ''3''\<rparr>, \<lparr>hl_price = ''2'', hl_amount = ''5''\<rparr>]"
  obtain ls where ls: "parseLevels ?raw = Inr ls" "ls \<noteq> []" "0 < sumAmounts ls"
    by (auto simp: parseLevels_def sample_decimals)
  with buildLevels_cumulative [OF ls(1)] show ?thesis by auto
qed

text \<open>
  The analytics stay in range: whenever every level parses, the book is computed; its liquidity
  score lies between 0 and 100, and when both sides are quoted and not crossed the mid price lies
  between the best bid and the best ask and the spread is their exact difference.
\<close>

theorem computeOrderbook_in_range:
  assumes "parseLevels (case hb_bids raw of Some b \<Rightarrow> b | None \<Rightarrow> []) = Inr bids"
    and "parseLevels (case hb_asks raw of Some a \<Rightarrow> a | None \<Rightarrow> []) = Inr asks"
  shows "\<exists>r. computeOrderbook now selling buying network raw = Inr r
    \<and> 0 \<le> ob_liquidityScore r \<and> ob_liquidityScore r \<le> 100
    \<and> (0 < best_price bids \<and> best_price bids \<le> best_price asks \<longrightarrow>
         (\<exists>mid. ob_midPrice r = formatFixed mid \<and> best_price bids \<le> mid \<and> mid \<le> best_price asks)
         \<and> ob_spread r = formatFixed (best_price asks - best_price bids))"
proof -
  note ok = parseLevels_ok [OF assms(1)] parseLevels_ok [OF assms(2)]
  let ?m = "mid_twice (best_price bids) (best_price asks)" and ?sp = "book_spread (best_price bids) (best_price asks)"
  obtain s where s: "liquidity_score bids asks ?m = Inr s" "0 \<le> s" "s \<le> 100"
    using liquidity_score_bounds [OF ok] by blast
  obtain bl al where l: "buildLevels bids = Inr bl" "buildLevels asks = Inr al"
    using build_levels_spec [OF ok(1), of 0 "sumAmounts bids"] build_levels_spec [OF ok(2), of 0 "sumAmounts asks"]
    by (auto simp: buildLevels_def)
  obtain bps where bps: "(if ?m > 0 then decimal_result (divRound (?sp * 2000000) ?m) else Inr 0) = Inr bps"
  proof (cases "?m > 0")
    case True
    then obtain q where "divRound (?sp * 2000000) ?m = Inr q" using divRound_abs [of ?m] by auto
    then show thesis using True by (intro that [of q]) simp
  qed (intro that [of 0], simp)
  have nn: "0 \<le> ?m" using best_price_nonneg [OF ok(1)] best_price_nonneg [OF ok(2)] by (simp add: mid_twice_def)
  have "\<exists>r. computeOrderbook now selling buying network raw = Inr r \<and> ob_liquidityScore r = s
      \<and> ob_midPrice r = formatFixed ((?m + 1) div 2) \<and> ob_spread r = formatFixed ?sp"
    unfolding computeOrderbook_def Let_def assms and_then.simps s(1) l bps using nn by simp
  then obtain r where r: "computeOrderbook now selling buying network raw = Inr r" "ob_liquidityScore r = s"
    "ob_midPrice r = formatFixed ((?m + 1) div 2)" "ob_spread r = formatFixed ?sp" by blast
  have "best_price bids \<le> (?m + 1) div 2 \<and> (?m + 1) div 2 \<le> best_price asks \<and> ?sp = best_price asks - best_price bids"
    if "0 < best_price bids" "best_price bids \<le> best_price asks"
    using that by (simp add: mid_twice_def book_spread_def) linarith
  then show ?thesis using s(2,3) r by (intro exI [of _ r]) auto
qed

theorem computeOrderbook_in_range_witness:
  "\<exists>r. computeOrderbook 0 ''XLM'' ''A:B'' ''testnet'' \<lparr>hb_bids = None, hb_asks = None\<rparr> = Inr r
     \<and> ob_liquidityScore r \<le> 100"
  using computeOrderbook_in_range [of "\<lparr>hb_bids = None, hb_asks = None\<rparr>" "[]" "[]" 0 "''XLM''" "''A:B''" "''testnet''"]
  by (auto simp: parseLevels_def)

text \<open>
  History keys meet: the canonical key of a pair is unchanged when it is split at the bar and
  canonicalised again, so the key under which the sampler stores a snapshot is the key that the
  history lookup reads (for asset names that contain no bar).
\<close>

theorem pair_key_roundtrip:
  assumes "canonicalPairKey selling buying = Inr key" and "CHR ''|'' \<notin> set selling \<union> set buying"
  shows "\<exists>s b. split_on (CHR ''|'') key = [s, b] \<and> canonicalPairKey s b = Inr key"
proof -
  obtain s b where sb: "canonicalAssetString selling = Inr s" "canonicalAssetString buying = Inr b" "key = pairKey s b"
    using assms(1) by (auto simp: canonicalPairKey_def result_laws)
  then have "CHR ''|'' \<notin> set s" "CHR ''|'' \<notin> set b"
    using assms(2) canonical_eq [OF sb(1)] canonical_eq [OF sb(2)] by auto
  then have "split_on (CHR ''|'') key = [s, b]"
    by (simp add: sb(3) pairKey_def split_on_append split_on_plain)
  moreover have "canonicalPairKey s b = Inr key"
    using canonical_idem [OF sb(1)] canonical_idem [OF sb(2)] sb(3) by (simp add: canonicalPairKey_def)
  ultimately show ?thesis by blast
qed

theorem pair_key_roundtrip_witness:
  "\<exists>s b. split_on (CHR ''|'') ''XLM|A:B'' = [s, b] \<and> canonicalPairKey s b = Inr ''XLM|A:B''"
proof -
  have "canonicalPairKey ''native'' ''A:B'' = Inr ''XLM|A:B''" by code_simp
  from pair_key_roundtrip [OF this] show ?thesis by simp
qed

end
