(* ===== verification/TradeTape.thy ===== *)
theory TradeTape
  imports Orderbook
begin

text \<open>
  The trade tape of \<open>orderbook.service.ts\<close> (\<open>getTrades\<close>, \<open>mapHorizonTrade\<close>,
  \<open>formatPriceRatio\<close>) and the cursor explorer of \<open>apps/api/src/common/horizon-cursor.ts\<close>:
  reading a cursor-paged source. The source is the parameter \<open>fetch\<close>, and \<open>Date.parse\<close> the
  parameter \<open>date_parse\<close>. The five-page bound of the code is the bound of the recursion.
\<close>

section \<open>The cursor explorer\<close>

record 'a horizon_page =
  hp_records :: "'a list"
  hp_nextCursor :: "string option"

record 'a exploration =
  ex_records :: "'a list"
  ex_pages :: nat
  ex_nextCursor :: "string option"
  ex_truncated :: bool

text \<open>\<open>n\<close> is \<open>maxPages - pages\<close>; an empty cursor is falsy, like \<open>null\<close>.\<close>

fun explore ::
  "(string option \<Rightarrow> int \<Rightarrow> js_error + 'a horizon_page) \<Rightarrow> int \<Rightarrow> nat \<Rightarrow> string list \<Rightarrow> string option
    \<Rightarrow> 'a list \<Rightarrow> nat \<Rightarrow> js_error + 'a exploration" where
  "explore fetchPage limit 0 seen cursor records pages =
     Inr \<lparr>ex_records = records, ex_pages = pages, ex_nextCursor = cursor, ex_truncated = True\<rparr>"
| "explore fetchPage limit (Suc n) seen cursor records pages =
     and_then (fetchPage cursor limit) (\<lambda>page.
     let records' = records @ hp_records page; pages' = pages + 1
     in case hp_nextCursor page of
          None \<Rightarrow> Inr \<lparr>ex_records = records', ex_pages = pages', ex_nextCursor = None, ex_truncated = False\<rparr>
        | Some c \<Rightarrow>
            if c = [] then Inr \<lparr>ex_records = records', ex_pages = pages', ex_nextCursor = None, ex_truncated = False\<rparr>
            else if c \<in> set seen then Inl (PlainError ''Horizon pagination cursor repeated'')
            else explore fetchPage limit n (c # seen) (Some c) records' pages')"

definition clamp :: "int \<Rightarrow> int \<Rightarrow> int \<Rightarrow> int" where
  "clamp lo hi x = min (max x lo) hi"

definition exploreHorizon ::
  "(string option \<Rightarrow> int \<Rightarrow> js_error + 'a horizon_page) \<Rightarrow> int option \<Rightarrow> int option \<Rightarrow> js_error + 'a exploration" where
  "exploreHorizon fetchPage limit maxPages =
     (let limit' = clamp 1 200 (case limit of Some l \<Rightarrow> l | None \<Rightarrow> 100);
          maxPages' = clamp 1 1000 (case maxPages of Some m \<Rightarrow> m | None \<Rightarrow> 50)
      in explore fetchPage limit' (nat maxPages') [] None [] 0)"

section \<open>Trades\<close>

datatype price_json = Price_string string | Price_ratio string string | Price_other

record trade_record =
  tr_base_asset_type :: "string option"
  tr_base_asset_code :: "string option"
  tr_base_asset_issuer :: "string option"
  tr_counter_asset_type :: "string option"
  tr_counter_asset_code :: "string option"
  tr_counter_asset_issuer :: "string option"
  tr_base_is_seller :: bool
  tr_ledger_close_time :: "string option"
  tr_created_at :: "string option"
  tr_id :: "string option"
  tr_paging_token :: "string option"
  tr_ledger :: "js_num option"
  tr_trade_type :: "string option"
  tr_operation_type :: "string option"
  tr_price :: price_json
  tr_base_amount :: "string option"
  tr_counter_amount :: "string option"
  tr_base_account :: "string option"
  tr_counter_account :: "string option"

record trade_row =
  tw_id :: string
  tw_pagingToken :: string
  tw_operationId :: "string option"
  tw_ledger :: "js_num option"
  tw_closeTime :: "string option"
  tw_tradeType :: string
  tw_baseAsset :: string
  tw_quoteAsset :: string
  tw_price :: string
  tw_baseAmount :: string
  tw_quoteAmount :: string
  tw_buyer :: string
  tw_seller :: string
  tw_side :: quote_side

text \<open>\<open>a ?? b\<close>.\<close>

definition nullish :: "'a option \<Rightarrow> 'a \<Rightarrow> 'a" where
  "nullish a b = (case a of Some x \<Rightarrow> x | None \<Rightarrow> b)"

definition nullish_opt :: "'a option \<Rightarrow> 'a option \<Rightarrow> 'a option" where
  "nullish_opt a b = (case a of Some x \<Rightarrow> Some x | None \<Rightarrow> b)"

definition formatPriceRatio :: "price_json \<Rightarrow> js_error + string" where
  "formatPriceRatio price =
     (case price of
        Price_string s \<Rightarrow> and_then (parse_decimal s) (\<lambda>v. Inr (formatFixed v))
      | Price_ratio n d \<Rightarrow>
          and_then (bigint_of_string n) (\<lambda>n'.
          and_then (bigint_of_string d) (\<lambda>d'.
          if d' = 0 then Inl (BadRequest ''Invalid trade price'')
          else Inr (formatFixed ((n' * FIXED_SCALE) sdiv d'))))
      | Price_other \<Rightarrow> Inl (BadRequest ''Invalid trade price in Horizon response''))"

definition paging_token :: "trade_record \<Rightarrow> string" where
  "paging_token r = nullish (tr_paging_token r) []"

definition mapHorizonTrade :: "trade_record \<Rightarrow> js_error + trade_row" where
  "mapHorizonTrade r =
     (let baseAsset = formatAssetString \<lparr>pa_type = nullish (tr_base_asset_type r) ''undefined'',
            pa_code = tr_base_asset_code r, pa_issuer = tr_base_asset_issuer r\<rparr>;
          quoteAsset = formatAssetString \<lparr>pa_type = nullish (tr_counter_asset_type r) ''undefined'',
            pa_code = tr_counter_asset_code r, pa_issuer = tr_counter_asset_issuer r\<rparr>;
          baseIsSeller = tr_base_is_seller r;
          i = nullish (nullish_opt (tr_id r) (tr_paging_token r)) [] in
      and_then (formatPriceRatio (tr_price r)) (\<lambda>price.
      Inr \<lparr>tw_id = i, tw_pagingToken = paging_token r,
           tw_operationId = (if i = [] then None else Some (hd (split_on (CHR ''-'') i))),
           tw_ledger = tr_ledger r, tw_closeTime = nullish_opt (tr_ledger_close_time r) (tr_created_at r),
           tw_tradeType = nullish (nullish_opt (tr_trade_type r) (tr_operation_type r)) ''orderbook'',
           tw_baseAsset = baseAsset, tw_quoteAsset = quoteAsset, tw_price = price,
           tw_baseAmount = nullish (tr_base_amount r) ''0'', tw_quoteAmount = nullish (tr_counter_amount r) ''0'',
           tw_buyer = nullish (if baseIsSeller then tr_counter_account r else tr_base_account r) [],
           tw_seller = nullish (if baseIsSeller then tr_base_account r else tr_counter_account r) [],
           tw_side = (if baseIsSeller then Sell else Buy)\<rparr>))"

datatype sort_order = Asc | Desc

record trades_query =
  tq_selling :: string
  tq_buying :: string
  tq_network :: "string option"
  tq_limit :: "int option"
  tq_order :: "sort_order option"
  tq_cursor :: "string option"
  tq_startTime :: "js_num option"
  tq_endTime :: "js_num option"
  tq_side :: "quote_side option"
  tq_account :: "string option"

record trades_request =
  rq_url :: string
  rq_limit :: int
  rq_order :: sort_order
  rq_base :: parsed_asset
  rq_counter :: parsed_asset
  rq_cursor :: "string option"

definition MAX_TRADE_PAGES :: nat where
  "MAX_TRADE_PAGES = 5"

datatype stop_reason = Stop_limit | Stop_end_of_data | Stop_window_end | Stop_scan_bound

datatype window_verdict = In_window | Skip_record | Window_exhausted

definition window_check ::
  "(string \<Rightarrow> js_num option) \<Rightarrow> trades_query \<Rightarrow> sort_order \<Rightarrow> trade_record \<Rightarrow> window_verdict" where
  "window_check date_parse q order r =
     (case date_parse (nullish (nullish_opt (tr_ledger_close_time r) (tr_created_at r)) []) of
        None \<Rightarrow> In_window
      | Some closeMs \<Rightarrow>
          let closeSeconds = of_int \<lfloor>js_div closeMs 1000\<rfloor>
          in if (case tq_startTime q of Some t \<Rightarrow> closeSeconds < t | None \<Rightarrow> False)
             then (if order = Desc then Window_exhausted else Skip_record)
             else if (case tq_endTime q of Some t \<Rightarrow> closeSeconds > t | None \<Rightarrow> False)
             then (if order = Asc then Window_exhausted else Skip_record)
             else In_window)"

text \<open>The side and account filters; an empty account is falsy.\<close>

definition row_matches :: "trades_query \<Rightarrow> trade_row \<Rightarrow> bool" where
  "row_matches q row \<longleftrightarrow>
     (case tq_side q of Some s \<Rightarrow> tw_side row = s | None \<Rightarrow> True)
     \<and> (case tq_account q of Some a \<Rightarrow> a = [] \<or> tw_buyer row = a \<or> tw_seller row = a | None \<Rightarrow> True)"

text \<open>The loop over one page: the trades so far, the last token scanned, and whether the window ended.\<close>

fun scan_batch ::
  "(string \<Rightarrow> js_num option) \<Rightarrow> trades_query \<Rightarrow> sort_order \<Rightarrow> int \<Rightarrow> trade_record list \<Rightarrow> trade_row list
    \<Rightarrow> string option \<Rightarrow> js_error + (trade_row list \<times> string option \<times> bool)" where
  "scan_batch date_parse q order limit [] trades lst = Inr (trades, lst, False)"
| "scan_batch date_parse q order limit (r # rs) trades lst =
     (let lst' = (if paging_token r \<noteq> [] then Some (paging_token r) else lst) in
      case window_check date_parse q order r of
        Window_exhausted \<Rightarrow> Inr (trades, lst', True)
      | Skip_record \<Rightarrow> scan_batch date_parse q order limit rs trades lst'
      | In_window \<Rightarrow>
          and_then (mapHorizonTrade r) (\<lambda>row.
          if \<not> row_matches q row then scan_batch date_parse q order limit rs trades lst'
          else if int (length (trades @ [row])) \<ge> limit then Inr (trades @ [row], lst', False)
          else scan_batch date_parse q order limit rs (trades @ [row]) lst'))"

text \<open>The loop over pages; \<open>n\<close> is the number of pages left.\<close>

fun scan_pages ::
  "(trades_request \<Rightarrow> js_error + trade_record list) \<Rightarrow> (string \<Rightarrow> js_num option) \<Rightarrow> trades_query
    \<Rightarrow> trades_request \<Rightarrow> nat \<Rightarrow> trade_row list \<Rightarrow> string option \<Rightarrow> string option
    \<Rightarrow> js_error + (trade_row list \<times> string option \<times> stop_reason)" where
  "scan_pages fetch date_parse q req 0 trades cursor lst = Inr (trades, lst, Stop_scan_bound)"
| "scan_pages fetch date_parse q req (Suc n) trades cursor lst =
     (if \<not> int (length trades) < rq_limit req then Inr (trades, lst, Stop_scan_bound)
      else and_then (fetch (req\<lparr>rq_cursor := (if cursor = Some [] then None else cursor)\<rparr>)) (\<lambda>batch.
        if batch = [] then Inr (trades, lst, Stop_end_of_data)
        else and_then (scan_batch date_parse q (rq_order req) (rq_limit req) batch trades lst)
          (\<lambda>(trades', lst', windowExhausted).
          if windowExhausted then Inr (trades', lst', Stop_window_end)
          else if int (length trades') \<ge> rq_limit req then Inr (trades', lst', Stop_limit)
          else if int (length batch) < rq_limit req then Inr (trades', lst', Stop_end_of_data)
          else scan_pages fetch date_parse q req n trades' (Some (paging_token (last batch))) lst')))"

record trade_tape =
  tt_selling :: string
  tt_buying :: string
  tt_network :: string
  tt_order :: sort_order
  tt_limit :: int
  tt_cursor :: "string option"
  tt_trades :: "trade_row list"
  tt_nextCursor :: "string option"
  tt_hasMore :: bool
  tt_truncated :: bool
  tt_lastUpdated :: js_num

definition next_cursor :: "trade_row list \<Rightarrow> string option \<Rightarrow> stop_reason \<Rightarrow> string option" where
  "next_cursor trades lastToken reason =
     (if reason = Stop_limit \<and> length trades > 0 then Some (tw_pagingToken (last trades))
      else if reason = Stop_scan_bound
      then (case lastToken of Some t \<Rightarrow> if t = [] then None else Some t | None \<Rightarrow> None)
      else None)"

definition getTrades ::
  "(trades_request \<Rightarrow> js_error + trade_record list) \<Rightarrow> (string \<Rightarrow> js_num option) \<Rightarrow> js_num
    \<Rightarrow> trades_query \<Rightarrow> js_error + trade_tape" where
  "getTrades fetch date_parse now q =
     (let network = nullish (tq_network q) ''testnet'' in
      and_then (parseAssetParams (tq_selling q)) (\<lambda>sell.
      and_then (parseAssetParams (tq_buying q)) (\<lambda>buy.
      and_then (getHorizonUrl network) (\<lambda>url.
      let limit = clamp 1 200 (nullish (tq_limit q) 50); order = nullish (tq_order q) Desc;
          req = \<lparr>rq_url = url, rq_limit = limit, rq_order = order, rq_base = sell, rq_counter = buy,
                 rq_cursor = None\<rparr> in
      and_then (scan_pages fetch date_parse q req MAX_TRADE_PAGES [] (tq_cursor q) (tq_cursor q))
        (\<lambda>(trades, lastToken, reason).
      let nextCursor = next_cursor trades lastToken reason
      in Inr \<lparr>tt_selling = tq_selling q, tt_buying = tq_buying q, tt_network = network,
              tt_order = order, tt_limit = limit, tt_cursor = tq_cursor q, tt_trades = trades,
              tt_nextCursor = nextCursor, tt_hasMore = (nextCursor \<noteq> None),
              tt_truncated = (reason = Stop_scan_bound \<and> nextCursor \<noteq> None), tt_lastUpdated = now\<rparr>)))))"


section \<open>Paging\<close>

text \<open>The records of a source that follow a cursor.\<close>

definition after_token :: "('a \<Rightarrow> string) \<Rightarrow> string option \<Rightarrow> 'a list \<Rightarrow> 'a list" where
  "after_token token c items =
     (case c of None \<Rightarrow> items | Some t \<Rightarrow> tl (dropWhile (\<lambda>x. token x \<noteq> t) items))"

lemma after_token_nth:
  assumes "distinct (map token items)" "i < length items"
  shows "after_token token (Some (token (items ! i))) items = drop (Suc i) items"
proof -
  have ne: "token x \<noteq> token (items ! i)" if mem: "x \<in> set (take i items)" for x
  proof -
    have "\<exists>j < i. x = items ! j" using mem assms(2) by (auto simp: in_set_conv_nth)
    then obtain j where j: "j < i" "x = items ! j" by blast
    then have "map token items ! j \<noteq> map token items ! i"
      using nth_eq_iff_index_eq [OF assms(1), of j i] assms(2) by simp
    then show ?thesis using j assms(2) by simp
  qed
  have "dropWhile (\<lambda>x. token x \<noteq> token (items ! i)) (take i items @ drop i items) = drop i items"
    using ne assms(2) by (subst dropWhile_append2) (auto simp: Cons_nth_drop_Suc [symmetric])
  then show ?thesis by (simp add: after_token_def drop_Suc tl_drop)
qed

lemma scan_batch_spec:
  assumes "scan_batch dp q order limit batch trades lst = Inr (ts, l, we)"
    and "tq_startTime q = None" "tq_endTime q = None" "\<forall>r \<in> set batch. paging_token r \<noteq> []"
    and "int (length trades) < limit"
  shows "\<not> we \<and> (\<exists>j rows. j \<le> length batch \<and> map_result mapHorizonTrade (take j batch) = Inr rows
    \<and> ts = trades @ filter (row_matches q) rows
    \<and> l = (if j = 0 then lst else Some (paging_token (batch ! (j - 1))))
    \<and> (int (length ts) < limit \<longrightarrow> j = length batch)
    \<and> (limit \<le> int (length ts) \<longrightarrow> 0 < j \<and> ts \<noteq> [] \<and> tw_pagingToken (last ts) = paging_token (batch ! (j - 1))))"
  using assms
proof (induction batch arbitrary: trades lst)
  case Nil
  then show ?case by auto
next
  case (Cons r rs)
  have w: "window_check dp q order r = In_window"
    using Cons.prems(2,3) by (simp add: window_check_def Let_def split: option.split)
  obtain row where row: "mapHorizonTrade r = Inr row" using Cons.prems(1) w by (auto simp: result_laws Let_def)
  then have tok: "tw_pagingToken row = paging_token r" by (auto simp: mapHorizonTrade_def result_laws Let_def)
  have pt: "paging_token r \<noteq> []" using Cons.prems(4) by simp
  have rs: "\<forall>r \<in> set rs. paging_token r \<noteq> []" using Cons.prems(4) by simp
  define trades' where "trades' = (if row_matches q row then trades @ [row] else trades)"
  show ?case
  proof (cases "row_matches q row \<and> limit \<le> int (length trades')")
    case True
    then have match: "row_matches q row" "limit \<le> 1 + int (length trades)"
      by (auto simp: trades'_def split: if_splits)
    then have "ts = trades @ [row]" "l = Some (paging_token r)" "\<not> we"
      using Cons.prems(1) w row pt by (simp_all add: Let_def)
    then show ?thesis using True row tok by (intro conjI exI [of _ 1] exI [of _ "[row]"]) (auto simp: trades'_def)
  next
    case False
    then have scan: "scan_batch dp q order limit rs trades' (Some (paging_token r)) = Inr (ts, l, we)"
      using Cons.prems(1) w row pt by (auto simp: trades'_def Let_def split: if_splits)
    have "int (length trades') < limit" using False Cons.prems(5) by (auto simp: trades'_def split: if_splits)
    from Cons.IH [OF scan Cons.prems(2,3) rs this] obtain j rows where
      we: "\<not> we" and j: "j \<le> length rs" "map_result mapHorizonTrade (take j rs) = Inr rows"
      "ts = trades' @ filter (row_matches q) rows"
      "l = (if j = 0 then Some (paging_token r) else Some (paging_token (rs ! (j - 1))))"
      "int (length ts) < limit \<longrightarrow> j = length rs"
      "limit \<le> int (length ts) \<longrightarrow> 0 < j \<and> ts \<noteq> [] \<and> tw_pagingToken (last ts) = paging_token (rs ! (j - 1))"
      by blast
    have "map_result mapHorizonTrade (take (Suc j) (r # rs)) = Inr (row # rows)" using row j(2) by simp
    moreover have "ts = trades @ filter (row_matches q) (row # rows)" using j(3) by (simp add: trades'_def)
    moreover have "l = Some (paging_token ((r # rs) ! j))" using j(4) by (cases j) simp_all
    moreover have "limit \<le> int (length ts) \<longrightarrow> ts \<noteq> [] \<and> tw_pagingToken (last ts) = paging_token ((r # rs) ! j)"
      using j(6) by (cases j) simp_all
    moreover have "int (length ts) < limit \<longrightarrow> Suc j = length (r # rs)" using j(5) by simp
    moreover have "Suc j \<le> length (r # rs)" using j(1) by simp
    ultimately show ?thesis using we
      by (metis Zero_not_Suc diff_Suc_1 zero_less_Suc)
  qed
qed

text \<open>Horizon's documented behaviour: a page is the next \<open>limit\<close> records after the cursor.\<close>

definition serves :: "(trades_request \<Rightarrow> js_error + trade_record list) \<Rightarrow> trade_record list \<Rightarrow> bool" where
  "serves fetch records \<longleftrightarrow> distinct (map paging_token records) \<and> (\<forall>r \<in> set records. paging_token r \<noteq> [])
     \<and> (\<forall>req. fetch req = Inr (take (nat (rq_limit req)) (after_token paging_token (rq_cursor req) records)))"

lemma map_result_append:
  "map_result f xs = Inr ys \<Longrightarrow> map_result f zs = Inr ws \<Longrightarrow> map_result f (xs @ zs) = Inr (ys @ ws)"
  by (induction xs arbitrary: ys) (auto simp: result_laws)

lemma scan_pages_spec:
  assumes "scan_pages fetch dp q req n trades c lst = Inr (ts, l, reason)"
    and "tq_startTime q = None" "tq_endTime q = None" "serves fetch all" "1 \<le> rq_limit req"
    and "int (length trades) < rq_limit req" "m \<le> length all"
    and "after_token paging_token (if c = Some [] then None else c) all = drop m all"
  shows "\<exists>k rows. m + k \<le> length all \<and> map_result mapHorizonTrade (take k (drop m all)) = Inr rows
    \<and> ts = trades @ filter (row_matches q) rows
    \<and> (case reason of
         Stop_limit \<Rightarrow> 0 < k \<and> ts \<noteq> [] \<and> tw_pagingToken (last ts) = paging_token (all ! (m + k - 1))
       | Stop_end_of_data \<Rightarrow> m + k = length all
       | Stop_window_end \<Rightarrow> False
       | Stop_scan_bound \<Rightarrow> (0 < n \<longrightarrow> 0 < k) \<and> l = (if k = 0 then lst else Some (paging_token (all ! (m + k - 1)))))"
  using assms
proof (induction n arbitrary: trades c lst m)
  case 0
  then show ?case by (intro exI [of _ 0] exI [of _ "[]"]) auto
next
  case (Suc n)
  let ?lim = "nat (rq_limit req)"
  let ?batch = "take ?lim (drop m all)"
  have fetch: "fetch (req\<lparr>rq_cursor := (if c = Some [] then None else c)\<rparr>) = Inr ?batch"
    using Suc.prems(4,8) by (simp add: serves_def)
  have tok: "\<forall>r \<in> set ?batch. paging_token r \<noteq> []" "distinct (map paging_token all)"
    using Suc.prems(4) by (auto simp: serves_def dest: in_set_takeD in_set_dropD)
  show ?case
  proof (cases "?batch = []")
    case True
    then have "drop m all = []" using Suc.prems(5) by auto
    moreover have "ts = trades" "reason = Stop_end_of_data"
      using Suc.prems(1,6) fetch True by (auto simp del: take_eq_Nil drop_eq_Nil)
    ultimately show ?thesis using Suc.prems(7) by (intro exI [of _ 0] exI [of _ "[]"]) simp
  next
    case False
    obtain ts1 l1 we where scan: "scan_batch dp q (rq_order req) (rq_limit req) ?batch trades lst = Inr (ts1, l1, we)"
      using Suc.prems(1,6) fetch False by (auto simp: result_laws split: if_splits)
    obtain j rows where we: "\<not> we" and j: "j \<le> length ?batch" "map_result mapHorizonTrade (take j ?batch) = Inr rows"
      "ts1 = trades @ filter (row_matches q) rows"
      "l1 = (if j = 0 then lst else Some (paging_token (?batch ! (j - 1))))"
      "int (length ts1) < rq_limit req \<longrightarrow> j = length ?batch"
      "rq_limit req \<le> int (length ts1) \<longrightarrow> 0 < j \<and> ts1 \<noteq> [] \<and> tw_pagingToken (last ts1) = paging_token (?batch ! (j - 1))"
      using scan_batch_spec [OF scan Suc.prems(2,3) tok(1) Suc.prems(6)] by blast
    have "j \<le> ?lim" using j(1) by simp
    then have take_j: "take j ?batch = take j (drop m all)" by (simp add: min_absorb1)
    have nth_j: "?batch ! (j - 1) = all ! (m + j - 1)" if "0 < j"
    proof -
      have "?batch ! (j - 1) = drop m all ! (j - 1)" using \<open>j \<le> ?lim\<close> that by (intro nth_take) linarith
      also have "\<dots> = all ! (m + (j - 1))" using Suc.prems(7) by (rule nth_drop)
      finally show ?thesis using that by simp
    qed
    have "j \<le> length all - m" using j(1) by simp
    then have mj: "m + j \<le> length all" using Suc.prems(7) by linarith
    show ?thesis
    proof (cases "rq_limit req \<le> int (length ts1)")
      case True
      then have "ts = ts1" "reason = Stop_limit"
        using Suc.prems(1,6) fetch False scan we by (auto simp del: take_eq_Nil drop_eq_Nil)
      then show ?thesis using True j mj take_j nth_j by (intro exI [of _ j] exI [of _ rows]) auto
    next
      case full: False
      then have jb: "j = length ?batch" using j(5) by simp
      show ?thesis
      proof (cases "int (length ?batch) < rq_limit req")
        case True
        then have "ts = ts1" "reason = Stop_end_of_data"
          using Suc.prems(1,6) fetch False scan we full by (auto simp del: take_eq_Nil drop_eq_Nil length_take length_drop)
        moreover have "m + j = length all" using True jb Suc.prems(7) by (simp add: min_def split: if_splits)
        ultimately show ?thesis using j mj take_j by (intro exI [of _ j] exI [of _ rows]) auto
      next
        case more: False
        then have jl: "j = ?lim" and j0: "0 < j" using jb Suc.prems(5) by (auto simp: min_def split: if_splits)
        have rec: "scan_pages fetch dp q req n ts1 (Some (paging_token (last ?batch))) l1 = Inr (ts, l, reason)"
          using Suc.prems(1,6) fetch False scan we full more by (simp del: take_eq_Nil drop_eq_Nil length_take length_drop)
        have last: "last ?batch = all ! (m + j - 1)" using nth_j j0 jb False by (metis last_conv_nth)
        have after: "after_token paging_token (Some (paging_token (last ?batch))) all = drop (m + j) all"
          using after_token_nth [OF tok(2), of "m + j - 1"] j0 mj by (simp add: last)
        have "paging_token (last ?batch) \<noteq> []" using tok(1) False by (meson last_in_set)
        then have cur: "after_token paging_token (if Some (paging_token (last ?batch)) = Some [] then None
            else Some (paging_token (last ?batch))) all = drop (m + j) all" using after by simp
        have "int (length ts1) < rq_limit req" using full by simp
        from Suc.IH [OF rec Suc.prems(2-5) this mj cur] obtain k rows' where
          k: "m + j + k \<le> length all" "map_result mapHorizonTrade (take k (drop (m + j) all)) = Inr rows'"
          "ts = ts1 @ filter (row_matches q) rows'"
          "case reason of
             Stop_limit \<Rightarrow> 0 < k \<and> ts \<noteq> [] \<and> tw_pagingToken (last ts) = paging_token (all ! (m + j + k - 1))
           | Stop_end_of_data \<Rightarrow> m + j + k = length all
           | Stop_window_end \<Rightarrow> False
           | Stop_scan_bound \<Rightarrow> (0 < n \<longrightarrow> 0 < k) \<and> l = (if k = 0 then l1 else Some (paging_token (all ! (m + j + k - 1))))"
          by blast
        have "take (j + k) (drop m all) = take j (drop m all) @ take k (drop (m + j) all)"
          by (simp add: take_add add.commute)
        then have "map_result mapHorizonTrade (take (j + k) (drop m all)) = Inr (rows @ rows')"
          using map_result_append j(2) k(2) take_j by simp
        moreover have "l1 = Some (paging_token (all ! (m + j - 1)))" using j(4) j0 nth_j by simp
        ultimately show ?thesis using k j(3) j0
          by (intro exI [of _ "j + k"] exI [of _ "rows @ rows'"])
            (auto simp: add.assoc split: stop_reason.splits)
      qed
    qed
  qed
qed


lemma scan_batch_bounded:
  assumes "scan_batch dp q order limit batch trades lst = Inr (ts, l, we)"
    and "int (length trades) < limit" "\<forall>w \<in> set trades. row_matches q w"
  shows "int (length ts) \<le> limit \<and> (\<forall>w \<in> set ts. row_matches q w)"
  using assms
proof (induction batch arbitrary: trades lst)
  case (Cons r rs)
  show ?case
  proof (cases "window_check dp q order r")
    case In_window
    then obtain row where row: "mapHorizonTrade r = Inr row" using Cons.prems(1) by (auto simp: result_laws Let_def)
    show ?thesis
    proof (cases "row_matches q row \<and> limit \<le> int (length (trades @ [row]))")
      case True
      then have "ts = trades @ [row]" using Cons.prems(1) In_window row by (simp add: Let_def)
      then show ?thesis using True Cons.prems(2,3) by auto
    next
      case False
      define trades' where "trades' = (if row_matches q row then trades @ [row] else trades)"
      obtain lst' where "scan_batch dp q order limit rs trades' lst' = Inr (ts, l, we)"
        using Cons.prems(1) In_window row False that
        by (simp add: trades'_def Let_def split: if_split_asm)
      moreover have "int (length trades') < limit" "\<forall>w \<in> set trades'. row_matches q w"
        using False Cons.prems(2,3) by (auto simp: trades'_def)
      ultimately show ?thesis by (rule Cons.IH)
    qed
  next
    case Skip_record
    then obtain lst' where "scan_batch dp q order limit rs trades lst' = Inr (ts, l, we)"
      using Cons.prems(1) by (simp add: Let_def)
    then show ?thesis using Cons.prems(2,3) by (rule Cons.IH)
  next
    case Window_exhausted
    then show ?thesis using Cons.prems by (simp add: Let_def)
  qed
qed auto

lemma scan_pages_bounded:
  assumes "scan_pages fetch dp q req n trades c lst = Inr (ts, l, reason)"
    and "int (length trades) \<le> rq_limit req" "\<forall>w \<in> set trades. row_matches q w"
  shows "int (length ts) \<le> rq_limit req \<and> (\<forall>w \<in> set ts. row_matches q w)"
  using assms
proof (induction n arbitrary: trades c lst)
  case (Suc n)
  show ?case
  proof (cases "int (length trades) < rq_limit req")
    case True
    then obtain batch where batch: "fetch (req\<lparr>rq_cursor := (if c = Some [] then None else c)\<rparr>) = Inr batch"
      using Suc.prems(1) by (auto simp: result_laws)
    show ?thesis
    proof (cases "batch = []")
      case True
      then show ?thesis using Suc.prems batch \<open>int (length trades) < rq_limit req\<close> by auto
    next
      case False
      obtain ts1 l1 we where scan: "scan_batch dp q (rq_order req) (rq_limit req) batch trades lst = Inr (ts1, l1, we)"
        using Suc.prems(1) batch True False by (auto simp: result_laws)
      have b: "int (length ts1) \<le> rq_limit req" "\<forall>w \<in> set ts1. row_matches q w"
        using scan_batch_bounded [OF scan True Suc.prems(3)] by auto
      show ?thesis using Suc.prems(1) batch True False scan b Suc.IH
        by (auto split: if_splits)
    qed
  qed (use Suc.prems in auto)
qed auto

lemma getTrades_scan:
  assumes "getTrades fetch dp now q = Inr r"
  obtains req lst reason where
    "scan_pages fetch dp q req MAX_TRADE_PAGES [] (tq_cursor q) (tq_cursor q) = Inr (tt_trades r, lst, reason)"
    "rq_limit req = tt_limit r" "tt_limit r = clamp 1 200 (nullish (tq_limit q) 50)" "rq_cursor req = None"
    "tt_nextCursor r = next_cursor (tt_trades r) lst reason" "tt_hasMore r = (tt_nextCursor r \<noteq> None)"
    "tt_truncated r = (reason = Stop_scan_bound \<and> tt_nextCursor r \<noteq> None)"
  using assms by (auto simp: getTrades_def result_laws Let_def split: prod.splits intro: that)

section \<open>Exploring a paged source\<close>

text \<open>A caller's \<open>fetchPage\<close> over a source: the next \<open>limit\<close> records, and the last token of a full page.\<close>

definition serves_pages ::
  "(string option \<Rightarrow> int \<Rightarrow> js_error + 'a horizon_page) \<Rightarrow> ('a \<Rightarrow> string) \<Rightarrow> 'a list \<Rightarrow> bool" where
  "serves_pages fetchPage token items \<longleftrightarrow>
     distinct (map token items) \<and> (\<forall>x \<in> set items. token x \<noteq> [])
     \<and> (\<forall>c limit. fetchPage c limit =
          (let page = take (nat limit) (after_token token c items)
           in Inr \<lparr>hp_records = page,
                   hp_nextCursor = (if length page < nat limit then None else Some (token (last page)))\<rparr>))"

lemma explore_serves:
  assumes "serves_pages fetchPage token items" "1 \<le> limit" "m \<le> length items"
    and "after_token token c items = drop m items" "set seen \<subseteq> token ` set (take m items)"
  shows "\<exists>pages'. explore fetchPage limit n seen c recs pages =
    Inr \<lparr>ex_records = recs @ take (nat limit * n) (drop m items), ex_pages = pages',
        ex_nextCursor = (if n = 0 then c else if nat limit * n \<le> length items - m
                         then Some (token (items ! (m + nat limit * n - 1))) else None),
        ex_truncated = (nat limit * n \<le> length items - m)\<rparr> \<and> pages' \<le> pages + n"
  using assms(3-5)
proof (induction n arbitrary: m c seen recs pages)
  case 0
  then show ?case by simp
next
  case (Suc n)
  let ?page = "take (nat limit) (drop m items)"
  have dist: "distinct (map token items)" and ne: "\<forall>x \<in> set items. token x \<noteq> []"
    using assms(1) by (auto simp: serves_pages_def)
  have fetch: "fetchPage c limit = Inr \<lparr>hp_records = ?page,
      hp_nextCursor = (if length ?page < nat limit then None else Some (token (last ?page)))\<rparr>"
    using assms(1) Suc.prems(2) by (simp add: serves_pages_def Let_def)
  show ?case
  proof (cases "length ?page < nat limit")
    case True
    then have "length items - m < nat limit" by simp
    then have "?page = drop m items" "take (nat limit * Suc n) (drop m items) = drop m items"
      "\<not> nat limit * Suc n \<le> length items - m" by auto
    then show ?thesis using fetch True by (simp del: mult_Suc_right)
  next
    case False
    then have len: "nat limit \<le> length items - m" by simp
    define m' where "m' = m + nat limit"
    have m': "m' \<le> length items" "0 < m'" "m' - 1 < length items" "m \<le> m' - 1"
      using len Suc.prems(1) assms(2) by (auto simp: m'_def)
    have "?page \<noteq> []" using False assms(2) by (auto simp del: length_take length_drop)
    then have "last ?page = ?page ! (nat limit - 1)" using len by (simp add: last_conv_nth min_def)
    also have "\<dots> = drop m items ! (nat limit - 1)" using assms(2) by (intro nth_take) simp
    also have "\<dots> = items ! (m' - 1)" using Suc.prems(1) assms(2) by (simp add: m'_def)
    finally have lst: "last ?page = items ! (m' - 1)" .
    have after: "after_token token (Some (token (items ! (m' - 1)))) items = drop m' items"
      using after_token_nth [OF dist m'(3)] m'(2) by simp
    have fresh: "token (items ! (m' - 1)) \<notin> set seen"
    proof
      assume "token (items ! (m' - 1)) \<in> set seen"
      then obtain x where "x \<in> set (take m items)" "token x = token (items ! (m' - 1))"
        using Suc.prems(3) by force
      then obtain i where "i < m" "token (items ! i) = token (items ! (m' - 1))"
        by (auto simp: in_set_conv_nth)
      then show False using nth_eq_iff_index_eq [OF dist, of i "m' - 1"] m' by auto
    qed
    have "set (token (items ! (m' - 1)) # seen) \<subseteq> token ` set (take m' items)"
    proof -
      have "items ! (m' - 1) \<in> set (take m' items)"
        using m'(1-3) by (auto simp: in_set_conv_nth intro!: exI [of _ "m' - 1"])
      moreover have "set (take m items) \<subseteq> set (take m' items)" by (simp add: m'_def set_take_subset_set_take)
      moreover have "set seen \<subseteq> token ` set (take m' items)"
        using Suc.prems(3) image_mono [OF calculation(2)] by (rule subset_trans)
      ultimately show ?thesis by simp
    qed
    from Suc.IH [OF m'(1) after this, of "recs @ ?page" "pages + 1"] obtain pages' where
      IH: "explore fetchPage limit n (token (items ! (m' - 1)) # seen) (Some (token (items ! (m' - 1)))) (recs @ ?page) (pages + 1) =
        Inr \<lparr>ex_records = (recs @ ?page) @ take (nat limit * n) (drop m' items), ex_pages = pages',
          ex_nextCursor = (if n = 0 then Some (token (items ! (m' - 1))) else if nat limit * n \<le> length items - m'
                         then Some (token (items ! (m' + nat limit * n - 1))) else None),
          ex_truncated = (nat limit * n \<le> length items - m')\<rparr>" "pages' \<le> pages + 1 + n" by blast
    have "take (nat limit * Suc n) (drop m items) = ?page @ take (nat limit * n) (drop m' items)"
      by (simp add: m'_def take_add add.commute)
    moreover have "(nat limit * n \<le> length items - m') = (nat limit * Suc n \<le> length items - m)"
      using len Suc.prems(1) by (auto simp: m'_def)
    moreover have "m' + nat limit * n - 1 = m + nat limit * Suc n - 1" by (simp add: m'_def)
    moreover have "items ! (m' - 1) \<in> set items" using m'(3) by simp
    ultimately show ?thesis using fetch False lst fresh IH ne len
      by (auto simp: m'_def result_laws simp del: mult_Suc_right length_take length_drop)
  qed
qed

section \<open>Properties\<close>

text \<open>
  The trade tape is a resumable cursor: without a time window, the page of trades is exactly the
  filtered image of a segment of the source that starts right after the query's cursor; the next
  cursor is absent exactly when the segment reaches the end of the source, and otherwise resumes at
  the first record that was not looked at, so that following it skips and repeats no trade.
\<close>

theorem getTrades_resumable:
  assumes "getTrades fetch dp now q = Inr r" and "serves fetch records"
    and "tq_startTime q = None" "tq_endTime q = None" "tq_cursor q \<noteq> Some []"
    and "m \<le> length records" "after_token paging_token (tq_cursor q) records = drop m records"
  shows "\<exists>k rows. m + k \<le> length records
    \<and> map_result mapHorizonTrade (take k (drop m records)) = Inr rows
    \<and> tt_trades r = filter (row_matches q) rows
    \<and> (case tt_nextCursor r of
         None \<Rightarrow> m + k = length records
       | Some t \<Rightarrow> 0 < k \<and> after_token paging_token (Some t) records = drop (m + k) records)"
proof -
  obtain req lst reason where
    scan: "scan_pages fetch dp q req MAX_TRADE_PAGES [] (tq_cursor q) (tq_cursor q) = Inr (tt_trades r, lst, reason)"
    and lim: "rq_limit req = tt_limit r" "tt_limit r = clamp 1 200 (nullish (tq_limit q) 50)" "rq_cursor req = None"
    and cursor: "tt_nextCursor r = next_cursor (tt_trades r) lst reason"
    and flags: "tt_hasMore r = (tt_nextCursor r \<noteq> None)" "tt_truncated r = (reason = Stop_scan_bound \<and> tt_nextCursor r \<noteq> None)"
    by (rule getTrades_scan [OF assms(1)])
  have l: "1 \<le> rq_limit req" "int (length []) < rq_limit req" using lim by (auto simp: clamp_def)
  have aft: "after_token paging_token (if tq_cursor q = Some [] then None else tq_cursor q) records = drop m records"
    using assms(5,7) by simp
  obtain k rows where "m + k \<le> length records \<and> map_result mapHorizonTrade (take k (drop m records)) = Inr rows
    \<and> tt_trades r = [] @ filter (row_matches q) rows
    \<and> (case reason of
         Stop_limit \<Rightarrow> 0 < k \<and> tt_trades r \<noteq> [] \<and> tw_pagingToken (last (tt_trades r)) = paging_token (records ! (m + k - 1))
       | Stop_end_of_data \<Rightarrow> m + k = length records
       | Stop_window_end \<Rightarrow> False
       | Stop_scan_bound \<Rightarrow> (0 < MAX_TRADE_PAGES \<longrightarrow> 0 < k)
           \<and> lst = (if k = 0 then tq_cursor q else Some (paging_token (records ! (m + k - 1)))))"
    using scan_pages_spec [OF scan assms(3,4,2) l assms(6) aft] by (elim exE) rule
  then have k: "m + k \<le> length records" "map_result mapHorizonTrade (take k (drop m records)) = Inr rows"
    "tt_trades r = filter (row_matches q) rows"
    "case reason of
         Stop_limit \<Rightarrow> 0 < k \<and> tt_trades r \<noteq> [] \<and> tw_pagingToken (last (tt_trades r)) = paging_token (records ! (m + k - 1))
       | Stop_end_of_data \<Rightarrow> m + k = length records
       | Stop_window_end \<Rightarrow> False
       | Stop_scan_bound \<Rightarrow> 0 < k \<and> lst = Some (paging_token (records ! (m + k - 1)))"
    by (auto simp: MAX_TRADE_PAGES_def split: stop_reason.splits)
  have ok: "distinct (map paging_token records)" "\<forall>x \<in> set records. paging_token x \<noteq> []"
    using assms(2) by (auto simp: serves_def)
  have "after_token paging_token (Some (paging_token (records ! (m + k - 1)))) records = drop (m + k) records"
    "paging_token (records ! (m + k - 1)) \<noteq> []" if "0 < k"
    using after_token_nth [OF ok(1), of "m + k - 1"] ok(2) that k(1) by auto
  then show ?thesis using k cursor
    by (intro exI [of _ k] exI [of _ rows]) (auto simp: next_cursor_def split: stop_reason.splits)
qed

text \<open>A source of two trades of one native pair.\<close>

definition sample_trade :: "string \<Rightarrow> trade_record" where
  "sample_trade token = \<lparr>tr_base_asset_type = Some ''native'', tr_base_asset_code = None, tr_base_asset_issuer = None,
     tr_counter_asset_type = Some ''native'', tr_counter_asset_code = None, tr_counter_asset_issuer = None,
     tr_base_is_seller = True, tr_ledger_close_time = None, tr_created_at = None, tr_id = Some token,
     tr_paging_token = Some token, tr_ledger = None, tr_trade_type = None, tr_operation_type = None,
     tr_price = Price_ratio ''1'' ''2'', tr_base_amount = Some ''10'', tr_counter_amount = Some ''5'',
     tr_base_account = Some ''GA'', tr_counter_account = Some ''GB''\<rparr>"

definition sample_source :: "trades_request \<Rightarrow> js_error + trade_record list" where
  "sample_source req = Inr (take (nat (rq_limit req))
     (after_token paging_token (rq_cursor req) [sample_trade ''7-1'', sample_trade ''8-1'']))"

definition sample_trades_query :: trades_query where
  "sample_trades_query = \<lparr>tq_selling = ''XLM'', tq_buying = ''XLM'', tq_network = None, tq_limit = Some 1,
     tq_order = None, tq_cursor = None, tq_startTime = None, tq_endTime = None, tq_side = None,
     tq_account = Some ''GB''\<rparr>"

lemma sample_row: "\<exists>row. mapHorizonTrade (sample_trade t) = Inr row \<and> tw_pagingToken row = t \<and> tw_buyer row = ''GB''"
proof -
  have "bigint_of_string ''1'' = Inr 1" "bigint_of_string ''2'' = Inr 2" by (simp_all add: string_eval)
  then show ?thesis by (simp add: mapHorizonTrade_def sample_trade_def formatPriceRatio_def paging_token_def nullish_def Let_def)
qed

lemma sample_trades_run:
  "\<exists>r. getTrades sample_source (\<lambda>_. None) 0 sample_trades_query = Inr r \<and> tt_nextCursor r = Some ''7-1''"
proof -
  obtain row where "mapHorizonTrade (sample_trade ''7-1'') = Inr row" "tw_pagingToken row = ''7-1''" "tw_buyer row = ''GB''"
    using sample_row by blast
  then show ?thesis
    by (simp add: getTrades_def sample_trades_query_def sample_source_def nullish_def clamp_def parseAssetParams_def
        getHorizonUrl_def MAX_TRADE_PAGES_def numeral_eq_Suc after_token_def window_check_def row_matches_def next_cursor_def)
qed

theorem getTrades_resumable_witness:
  "\<exists>r. getTrades sample_source (\<lambda>_. None) 0 sample_trades_query = Inr r
     \<and> after_token paging_token (tt_nextCursor r) [sample_trade ''7-1'', sample_trade ''8-1''] = [sample_trade ''8-1'']"
proof -
  obtain r where r: "getTrades sample_source (\<lambda>_. None) 0 sample_trades_query = Inr r" "tt_nextCursor r = Some ''7-1''"
    using sample_trades_run by blast
  have serves: "serves sample_source [sample_trade ''7-1'', sample_trade ''8-1'']"
    by (simp add: serves_def sample_source_def sample_trade_def paging_token_def nullish_def)
  have "\<exists>k. 0 < k \<and> after_token paging_token (tt_nextCursor r) [sample_trade ''7-1'', sample_trade ''8-1'']
      = drop k [sample_trade ''7-1'', sample_trade ''8-1'']"
    using getTrades_resumable [OF r(1) serves, of 0] r(2)
    by (auto simp: sample_trades_query_def after_token_def)
  moreover have "after_token paging_token (Some ''7-1'') [sample_trade ''7-1'', sample_trade ''8-1''] = [sample_trade ''8-1'']"
    by (simp add: after_token_def sample_trade_def paging_token_def nullish_def)
  ultimately show ?thesis using r by auto
qed

text \<open>
  The tape is bounded by the query whatever the source answers: between one and two hundred
  trades are allowed, no more than that many are returned, each passes the side and account
  filters, and a truncated tape always carries a cursor to continue from.
\<close>

theorem getTrades_bounded:
  assumes "getTrades fetch dp now q = Inr r"
  shows "1 \<le> tt_limit r \<and> tt_limit r \<le> 200 \<and> int (length (tt_trades r)) \<le> tt_limit r
    \<and> list_all (row_matches q) (tt_trades r) \<and> (tt_hasMore r \<longleftrightarrow> tt_nextCursor r \<noteq> None)
    \<and> (tt_truncated r \<longrightarrow> tt_hasMore r)"
proof -
  obtain req lst reason where
    scan: "scan_pages fetch dp q req MAX_TRADE_PAGES [] (tq_cursor q) (tq_cursor q) = Inr (tt_trades r, lst, reason)"
    and lim: "rq_limit req = tt_limit r" "tt_limit r = clamp 1 200 (nullish (tq_limit q) 50)" "rq_cursor req = None"
    and cursor: "tt_nextCursor r = next_cursor (tt_trades r) lst reason"
    and flags: "tt_hasMore r = (tt_nextCursor r \<noteq> None)" "tt_truncated r = (reason = Stop_scan_bound \<and> tt_nextCursor r \<noteq> None)"
    by (rule getTrades_scan [OF assms])
  have l: "1 \<le> tt_limit r" "tt_limit r \<le> 200" using lim(2) by (auto simp: clamp_def)
  then show ?thesis using scan_pages_bounded [OF scan] lim flags by (auto simp: list_all_iff)
qed

theorem getTrades_bounded_witness:
  "\<exists>r. getTrades sample_source (\<lambda>_. None) 0 sample_trades_query = Inr r \<and> int (length (tt_trades r)) \<le> tt_limit r"
proof -
  obtain r where r: "getTrades sample_source (\<lambda>_. None) 0 sample_trades_query = Inr r"
    using sample_trades_run by blast
  from getTrades_bounded [OF r] r show ?thesis by blast
qed

text \<open>
  C28. The explorer reads a paged source to its end: over a source whose tokens are distinct it never
  reports a repeated cursor and always returns, with the first \<open>limit * maxPages\<close> records in order;
  it reports a truncated walk, with the token of the last record read, exactly when the source has
  at least that many.
\<close>

theorem exploreHorizon_complete:
  assumes "serves_pages fetchPage token items"
  shows "\<exists>x. exploreHorizon fetchPage limit maxPages = Inr x
    \<and> (let bound = nat (clamp 1 200 (nullish limit 100)) * nat (clamp 1 1000 (nullish maxPages 50))
       in ex_records x = take bound items \<and> ex_truncated x = (bound \<le> length items)
          \<and> ex_nextCursor x = (if bound \<le> length items then Some (token (items ! (bound - 1))) else None)
          \<and> ex_pages x \<le> nat (clamp 1 1000 (nullish maxPages 50)))"
proof -
  let ?l = "clamp 1 200 (nullish limit 100)" and ?n = "nat (clamp 1 1000 (nullish maxPages 50))"
  have l: "1 \<le> ?l" "0 < ?n" by (auto simp: clamp_def)
  have "exploreHorizon fetchPage limit maxPages = explore fetchPage ?l ?n [] None [] 0"
    by (simp add: exploreHorizon_def nullish_def Let_def)
  moreover obtain p where "explore fetchPage ?l ?n [] None [] 0 =
    Inr \<lparr>ex_records = [] @ take (nat ?l * ?n) (drop 0 items), ex_pages = p,
        ex_nextCursor = (if ?n = 0 then None else if nat ?l * ?n \<le> length items - 0
                         then Some (token (items ! (0 + nat ?l * ?n - 1))) else None),
        ex_truncated = (nat ?l * ?n \<le> length items - 0)\<rparr>" "p \<le> 0 + ?n"
    using explore_serves [OF assms l(1), of 0 None "[]" ?n "[]" 0] by (auto simp: after_token_def)
  ultimately show ?thesis using l(2) by (simp add: Let_def)
qed

theorem exploreHorizon_complete_witness:
  "\<exists>x. exploreHorizon (\<lambda>c l. let page = take (nat l) (after_token (\<lambda>s. s) c [''a'', ''b''])
        in Inr \<lparr>hp_records = page, hp_nextCursor = (if length page < nat l then None else Some (last page))\<rparr>)
       (Some 1) (Some 1) = Inr x \<and> ex_records x = [''a'']"
proof -
  let ?fetch = "\<lambda>c l. let page = take (nat l) (after_token (\<lambda>s. s) c [''a'', ''b''])
        in Inr \<lparr>hp_records = page, hp_nextCursor = (if length page < nat l then None else Some (last page))\<rparr>"
  have "serves_pages ?fetch (\<lambda>s. s) [''a'', ''b'']" by (simp add: serves_pages_def)
  from exploreHorizon_complete [OF this, of "Some 1" "Some 1"] obtain x where
    "exploreHorizon ?fetch (Some 1) (Some 1) = Inr x" "ex_records x = take (nat 1 * nat 1) [''a'', ''b'']"
    by (auto simp: nullish_def clamp_def Let_def)
  then show ?thesis by (intro exI [of _ x]) simp
qed

end
