(* ===== verification/LeaseStore.thy ===== *)
theory LeaseStore
  imports Prelude
begin

text \<open>
  The lease stores of the ledger monitor: the interface \<open>MonitorLockStore\<close> and the Redis-backed
  store of \<open>apps/api/src/modules/monitor/monitor-leader.service.ts\<close>, and the in-memory store of
  \<open>monitor-lock-store.memory.ts\<close>. A store is a record of its operations over its state; every
  operation is given the time at which it runs. Redis itself is a parameter with its documented
  commands. The locale \<open>lease_store\<close> is the contract that the election rests on.
\<close>

section \<open>The interface\<close>

text \<open>Arguments: key, token, time to live, current time, state.\<close>

record 's lock_store =
  ls_acquire :: "string \<Rightarrow> string \<Rightarrow> int \<Rightarrow> int \<Rightarrow> 's \<Rightarrow> bool \<times> 's"
  ls_renew :: "string \<Rightarrow> string \<Rightarrow> int \<Rightarrow> int \<Rightarrow> 's \<Rightarrow> bool \<times> 's"
  ls_release :: "string \<Rightarrow> string \<Rightarrow> int \<Rightarrow> 's \<Rightarrow> 's"

section \<open>The in-memory store\<close>

record lease =
  le_token :: string
  le_expiresAt :: int

type_synonym leases = "(string, lease) jmap"

definition live :: "string \<Rightarrow> int \<Rightarrow> leases \<Rightarrow> lease option \<times> leases" where
  "live key now leases =
     (case jm_get leases key of
        Some l \<Rightarrow> if le_expiresAt l \<le> now then (None, jm_delete leases key) else (Some l, leases)
      | None \<Rightarrow> (None, leases))"

definition memory_acquire :: "string \<Rightarrow> string \<Rightarrow> int \<Rightarrow> int \<Rightarrow> leases \<Rightarrow> bool \<times> leases" where
  "memory_acquire key token ttlMs now leases =
     (case live key now leases of
        (Some l, leases') \<Rightarrow> (False, leases')
      | (None, leases') \<Rightarrow> (True, jm_set leases' key \<lparr>le_token = token, le_expiresAt = now + ttlMs\<rparr>))"

definition memory_renew :: "string \<Rightarrow> string \<Rightarrow> int \<Rightarrow> int \<Rightarrow> leases \<Rightarrow> bool \<times> leases" where
  "memory_renew key token ttlMs now leases =
     (case live key now leases of
        (None, leases') \<Rightarrow> (False, leases')
      | (Some l, leases') \<Rightarrow>
          if le_token l \<noteq> token then (False, leases')
          else (True, jm_set leases' key (l\<lparr>le_expiresAt := now + ttlMs\<rparr>)))"

definition memory_release :: "string \<Rightarrow> string \<Rightarrow> int \<Rightarrow> leases \<Rightarrow> leases" where
  "memory_release key token now leases =
     (case live key now leases of
        (None, leases') \<Rightarrow> leases'
      | (Some l, leases') \<Rightarrow> if le_token l = token then jm_delete leases' key else leases')"

definition createInMemoryMonitorLockStore :: "leases lock_store" where
  "createInMemoryMonitorLockStore =
     \<lparr>ls_acquire = memory_acquire, ls_renew = memory_renew, ls_release = memory_release\<rparr>"

section \<open>The Redis store\<close>

text \<open>The commands the scripts and the client use; the server's state is opaque.\<close>

record 's redis_server =
  rs_set_nx_px :: "string \<Rightarrow> string \<Rightarrow> int \<Rightarrow> int \<Rightarrow> 's \<Rightarrow> bool \<times> 's"
  rs_get :: "string \<Rightarrow> int \<Rightarrow> 's \<Rightarrow> string option"
  rs_pexpire :: "string \<Rightarrow> int \<Rightarrow> int \<Rightarrow> 's \<Rightarrow> int \<times> 's"
  rs_del :: "string \<Rightarrow> int \<Rightarrow> 's \<Rightarrow> int \<times> 's"

text \<open>The client connects lazily.\<close>

record 's redis_client =
  rc_isOpen :: bool
  rc_server :: 's

definition RENEW_SCRIPT :: "'s redis_server \<Rightarrow> string \<Rightarrow> string \<Rightarrow> int \<Rightarrow> int \<Rightarrow> 's \<Rightarrow> int \<times> 's" where
  "RENEW_SCRIPT rs key token ttlMs now s =
     (if rs_get rs key now s = Some token then rs_pexpire rs key ttlMs now s else (0, s))"

definition RELEASE_SCRIPT :: "'s redis_server \<Rightarrow> string \<Rightarrow> string \<Rightarrow> int \<Rightarrow> 's \<Rightarrow> int \<times> 's" where
  "RELEASE_SCRIPT rs key token now s =
     (if rs_get rs key now s = Some token then rs_del rs key now s else (0, s))"

definition redis_connect :: "'s redis_client \<Rightarrow> 's redis_client" where
  "redis_connect c = (if \<not> rc_isOpen c then c\<lparr>rc_isOpen := True\<rparr> else c)"

definition redis_acquire ::
  "'s redis_server \<Rightarrow> string \<Rightarrow> string \<Rightarrow> int \<Rightarrow> int \<Rightarrow> 's redis_client \<Rightarrow> bool \<times> 's redis_client" where
  "redis_acquire rs key token ttlMs now c =
     (let c1 = redis_connect c; (ok, s) = rs_set_nx_px rs key token ttlMs now (rc_server c1)
      in (ok, c1\<lparr>rc_server := s\<rparr>))"

definition redis_renew ::
  "'s redis_server \<Rightarrow> string \<Rightarrow> string \<Rightarrow> int \<Rightarrow> int \<Rightarrow> 's redis_client \<Rightarrow> bool \<times> 's redis_client" where
  "redis_renew rs key token ttlMs now c =
     (let c1 = redis_connect c; (n, s) = RENEW_SCRIPT rs key token ttlMs now (rc_server c1)
      in (n = 1, c1\<lparr>rc_server := s\<rparr>))"

definition redis_release ::
  "'s redis_server \<Rightarrow> string \<Rightarrow> string \<Rightarrow> int \<Rightarrow> 's redis_client \<Rightarrow> 's redis_client" where
  "redis_release rs key token now c =
     (if \<not> rc_isOpen c then c
      else c\<lparr>rc_server := snd (RELEASE_SCRIPT rs key token now (rc_server c))\<rparr>)"

definition redisMonitorLockStore :: "'s redis_server \<Rightarrow> 's redis_client lock_store" where
  "redisMonitorLockStore rs =
     \<lparr>ls_acquire = redis_acquire rs, ls_renew = redis_renew rs, ls_release = redis_release rs\<rparr>"

section \<open>The specification: a table of live leases\<close>

type_synonym lease_table = "string \<Rightarrow> (string \<times> int) option"

text \<open>What is left of a table at a later time.\<close>

definition age :: "int \<Rightarrow> lease_table \<Rightarrow> lease_table" where
  "age now T = (\<lambda>k. case T k of Some (t, e) \<Rightarrow> if e \<le> now then None else Some (t, e) | None \<Rightarrow> None)"

definition spec_acquire :: "string \<Rightarrow> string \<Rightarrow> int \<Rightarrow> int \<Rightarrow> lease_table \<Rightarrow> bool \<times> lease_table" where
  "spec_acquire key token ttl now T =
     (if T key = None then (True, age now (T(key \<mapsto> (token, now + ttl)))) else (False, T))"

definition spec_renew :: "string \<Rightarrow> string \<Rightarrow> int \<Rightarrow> int \<Rightarrow> lease_table \<Rightarrow> bool \<times> lease_table" where
  "spec_renew key token ttl now T =
     (if map_option fst (T key) = Some token then (True, age now (T(key \<mapsto> (token, now + ttl)))) else (False, T))"

definition spec_release :: "string \<Rightarrow> string \<Rightarrow> lease_table \<Rightarrow> lease_table" where
  "spec_release key token T = (if map_option fst (T key) = Some token then T(key := None) else T)"

lemma age_age [simp]: "now \<le> now' \<Longrightarrow> age now' (age now T) = age now' T"
  by (auto simp: age_def fun_eq_iff split: option.splits)

lemma age_upd: "age now T = T \<Longrightarrow> age now (T(k \<mapsto> (v, e))) = T(k := if e \<le> now then None else Some (v, e))"
  by (auto simp: age_def fun_eq_iff)

lemma age_Some_iff: "age now T k = Some (t, e) \<longleftrightarrow> T k = Some (t, e) \<and> now < e"
  by (auto simp: age_def split: option.splits)

lemma age_None_mono: "T k = None \<Longrightarrow> age now T k = None"
  by (simp add: age_def)

text \<open>
  The contract: in a good state, an operation answers and acts as on the table of live leases, and
  the table only ages between operations.
\<close>

locale lease_store =
  fixes store :: "'s lock_store" and good :: "'s \<Rightarrow> bool" and table :: "int \<Rightarrow> 's \<Rightarrow> lease_table"
  assumes acquire: "\<lbrakk>good s; ls_acquire store key token ttl now s = (b, s')\<rbrakk>
      \<Longrightarrow> good s' \<and> (b, table now s') = spec_acquire key token ttl now (table now s)"
    and renew: "\<lbrakk>good s; ls_renew store key token ttl now s = (b, s')\<rbrakk>
      \<Longrightarrow> good s' \<and> (b, table now s') = spec_renew key token ttl now (table now s)"
    and release: "good s \<Longrightarrow> good (ls_release store key token now s)
      \<and> table now (ls_release store key token now s) = spec_release key token (table now s)"
    and ageing: "\<lbrakk>good s; now \<le> now'\<rbrakk> \<Longrightarrow> table now' s = age now' (table now s)"

section \<open>The in-memory store meets the contract\<close>

definition memory_table :: "int \<Rightarrow> leases \<Rightarrow> lease_table" where
  "memory_table now m = age now (\<lambda>k. map_option (\<lambda>l. (le_token l, le_expiresAt l)) (jm_get m k))"

lemma memory_table_simps [simp]:
  "memory_table now (jm_set m k l) = (memory_table now m)
     (k := if le_expiresAt l \<le> now then None else Some (le_token l, le_expiresAt l))"
  "memory_table now (jm_delete m k) = (memory_table now m)(k := None)"
  by (auto simp: memory_table_def age_def fun_eq_iff)

lemma live_spec:
  assumes "live key now m = (r, m')"
  shows "memory_table now m' = memory_table now m"
    "memory_table now m key = map_option (\<lambda>l. (le_token l, le_expiresAt l)) r"
proof -
  consider "jm_get m key = None" "r = None" "m' = m"
    | l where "jm_get m key = Some l" "le_expiresAt l \<le> now" "r = None" "m' = jm_delete m key"
    | l where "jm_get m key = Some l" "now < le_expiresAt l" "r = Some l" "m' = m"
    using assms by (auto simp: live_def split: option.splits if_splits)
  note cases = this
  from cases show "memory_table now m' = memory_table now m"
    by cases (auto simp: memory_table_def age_def fun_eq_iff)
  from cases show "memory_table now m key = map_option (\<lambda>l. (le_token l, le_expiresAt l)) r"
    by cases (auto simp: memory_table_def age_def)
qed

lemma memory_refines:
  "(\<lambda>(b, m'). (b, memory_table now m')) (memory_acquire key token ttl now m)
     = spec_acquire key token ttl now (memory_table now m)"
  "(\<lambda>(b, m'). (b, memory_table now m')) (memory_renew key token ttl now m)
     = spec_renew key token ttl now (memory_table now m)"
  "memory_table now (memory_release key token now m) = spec_release key token (memory_table now m)"
proof -
  obtain r m' where live: "live key now m = (r, m')" by (cases "live key now m")
  note spec = live_spec [OF live]
  have upd: "age now ((memory_table now m)(key \<mapsto> (token, now + ttl)))
      = (memory_table now m)(key := if now + ttl \<le> now then None else Some (token, now + ttl))"
    by (rule age_upd) (simp add: memory_table_def)
  show "(\<lambda>(b, m'). (b, memory_table now m')) (memory_acquire key token ttl now m)
      = spec_acquire key token ttl now (memory_table now m)"
    using spec upd by (cases r) (simp_all add: memory_acquire_def live spec_acquire_def)
  show "(\<lambda>(b, m'). (b, memory_table now m')) (memory_renew key token ttl now m)
      = spec_renew key token ttl now (memory_table now m)"
    using spec upd by (cases r) (auto simp: memory_renew_def live spec_renew_def)
  show "memory_table now (memory_release key token now m) = spec_release key token (memory_table now m)"
    using spec by (cases r) (simp_all add: memory_release_def live spec_release_def)
qed

lemma memory_ops [simp]:
  "ls_acquire createInMemoryMonitorLockStore = memory_acquire"
  "ls_renew createInMemoryMonitorLockStore = memory_renew"
  "ls_release createInMemoryMonitorLockStore = memory_release"
  by (simp_all add: createInMemoryMonitorLockStore_def)

interpretation memory: lease_store createInMemoryMonitorLockStore "\<lambda>_. True" memory_table
proof unfold_locales
  fix s key token ttl now b s'
  show "True \<and> (b, memory_table now s') = spec_acquire key token ttl now (memory_table now s)"
    if "ls_acquire createInMemoryMonitorLockStore key token ttl now s = (b, s')"
    using that by (simp flip: memory_refines)
  show "True \<and> (b, memory_table now s') = spec_renew key token ttl now (memory_table now s)"
    if "ls_renew createInMemoryMonitorLockStore key token ttl now s = (b, s')"
    using that by (simp flip: memory_refines)
  show "True \<and> memory_table now (ls_release createInMemoryMonitorLockStore key token now s)
      = spec_release key token (memory_table now s)"
    by (simp add: memory_refines)
  show "memory_table now' s = age now' (memory_table now s)" if "now \<le> now'" for now'
    using that by (simp add: memory_table_def)
qed

section \<open>The Redis store meets the contract\<close>

text \<open>Redis' documentation of \<open>SET NX PX\<close>, \<open>GET\<close>, \<open>PEXPIRE\<close>, \<open>DEL\<close> and of expiry.\<close>

definition redis_documented :: "'s redis_server \<Rightarrow> (int \<Rightarrow> 's \<Rightarrow> lease_table) \<Rightarrow> bool" where
  "redis_documented rs contents \<longleftrightarrow>
     (\<forall>key value ms now s.
        (let (ok, s') = rs_set_nx_px rs key value ms now s
         in ok = (contents now s key = None)
            \<and> contents now s' = (if ok then age now ((contents now s)(key \<mapsto> (value, now + ms))) else contents now s))
      \<and> rs_get rs key now s = map_option fst (contents now s key)
      \<and> (let (n, s') = rs_pexpire rs key ms now s
         in case contents now s key of
              None \<Rightarrow> n = 0 \<and> contents now s' = contents now s
            | Some (v, e) \<Rightarrow> n = 1 \<and> contents now s' = age now ((contents now s)(key \<mapsto> (v, now + ms))))
      \<and> contents now (snd (rs_del rs key now s)) = (contents now s)(key := None))
     \<and> (\<forall>now now' s. now \<le> now' \<longrightarrow> contents now' s = age now' (contents now s))"

definition client_good :: "(int \<Rightarrow> 's \<Rightarrow> lease_table) \<Rightarrow> 's redis_client \<Rightarrow> bool" where
  "client_good contents c \<longleftrightarrow> rc_isOpen c \<or> (\<forall>now. contents now (rc_server c) = (\<lambda>_. None))"

lemma redis_documentedD:
  assumes "redis_documented rs contents"
  shows "rs_set_nx_px rs key value ms now s = (ok, s') \<Longrightarrow> ok = (contents now s key = None)
      \<and> contents now s' = (if ok then age now ((contents now s)(key \<mapsto> (value, now + ms))) else contents now s)"
    and "rs_get rs key now s = map_option fst (contents now s key)"
    and "rs_pexpire rs key ms now s = (n, s') \<Longrightarrow> contents now s key = Some (v, e)
      \<Longrightarrow> n = 1 \<and> contents now s' = age now ((contents now s)(key \<mapsto> (v, now + ms)))"
    and "contents now (snd (rs_del rs key now s)) = (contents now s)(key := None)"
    and "now \<le> now' \<Longrightarrow> contents now' s = age now' (contents now s)"
proof -
  note doc = conjunct1 [OF assms [unfolded redis_documented_def Let_def],
      THEN spec, of key, THEN spec, of "value", THEN spec, of ms, THEN spec, of now, THEN spec, of s]
  show "rs_set_nx_px rs key value ms now s = (ok, s') \<Longrightarrow> ok = (contents now s key = None)
      \<and> contents now s' = (if ok then age now ((contents now s)(key \<mapsto> (value, now + ms))) else contents now s)"
    using doc by simp
  show "rs_get rs key now s = map_option fst (contents now s key)" using doc by blast
  show "rs_pexpire rs key ms now s = (n, s') \<Longrightarrow> contents now s key = Some (v, e)
      \<Longrightarrow> n = 1 \<and> contents now s' = age now ((contents now s)(key \<mapsto> (v, now + ms)))"
    using doc by simp
  show "contents now (snd (rs_del rs key now s)) = (contents now s)(key := None)" using doc by blast
  show "now \<le> now' \<Longrightarrow> contents now' s = age now' (contents now s)"
    using assms by (auto simp: redis_documented_def)
qed

lemma redis_lawful:
  assumes "redis_documented rs contents"
  shows "lease_store (redisMonitorLockStore rs) (client_good contents) (\<lambda>now c. contents now (rc_server c))"
proof
  note doc = redis_documentedD [OF assms]
  fix c c' :: "'a redis_client" and key token ttl now now' b
  have conn: "rc_isOpen (redis_connect c)" "rc_server (redis_connect c) = rc_server c"
    by (simp_all add: redis_connect_def)
  show "client_good contents c' \<and> (b, contents now (rc_server c')) = spec_acquire key token ttl now (contents now (rc_server c))"
    if "ls_acquire (redisMonitorLockStore rs) key token ttl now c = (b, c')"
    using that conn doc(1) [of key token ttl now "rc_server c"]
    by (auto simp: redisMonitorLockStore_def redis_acquire_def client_good_def spec_acquire_def Let_def split: prod.splits)
  show "client_good contents c' \<and> (b, contents now (rc_server c')) = spec_renew key token ttl now (contents now (rc_server c))"
    if renew: "ls_renew (redisMonitorLockStore rs) key token ttl now c = (b, c')"
  proof (cases "map_option fst (contents now (rc_server c) key) = Some token")
    case True
    then obtain e where e: "contents now (rc_server c) key = Some (token, e)" by auto
    obtain n s' where "rs_pexpire rs key ttl now (rc_server c) = (n, s')" by (metis surj_pair)
    then show ?thesis using renew conn doc(3) [OF _ e, of ttl n s'] True
      by (auto simp: redisMonitorLockStore_def redis_renew_def RENEW_SCRIPT_def doc(2) client_good_def spec_renew_def Let_def)
  next
    case False
    then show ?thesis using renew conn
      by (auto simp: redisMonitorLockStore_def redis_renew_def RENEW_SCRIPT_def doc(2) client_good_def spec_renew_def Let_def)
  qed
  show "client_good contents (ls_release (redisMonitorLockStore rs) key token now c)
      \<and> contents now (rc_server (ls_release (redisMonitorLockStore rs) key token now c))
        = spec_release key token (contents now (rc_server c))" if "client_good contents c"
    using that
    by (auto simp: redisMonitorLockStore_def redis_release_def RELEASE_SCRIPT_def client_good_def spec_release_def doc(2,4))
  show "contents now' (rc_server c) = age now' (contents now (rc_server c))" if "now \<le> now'"
    using that by (rule doc(5))
qed

section \<open>Stores that meet the contract are interchangeable\<close>

datatype store_op = Op_acquire string string int | Op_renew string string int | Op_release string string

fun store_call :: "'s lock_store \<Rightarrow> int \<Rightarrow> store_op \<Rightarrow> 's \<Rightarrow> bool option \<times> 's" where
  "store_call store now (Op_acquire k t ttl) s = apfst Some (ls_acquire store k t ttl now s)"
| "store_call store now (Op_renew k t ttl) s = apfst Some (ls_renew store k t ttl now s)"
| "store_call store now (Op_release k t) s = (None, ls_release store k t now s)"

text \<open>The replies to a script of calls, each after a delay.\<close>

fun store_run :: "'s lock_store \<Rightarrow> int \<Rightarrow> (nat \<times> store_op) list \<Rightarrow> 's \<Rightarrow> bool option list" where
  "store_run store now [] s = []"
| "store_run store now ((d, op) # ops) s =
     (let now' = now + int d; (reply, s') = store_call store now' op s
      in reply # store_run store now' ops s')"

lemma store_calls_agree:
  assumes A: "lease_store A ga ta" and B: "lease_store B gb tb"
    and "ga s" "gb u" "ta now s = tb now u"
    and "store_call A now op s = (r, s')" "store_call B now op u = (q, u')"
  shows "r = q \<and> ga s' \<and> gb u' \<and> ta now s' = tb now u'"
proof (cases op)
  case (Op_acquire k t ttl)
  then show ?thesis
    using assms(3-7) lease_store.acquire [OF A, of s k t ttl now] lease_store.acquire [OF B, of u k t ttl now]
    by (cases "ls_acquire A k t ttl now s"; cases "ls_acquire B k t ttl now u") (auto simp: prod_eq_iff)
next
  case (Op_renew k t ttl)
  then show ?thesis
    using assms(3-7) lease_store.renew [OF A, of s k t ttl now] lease_store.renew [OF B, of u k t ttl now]
    by (cases "ls_renew A k t ttl now s"; cases "ls_renew B k t ttl now u") (auto simp: prod_eq_iff)
next
  case (Op_release k t)
  then show ?thesis
    using assms(3-7) lease_store.release [OF A, of s k t now] lease_store.release [OF B, of u k t now] by auto
qed

lemma lease_stores_agree:
  assumes A: "lease_store A ga ta" and B: "lease_store B gb tb"
    and "ga s" "gb u" "ta now s = tb now u"
  shows "store_run A now ops s = store_run B now ops u"
  using assms(3-5)
proof (induction ops arbitrary: now s u)
  case (Cons e ops)
  obtain d op where e: "e = (d, op)" by (cases e)
  let ?now = "now + int d"
  obtain r s' q u' where calls: "store_call A ?now op s = (r, s')" "store_call B ?now op u = (q, u')"
    by (metis surj_pair)
  have "ta ?now s = tb ?now u"
    using Cons.prems lease_store.ageing [OF A, of s now ?now] lease_store.ageing [OF B, of u now ?now] by simp
  from store_calls_agree [OF A B Cons.prems(1,2) this calls] Cons.IH [of s' u' ?now]
  show ?case by (simp add: e calls Let_def)
qed simp

section \<open>Properties\<close>

text \<open>
  C38. The in-memory store refines the lease table: every operation, at any time and in any state,
  gives the reply of the specification and moves the table of live leases as the specification
  moves it; between operations the table only ages.
\<close>

theorem memory_store_refines:
  "(\<lambda>(b, m'). (b, memory_table now m')) (memory_acquire key token ttl now m)
     = spec_acquire key token ttl now (memory_table now m)
   \<and> (\<lambda>(b, m'). (b, memory_table now m')) (memory_renew key token ttl now m)
     = spec_renew key token ttl now (memory_table now m)
   \<and> memory_table now (memory_release key token now m) = spec_release key token (memory_table now m)
   \<and> memory_table (now + int d) m = age (now + int d) (memory_table now m)"
  using memory_refines memory.ageing [of now "now + int d" m] by simp


text \<open>A Redis server over an association list, for the witness.\<close>

definition toy_redis :: "leases redis_server" where
  "toy_redis = \<lparr>rs_set_nx_px = memory_acquire,
     rs_get = (\<lambda>k now m. map_option fst (memory_table now m k)),
     rs_pexpire = (\<lambda>k ms now m. case memory_table now m k of
        None \<Rightarrow> (0, m) | Some (v, e) \<Rightarrow> (1, jm_set m k \<lparr>le_token = v, le_expiresAt = now + ms\<rparr>)),
     rs_del = (\<lambda>k now m. (1, jm_delete m k))\<rparr>"

lemma toy_redis_documented: "redis_documented toy_redis memory_table"
proof -
  have aged: "age now ((memory_table now m)(k \<mapsto> (v, now + ms)))
      = (memory_table now m)(k := if now + ms \<le> now then None else Some (v, now + ms))" for now m k v ms
    by (rule age_upd) (simp add: memory_table_def)
  have "let (ok, s') = memory_acquire key value ms now s
        in ok = (memory_table now s key = None) \<and> memory_table now s'
          = (if ok then age now ((memory_table now s)(key \<mapsto> (value, now + ms))) else memory_table now s)"
    for key "value" ms now s
    using memory_refines(1) [of now key "value" ms s] by (auto simp: spec_acquire_def split: if_splits prod.splits)
  moreover have "memory_table now' s = age now' (memory_table now s)" if "now \<le> now'" for now now' s
    using that by (rule memory.ageing [OF TrueI])
  ultimately show ?thesis
    by (auto simp: redis_documented_def toy_redis_def aged split: option.splits)
qed


end
