(* ===== verification/MonitorConfig.thy ===== *)
theory MonitorConfig
  imports JsNumber
begin

text \<open>
  \<open>apps/api/src/modules/monitor/monitor-runtime.config.ts\<close>: the role and the numbers of the
  ledger monitor, resolved once from the environment. The environment is a function from variable
  names to values; the strings it holds are Latin-1 and shorter than the digits of an overflowing
  double.
\<close>

section \<open>Roles\<close>

datatype monitor_role = Role_all | Role_api | Role_worker

definition MONITOR_ROLES :: "string list" where
  "MONITOR_ROLES = [''all'', ''api'', ''worker'']"

definition role_of :: "string \<Rightarrow> monitor_role" where
  "role_of v = (if v = ''api'' then Role_api else if v = ''worker'' then Role_worker else Role_all)"

definition DEFAULT_MONITOR_ROLE :: monitor_role where
  "DEFAULT_MONITOR_ROLE = Role_all"

record role_capabilities =
  cap_produces :: bool
  cap_consumes :: bool

definition monitorRoleCapabilities :: "monitor_role \<Rightarrow> role_capabilities" where
  "monitorRoleCapabilities role =
     (if role = Role_api then \<lparr>cap_produces = False, cap_consumes = False\<rparr>
      else \<lparr>cap_produces = True, cap_consumes = True\<rparr>)"

definition resolveMonitorRole :: "string option \<Rightarrow> js_error + monitor_role" where
  "resolveMonitorRole raw =
     (case map_option (to_lower \<circ> trim) raw of
        None \<Rightarrow> Inr DEFAULT_MONITOR_ROLE
      | Some v \<Rightarrow>
          if v = [] then Inr DEFAULT_MONITOR_ROLE
          else if v \<in> set MONITOR_ROLES then Inr (role_of v)
          else Inl (PlainError (''MONITOR_ROLE must be one of '' @ join_with '', '' MONITOR_ROLES
                 @ '' (received \"'' @ the raw @ ''\")'')))"

section \<open>Numbers\<close>

definition DEFAULT_MAX_SSE_CONNECTIONS :: js_num where "DEFAULT_MAX_SSE_CONNECTIONS = 50"
definition DEFAULT_MONITOR_LEADER_LEASE_MS :: js_num where "DEFAULT_MONITOR_LEADER_LEASE_MS = 30000"
definition DEFAULT_MONITOR_EVALUATION_INTERVAL_MS :: js_num where
  "DEFAULT_MONITOR_EVALUATION_INTERVAL_MS = 60000"
definition DEFAULT_MONITOR_DISPATCH_INTERVAL_MS :: js_num where
  "DEFAULT_MONITOR_DISPATCH_INTERVAL_MS = 30000"
definition DEFAULT_MAX_WATCHES_PER_USER :: js_num where "DEFAULT_MAX_WATCHES_PER_USER = 25"
definition MONITOR_LEADER_LOCK_KEY :: string where
  "MONITOR_LEADER_LOCK_KEY = ''savitools:monitor:leader''"

text \<open>\<open>undefined\<close> and \<open>null\<close>; a number, \<open>None\<close> standing for NaN and the infinities; a string.\<close>

datatype env_value = Env_missing | Env_number "js_num option" | Env_string string

definition resolveInteger :: "env_value \<Rightarrow> js_num \<Rightarrow> js_num \<Rightarrow> js_num" where
  "resolveInteger v fallback minimum =
     (if v = Env_missing \<or> v = Env_string [] then fallback
      else let parsed = (case v of Env_number n \<Rightarrow> n | Env_string s \<Rightarrow> parse_int s | Env_missing \<Rightarrow> None)
           in case parsed of
                Some n \<Rightarrow> if n \<ge> minimum then n else fallback
              | None \<Rightarrow> fallback)"

definition resolvePositiveInteger :: "env_value \<Rightarrow> js_num \<Rightarrow> js_num" where
  "resolvePositiveInteger v fallback = resolveInteger v fallback 1"

definition resolveNonNegativeInteger :: "env_value \<Rightarrow> js_num \<Rightarrow> js_num" where
  "resolveNonNegativeInteger v fallback = resolveInteger v fallback 0"

section \<open>The configuration\<close>

record monitor_config =
  mc_role :: monitor_role
  mc_producerEnabled :: bool
  mc_consumerEnabled :: bool
  mc_maxSseConnections :: js_num
  mc_maxWatchesPerUser :: js_num
  mc_leaderLockKey :: string
  mc_leaderLeaseMs :: js_num
  mc_evaluationIntervalMs :: js_num
  mc_dispatchIntervalMs :: js_num

definition env_get :: "(string \<Rightarrow> string option) \<Rightarrow> string \<Rightarrow> env_value" where
  "env_get env name = (case env name of Some s \<Rightarrow> Env_string s | None \<Rightarrow> Env_missing)"

definition MonitorRuntimeConfig :: "(string \<Rightarrow> string option) \<Rightarrow> js_error + monitor_config" where
  "MonitorRuntimeConfig env =
     and_then (resolveMonitorRole (env ''MONITOR_ROLE'')) (\<lambda>role.
     let capabilities = monitorRoleCapabilities role;
         key = (case env ''MONITOR_LEADER_LOCK_KEY'' of Some k \<Rightarrow> trim k | None \<Rightarrow> [])
     in Inr \<lparr>mc_role = role,
          mc_producerEnabled = cap_produces capabilities,
          mc_consumerEnabled = cap_consumes capabilities,
          mc_maxSseConnections = resolvePositiveInteger (env_get env ''MAX_SSE_CONNECTIONS'') DEFAULT_MAX_SSE_CONNECTIONS,
          mc_maxWatchesPerUser =
            resolvePositiveInteger (env_get env ''MONITOR_MAX_WATCHES_PER_USER'') DEFAULT_MAX_WATCHES_PER_USER,
          mc_leaderLockKey = (if key = [] then MONITOR_LEADER_LOCK_KEY else key),
          mc_leaderLeaseMs = max 1000
            (resolvePositiveInteger (env_get env ''MONITOR_LEADER_LEASE_MS'') DEFAULT_MONITOR_LEADER_LEASE_MS),
          mc_evaluationIntervalMs =
            resolveNonNegativeInteger (env_get env ''MONITOR_EVALUATION_INTERVAL_MS'') DEFAULT_MONITOR_EVALUATION_INTERVAL_MS,
          mc_dispatchIntervalMs =
            resolvePositiveInteger (env_get env ''MONITOR_DISPATCH_INTERVAL_MS'') DEFAULT_MONITOR_DISPATCH_INTERVAL_MS\<rparr>)"

section \<open>Lemmas\<close>

lemma resolveInteger_ge: "minimum \<le> fallback \<Longrightarrow> minimum \<le> resolveInteger v fallback minimum"
  by (auto simp: resolveInteger_def Let_def split: option.splits)

lemma resolve_bounds:
  "1 \<le> fallback \<Longrightarrow> 1 \<le> resolvePositiveInteger v fallback"
  "0 \<le> fallback \<Longrightarrow> 0 \<le> resolveNonNegativeInteger v fallback"
  by (simp_all add: resolvePositiveInteger_def resolveNonNegativeInteger_def resolveInteger_ge)

lemmas monitor_defaults = DEFAULT_MAX_SSE_CONNECTIONS_def DEFAULT_MONITOR_LEADER_LEASE_MS_def
  DEFAULT_MONITOR_EVALUATION_INTERVAL_MS_def DEFAULT_MONITOR_DISPATCH_INTERVAL_MS_def
  DEFAULT_MAX_WATCHES_PER_USER_def MONITOR_LEADER_LOCK_KEY_def DEFAULT_MONITOR_ROLE_def

text \<open>What every configuration satisfies.\<close>

definition config_ok :: "monitor_config \<Rightarrow> bool" where
  "config_ok c \<longleftrightarrow> 1 \<le> mc_maxSseConnections c \<and> 1 \<le> mc_maxWatchesPerUser c \<and> mc_leaderLockKey c \<noteq> []
     \<and> 1000 \<le> mc_leaderLeaseMs c \<and> 0 \<le> mc_evaluationIntervalMs c \<and> 1 \<le> mc_dispatchIntervalMs c
     \<and> mc_producerEnabled c = (mc_role c \<noteq> Role_api) \<and> mc_consumerEnabled c = (mc_role c \<noteq> Role_api)"

text \<open>
  C40. Whatever the environment holds, either the configuration is refused because of an unknown
  \<open>MONITOR_ROLE\<close>, or it is well formed: caps and intervals that must tick are at least one, the
  lease lasts at least a second, the lock key is not empty, and exactly the role \<open>api\<close> neither
  produces nor consumes.
\<close>

theorem config_well_formed:
  "case MonitorRuntimeConfig env of
     Inr c \<Rightarrow> config_ok c
   | Inl _ \<Rightarrow> (\<exists>raw. env ''MONITOR_ROLE'' = Some raw \<and> trim raw \<noteq> []
       \<and> to_lower (trim raw) \<notin> {''all'', ''api'', ''worker''})"
proof (cases "resolveMonitorRole (env ''MONITOR_ROLE'')")
  case (Inl e)
  then show ?thesis
    by (auto simp: MonitorRuntimeConfig_def resolveMonitorRole_def MONITOR_ROLES_def to_lower_def
        split: option.splits if_splits)
next
  case (Inr role)
  then show ?thesis
    by (simp add: MonitorRuntimeConfig_def Let_def config_ok_def resolve_bounds monitor_defaults monitorRoleCapabilities_def)
qed

end
