(* ===== verification/MonitorLeader.thy ===== *)
theory MonitorLeader
  imports LeaseStore
begin

text \<open>
  Leader election of the ledger monitor: the class \<open>MonitorLeaderService\<close> of
  \<open>apps/api/src/modules/monitor/monitor-leader.service.ts\<close>. The handlers of one instance are
  functions on its state; an \<open>await\<close> inside \<open>tick\<close> and \<open>onModuleDestroy\<close> ends a
  handler, and the reply starts the next one. A cluster is any number of instances sharing one
  lease store; \<open>cluster_step\<close> interleaves their handlers with the store's operations and the
  passing of time. The timer may fire at any moment, which covers every lease length.
\<close>

section \<open>One instance\<close>

text \<open>Where \<open>tick\<close> stands: \<open>ticking\<close> is true in every phase but the first.\<close>

datatype tick_phase = Tick_idle | Await_acquire | Acquire_replied bool | Await_renew | Renew_replied bool

text \<open>\<open>li_heard\<close> lists the calls made to listeners, in order.\<close>

record leader_instance =
  li_producerEnabled :: bool
  li_leader :: bool
  li_stopping :: bool
  li_tick :: tick_phase
  li_releasing :: bool
  li_listeners :: "nat list"
  li_heard :: "(nat \<times> bool) list"

definition new_instance :: "bool \<Rightarrow> leader_instance" where
  "new_instance enabled = \<lparr>li_producerEnabled = enabled, li_leader = False, li_stopping = False,
     li_tick = Tick_idle, li_releasing = False, li_listeners = [], li_heard = []\<rparr>"

definition setLeadership :: "bool \<Rightarrow> leader_instance \<Rightarrow> leader_instance" where
  "setLeadership next r =
     (if next = li_leader r then r
      else r\<lparr>li_leader := next, li_heard := li_heard r @ map (\<lambda>l. (l, next)) (li_listeners r)\<rparr>)"

definition onLeadershipChange :: "nat \<Rightarrow> leader_instance \<Rightarrow> leader_instance" where
  "onLeadershipChange l r =
     r\<lparr>li_listeners := js_set_add (li_listeners r) l, li_heard := li_heard r @ [(l, li_leader r)]\<rparr>"

definition unsubscribe :: "nat \<Rightarrow> leader_instance \<Rightarrow> leader_instance" where
  "unsubscribe l r = r\<lparr>li_listeners := filter (\<lambda>l'. l' \<noteq> l) (li_listeners r)\<rparr>"

definition tick :: "leader_instance \<Rightarrow> leader_instance" where
  "tick r = (if li_tick r \<noteq> Tick_idle \<or> li_stopping r then r else r\<lparr>li_tick := Await_acquire\<rparr>)"

definition tick_end :: "bool \<Rightarrow> leader_instance \<Rightarrow> leader_instance" where
  "tick_end held r = (setLeadership held r)\<lparr>li_tick := Tick_idle\<rparr>"

definition tick_acquire_reply :: "bool \<Rightarrow> leader_instance \<Rightarrow> leader_instance" where
  "tick_acquire_reply held r = (if held then tick_end True r else r\<lparr>li_tick := Await_renew\<rparr>)"

definition tick_renew_reply :: "bool \<Rightarrow> leader_instance \<Rightarrow> leader_instance" where
  "tick_renew_reply held r = tick_end held r"

text \<open>The \<open>catch\<close> branch: a store call rejected.\<close>

definition tick_failed :: "leader_instance \<Rightarrow> leader_instance" where
  "tick_failed r = tick_end False r"

definition onModuleDestroy :: "leader_instance \<Rightarrow> leader_instance" where
  "onModuleDestroy r =
     (let r1 = r\<lparr>li_stopping := True\<rparr>
      in if li_leader r1 then (setLeadership False r1)\<lparr>li_releasing := True\<rparr> else r1)"

section \<open>The cluster\<close>

record leader_config =
  lc_leaderLockKey :: string
  lc_leaderLeaseMs :: int

record 's cluster =
  cl_now :: int
  cl_store :: 's
  cl_instance :: "string \<Rightarrow> leader_instance"

definition on_instance :: "string \<Rightarrow> (leader_instance \<Rightarrow> leader_instance) \<Rightarrow> 's cluster \<Rightarrow> 's cluster" where
  "on_instance i f c = c\<lparr>cl_instance := (cl_instance c)(i := f (cl_instance c i))\<rparr>"

lemma on_instance_simps [simp]:
  "cl_now (on_instance i f c) = cl_now c" "cl_store (on_instance i f c) = cl_store c"
  "cl_instance (on_instance i f c) j = (if j = i then f (cl_instance c i) else cl_instance c j)"
  by (simp_all add: on_instance_def)

text \<open>Store replies are part of the label, so that a run records which grants were made.\<close>

datatype cluster_event =
    Time_passes int
  | Timer string
  | Store_acquire string bool
  | Acquire_reply string
  | Store_renew string bool
  | Renew_reply string
  | Call_rejected string
  | Destroy string
  | Store_release string
  | Release_rejected string
  | Subscribe string nat
  | Unsubscribe string nat

inductive cluster_step ::
  "'s lock_store \<Rightarrow> leader_config \<Rightarrow> 's cluster \<Rightarrow> cluster_event \<Rightarrow> 's cluster \<Rightarrow> bool" for store cfg where
  step_time: "0 \<le> d \<Longrightarrow> cluster_step store cfg c (Time_passes d) (c\<lparr>cl_now := cl_now c + d\<rparr>)"
| step_timer: "li_producerEnabled (cl_instance c i) \<Longrightarrow> cluster_step store cfg c (Timer i) (on_instance i tick c)"
| step_acquire: "\<lbrakk>li_tick (cl_instance c i) = Await_acquire;
    ls_acquire store (lc_leaderLockKey cfg) i (lc_leaderLeaseMs cfg) (cl_now c) (cl_store c) = (b, s')\<rbrakk>
    \<Longrightarrow> cluster_step store cfg c (Store_acquire i b)
          (on_instance i (\<lambda>r. r\<lparr>li_tick := Acquire_replied b\<rparr>) (c\<lparr>cl_store := s'\<rparr>))"
| step_acquire_reply: "li_tick (cl_instance c i) = Acquire_replied b
    \<Longrightarrow> cluster_step store cfg c (Acquire_reply i) (on_instance i (tick_acquire_reply b) c)"
| step_renew: "\<lbrakk>li_tick (cl_instance c i) = Await_renew;
    ls_renew store (lc_leaderLockKey cfg) i (lc_leaderLeaseMs cfg) (cl_now c) (cl_store c) = (b, s')\<rbrakk>
    \<Longrightarrow> cluster_step store cfg c (Store_renew i b)
          (on_instance i (\<lambda>r. r\<lparr>li_tick := Renew_replied b\<rparr>) (c\<lparr>cl_store := s'\<rparr>))"
| step_renew_reply: "li_tick (cl_instance c i) = Renew_replied b
    \<Longrightarrow> cluster_step store cfg c (Renew_reply i) (on_instance i (tick_renew_reply b) c)"
| step_rejected: "li_tick (cl_instance c i) \<noteq> Tick_idle
    \<Longrightarrow> cluster_step store cfg c (Call_rejected i) (on_instance i tick_failed c)"
| step_destroy: "\<not> li_stopping (cl_instance c i)
    \<Longrightarrow> cluster_step store cfg c (Destroy i) (on_instance i onModuleDestroy c)"
| step_release: "li_releasing (cl_instance c i)
    \<Longrightarrow> cluster_step store cfg c (Store_release i)
          (on_instance i (\<lambda>r. r\<lparr>li_releasing := False\<rparr>)
            (c\<lparr>cl_store := ls_release store (lc_leaderLockKey cfg) i (cl_now c) (cl_store c)\<rparr>))"
| step_release_rejected: "li_releasing (cl_instance c i)
    \<Longrightarrow> cluster_step store cfg c (Release_rejected i) (on_instance i (\<lambda>r. r\<lparr>li_releasing := False\<rparr>) c)"
| step_subscribe: "cluster_step store cfg c (Subscribe i l) (on_instance i (onLeadershipChange l) c)"
| step_unsubscribe: "cluster_step store cfg c (Unsubscribe i l) (on_instance i (unsubscribe l) c)"

inductive_cases cluster_stepE: "cluster_step store cfg c e c'"

definition start_cluster :: "(string \<Rightarrow> bool) \<Rightarrow> int \<Rightarrow> 's \<Rightarrow> 's cluster" where
  "start_cluster enabled now s = \<lparr>cl_now = now, cl_store = s, cl_instance = (\<lambda>i. new_instance (enabled i))\<rparr>"

text \<open>A run with its trace of timed events.\<close>

inductive cluster_run ::
  "'s lock_store \<Rightarrow> leader_config \<Rightarrow> 's cluster \<Rightarrow> (int \<times> cluster_event) list \<Rightarrow> 's cluster \<Rightarrow> bool"
  for store cfg c0 where
  run_start: "cluster_run store cfg c0 [] c0"
| run_step: "\<lbrakk>cluster_run store cfg c0 tr c; cluster_step store cfg c e c'\<rbrakk>
    \<Longrightarrow> cluster_run store cfg c0 (tr @ [(cl_now c, e)]) c'"

text \<open>When the store last granted an instance the lease.\<close>

definition grants :: "string \<Rightarrow> int \<times> cluster_event \<Rightarrow> bool" where
  "grants i te \<longleftrightarrow> snd te = Store_acquire i True \<or> snd te = Store_renew i True"

definition last_grant :: "string \<Rightarrow> (int \<times> cluster_event) list \<Rightarrow> int option" where
  "last_grant i tr = map_option fst (find (grants i) (rev tr))"

lemma last_grant_Nil [simp]: "last_grant i [] = None"
  by (simp add: last_grant_def)

lemma last_grant_snoc [simp]:
  "last_grant i (tr @ [(t, e)]) =
     (if e = Store_acquire i True \<or> e = Store_renew i True then Some t else last_grant i tr)"
  by (simp add: last_grant_def grants_def)

section \<open>Listeners\<close>

definition heard_last :: "nat \<Rightarrow> leader_instance \<Rightarrow> bool option" where
  "heard_last l r = map_option snd (find (\<lambda>h. fst h = l) (rev (li_heard r)))"

definition informed :: "leader_instance \<Rightarrow> bool" where
  "informed r \<longleftrightarrow> (\<forall>l \<in> set (li_listeners r). heard_last l r = Some (li_leader r))"

lemma find_append: "find P (xs @ ys) = (case find P xs of None \<Rightarrow> find P ys | Some x \<Rightarrow> Some x)"
  by (induction xs) auto

lemma find_heard: "find (\<lambda>h. fst h = l) (map (\<lambda>l. (l, b)) ls) = (if l \<in> set ls then Some (l, b) else None)"
  by (induction ls) auto

lemma heard_setLeadership: "l \<in> set (li_listeners r) \<Longrightarrow> informed r \<Longrightarrow> heard_last l (setLeadership b r) = Some b"
  by (auto simp: setLeadership_def informed_def heard_last_def find_append find_heard rev_map)

lemma informed_handlers [intro]:
  assumes "informed r"
  shows "informed (tick r)" "informed (setLeadership b r)" "informed (tick_end b r)"
    "informed (tick_acquire_reply b r)" "informed (tick_renew_reply b r)" "informed (tick_failed r)"
    "informed (onModuleDestroy r)" "informed (onLeadershipChange l r)" "informed (unsubscribe l r)"
    "informed (r\<lparr>li_tick := p\<rparr>)" "informed (r\<lparr>li_releasing := b\<rparr>)"
proof -
  have upd: "informed (r\<lparr>li_tick := p\<rparr>)" "informed (r\<lparr>li_releasing := b\<rparr>)" "informed (r\<lparr>li_stopping := b\<rparr>)"
    if "informed r" for r :: leader_instance and p b
    using that by (auto simp: informed_def heard_last_def)
  have set: "informed (setLeadership b r)" if "informed r" for r b
  proof -
    have "set (li_listeners (setLeadership b r)) = set (li_listeners r)" "li_leader (setLeadership b r) = b"
      by (auto simp: setLeadership_def)
    then show ?thesis using heard_setLeadership that by (auto simp: informed_def)
  qed
  show "informed (tick r)" "informed (setLeadership b r)" "informed (tick_end b r)"
    "informed (tick_acquire_reply b r)" "informed (tick_renew_reply b r)" "informed (tick_failed r)"
    "informed (onModuleDestroy r)" "informed (r\<lparr>li_tick := p\<rparr>)" "informed (r\<lparr>li_releasing := b\<rparr>)"
    using assms by (auto simp: tick_def tick_end_def tick_acquire_reply_def tick_renew_reply_def tick_failed_def
        onModuleDestroy_def Let_def intro!: upd set)
  show "informed (onLeadershipChange l r)" "informed (unsubscribe l r)"
    using assms by (auto simp: informed_def heard_last_def onLeadershipChange_def unsubscribe_def)
qed

lemma step_informed:
  "cluster_step store cfg c e c' \<Longrightarrow> \<forall>i. informed (cl_instance c i) \<Longrightarrow> \<forall>i. informed (cl_instance c' i)"
  by (erule cluster_stepE) auto

lemma run_informed:
  "cluster_run store cfg c0 tr c \<Longrightarrow> \<forall>i. informed (cl_instance c0 i) \<Longrightarrow> \<forall>i. informed (cl_instance c i)"
  by (induction rule: cluster_run.induct) (auto dest: step_informed)

section \<open>The election over any store that meets the contract\<close>

lemma setLeadership_simps [simp]:
  "li_leader (setLeadership b r) = b" "li_stopping (setLeadership b r) = li_stopping r"
  "li_tick (setLeadership b r) = li_tick r" "li_releasing (setLeadership b r) = li_releasing r"
  "li_producerEnabled (setLeadership b r) = li_producerEnabled r"
  by (auto simp: setLeadership_def)

lemmas handler_defs = tick_def tick_end_def tick_acquire_reply_def tick_renew_reply_def tick_failed_def
  onModuleDestroy_def onLeadershipChange_def unsubscribe_def

text \<open>A grant has been made to the instance, or is on its way.\<close>

definition confirmed :: "leader_instance \<Rightarrow> bool" where
  "confirmed r \<longleftrightarrow> li_leader r \<or> li_tick r = Acquire_replied True \<or> li_tick r = Renew_replied True"

locale election = lease_store store good table
  for store :: "'s lock_store" and good :: "'s \<Rightarrow> bool" and table :: "int \<Rightarrow> 's \<Rightarrow> lease_table" +
  fixes cfg :: leader_config
begin

abbreviation holder :: "'s cluster \<Rightarrow> (string \<times> int) option" where
  "holder c \<equiv> table (cl_now c) (cl_store c) (lc_leaderLockKey cfg)"

definition election_inv :: "'s cluster \<Rightarrow> (int \<times> cluster_event) list \<Rightarrow> bool" where
  "election_inv c tr \<longleftrightarrow> good (cl_store c)
     \<and> (\<forall>i. confirmed (cl_instance c i) \<longrightarrow> last_grant i tr \<noteq> None)
     \<and> (\<forall>i t. last_grant i tr = Some t \<longrightarrow> t \<le> cl_now c)
     \<and> (\<forall>i t. \<not> li_stopping (cl_instance c i) \<and> last_grant i tr = Some t \<and> cl_now c < t + lc_leaderLeaseMs cfg
          \<longrightarrow> holder c = Some (i, t + lc_leaderLeaseMs cfg))
     \<and> (\<forall>tok e. holder c = Some (tok, e) \<longrightarrow> cl_now c < e \<and> e \<le> cl_now c + lc_leaderLeaseMs cfg)
     \<and> (\<forall>i. li_releasing (cl_instance c i) \<longrightarrow> li_stopping (cl_instance c i))"

lemma acquire_holder:
  assumes "good (cl_store c)"
    and "ls_acquire store (lc_leaderLockKey cfg) i (lc_leaderLeaseMs cfg) (cl_now c) (cl_store c) = (b, s')"
  shows "good s'" "b = (holder c = None)"
    "table (cl_now c) s' (lc_leaderLockKey cfg) = (if b \<and> 0 < lc_leaderLeaseMs cfg
       then Some (i, cl_now c + lc_leaderLeaseMs cfg) else holder c)"
  using acquire [OF assms] by (auto simp: spec_acquire_def age_def split: if_splits)

lemma renew_holder:
  assumes "good (cl_store c)"
    and "ls_renew store (lc_leaderLockKey cfg) i (lc_leaderLeaseMs cfg) (cl_now c) (cl_store c) = (b, s')"
  shows "good s'" "b = (map_option fst (holder c) = Some i)"
    "table (cl_now c) s' (lc_leaderLockKey cfg) = (if b
       then (if 0 < lc_leaderLeaseMs cfg then Some (i, cl_now c + lc_leaderLeaseMs cfg) else None) else holder c)"
  using renew [OF assms] by (auto simp: spec_renew_def age_def split: if_splits)

lemma release_holder:
  fixes i :: string
  assumes "good (cl_store c)"
  defines "s' \<equiv> ls_release store (lc_leaderLockKey cfg) i (cl_now c) (cl_store c)"
  shows "good s'" "table (cl_now c) s' (lc_leaderLockKey cfg)
    = (if map_option fst (holder c) = Some i then None else holder c)"
  using release [OF assms(1), of "lc_leaderLockKey cfg" i "cl_now c"] by (auto simp: s'_def spec_release_def)

lemma invI:
  assumes "good (cl_store c)"
    and "\<And>i. confirmed (cl_instance c i) \<Longrightarrow> last_grant i tr \<noteq> None"
    and "\<And>i t. last_grant i tr = Some t \<Longrightarrow> t \<le> cl_now c"
    and "\<And>i t. \<lbrakk>\<not> li_stopping (cl_instance c i); last_grant i tr = Some t; cl_now c < t + lc_leaderLeaseMs cfg\<rbrakk>
          \<Longrightarrow> holder c = Some (i, t + lc_leaderLeaseMs cfg)"
    and "\<And>tok e. holder c = Some (tok, e) \<Longrightarrow> cl_now c < e \<and> e \<le> cl_now c + lc_leaderLeaseMs cfg"
    and "\<And>i. li_releasing (cl_instance c i) \<Longrightarrow> li_stopping (cl_instance c i)"
  shows "election_inv c tr"
  using assms unfolding election_inv_def by blast

lemma invD:
  assumes "election_inv c tr"
  shows "good (cl_store c)"
    and "confirmed (cl_instance c i) \<Longrightarrow> last_grant i tr \<noteq> None"
    and "last_grant i tr = Some t \<Longrightarrow> t \<le> cl_now c"
    and "\<lbrakk>\<not> li_stopping (cl_instance c i); last_grant i tr = Some t; cl_now c < t + lc_leaderLeaseMs cfg\<rbrakk>
          \<Longrightarrow> holder c = Some (i, t + lc_leaderLeaseMs cfg)"
    and "holder c = Some (tok, e) \<Longrightarrow> cl_now c < e \<and> e \<le> cl_now c + lc_leaderLeaseMs cfg"
    and "li_releasing (cl_instance c i) \<Longrightarrow> li_stopping (cl_instance c i)"
  using assms unfolding election_inv_def by blast+

lemma inv_local:
  assumes inv: "election_inv c tr" and e: "\<And>i. e \<noteq> Store_acquire i True" "\<And>i. e \<noteq> Store_renew i True"
    and f: "confirmed (f (cl_instance c i)) \<Longrightarrow> confirmed (cl_instance c i)"
      "li_stopping (cl_instance c i) \<Longrightarrow> li_stopping (f (cl_instance c i))"
      "li_releasing (f (cl_instance c i)) \<Longrightarrow> li_stopping (f (cl_instance c i))"
  shows "election_inv (on_instance i f c) (tr @ [(t, e)])"
proof (rule invI, goal_cases)
  case 1 then show ?case using invD(1) [OF inv] by simp
next
  case (2 j) then show ?case using invD(2) [OF inv, of j] e f(1) by (cases "j = i") auto
next
  case (3 j t) then show ?case using invD(3) [OF inv, of j t] e by simp
next
  case (4 j t) then show ?case using invD(4) [OF inv, of j t] e f(2) by (cases "j = i") auto
next
  case (5 tok x) then show ?case using invD(5) [OF inv, of tok x] by simp
next
  case (6 j) then show ?case using invD(6) [OF inv, of j] f(3) by (cases "j = i") auto
qed

lemma inv_step:
  assumes inv: "election_inv c tr" and step: "cluster_step store cfg c e c'" and pos: "0 < lc_leaderLeaseMs cfg"
  shows "election_inv c' (tr @ [(cl_now c, e)])"
  using step
proof cases
  case (step_time d)
  have "table (cl_now c + d) (cl_store c) = age (cl_now c + d) (table (cl_now c) (cl_store c))"
    using ageing [OF invD(1) [OF inv], of "cl_now c" "cl_now c + d"] step_time(3) by simp
  then have holder: "holder c' = Some (k, x) \<longleftrightarrow> holder c = Some (k, x) \<and> cl_now c + d < x" for k x
    using step_time(2) by (simp add: age_Some_iff)
  show ?thesis
  proof (rule invI, goal_cases)
    case 1 then show ?case using invD(1) [OF inv] step_time by simp
  next
    case (2 j) then show ?case using invD(2) [OF inv, of j] step_time by simp
  next
    case (3 j t) then show ?case using invD(3) [OF inv, of j t] step_time by simp
  next
    case (4 j t) then show ?case using invD(4) [OF inv, of j t] step_time holder by simp
  next
    case (5 k x) then show ?case using invD(5) [OF inv, of k x] step_time(2,3) holder [of k x] by auto
  next
    case (6 j) then show ?case using invD(6) [OF inv, of j] step_time by simp
  qed
next
  case (step_acquire i b s')
  note after = acquire_holder [OF invD(1) [OF inv] step_acquire(4)]
  have free: "\<not> cl_now c < t + lc_leaderLeaseMs cfg" if "b" "\<not> li_stopping (cl_instance c j)" "last_grant j tr = Some t" for j t
    using invD(4) [OF inv that(2,3)] after(2) that(1) by auto
  show ?thesis
  proof (rule invI, goal_cases)
    case 1 then show ?case using after step_acquire by simp
  next
    case (2 j) then show ?case using invD(2) [OF inv, of j] step_acquire by (auto simp: confirmed_def split: if_splits)
  next
    case (3 j t) then show ?case using invD(3) [OF inv, of j t] step_acquire by (auto split: if_splits)
  next
    case (4 j t)
    show ?case
    proof (cases "j = i \<and> b")
      case True then show ?thesis using 4 step_acquire after pos by simp
    next
      case False
      then have grant: "last_grant j tr = Some t" "\<not> li_stopping (cl_instance c j)" "cl_now c < t + lc_leaderLeaseMs cfg"
        using 4 step_acquire by (auto split: if_splits)
      then have "\<not> b" using free [of j t] by blast
      then show ?thesis using invD(4) [OF inv grant(2,1,3)] step_acquire after by simp
    qed
  next
    case (5 k x) then show ?case using invD(5) [OF inv, of k x] step_acquire after pos by (auto split: if_splits)
  next
    case (6 j) then show ?case using invD(6) [OF inv, of j] step_acquire by (auto split: if_splits)
  qed
next
  case (step_renew i b s')
  note after = renew_holder [OF invD(1) [OF inv] step_renew(4)]
  have own: "j = i" if "b" "\<not> li_stopping (cl_instance c j)" "last_grant j tr = Some t" "cl_now c < t + lc_leaderLeaseMs cfg" for j t
    using invD(4) [OF inv that(2-4)] after(2) that(1) by auto
  show ?thesis
  proof (rule invI, goal_cases)
    case 1 then show ?case using after step_renew by simp
  next
    case (2 j) then show ?case using invD(2) [OF inv, of j] step_renew by (auto simp: confirmed_def split: if_splits)
  next
    case (3 j t) then show ?case using invD(3) [OF inv, of j t] step_renew by (auto split: if_splits)
  next
    case (4 j t)
    show ?case
    proof (cases "j = i \<and> b")
      case True then show ?thesis using 4 step_renew after pos by simp
    next
      case False
      then have grant: "last_grant j tr = Some t" "\<not> li_stopping (cl_instance c j)" "cl_now c < t + lc_leaderLeaseMs cfg"
        using 4 step_renew by (auto split: if_splits)
      then have "\<not> b" using own [of j t] False by blast
      then show ?thesis using invD(4) [OF inv grant(2,1,3)] step_renew after by simp
    qed
  next
    case (5 k x) then show ?case using invD(5) [OF inv, of k x] step_renew after pos by (auto split: if_splits)
  next
    case (6 j) then show ?case using invD(6) [OF inv, of j] step_renew by (auto split: if_splits)
  qed
next
  case (step_release i)
  note after = release_holder [OF invD(1) [OF inv], of i]
  have stop: "li_stopping (cl_instance c i)" using step_release invD(6) [OF inv] by blast
  show ?thesis
  proof (rule invI, goal_cases)
    case 1 then show ?case using after step_release by simp
  next
    case (2 j) then show ?case using invD(2) [OF inv, of j] step_release by (auto simp: confirmed_def split: if_splits)
  next
    case (3 j t) then show ?case using invD(3) [OF inv, of j t] step_release by simp
  next
    case (4 j t) then show ?case using invD(4) [OF inv, of j t] step_release after stop by (auto split: if_splits)
  next
    case (5 k x) then show ?case using invD(5) [OF inv, of k x] step_release after by (auto split: if_splits)
  next
    case (6 j) then show ?case using invD(6) [OF inv, of j] step_release by (auto split: if_splits)
  qed
next
  case (step_destroy i)
  then show ?thesis by (auto intro!: inv_local [OF inv] simp: handler_defs confirmed_def Let_def)
next
  case (step_release_rejected i)
  then show ?thesis using invD(6) [OF inv] by (auto intro!: inv_local [OF inv] simp: confirmed_def)
qed (use invD(6) [OF inv] in \<open>auto intro!: inv_local [OF inv] simp: handler_defs confirmed_def split: if_splits\<close>)

lemma inv_run:
  assumes "cluster_run store cfg c0 tr c" "election_inv c0 []" "0 < lc_leaderLeaseMs cfg"
  shows "election_inv c tr"
  using assms(1) by induction (use assms(2,3) inv_step in auto)

lemma inv_start:
  assumes "good s" "table now s = (\<lambda>_. None)"
  shows "election_inv (start_cluster enabled now s) []"
  using assms by (intro invI) (simp_all add: start_cluster_def new_instance_def confirmed_def)

text \<open>Two live instances never both lead on the strength of a lease that is still running.\<close>

lemma fresh_leader_unique:
  assumes inv: "election_inv c tr"
    and "li_leader (cl_instance c i)" "\<not> li_stopping (cl_instance c i)"
    and "li_leader (cl_instance c j)" "\<not> li_stopping (cl_instance c j)" "i \<noteq> j"
  shows "\<exists>k \<in> {i, j}. \<exists>t. last_grant k tr = Some t \<and> t + lc_leaderLeaseMs cfg \<le> cl_now c"
proof -
  obtain t u where tu: "last_grant i tr = Some t" "last_grant j tr = Some u"
    using invD(2) [OF inv, of i] invD(2) [OF inv, of j] assms by (auto simp: confirmed_def)
  have "t + lc_leaderLeaseMs cfg \<le> cl_now c \<or> u + lc_leaderLeaseMs cfg \<le> cl_now c"
    using invD(4) [OF inv assms(3) tu(1)] invD(4) [OF inv assms(5) tu(2)] assms(6) by force
  then show ?thesis using tu by blast
qed

text \<open>An undisturbed tick on a free lease wins it.\<close>

lemma tick_wins:
  assumes run: "cluster_run store cfg c0 tr c" and "good (cl_store c)" and pos: "0 < lc_leaderLeaseMs cfg"
    and "holder c = None" "li_producerEnabled (cl_instance c i)" "\<not> li_stopping (cl_instance c i)"
      "li_tick (cl_instance c i) = Tick_idle"
  shows "\<exists>c'. cluster_run store cfg c0
      (tr @ [(cl_now c, Timer i), (cl_now c, Store_acquire i True), (cl_now c, Acquire_reply i)]) c'
    \<and> cl_now c' = cl_now c \<and> good (cl_store c') \<and> holder c' = Some (i, cl_now c + lc_leaderLeaseMs cfg)
    \<and> li_leader (cl_instance c' i) \<and> (\<forall>j. j \<noteq> i \<longrightarrow> cl_instance c' j = cl_instance c j)
    \<and> \<not> li_stopping (cl_instance c' i) \<and> li_tick (cl_instance c' i) = Tick_idle"
proof -
  define c1 where "c1 = on_instance i tick c"
  have t1: "li_tick (cl_instance c1 i) = Await_acquire" "cl_now c1 = cl_now c" "cl_store c1 = cl_store c"
    using assms(6,7) by (simp_all add: c1_def tick_def)
  obtain b s' where acq: "ls_acquire store (lc_leaderLockKey cfg) i (lc_leaderLeaseMs cfg) (cl_now c1) (cl_store c1) = (b, s')"
    by (metis surj_pair)
  have after: "good s'" "b" "table (cl_now c) s' (lc_leaderLockKey cfg) = Some (i, cl_now c + lc_leaderLeaseMs cfg)"
    using acquire_holder [OF _ acq] assms(2,4) pos t1 by auto
  define c2 where "c2 = on_instance i (\<lambda>r. r\<lparr>li_tick := Acquire_replied True\<rparr>) (c1\<lparr>cl_store := s'\<rparr>)"
  define c3 where "c3 = on_instance i (tick_acquire_reply True) c2"
  have "cluster_run store cfg c0 (tr @ [(cl_now c, Timer i)]) c1"
    unfolding c1_def by (rule run_step [OF run step_timer]) (rule assms(5))
  from run_step [OF this step_acquire [OF t1(1) acq]]
  have "cluster_run store cfg c0 (tr @ [(cl_now c, Timer i), (cl_now c, Store_acquire i True)]) c2"
    using after(2) by (simp add: c2_def t1)
  moreover have "cluster_step store cfg c2 (Acquire_reply i) c3"
    unfolding c3_def by (rule step_acquire_reply) (simp add: c2_def)
  ultimately have "cluster_run store cfg c0
      ((tr @ [(cl_now c, Timer i), (cl_now c, Store_acquire i True)]) @ [(cl_now c2, Acquire_reply i)]) c3"
    by (rule run_step)
  then show ?thesis using after assms(6) t1
    by (intro exI [of _ c3]) (auto simp: c3_def c2_def c1_def tick_acquire_reply_def tick_end_def tick_def)
qed

end

text \<open>The in-memory store carries the election.\<close>

interpretation memory_election: election createInMemoryMonitorLockStore "\<lambda>_. True" memory_table cfg for cfg
  by unfold_locales

lemma memory_inv:
  assumes "cluster_run createInMemoryMonitorLockStore cfg (start_cluster enabled now []) tr c" "0 < lc_leaderLeaseMs cfg"
  shows "memory_election.election_inv cfg c tr"
  using assms memory_election.inv_run memory_election.inv_start by (force simp: memory_table_def age_def)

section \<open>Properties\<close>

text \<open>
  C21. Single producer: in every run of any number of instances over the lease store, two instances
  that are not shutting down both consider themselves leader only if one of them has gone a whole
  lease period without a confirmed grant. As long as leaders act within a lease period of their
  last confirmation, at most one acts.
\<close>

theorem single_leader:
  assumes "cluster_run createInMemoryMonitorLockStore cfg (start_cluster enabled now []) tr c"
    and "0 < lc_leaderLeaseMs cfg"
    and "li_leader (cl_instance c i)" "\<not> li_stopping (cl_instance c i)"
    and "li_leader (cl_instance c j)" "\<not> li_stopping (cl_instance c j)" "i \<noteq> j"
  shows "\<exists>k \<in> {i, j}. \<exists>t. last_grant k tr = Some t \<and> t + lc_leaderLeaseMs cfg \<le> cl_now c"
  using memory_election.fresh_leader_unique [OF memory_inv [OF assms(1,2)] assms(3-7)] .


text \<open>
  Listeners are never left behind: in every reachable state, the last value each subscribed
  listener of an instance was called with is that instance's current leadership.
\<close>

theorem listeners_informed:
  assumes "cluster_run store cfg (start_cluster enabled now s) tr c"
    and "l \<in> set (li_listeners (cl_instance c i))"
  shows "heard_last l (cl_instance c i) = Some (li_leader (cl_instance c i))"
proof -
  have "\<forall>i. informed (cl_instance (start_cluster enabled now s) i)"
    by (simp add: start_cluster_def new_instance_def informed_def)
  from run_informed [OF assms(1) this] show ?thesis using assms(2) by (auto simp: informed_def)
qed

section \<open>Runs\<close>

definition sample_config :: leader_config where
  "sample_config = \<lparr>lc_leaderLockKey = ''savitools:monitor:leader'', lc_leaderLeaseMs = 30000\<rparr>"

abbreviation sample_start :: "leases cluster" where
  "sample_start \<equiv> start_cluster (\<lambda>_. True) 0 []"

text \<open>Instance \<open>a\<close> wins the lease; a lease period later it has not ticked and \<open>b\<close> takes over.\<close>

lemma sample_takeover:
  "\<exists>tr c. cluster_run createInMemoryMonitorLockStore sample_config sample_start tr c
     \<and> li_leader (cl_instance c ''a'') \<and> \<not> li_stopping (cl_instance c ''a'')
     \<and> li_leader (cl_instance c ''b'') \<and> \<not> li_stopping (cl_instance c ''b'')
     \<and> memory_table (cl_now c) (cl_store c) (lc_leaderLockKey sample_config) = Some (''b'', 60000)"
proof -
  have pos: "0 < lc_leaderLeaseMs sample_config" by (simp add: sample_config_def)
  have free: "memory_table 0 [] (lc_leaderLockKey sample_config) = None" by (simp add: memory_table_def age_def)
  obtain tr1 c1 where r1: "cluster_run createInMemoryMonitorLockStore sample_config sample_start tr1 c1"
    and c1: "cl_now c1 = 0" "li_leader (cl_instance c1 ''a'')" "\<not> li_stopping (cl_instance c1 ''a'')"
      "cl_instance c1 ''b'' = new_instance True"
      "memory_table 0 (cl_store c1) (lc_leaderLockKey sample_config) = Some (''a'', 30000)"
    using memory_election.tick_wins [OF run_start, of sample_config sample_start "''a''"] pos free
    by (auto simp: start_cluster_def new_instance_def sample_config_def)
  let ?c2 = "c1\<lparr>cl_now := 30000\<rparr>"
  have r2: "cluster_run createInMemoryMonitorLockStore sample_config sample_start (tr1 @ [(0, Time_passes 30000)]) ?c2"
    using run_step [OF r1 step_time, of 30000] c1(1) by simp
  have "memory_table 30000 (cl_store c1) (lc_leaderLockKey sample_config) = None"
    using memory.ageing [OF TrueI, of 0 30000 "cl_store c1"] c1(5) by (simp add: age_def)
  with memory_election.tick_wins [OF r2, of "''b''"] pos c1 obtain tr3 c3 where
    "cluster_run createInMemoryMonitorLockStore sample_config sample_start tr3 c3"
    "cl_now c3 = 30000" "li_leader (cl_instance c3 ''b'')" "\<not> li_stopping (cl_instance c3 ''b'')"
    "cl_instance c3 ''a'' = cl_instance c1 ''a''"
    "memory_table 30000 (cl_store c3) (lc_leaderLockKey sample_config) = Some (''b'', 60000)"
    by (auto simp: new_instance_def sample_config_def)
  then show ?thesis using c1 by (intro exI [of _ tr3] exI [of _ c3]) simp
qed

theorem single_leader_witness:
  "\<exists>tr c k t. cluster_run createInMemoryMonitorLockStore sample_config sample_start tr c
     \<and> li_leader (cl_instance c ''a'') \<and> li_leader (cl_instance c ''b'')
     \<and> last_grant k tr = Some t \<and> t + 30000 \<le> cl_now c"
proof -
  obtain tr c where r: "cluster_run createInMemoryMonitorLockStore sample_config sample_start tr c"
    "li_leader (cl_instance c ''a'')" "\<not> li_stopping (cl_instance c ''a'')"
    "li_leader (cl_instance c ''b'')" "\<not> li_stopping (cl_instance c ''b'')"
    using sample_takeover by blast
  have "0 < lc_leaderLeaseMs sample_config" "(''a'' :: string) \<noteq> ''b''" by (simp_all add: sample_config_def)
  from single_leader [OF r(1) this(1) r(2-5) this(2)] r show ?thesis by (auto simp: sample_config_def)
qed


theorem listeners_informed_witness:
  "\<exists>tr c. cluster_run createInMemoryMonitorLockStore sample_config sample_start tr c
     \<and> heard_last 7 (cl_instance c ''a'') = Some (li_leader (cl_instance c ''a''))"
proof -
  let ?c = "on_instance ''a'' (onLeadershipChange 7) sample_start"
  have run: "cluster_run createInMemoryMonitorLockStore sample_config sample_start
      ([] @ [(cl_now sample_start, Subscribe ''a'' 7)]) ?c"
    by (rule run_step [OF run_start step_subscribe])
  have "7 \<in> set (li_listeners (cl_instance ?c ''a''))" by (simp add: onLeadershipChange_def)
  from listeners_informed [OF run this] run show ?thesis by blast
qed

text \<open>
  A shutdown that arrives while the reply to a winning acquire is in flight finds no leadership to
  give up: the reply then makes the stopping instance leader, and the lease is never released.
\<close>

lemma leads_after_shutdown:
  "\<exists>tr c. cluster_run createInMemoryMonitorLockStore sample_config sample_start tr c
     \<and> li_stopping (cl_instance c ''a'') \<and> li_leader (cl_instance c ''a'') \<and> \<not> li_releasing (cl_instance c ''a'')
     \<and> li_tick (cl_instance c ''a'') = Tick_idle"
proof -
  let ?S = createInMemoryMonitorLockStore
  let ?c1 = "on_instance ''a'' tick sample_start"
  have r1: "cluster_run ?S sample_config sample_start ([] @ [(cl_now sample_start, Timer ''a'')]) ?c1"
    by (rule run_step [OF run_start step_timer]) (simp add: start_cluster_def new_instance_def)
  let ?s = "[(lc_leaderLockKey sample_config, \<lparr>le_token = ''a'', le_expiresAt = 30000\<rparr>)]"
  let ?c2 = "on_instance ''a'' (\<lambda>r. r\<lparr>li_tick := Acquire_replied True\<rparr>) (?c1\<lparr>cl_store := ?s\<rparr>)"
  have "cluster_step ?S sample_config ?c1 (Store_acquire ''a'' True) ?c2"
    by (rule step_acquire) (simp_all add: start_cluster_def new_instance_def tick_def memory_acquire_def live_def sample_config_def)
  note r2 = run_step [OF r1 this]
  let ?c3 = "on_instance ''a'' onModuleDestroy ?c2"
  have "cluster_step ?S sample_config ?c2 (Destroy ''a'') ?c3"
    by (rule step_destroy) (simp add: start_cluster_def new_instance_def tick_def)
  note r3 = run_step [OF r2 this]
  let ?c4 = "on_instance ''a'' (tick_acquire_reply True) ?c3"
  have "cluster_step ?S sample_config ?c3 (Acquire_reply ''a'') ?c4"
    by (rule step_acquire_reply) (simp add: start_cluster_def new_instance_def tick_def onModuleDestroy_def Let_def)
  note r4 = run_step [OF r3 this]
  show ?thesis
    by (intro exI conjI, rule r4)
      (simp_all add: start_cluster_def new_instance_def tick_def onModuleDestroy_def tick_acquire_reply_def tick_end_def Let_def)
qed

end
