(* ===== verification/MonitorRules.thy ===== *)
theory MonitorRules
  imports JsNumber MonitorConfig
begin

text \<open>
  The alert rules of the ledger monitor: the types of \<open>monitor.types.ts\<close>, the class
  \<open>AlertEvaluator\<close> of \<open>alert-evaluator.service.ts\<close> and the quiet hours of
  \<open>quiet-hours.ts\<close> (all in \<open>apps/api/src/modules/monitor\<close>). Instants are numbers of
  milliseconds; \<open>Intl.DateTimeFormat\<close> is a parameter.
\<close>

section \<open>Types\<close>

datatype alert_rule_type =
    Amount_received_gte | Amount_sent_gte | Asset_received | Tx_failed | Any_activity
  | Event_topic_equals | Failed_contract_call
  | Balance_above | Balance_below | Transaction_count

definition STATE_ALERT_RULE_TYPES :: "alert_rule_type list" where
  "STATE_ALERT_RULE_TYPES = [Balance_above, Balance_below, Transaction_count]"

definition isStateAlertRule :: "alert_rule_type \<Rightarrow> bool" where
  "isStateAlertRule t \<longleftrightarrow> t \<in> set STATE_ALERT_RULE_TYPES"

datatype notification_channel = In_app | Email | Webhook

datatype watch_type = Account_watch | Contract_watch

datatype monitor_network = Net_testnet | Net_public

datatype event_source = Src_transaction | Src_payment | Src_contract

record alert_rule =
  ar_id :: string
  ar_type :: alert_rule_type
  ar_asset :: "string option"
  ar_threshold :: "string option"
  ar_windowMinutes :: "js_num option"
  ar_channels :: "notification_channel list"
  ar_topic :: "string option"

record account_snapshot =
  as_publicKey :: string
  as_network :: monitor_network
  as_observedAt :: int
  as_balances :: "(string, string) jmap"
  as_transactionCounts :: "(js_num, nat) jmap"

type_synonym alert_state = "(string, bool) jmap"

record monitor_event =
  me_source :: event_source
  me_amount :: "string option"
  me_asset :: "string option"
  me_sentAmount :: "string option"
  me_receivedAmount :: "string option"
  me_receivedAsset :: "string option"
  me_from :: "string option"
  me_to :: "string option"
  me_successful :: "bool option"
  me_topic :: "string option"

section \<open>Decimal comparison\<close>

definition decimalParts :: "string \<Rightarrow> (string \<times> string) option" where
  "decimalParts v = map_option (\<lambda>(whole, frac). (whole, case frac of Some f \<Rightarrow> f | None \<Rightarrow> [])) (match_decimal v)"

definition compareDecimals :: "string \<Rightarrow> string \<Rightarrow> int option" where
  "compareDecimals left right =
     (case (decimalParts left, decimalParts right) of
        (Some (lw, lf), Some (rw, rf)) \<Rightarrow>
          let scale = max (length lf) (length rf);
              leftValue = int (nat_of_digits (lw @ pad_end scale (CHR ''0'') lf));
              rightValue = int (nat_of_digits (rw @ pad_end scale (CHR ''0'') rf))
          in Some (if leftValue = rightValue then 0 else if leftValue > rightValue then 1 else - 1)
      | _ \<Rightarrow> None)"

text \<open>\<open>!text\<close>: absent or empty.\<close>

definition falsy :: "string option \<Rightarrow> bool" where
  "falsy s \<longleftrightarrow> s = None \<or> s = Some []"

definition meetsThreshold :: "string option \<Rightarrow> string option \<Rightarrow> bool" where
  "meetsThreshold actual threshold \<longleftrightarrow>
     \<not> falsy actual \<and> \<not> falsy threshold
     \<and> (case compareDecimals (the actual) (the threshold) of Some c \<Rightarrow> c \<ge> 0 | None \<Rightarrow> False)"

definition sameAsset :: "string option \<Rightarrow> string option \<Rightarrow> bool" where
  "sameAsset actual expected \<longleftrightarrow>
     \<not> falsy actual \<and> \<not> falsy expected \<and> to_lower (the actual) = to_lower (the expected)"

section \<open>Event rules\<close>

definition or_else :: "'a option \<Rightarrow> 'a option \<Rightarrow> 'a option" where
  "or_else a b = (case a of Some x \<Rightarrow> Some x | None \<Rightarrow> b)"

text \<open>\<open>publicKey\<close> is the account of the watch.\<close>

fun rule_matches :: "alert_rule_type \<Rightarrow> alert_rule \<Rightarrow> string \<Rightarrow> monitor_event \<Rightarrow> bool" where
  "rule_matches Any_activity rule publicKey event = True"
| "rule_matches Tx_failed rule publicKey event =
     (me_source event = Src_transaction \<and> me_successful event = Some False)"
| "rule_matches Event_topic_equals rule publicKey event =
     (me_source event = Src_contract \<and> \<not> falsy (me_topic event) \<and> me_topic event = ar_topic rule)"
| "rule_matches Failed_contract_call rule publicKey event =
     (me_source event = Src_contract \<and> me_successful event = Some False)"
| "rule_matches Asset_received rule publicKey event =
     (me_source event = Src_payment \<and> me_to event = Some publicKey
      \<and> sameAsset (or_else (me_receivedAsset event) (me_asset event)) (ar_asset rule))"
| "rule_matches Amount_received_gte rule publicKey event =
     (me_source event = Src_payment \<and> me_to event = Some publicKey
      \<and> meetsThreshold (or_else (me_receivedAmount event) (me_amount event)) (ar_threshold rule))"
| "rule_matches Amount_sent_gte rule publicKey event =
     (me_source event = Src_payment \<and> me_from event = Some publicKey
      \<and> meetsThreshold (or_else (me_sentAmount event) (me_amount event)) (ar_threshold rule))"
| "rule_matches _ rule publicKey event = False"

definition matches :: "alert_rule \<Rightarrow> string \<Rightarrow> monitor_event \<Rightarrow> bool" where
  "matches rule publicKey event = rule_matches (ar_type rule) rule publicKey event"

section \<open>State rules\<close>

definition DEFAULT_BALANCE_ASSET :: string where "DEFAULT_BALANCE_ASSET = ''XLM''"
definition DEFAULT_TRANSACTION_WINDOW_MINUTES :: js_num where "DEFAULT_TRANSACTION_WINDOW_MINUTES = 60"

definition balanceAsset :: "alert_rule \<Rightarrow> string" where
  "balanceAsset rule =
     (let asset = (case ar_asset rule of Some a \<Rightarrow> trim a | None \<Rightarrow> [])
      in if asset = [] then DEFAULT_BALANCE_ASSET else asset)"

definition windowMinutes :: "alert_rule \<Rightarrow> js_num" where
  "windowMinutes rule = (case ar_windowMinutes rule of Some w \<Rightarrow> w | None \<Rightarrow> DEFAULT_TRANSACTION_WINDOW_MINUTES)"

datatype balance_side = Above | Below

definition compareBalance :: "alert_rule \<Rightarrow> account_snapshot \<Rightarrow> balance_side option" where
  "compareBalance rule snapshot =
     (let balance = jm_get (as_balances snapshot) (balanceAsset rule)
      in if falsy balance \<or> falsy (ar_threshold rule) then None
         else case compareDecimals (the balance) (the (ar_threshold rule)) of
                None \<Rightarrow> None
              | Some c \<Rightarrow> if c = 0 then None else if c > 0 then Some Above else Some Below)"

definition matchesState :: "alert_rule \<Rightarrow> account_snapshot \<Rightarrow> bool" where
  "matchesState rule snapshot =
     (if ar_type rule = Balance_above then compareBalance rule snapshot = Some Above
      else if ar_type rule = Balance_below then compareBalance rule snapshot = Some Below
      else if ar_type rule = Transaction_count
      then (case jm_get (as_transactionCounts snapshot) (windowMinutes rule) of
              None \<Rightarrow> False
            | Some observed \<Rightarrow>
                \<not> falsy (ar_threshold rule)
                \<and> meetsThreshold (Some (digits_of_nat observed)) (ar_threshold rule))
      else False)"

definition observedValue :: "alert_rule \<Rightarrow> account_snapshot \<Rightarrow> string option" where
  "observedValue rule snapshot =
     (if \<not> isStateAlertRule (ar_type rule) then None
      else if ar_type rule = Transaction_count
      then map_option digits_of_nat (jm_get (as_transactionCounts snapshot) (windowMinutes rule))
      else jm_get (as_balances snapshot) (balanceAsset rule))"

section \<open>Quiet hours\<close>

text \<open>\<open>/^([01]\d|2[0-3]):([0-5]\d)$/\<close>.\<close>

definition match_time :: "string \<Rightarrow> (string \<times> string) option" where
  "match_time s =
     (case s of
        [a, b, c, d, e] \<Rightarrow>
          if (a \<in> {CHR ''0'', CHR ''1''} \<and> is_digit b \<or> a = CHR ''2'' \<and> b \<in> {CHR ''0'', CHR ''1'', CHR ''2'', CHR ''3''})
             \<and> c = CHR '':'' \<and> is_digit d \<and> digit_val d \<le> 5 \<and> is_digit e
          then Some ([a, b], [d, e]) else None
      | _ \<Rightarrow> None)"

definition parseTimeMinutes :: "string \<Rightarrow> js_error + nat" where
  "parseTimeMinutes timeStr =
     (case match_time (trim timeStr) of
        None \<Rightarrow> Inl (PlainError (''Invalid time format \"'' @ timeStr @ ''\", expected \"HH:mm\" in 24-hour format''))
      | Some (h, m) \<Rightarrow> Inr (nat_of_digits h * 60 + nat_of_digits m))"

text \<open>The loop over the formatted parts (type, value): the last hour and minute win.\<close>

fun local_minutes :: "(string \<times> string) list \<Rightarrow> nat \<Rightarrow> nat \<Rightarrow> nat" where
  "local_minutes [] hours minutes = hours * 60 + minutes"
| "local_minutes ((ty, v) # parts) hours minutes =
     (if ty = ''hour'' then (let h = nat_of_digits v in local_minutes parts (if h = 24 then 0 else h) minutes)
      else if ty = ''minute'' then local_minutes parts hours (nat_of_digits v)
      else local_minutes parts hours minutes)"

definition getLocalMinutesInTimezone :: "(int \<Rightarrow> string \<Rightarrow> (string \<times> string) list) \<Rightarrow> int \<Rightarrow> string \<Rightarrow> nat" where
  "getLocalMinutesInTimezone formatToParts date timezone = local_minutes (formatToParts date timezone) 0 0"

definition isWithinQuietHours ::
  "(string \<Rightarrow> bool) \<Rightarrow> (int \<Rightarrow> string \<Rightarrow> (string \<times> string) list) \<Rightarrow> int \<Rightarrow> string \<Rightarrow> string \<Rightarrow> string
    \<Rightarrow> js_error + bool" where
  "isWithinQuietHours isValidTimezone formatToParts date timezone start finish =
     (let tz = (if \<not> isValidTimezone timezone then ''UTC'' else timezone) in
      and_then (parseTimeMinutes start) (\<lambda>startMin.
      and_then (parseTimeMinutes finish) (\<lambda>endMin.
      if startMin = endMin then Inr False
      else let currentMin = getLocalMinutesInTimezone formatToParts date tz
           in if startMin < endMin then Inr (currentMin \<ge> startMin \<and> currentMin < endMin)
              else Inr (currentMin \<ge> startMin \<or> currentMin < endMin))))"

section \<open>Comparison is exact\<close>

text \<open>The number a decimal text denotes.\<close>

definition decimal_value :: "string \<Rightarrow> rat option" where
  "decimal_value s = map_option (\<lambda>(w, f). of_nat (nat_of_digits (w @ f)) / 10 ^ length f) (decimalParts s)"

lemma padded_value:
  assumes "length f \<le> k"
  shows "(of_nat (nat_of_digits (w @ pad_end k (CHR ''0'') f)) :: rat)
    = of_nat (nat_of_digits (w @ f)) / 10 ^ length f * 10 ^ k"
proof -
  have "nat_of_digits (w @ pad_end k (CHR ''0'') f) = nat_of_digits (w @ f) * 10 ^ (k - length f)"
    using nat_of_digits_pad [of "k - length f" "[]"] nat_of_digits_append [of "w @ f" "replicate (k - length f) (CHR ''0'')"]
    by (simp add: pad_end_def)
  moreover have "(10::rat) ^ k = 10 ^ length f * 10 ^ (k - length f)"
    using assms by (simp flip: power_add)
  ultimately show ?thesis by simp
qed

lemma compareDecimals_value:
  "compareDecimals l r = (case (decimal_value l, decimal_value r) of
     (Some a, Some b) \<Rightarrow> Some (if a = b then 0 else if a > b then 1 else - 1) | _ \<Rightarrow> None)"
proof (cases "decimalParts l")
  case (Some p)
  obtain lw lf where p: "p = (lw, lf)" by (cases p)
  show ?thesis
  proof (cases "decimalParts r")
    case (Some q)
    obtain rw rf where q: "q = (rw, rf)" by (cases q)
    let ?k = "max (length lf) (length rf)"
    let ?a = "of_nat (nat_of_digits (lw @ lf)) / 10 ^ length lf :: rat"
    let ?b = "of_nat (nat_of_digits (rw @ rf)) / 10 ^ length rf :: rat"
    let ?m = "nat_of_digits (lw @ pad_end ?k (CHR ''0'') lf)" and ?n = "nat_of_digits (rw @ pad_end ?k (CHR ''0'') rf)"
    have "(of_nat ?m :: rat) = ?a * 10 ^ ?k" "(of_nat ?n :: rat) = ?b * 10 ^ ?k"
      by (rule padded_value, simp)+
    then have "?m = ?n \<longleftrightarrow> ?a = ?b" "?n < ?m \<longleftrightarrow> ?b < ?a"
      by (metis of_nat_eq_iff mult_right_cancel power_not_zero zero_neq_numeral,
          metis of_nat_less_iff mult_less_cancel_right_pos zero_less_power zero_less_numeral)
    then show ?thesis using Some p q \<open>decimalParts l = Some p\<close>
      by (simp add: compareDecimals_def decimal_value_def Let_def)
  qed (use Some in \<open>simp add: compareDecimals_def decimal_value_def split: prod.splits\<close>)
qed (simp add: compareDecimals_def decimal_value_def)

lemma decimal_value_digits: "decimal_value (digits_of_nat n) = Some (of_nat n)"
proof -
  have "match_decimal (digits_of_nat n) = Some (digits_of_nat n, None)"
    by (intro match_decimal_whole) simp_all
  then show ?thesis by (simp add: decimal_value_def decimalParts_def)
qed

section \<open>Properties\<close>

text \<open>
  Thresholds are compared exactly: the string comparison of two decimals, with fractions of any
  length, is the comparison of the numbers they denote, and it is refused exactly when one of the
  texts is not a decimal. No rounding can make a balance rule fire or stay quiet wrongly.
\<close>

theorem compareDecimals_exact:
  "compareDecimals left right =
     (case (decimal_value left, decimal_value right) of
        (Some a, Some b) \<Rightarrow> Some (if a = b then 0 else if a > b then 1 else - 1)
      | _ \<Rightarrow> None)"
  by (rule compareDecimals_value)

text \<open>
  Quiet hours split the day: for two different valid times, every instant lies in exactly one of
  the window from the first to the second and the window from the second to the first, whether or
  not a window spans midnight; equal times mean no quiet hours at all.
\<close>

theorem quiet_hours_partition:
  assumes "parseTimeMinutes a = Inr m" "parseTimeMinutes b = Inr n"
  shows "\<exists>x y. isWithinQuietHours valid parts date tz a b = Inr x
    \<and> isWithinQuietHours valid parts date tz b a = Inr y
    \<and> (if m = n then \<not> x \<and> \<not> y else x = (\<not> y))"
  using assms by (auto simp: isWithinQuietHours_def Let_def)

theorem quiet_hours_partition_witness:
  "\<exists>x y. isWithinQuietHours (\<lambda>_. True) (\<lambda>_ _. [(''hour'', ''23''), (''minute'', ''05'')]) 0 ''UTC'' ''22:00'' ''08:00'' = Inr x
    \<and> isWithinQuietHours (\<lambda>_. True) (\<lambda>_ _. [(''hour'', ''23''), (''minute'', ''05'')]) 0 ''UTC'' ''08:00'' ''22:00'' = Inr y
    \<and> x = (\<not> y)"
proof -
  have "parseTimeMinutes ''22:00'' = Inr 1320" "parseTimeMinutes ''08:00'' = Inr 480"
    by (simp_all add: parseTimeMinutes_def match_time_def string_eval)
  from quiet_hours_partition [OF this, of "\<lambda>_. True" "\<lambda>_ _. [(''hour'', ''23''), (''minute'', ''05'')]" 0 "''UTC''"]
  show ?thesis by simp
qed

end
