(* ===== verification/StateEvaluation.thy ===== *)
theory StateEvaluation
  imports MonitorRules
begin

text \<open>
  The scheduled half of the ledger monitor (\<open>apps/api/src/modules/monitor\<close>): the watch
  registry of \<open>watch-registry.service.ts\<close> and the evaluation of state rules of
  \<open>state-evaluation.service.ts\<close>. The database and the queue are parameters over a world
  \<open>'w\<close>; a call that rejects is an error with the world it leaves behind. Horizon's account
  and transaction pages are parameters too.
\<close>

section \<open>The watch registry\<close>

record watch =
  wa_id :: string
  wa_publicKey :: string
  wa_type :: watch_type
  wa_network :: monitor_network
  wa_alertRules :: "alert_rule list"
  wa_alertState :: "alert_state option"
  wa_lastEvaluatedAt :: "int option"

type_synonym registry = "(string, (string, watch) jmap) jmap"

definition network_text :: "monitor_network \<Rightarrow> string" where
  "network_text n = (case n of Net_testnet \<Rightarrow> ''testnet'' | Net_public \<Rightarrow> ''public'')"

definition type_text :: "watch_type \<Rightarrow> string" where
  "type_text t = (case t of Account_watch \<Rightarrow> ''account'' | Contract_watch \<Rightarrow> ''contract'')"

definition keyFor :: "watch \<Rightarrow> string" where
  "keyFor w = network_text (wa_network w) @ '':'' @ type_text (wa_type w) @ '':'' @ wa_publicKey w"

definition reg_add :: "watch \<Rightarrow> registry \<Rightarrow> registry" where
  "reg_add w reg =
     (let watches = (case jm_get reg (keyFor w) of Some m \<Rightarrow> m | None \<Rightarrow> [])
      in jm_set reg (keyFor w) (jm_set watches (wa_id w) w))"

definition reg_remove :: "watch \<Rightarrow> registry \<Rightarrow> bool \<times> registry" where
  "reg_remove w reg =
     (case jm_get reg (keyFor w) of
        None \<Rightarrow> (True, reg)
      | Some watches \<Rightarrow>
          let watches' = jm_delete watches (wa_id w)
          in if watches' = [] then (True, jm_delete reg (keyFor w))
             else (False, jm_set reg (keyFor w) watches'))"

definition reg_get :: "registry \<Rightarrow> string \<Rightarrow> watch list" where
  "reg_get reg key = map snd (case jm_get reg key of Some m \<Rightarrow> m | None \<Rightarrow> [])"

definition reg_keys :: "registry \<Rightarrow> string list" where
  "reg_keys reg = map fst reg"

definition reg_load :: "watch list \<Rightarrow> registry" where
  "reg_load ws = foldl (\<lambda>reg w. reg_add w reg) [] ws"

section \<open>Evaluating one watch\<close>

datatype delivery_status = Pending | Delivered | Failed | Retrying | Held | Claimed

record alert_event =
  ae_watchId :: string
  ae_ruleId :: string
  ae_ruleType :: alert_rule_type
  ae_publicKey :: string
  ae_network :: monitor_network
  ae_observedAt :: int
  ae_observed :: "string option"
  ae_threshold :: "string option"
  ae_windowMinutes :: "js_num option"
  ae_asset :: "string option"
  ae_deliveryStatus :: delivery_status
  ae_deliveryAttempts :: "(notification_channel \<times> delivery_status) list"

text \<open>The repository calls and the queue, each possibly rejecting.\<close>

record 'w monitor_db =
  db_updateWatch :: "string \<Rightarrow> alert_state \<Rightarrow> int \<Rightarrow> 'w \<Rightarrow> (js_error + unit) \<times> 'w"
  db_saveAlert :: "alert_event \<Rightarrow> 'w \<Rightarrow> (js_error + string) \<times> 'w"
  db_enqueue :: "string \<Rightarrow> 'w \<Rightarrow> (js_error + unit) \<times> 'w"

definition alert_of :: "watch \<Rightarrow> alert_rule \<Rightarrow> account_snapshot \<Rightarrow> alert_event" where
  "alert_of w rule snapshot =
     \<lparr>ae_watchId = wa_id w, ae_ruleId = ar_id rule, ae_ruleType = ar_type rule,
      ae_publicKey = as_publicKey snapshot, ae_network = as_network snapshot,
      ae_observedAt = as_observedAt snapshot, ae_observed = observedValue rule snapshot,
      ae_threshold = ar_threshold rule,
      ae_windowMinutes = (if ar_type rule = Transaction_count then Some (windowMinutes rule) else None),
      ae_asset = (if ar_type rule = Transaction_count then None else Some (balanceAsset rule)),
      ae_deliveryStatus = Pending,
      ae_deliveryAttempts = map (\<lambda>channel. (channel, Pending)) (ar_channels rule)\<rparr>"

text \<open>A failing enqueue is logged; a failing insert propagates.\<close>

definition raiseAlert ::
  "'w monitor_db \<Rightarrow> watch \<Rightarrow> alert_rule \<Rightarrow> account_snapshot \<Rightarrow> 'w \<Rightarrow> (js_error + unit) \<times> 'w" where
  "raiseAlert db w rule snapshot world =
     (case db_saveAlert db (alert_of w rule snapshot) world of
        (Inl e, world1) \<Rightarrow> (Inl e, world1)
      | (Inr alertId, world1) \<Rightarrow> (Inr (), snd (db_enqueue db alertId world1)))"

fun raise_all ::
  "'w monitor_db \<Rightarrow> watch \<Rightarrow> alert_rule list \<Rightarrow> account_snapshot \<Rightarrow> 'w \<Rightarrow> (js_error + unit) \<times> 'w" where
  "raise_all db w [] snapshot world = (Inr (), world)"
| "raise_all db w (rule # rules) snapshot world =
     (case raiseAlert db w rule snapshot world of
        (Inl e, world1) \<Rightarrow> (Inl e, world1)
      | (Inr _, world1) \<Rightarrow> raise_all db w rules snapshot world1)"

text \<open>The loop over the rules: the next state and the rules that fire.\<close>

fun evaluate_rules ::
  "alert_rule list \<Rightarrow> alert_state \<Rightarrow> account_snapshot \<Rightarrow> alert_state \<Rightarrow> alert_rule list
    \<Rightarrow> alert_state \<times> alert_rule list" where
  "evaluate_rules [] previous snapshot nextState fired = (nextState, fired)"
| "evaluate_rules (rule # rules) previous snapshot nextState fired =
     (if \<not> isStateAlertRule (ar_type rule) then evaluate_rules rules previous snapshot nextState fired
      else let met = matchesState rule snapshot
           in evaluate_rules rules previous snapshot (jm_set nextState (ar_id rule) met)
                (if met \<and> jm_get previous (ar_id rule) \<noteq> Some True then fired @ [rule] else fired))"

definition evaluateWatch ::
  "'w monitor_db \<Rightarrow> watch \<Rightarrow> account_snapshot \<Rightarrow> 'w \<Rightarrow> (js_error + unit) \<times> watch \<times> 'w" where
  "evaluateWatch db w snapshot world =
     (let previous = (case wa_alertState w of Some s \<Rightarrow> s | None \<Rightarrow> []);
          (nextState, fired) = evaluate_rules (wa_alertRules w) previous snapshot [] []
      in case db_updateWatch db (wa_id w) nextState (as_observedAt snapshot) world of
           (Inl e, world1) \<Rightarrow> (Inl e, w, world1)
         | (Inr _, world1) \<Rightarrow>
             let w' = w\<lparr>wa_alertState := Some nextState, wa_lastEvaluatedAt := Some (as_observedAt snapshot)\<rparr>;
                 (r, world2) = raise_all db w' fired snapshot world1
             in (r, w', world2))"

section \<open>The snapshot of an account\<close>

datatype balance_entry =
    Native_balance string
  | Credit_balance string string string   \<comment> \<open>code, issuer, balance\<close>
  | Other_balance string                  \<comment> \<open>no asset code\<close>

fun balances :: "balance_entry list \<Rightarrow> (string, string) jmap \<Rightarrow> (string, string) jmap" where
  "balances [] result = result"
| "balances (Native_balance b # entries) result = balances entries (jm_set result ''XLM'' b)"
| "balances (Credit_balance code issuer b # entries) result =
     balances entries (if code = [] then result else jm_set result (code @ '':'' @ issuer) b)"
| "balances (Other_balance b # entries) result = balances entries result"

definition MAX_SCANNED_TRANSACTIONS :: nat where
  "MAX_SCANNED_TRANSACTIONS = 1000"

text \<open>\<open>counts[window] += 1\<close> for every window whose cutoff the transaction reaches.\<close>

fun bump_windows :: "(js_num \<times> js_num) list \<Rightarrow> js_num \<Rightarrow> (js_num, nat) jmap \<Rightarrow> (js_num, nat) jmap" where
  "bump_windows [] createdAt counts = counts"
| "bump_windows ((window, cutoff) # cutoffs) createdAt counts =
     bump_windows cutoffs createdAt
       (if createdAt \<ge> cutoff
        then jm_set counts window ((case jm_get counts window of Some n \<Rightarrow> n | None \<Rightarrow> 0) + 1) else counts)"

text \<open>One page of creation times (\<open>None\<close>: not a date); whether the scan returned early.\<close>

fun scan_page ::
  "(js_num \<times> js_num) list \<Rightarrow> js_num \<Rightarrow> js_num option list \<Rightarrow> (js_num, nat) jmap \<Rightarrow> bool \<times> (js_num, nat) jmap" where
  "scan_page cutoffs oldest [] counts = (False, counts)"
| "scan_page cutoffs oldest (created # records) counts =
     (case created of
        None \<Rightarrow> (True, counts)
      | Some t \<Rightarrow>
          if t < oldest then (True, counts)
          else scan_page cutoffs oldest records (bump_windows cutoffs t counts))"

text \<open>\<open>pages k\<close> is the result of the \<open>k\<close>-th page request.\<close>

function scan_transactions ::
  "(nat \<Rightarrow> js_error + js_num option list) \<Rightarrow> nat \<Rightarrow> nat \<Rightarrow> (js_num \<times> js_num) list \<Rightarrow> js_num
    \<Rightarrow> (js_num, nat) jmap \<Rightarrow> js_error + (js_num, nat) jmap" where
  "scan_transactions pages k scanned cutoffs oldest counts =
     (case pages k of
        Inl e \<Rightarrow> Inl e
      | Inr page \<Rightarrow>
          if page = [] \<or> \<not> scanned < MAX_SCANNED_TRANSACTIONS then Inr counts
          else (case scan_page cutoffs oldest page counts of
                  (True, counts') \<Rightarrow> Inr counts'
                | (False, counts') \<Rightarrow>
                    scan_transactions pages (k + 1) (scanned + length page) cutoffs oldest counts'))"
  by pat_completeness auto
termination
  by (relation "measure (\<lambda>(pages, k, scanned, cutoffs, oldest, counts). MAX_SCANNED_TRANSACTIONS - scanned)")
    (auto simp: MAX_SCANNED_TRANSACTIONS_def diff_less_mono2)

declare scan_transactions.simps [simp del]

definition minimum :: "js_num list \<Rightarrow> js_num" where
  "minimum xs = foldl min (hd xs) (tl xs)"

definition window_cutoff :: "int \<Rightarrow> js_num \<Rightarrow> js_num" where
  "window_cutoff observedAt window = js_sub (of_int observedAt) (js_mul window 60000)"

definition transactionCounts ::
  "(nat \<Rightarrow> js_error + js_num option list) \<Rightarrow> js_num list \<Rightarrow> int \<Rightarrow> js_error + (js_num, nat) jmap" where
  "transactionCounts pages windows observedAt =
     (let counts = foldl (\<lambda>counts window. jm_set counts window 0) [] windows;
          cutoffs = map (\<lambda>window. (window, window_cutoff observedAt window)) windows
      in scan_transactions pages 0 0 cutoffs (minimum (map snd cutoffs)) counts)"

definition count_windows :: "watch list \<Rightarrow> js_num list" where
  "count_windows watches =
     dedupe (concat (map (\<lambda>w. map windowMinutes (filter (\<lambda>r. ar_type r = Transaction_count) (wa_alertRules w))) watches))"

text \<open>\<open>account\<close> and \<open>pages\<close> are Horizon's answers for a key and a network.\<close>

definition snapshot_of ::
  "(string \<Rightarrow> monitor_network \<Rightarrow> js_error + balance_entry list)
    \<Rightarrow> (string \<Rightarrow> monitor_network \<Rightarrow> nat \<Rightarrow> js_error + js_num option list) \<Rightarrow> int \<Rightarrow> watch list
    \<Rightarrow> js_error + account_snapshot" where
  "snapshot_of account pages now watches =
     (let publicKey = wa_publicKey (hd watches); network = wa_network (hd watches) in
      and_then (account publicKey network) (\<lambda>entries.
      let windows = count_windows watches in
      and_then (if windows = [] then Inr [] else transactionCounts (pages publicKey network) windows now) (\<lambda>counts.
      Inr \<lparr>as_publicKey = publicKey, as_network = network, as_observedAt = now,
           as_balances = balances entries [], as_transactionCounts = counts\<rparr>)))"

section \<open>Evaluating all watches\<close>

definition state_watches :: "registry \<Rightarrow> string \<Rightarrow> watch list" where
  "state_watches reg key =
     filter (\<lambda>w. wa_type w = Account_watch \<and> list_ex (\<lambda>r. isStateAlertRule (ar_type r)) (wa_alertRules w)) (reg_get reg key)"

text \<open>The watches are the objects the registry holds, so evaluation updates them there.\<close>

definition store_watch :: "string \<Rightarrow> watch \<Rightarrow> registry \<Rightarrow> registry" where
  "store_watch key w reg =
     (case jm_get reg key of Some m \<Rightarrow> jm_set reg key (jm_set m (wa_id w) w) | None \<Rightarrow> reg)"

fun evaluate_watches ::
  "'w monitor_db \<Rightarrow> string \<Rightarrow> watch list \<Rightarrow> account_snapshot \<Rightarrow> registry \<Rightarrow> 'w \<Rightarrow> registry \<times> 'w" where
  "evaluate_watches db key [] snapshot reg world = (reg, world)"
| "evaluate_watches db key (w # ws) snapshot reg world =
     (case evaluateWatch db w snapshot world of
        (Inl e, w', world1) \<Rightarrow> (store_watch key w' reg, world1)
      | (Inr _, w', world1) \<Rightarrow> evaluate_watches db key ws snapshot (store_watch key w' reg) world1)"

fun evaluate_keys ::
  "'w monitor_db \<Rightarrow> (watch list \<Rightarrow> js_error + account_snapshot) \<Rightarrow> string list \<Rightarrow> registry \<Rightarrow> 'w \<Rightarrow> registry \<times> 'w" where
  "evaluate_keys db take_snapshot [] reg world = (reg, world)"
| "evaluate_keys db take_snapshot (key # keys) reg world =
     (let watches = state_watches reg key
      in if watches = [] then evaluate_keys db take_snapshot keys reg world
         else case take_snapshot watches of
                Inl e \<Rightarrow> evaluate_keys db take_snapshot keys reg world
              | Inr snapshot \<Rightarrow>
                  let (reg1, world1) = evaluate_watches db key watches snapshot reg world
                  in evaluate_keys db take_snapshot keys reg1 world1)"

definition evaluateAll ::
  "'w monitor_db \<Rightarrow> bool \<Rightarrow> bool \<Rightarrow> (watch list \<Rightarrow> js_error + account_snapshot) \<Rightarrow> registry \<Rightarrow> 'w \<Rightarrow> registry \<times> 'w" where
  "evaluateAll db isLeader evaluating take_snapshot reg world =
     (if \<not> isLeader \<or> evaluating then (reg, world)
      else evaluate_keys db take_snapshot (reg_keys reg) reg world)"

section \<open>The evaluation loop\<close>

text \<open>The timer, driven by leadership.\<close>

definition startEvaluationLoop :: "js_num \<Rightarrow> js_num option \<Rightarrow> js_num option" where
  "startEvaluationLoop intervalMs timer =
     (if intervalMs \<le> 0 then timer else if timer \<noteq> None then timer else Some intervalMs)"

definition stopEvaluationLoop :: "js_num option \<Rightarrow> js_num option" where
  "stopEvaluationLoop timer = None"

definition on_leadership :: "js_num \<Rightarrow> bool \<Rightarrow> js_num option \<Rightarrow> js_num option" where
  "on_leadership intervalMs isLeader timer =
     (if isLeader then startEvaluationLoop intervalMs timer else stopEvaluationLoop timer)"

section \<open>The registry keeps no empty key\<close>

definition reg_ok :: "registry \<Rightarrow> bool" where
  "reg_ok reg \<longleftrightarrow> jm_ok reg \<and> (\<forall>(k, m) \<in> set reg. m \<noteq> [] \<and> jm_ok m \<and> (\<forall>(i, w) \<in> set m. wa_id w = i \<and> keyFor w = k))"

lemma jm_set_not_Nil [simp]: "jm_set m k v \<noteq> []"
  by (cases "(m, k, v)" rule: jm_set.cases) auto

lemma set_jm_set: "e \<in> set (jm_set m k v) \<Longrightarrow> e = (k, v) \<or> e \<in> set m"
  by (induction m k v rule: jm_set.induct) (auto split: if_splits)

lemma set_jm_delete: "set (jm_delete m k) \<subseteq> set m"
  by (auto simp: jm_delete_def)

lemma reg_ok_get: "reg_ok reg \<Longrightarrow> jm_get reg k = Some m \<Longrightarrow>
    m \<noteq> [] \<and> jm_ok m \<and> (\<forall>(i, w) \<in> set m. wa_id w = i \<and> keyFor w = k)"
  by (auto simp: reg_ok_def dest!: jm_get_Some_in)

lemma reg_ok_set:
  assumes "reg_ok reg" "m \<noteq> []" "jm_ok m" "\<forall>(i, w) \<in> set m. wa_id w = i \<and> keyFor w = k"
  shows "reg_ok (jm_set reg k m)"
  using assms by (auto simp: reg_ok_def dest!: set_jm_set)

lemma reg_ok_add: assumes "reg_ok reg" shows "reg_ok (reg_add w reg)"
proof -
  let ?m = "case jm_get reg (keyFor w) of Some m \<Rightarrow> m | None \<Rightarrow> []"
  have "jm_ok ?m" "\<forall>(i, v) \<in> set ?m. wa_id v = i \<and> keyFor v = keyFor w"
    using reg_ok_get [OF assms, of "keyFor w"] by (cases "jm_get reg (keyFor w)"; auto)+
  then show ?thesis unfolding reg_add_def Let_def
    by (intro reg_ok_set [OF assms]) (auto dest!: set_jm_set)
qed

lemma reg_ok_remove: assumes "reg_ok reg" shows "reg_ok (snd (reg_remove w reg))"
proof (cases "jm_get reg (keyFor w)")
  case (Some m)
  note m = reg_ok_get [OF assms Some]
  have "reg_ok (jm_delete reg (keyFor w))"
    using assms set_jm_delete [of reg "keyFor w"] by (fastforce simp: reg_ok_def)
  moreover have "reg_ok (jm_set reg (keyFor w) (jm_delete m (wa_id w)))" if "jm_delete m (wa_id w) \<noteq> []"
    using m that set_jm_delete [of m "wa_id w"] by (intro reg_ok_set [OF assms]) auto
  ultimately show ?thesis using Some by (simp add: reg_remove_def Let_def)
qed (use assms in \<open>simp add: reg_remove_def\<close>)

datatype reg_op = Reg_add watch | Reg_remove watch

fun reg_run :: "reg_op list \<Rightarrow> registry \<Rightarrow> registry" where
  "reg_run [] reg = reg"
| "reg_run (Reg_add w # ops) reg = reg_run ops (reg_add w reg)"
| "reg_run (Reg_remove w # ops) reg = reg_run ops (snd (reg_remove w reg))"

lemma reg_run_ok: "reg_ok reg \<Longrightarrow> reg_ok (reg_run ops reg)"
  by (induction ops reg rule: reg_run.induct) (auto intro: reg_ok_add reg_ok_remove)

section \<open>Edge triggering\<close>

lemma evaluate_rules_fired:
  "snd (evaluate_rules rules previous snapshot ns fired) = fired @ filter (\<lambda>r. isStateAlertRule (ar_type r)
     \<and> matchesState r snapshot \<and> jm_get previous (ar_id r) \<noteq> Some True) rules"
  by (induction rules arbitrary: ns fired) (auto simp: Let_def)

lemma evaluate_rules_other:
  "i \<notin> ar_id ` set rules \<Longrightarrow> jm_get (fst (evaluate_rules rules previous snapshot ns fired)) i = jm_get ns i"
  by (induction rules arbitrary: ns fired) (auto simp: Let_def)

lemma evaluate_rules_state:
  assumes "distinct (map ar_id rules)" "r \<in> set rules" "isStateAlertRule (ar_type r)"
  shows "jm_get (fst (evaluate_rules rules previous snapshot ns fired)) (ar_id r) = Some (matchesState r snapshot)"
  using assms
proof (induction rules arbitrary: ns fired)
  case (Cons x rules)
  then show ?case by (auto simp: Let_def evaluate_rules_other)
qed simp

text \<open>A database that takes every write, and the alerts written to it.\<close>

definition records :: "'w monitor_db \<Rightarrow> ('w \<Rightarrow> alert_event list) \<Rightarrow> bool" where
  "records db saved \<longleftrightarrow>
     (\<forall>i st t w. fst (db_updateWatch db i st t w) = Inr () \<and> saved (snd (db_updateWatch db i st t w)) = saved w)
     \<and> (\<forall>a w. (\<exists>i. fst (db_saveAlert db a w) = Inr i) \<and> saved (snd (db_saveAlert db a w)) = saved w @ [a])
     \<and> (\<forall>i w. saved (snd (db_enqueue db i w)) = saved w)"

lemma raise_all_records:
  assumes "records db saved"
  shows "fst (raise_all db w rules snapshot world) = Inr ()
    \<and> saved (snd (raise_all db w rules snapshot world)) = saved world @ map (\<lambda>r. alert_of w r snapshot) rules"
proof (induction rules arbitrary: world)
  case (Cons r rules)
  obtain i w1 where save: "db_saveAlert db (alert_of w r snapshot) world = (Inr i, w1)" "saved w1 = saved world @ [alert_of w r snapshot]"
    using assms unfolding records_def by (metis prod.collapse)
  have "saved (snd (db_enqueue db i w1)) = saved w1" using assms unfolding records_def by blast
  then show ?case using Cons.IH [of "snd (db_enqueue db i w1)"] save by (simp add: raiseAlert_def)
qed simp

definition previous_state :: "watch \<Rightarrow> alert_state" where
  "previous_state w = (case wa_alertState w of Some s \<Rightarrow> s | None \<Rightarrow> [])"

lemma evaluateWatch_records:
  fixes w :: watch and snapshot :: account_snapshot
  assumes "records db saved"
  defines "ev \<equiv> evaluate_rules (wa_alertRules w) (previous_state w) snapshot [] []"
  defines "w' \<equiv> w\<lparr>wa_alertState := Some (fst ev), wa_lastEvaluatedAt := Some (as_observedAt snapshot)\<rparr>"
  shows "\<exists>world'. evaluateWatch db w snapshot world = (Inr (), w', world')
    \<and> saved world' = saved world @ map (\<lambda>r. alert_of w' r snapshot) (snd ev)"
proof -
  obtain world1 where upd: "db_updateWatch db (wa_id w) (fst ev) (as_observedAt snapshot) world = (Inr (), world1)"
    "saved world1 = saved world"
    using assms(1) unfolding records_def by (metis prod.collapse)
  obtain r world2 where "raise_all db w' (snd ev) snapshot world1 = (r, world2)" by (metis prod.collapse)
  then show ?thesis using raise_all_records [OF assms(1), of w' "snd ev" snapshot world1] upd
    by (auto simp: evaluateWatch_def previous_state_def [symmetric] ev_def [symmetric] w'_def Let_def split: prod.splits)
qed

text \<open>Successive evaluations of one watch.\<close>

fun evaluation_series ::
  "'w monitor_db \<Rightarrow> watch \<Rightarrow> account_snapshot list \<Rightarrow> 'w \<Rightarrow> watch \<times> 'w" where
  "evaluation_series db w [] world = (w, world)"
| "evaluation_series db w (s # ss) world =
     (case evaluateWatch db w s world of (_, w', world') \<Rightarrow> evaluation_series db w' ss world')"

text \<open>The elements at which a condition becomes true.\<close>

fun rising :: "('a \<Rightarrow> bool) \<Rightarrow> bool \<Rightarrow> 'a list \<Rightarrow> 'a list" where
  "rising P was [] = []"
| "rising P was (s # ss) = (if P s \<and> \<not> was then [s] else []) @ rising P (P s) ss"

lemma filter_rule_alerts:
  assumes "distinct (map ar_id rules)" "r \<in> set rules"
  shows "filter (\<lambda>a. ae_ruleId a = ar_id r) (map (\<lambda>r. alert_of w r snapshot) (filter P rules))
    = (if P r then [alert_of w r snapshot] else [])"
  using assms
proof (induction rules)
  case (Cons x rules)
  have none: "filter (\<lambda>a. ae_ruleId a = ar_id x) (map (\<lambda>r. alert_of w r snapshot) (filter P rules)) = []"
    using Cons.prems(1) by (auto simp: filter_empty_conv alert_of_def) (metis imageI)
  show ?case
  proof (cases "r = x")
    case True
    then show ?thesis using none by (simp add: alert_of_def)
  next
    case False
    then have "r \<in> set rules" "ar_id x \<noteq> ar_id r" using Cons.prems by (auto simp: image_iff)
    then show ?thesis using Cons.IH Cons.prems(1) by (simp add: alert_of_def)
  qed
qed simp

lemma series_records:
  assumes rec: "records db saved" and rules: "wa_alertRules w = rules" and dist: "distinct (map ar_id rules)"
    and r: "rule \<in> set rules" "isStateAlertRule (ar_type rule)"
    and "evaluation_series db w snaps world = (wn, worldn)"
  shows "\<exists>new. saved worldn = saved world @ new
    \<and> map ae_observedAt (filter (\<lambda>a. ae_ruleId a = ar_id rule) new)
      = map as_observedAt (rising (matchesState rule) (jm_get (previous_state w) (ar_id rule) = Some True) snaps)"
  using rules assms(6)
proof (induction snaps arbitrary: w world)
  case (Cons s snaps)
  let ?ev = "evaluate_rules rules (previous_state w) s [] []"
  let ?w = "w\<lparr>wa_alertState := Some (fst ?ev), wa_lastEvaluatedAt := Some (as_observedAt s)\<rparr>"
  obtain world1 where ev: "evaluateWatch db w s world = (Inr (), ?w, world1)"
    "saved world1 = saved world @ map (\<lambda>r. alert_of ?w r s) (snd ?ev)"
    using evaluateWatch_records [OF rec, of w s world] Cons.prems(1) by auto
  have "wa_alertRules ?w = rules" using Cons.prems(1) by simp
  moreover have "evaluation_series db ?w snaps world1 = (wn, worldn)" using Cons.prems(2) ev(1) by simp
  moreover have "previous_state ?w = fst ?ev" by (simp add: previous_state_def)
  moreover have "jm_get (fst ?ev) (ar_id rule) = Some (matchesState rule s)"
    by (rule evaluate_rules_state [OF dist r])
  ultimately obtain new where new: "saved worldn = saved world1 @ new"
    "map ae_observedAt (filter (\<lambda>a. ae_ruleId a = ar_id rule) new)
      = map as_observedAt (rising (matchesState rule) (matchesState rule s) snaps)"
    using Cons.IH [of ?w world1] by auto
  have "filter (\<lambda>a. ae_ruleId a = ar_id rule) (map (\<lambda>r. alert_of ?w r s) (snd ?ev))
      = (if matchesState rule s \<and> jm_get (previous_state w) (ar_id rule) \<noteq> Some True then [alert_of ?w rule s] else [])"
    using filter_rule_alerts [OF dist r(1), of ?w s] r(2) by (simp add: evaluate_rules_fired)
  then show ?case using new ev(2)
    by (intro exI [of _ "map (\<lambda>r. alert_of ?w r s) (snd ?ev) @ new"]) (simp add: alert_of_def)
qed simp

section \<open>Transaction counts\<close>

definition in_window :: "js_num \<Rightarrow> js_num list \<Rightarrow> nat" where
  "in_window cutoff ts = length (filter (\<lambda>t. cutoff \<le> t) ts)"

lemma bump_windows_get:
  "distinct (map fst cutoffs) \<Longrightarrow> fst ` set cutoffs \<subseteq> fst ` set counts \<Longrightarrow>
   jm_get (bump_windows cutoffs t counts) w = (case map_of cutoffs w of
     Some cutoff \<Rightarrow> if t \<ge> cutoff then Some (the (jm_get counts w) + 1) else jm_get counts w
   | None \<Rightarrow> jm_get counts w)
   \<and> fst ` set (bump_windows cutoffs t counts) = fst ` set counts"
proof (induction cutoffs arbitrary: counts)
  case (Cons e cutoffs)
  obtain v c where e: "e = (v, c)" by (cases e)
  define counts' where "counts' = (if t \<ge> c
    then jm_set counts v ((case jm_get counts v of Some n \<Rightarrow> n | None \<Rightarrow> 0) + 1) else counts)"
  have v: "v \<in> fst ` set counts" "v \<notin> fst ` set cutoffs" using Cons.prems e by auto
  have keys: "fst ` set counts' = fst ` set counts" using v(1) by (auto simp: counts'_def)
  have n: "map_of cutoffs v = None" using v(2) by (simp add: map_of_eq_None_iff)
  obtain n where "jm_get counts v = Some n" using v(1) jm_get_None_iff [of counts v] by (cases "jm_get counts v") auto
  then show ?case using Cons.IH [of counts'] Cons.prems keys n
    by (auto simp: e counts'_def split: option.splits)
qed simp

lemma scan_page_sorted:
  assumes "distinct (map fst cutoffs)" "\<forall>(w, c) \<in> set cutoffs. oldest \<le> c"
    and "fst ` set cutoffs \<subseteq> fst ` set counts" "sorted_wrt (\<ge>) ts"
  shows "\<exists>counts'. scan_page cutoffs oldest (map Some ts) counts = ((\<exists>t \<in> set ts. t < oldest), counts')
    \<and> fst ` set counts' = fst ` set counts
    \<and> (\<forall>w c. map_of cutoffs w = Some c \<longrightarrow> jm_get counts' w = Some (the (jm_get counts w) + in_window c ts))"
  using assms(3,4)
proof (induction ts arbitrary: counts)
  case Nil
  have "jm_get counts w \<noteq> None" if "map_of cutoffs w = Some c" for w c
    using that Nil.prems(1) jm_get_None_iff [of counts w] by (force dest: map_of_SomeD)
  then show ?case by (auto simp: in_window_def)
next
  case (Cons t ts)
  show ?case
  proof (cases "t < oldest")
    case True
    have "\<not> c \<le> u" if "map_of cutoffs w = Some c" "u \<in> set (t # ts)" for w c u
    proof -
      have "u \<le> t" using that(2) Cons.prems(2) by auto
      moreover have "oldest \<le> c" using assms(2) that(1) by (auto dest: map_of_SomeD)
      ultimately show ?thesis using True by linarith
    qed
    then have "in_window c (t # ts) = 0" if "map_of cutoffs w = Some c" for w c
      using that unfolding in_window_def by (metis filter_False length_0_conv list.size(3))
    moreover have "jm_get counts w \<noteq> None" if "map_of cutoffs w = Some c" for w c
      using that Cons.prems(1) jm_get_None_iff [of counts w] by (force dest: map_of_SomeD)
    ultimately show ?thesis using True by auto
  next
    case False
    let ?c = "bump_windows cutoffs t counts"
    note b = bump_windows_get [OF assms(1) Cons.prems(1), of t]
    have "fst ` set cutoffs \<subseteq> fst ` set ?c" using b Cons.prems(1) by auto
    from Cons.IH [OF this] Cons.prems(2) obtain counts' where
      "scan_page cutoffs oldest (map Some ts) ?c = ((\<exists>t \<in> set ts. t < oldest), counts')" "fst ` set counts' = fst ` set ?c"
      "\<forall>w c. map_of cutoffs w = Some c \<longrightarrow> jm_get counts' w = Some (the (jm_get ?c w) + in_window c ts)" by auto
    then show ?thesis using False b by (intro exI [of _ counts']) (auto simp: in_window_def)
  qed
qed

lemma scan_transactions_counts:
  assumes "distinct (map fst cutoffs)" "\<forall>(w, c) \<in> set cutoffs. oldest \<le> c"
    and "fst ` set cutoffs \<subseteq> fst ` set counts" "sorted_wrt (\<ge>) (concat pgs)" "[] \<notin> set pgs"
    and "\<forall>i < length pgs. pages (k + i) = Inr (map Some (pgs ! i))" "pages (k + length pgs) = Inr []"
    and "scanned + length (concat pgs) \<le> MAX_SCANNED_TRANSACTIONS"
  shows "\<exists>counts'. scan_transactions pages k scanned cutoffs oldest counts = Inr counts'
    \<and> (\<forall>w c. map_of cutoffs w = Some c \<longrightarrow> jm_get counts' w = Some (the (jm_get counts w) + in_window c (concat pgs)))"
  using assms(3-)
proof (induction pgs arbitrary: k scanned counts)
  case Nil
  have "jm_get counts w \<noteq> None" if "map_of cutoffs w = Some c" for w c
    using that Nil.prems(1) jm_get_None_iff [of counts w] by (force dest: map_of_SomeD)
  then show ?case using Nil by (subst scan_transactions.simps) (auto simp: in_window_def)
next
  case (Cons p pgs)
  have "p \<noteq> []" using Cons.prems(3) by auto
  then have "0 < length p" by simp
  moreover have "scanned + length p \<le> MAX_SCANNED_TRANSACTIONS" using Cons.prems(6) by simp
  ultimately have "scanned < MAX_SCANNED_TRANSACTIONS" by linarith
  then have page: "pages k = Inr (map Some p)" "p \<noteq> []" "scanned < MAX_SCANNED_TRANSACTIONS"
    using \<open>p \<noteq> []\<close> spec [OF Cons.prems(4), of 0] by auto
  have sp: "sorted_wrt (\<ge>) p" "sorted_wrt (\<ge>) (concat pgs)" "\<forall>x \<in> set p. \<forall>y \<in> set (concat pgs). x \<ge> y"
    using Cons.prems(2) by (auto simp: sorted_wrt_append)
  obtain counts1 where c1: "scan_page cutoffs oldest (map Some p) counts = ((\<exists>t \<in> set p. t < oldest), counts1)"
    "fst ` set counts1 = fst ` set counts"
    "\<forall>w c. map_of cutoffs w = Some c \<longrightarrow> jm_get counts1 w = Some (the (jm_get counts w) + in_window c p)"
    using scan_page_sorted [OF assms(1,2) Cons.prems(1) sp(1)] by blast
  show ?case
  proof (cases "\<exists>t \<in> set p. t < oldest")
    case True
    then obtain t where t: "t \<in> set p" "t < oldest" by blast
    have "in_window c (concat pgs) = 0" if "map_of cutoffs w = Some c" for w c
    proof -
      have "oldest \<le> c" using assms(2) that by (auto dest: map_of_SomeD)
      then have "\<not> c \<le> u" if "u \<in> set (concat pgs)" for u using sp(3) t that by force
      then show ?thesis by (simp add: in_window_def filter_empty_conv)
    qed
    moreover have "scan_transactions pages k scanned cutoffs oldest counts = Inr counts1"
      using page c1(1) True by (subst scan_transactions.simps) simp
    ultimately show ?thesis using c1(3) by (intro exI [of _ counts1]) (auto simp: in_window_def)
  next
    case False
    have step: "scan_transactions pages k scanned cutoffs oldest counts
        = scan_transactions pages (k + 1) (scanned + length p) cutoffs oldest counts1"
      using page c1(1) False by (subst scan_transactions.simps) simp
    have "\<forall>i < length pgs. pages (k + 1 + i) = Inr (map Some (pgs ! i))"
      using Cons.prems(4) by (auto dest: spec [of _ "Suc _"])
    moreover have "pages (k + 1 + length pgs) = Inr []" using Cons.prems(5) by simp
    ultimately obtain counts' where "scan_transactions pages (k + 1) (scanned + length p) cutoffs oldest counts1 = Inr counts'"
      "\<forall>w c. map_of cutoffs w = Some c \<longrightarrow> jm_get counts' w = Some (the (jm_get counts1 w) + in_window c (concat pgs))"
      using Cons.IH [of counts1 "k + 1" "scanned + length p"] Cons.prems(1,3,6) c1(2) sp(2) by auto
    then show ?thesis using step c1(3) by (intro exI [of _ counts']) (auto simp: in_window_def)
  qed
qed

lemma minimum_le: "x \<in> set xs \<Longrightarrow> minimum xs \<le> x"
proof -
  have fold: "foldl min m ys \<le> m \<and> (\<forall>y \<in> set ys. foldl min m ys \<le> y)" for m :: js_num and ys
  proof (induction ys arbitrary: m)
    case (Cons y ys)
    from Cons.IH [of "min m y"] show ?case by auto
  qed simp
  show "x \<in> set xs \<Longrightarrow> minimum xs \<le> x" using fold [of "hd xs" "tl xs"] by (cases xs) (auto simp: minimum_def)
qed

lemma initial_counts:
  "jm_get (foldl (\<lambda>counts window. jm_set counts window (0::nat)) m ws) w = (if w \<in> set ws then Some 0 else jm_get m w)"
  "fst ` set (foldl (\<lambda>counts window. jm_set counts window (0::nat)) m ws) = set ws \<union> fst ` set m"
  by (induction ws arbitrary: m) auto

lemma map_of_cutoffs: "map_of (map (\<lambda>window. (window, f window)) ws) w = (if w \<in> set ws then Some (f w) else None)"
  by (induction ws) auto

section \<open>Properties\<close>


text \<open>
  Transaction counts are exact: when the account's pages list at most 1000 transactions, newest
  first, the count of every window is the number of transactions not older than its cutoff, even
  though the scan stops at the first transaction older than all windows.
\<close>

theorem transactionCounts_exact:
  assumes "distinct windows" "sorted_wrt (\<ge>) (concat pgs)" "[] \<notin> set pgs"
    and "\<forall>i < length pgs. pages i = Inr (map Some (pgs ! i))" "pages (length pgs) = Inr []"
    and "length (concat pgs) \<le> MAX_SCANNED_TRANSACTIONS"
  shows "\<exists>counts. transactionCounts pages windows observedAt = Inr counts
    \<and> (\<forall>w \<in> set windows. jm_get counts w
        = Some (length (filter (\<lambda>t. window_cutoff observedAt w \<le> t) (concat pgs))))"
proof -
  let ?cutoffs = "map (\<lambda>window. (window, window_cutoff observedAt window)) windows"
  let ?counts = "foldl (\<lambda>counts window. jm_set counts window (0::nat)) [] windows"
  have "distinct (map fst ?cutoffs)" using assms(1) by (simp add: comp_def)
  moreover have "\<forall>(w, c) \<in> set ?cutoffs. minimum (map snd ?cutoffs) \<le> c"
    using minimum_le [of _ "map snd ?cutoffs"] by force
  moreover have "fst ` set ?cutoffs \<subseteq> fst ` set ?counts" by (auto simp: initial_counts)
  ultimately show ?thesis
    using scan_transactions_counts [of ?cutoffs "minimum (map snd ?cutoffs)" ?counts pgs pages 0 0] assms(2-6)
    by (auto simp: transactionCounts_def Let_def map_of_cutoffs initial_counts in_window_def)
qed

text \<open>
  The registry lists what it watches: after any additions and removals, the registered keys are
  exactly those under which a watch is stored, every watch is stored under its own key, and a removal
  reports that the stream is no longer needed exactly when the key has no watch left.
\<close>

theorem registry_tracks_keys:
  "let reg = reg_run ops [] in
     (\<forall>k. k \<in> set (reg_keys reg) \<longleftrightarrow> reg_get reg k \<noteq> [])
     \<and> (\<forall>k. set (reg_get reg k) \<subseteq> {v. keyFor v = k})
     \<and> fst (reg_remove w reg) = (reg_get (snd (reg_remove w reg)) (keyFor w) = [])"
proof -
  define reg where "reg = reg_run ops []"
  have ok: "reg_ok reg" unfolding reg_def by (rule reg_run_ok) (simp add: reg_ok_def)
  have keys: "k \<in> set (reg_keys reg) \<longleftrightarrow> reg_get reg k \<noteq> []" for k
    using reg_ok_get [OF ok, of k] jm_get_None_iff [of reg k] by (cases "jm_get reg k") (auto simp: reg_keys_def reg_get_def)
  have own: "keyFor v = k" if "v \<in> set (reg_get reg k)" for k v
    using that reg_ok_get [OF ok, of k] by (cases "jm_get reg k") (auto simp: reg_get_def)
  have "fst (reg_remove w reg) = (reg_get (snd (reg_remove w reg)) (keyFor w) = [])"
    by (cases "jm_get reg (keyFor w)") (auto simp: reg_remove_def reg_get_def Let_def)
  then show ?thesis using keys own by (auto simp: reg_def [symmetric] Let_def)
qed

section \<open>Examples\<close>

definition sample_rule :: alert_rule where
  "sample_rule = \<lparr>ar_id = ''r'', ar_type = Balance_below, ar_asset = None, ar_threshold = Some ''10.5'',
     ar_windowMinutes = None, ar_channels = [In_app], ar_topic = None\<rparr>"

definition sample_watch :: watch where
  "sample_watch = \<lparr>wa_id = ''w'', wa_publicKey = ''GA'', wa_type = Account_watch, wa_network = Net_testnet,
     wa_alertRules = [sample_rule], wa_alertState = None, wa_lastEvaluatedAt = None\<rparr>"

definition sample_snapshot :: "string \<Rightarrow> int \<Rightarrow> account_snapshot" where
  "sample_snapshot balance t = \<lparr>as_publicKey = ''GA'', as_network = Net_testnet, as_observedAt = t,
     as_balances = [(''XLM'', balance)], as_transactionCounts = []\<rparr>"

text \<open>A database that appends the alerts to a list; one that rejects the first insert.\<close>

definition sample_db :: "alert_event list monitor_db" where
  "sample_db = \<lparr>db_updateWatch = (\<lambda>_ _ _ w. (Inr (), w)), db_saveAlert = (\<lambda>a w. (Inr ''a'', w @ [a])),
     db_enqueue = (\<lambda>_ w. (Inr (), w))\<rparr>"

definition failing_db :: "(bool \<times> alert_event list) monitor_db" where
  "failing_db = \<lparr>db_updateWatch = (\<lambda>_ _ _ w. (Inr (), w)),
     db_saveAlert = (\<lambda>a (down, as). if down then (Inl (PlainError ''down''), (False, as)) else (Inr ''a'', (False, as @ [a]))),
     db_enqueue = (\<lambda>_ w. (Inr (), w))\<rparr>"

lemma sample_matches:
  "matchesState sample_rule (sample_snapshot ''10.25'' t)" "\<not> matchesState sample_rule (sample_snapshot ''10.50'' t)"
  by (simp_all add: matchesState_def sample_rule_def sample_snapshot_def compareBalance_def balanceAsset_def
      DEFAULT_BALANCE_ASSET_def falsy_def compareDecimals_def decimalParts_def string_eval Let_def)


theorem transactionCounts_exact_witness:
  "\<exists>counts. transactionCounts (\<lambda>k. Inr (if k = 0 then [Some 3600000, Some 3000000] else [])) [60, 5] 3600000 = Inr counts
     \<and> jm_get counts 60 = Some 2 \<and> jm_get counts 5 = Some 1"
proof -
  have "window_cutoff 3600000 60 = 0" "window_cutoff 3600000 5 = 3300000"
    using fl_of_int [of 3600000] fl_of_int [of 300000] fl_of_int [of 3300000]
    by (simp_all add: window_cutoff_def js_mul_def js_sub_def)
  moreover have "\<exists>counts. transactionCounts (\<lambda>k. Inr (if k = 0 then [Some 3600000, Some 3000000] else [])) [60, 5] 3600000 = Inr counts
    \<and> (\<forall>w \<in> set [60, 5]. jm_get counts w
        = Some (length (filter (\<lambda>t. window_cutoff 3600000 w \<le> t) (concat [[3600000, 3000000]]))))"
    by (rule transactionCounts_exact) (simp_all add: MAX_SCANNED_TRANSACTIONS_def)
  ultimately show ?thesis by auto
qed

text \<open>
  The new state is stored before the alert is inserted: when the insert is rejected the edge is
  already consumed, and the next evaluation of the same condition raises nothing.
\<close>

lemma failed_insert_loses_alert:
  "\<exists>e w1 w2. evaluateWatch failing_db sample_watch (sample_snapshot ''10.25'' 1) (True, []) = (Inl e, w1, (False, []))
     \<and> evaluateWatch failing_db w1 (sample_snapshot ''10.25'' 2) (False, []) = (Inr (), w2, (False, []))"
proof -
  have r: "wa_alertRules sample_watch = [sample_rule]" "isStateAlertRule (ar_type sample_rule)"
    "wa_alertState sample_watch = None"
    by (simp_all add: sample_watch_def sample_rule_def isStateAlertRule_def STATE_ALERT_RULE_TYPES_def)
  then show ?thesis
    by (simp add: evaluateWatch_def Let_def sample_matches raiseAlert_def failing_db_def)
qed

end
