(* ===== verification/AlertDelivery.thy ===== *)
theory AlertDelivery
  imports StateEvaluation
begin

text \<open>
  The delivery side of the ledger monitor (\<open>apps/api/src/modules/monitor\<close>): the notification
  worker of \<open>notification-worker.service.ts\<close>, which runs one job, and the producer of
  \<open>monitor-queue.service.ts\<close>, which queues the jobs. What the mail service, the webhook, the
  digest preferences and the database answer is an argument of each run; BullMQ's queue is a
  parameter.
\<close>

section \<open>Rows and jobs\<close>

record delivery_attempt =
  at_channel :: notification_channel
  at_status :: delivery_status
  at_attemptedAt :: "int option"
  at_error :: "string option"

text \<open>The columns of \<open>AlertEvent\<close> the delivery reads and writes.\<close>

record delivery_row =
  dr_id :: string
  dr_watchId :: string
  dr_ruleId :: string
  dr_createdAt :: int
  dr_deliveryStatus :: delivery_status
  dr_deliveryAttempts :: "delivery_attempt list"
  dr_deliveredAt :: "int option"
  dr_claimedAt :: "int option"
  dr_claimedBy :: "string option"
  dr_claimKey :: "string option"

type_synonym alert_rows = "(string, delivery_row) jmap"

record delivery_job =
  jb_alertEventId :: string
  jb_attempts :: "nat option"
  jb_attemptsMade :: nat

definition hasRetriesLeft :: "delivery_job \<Rightarrow> bool" where
  "hasRetriesLeft job \<longleftrightarrow> jb_attemptsMade job + 1 < (case jb_attempts job of Some n \<Rightarrow> n | None \<Rightarrow> 1)"

fun replaceAttempt :: "delivery_attempt list \<Rightarrow> delivery_attempt \<Rightarrow> delivery_attempt list" where
  "replaceAttempt [] n = [n]"
| "replaceAttempt (a # attempts) n =
     (if at_channel a = at_channel n then n # attempts else a # replaceAttempt attempts n)"

section \<open>The loop over the channels\<close>

text \<open>
  The owner of a watch and its rules as the database has them, and whether the mail service and the
  digest service exist.
\<close>

record delivery_env =
  de_user :: "string \<Rightarrow> string option"
  de_rules :: "string \<Rightarrow> alert_rule list"
  de_resend :: bool
  de_digestService :: bool

text \<open>What the world answers while one channel is handled, and the time then.\<close>

record channel_answer =
  ca_hold :: "js_error + bool"
  ca_delivery :: "js_error + unit"
  ca_at :: int

definition deliver :: "delivery_env \<Rightarrow> notification_channel \<Rightarrow> channel_answer \<Rightarrow> js_error + unit" where
  "deliver env channel answer =
     (case channel of
        In_app \<Rightarrow> Inr ()
      | Email \<Rightarrow> if de_resend env then ca_delivery answer else Inl (PlainError ''RESEND_API_KEY is not configured'')
      | Webhook \<Rightarrow> ca_delivery answer)"

definition should_hold :: "delivery_env \<Rightarrow> notification_channel \<Rightarrow> channel_answer \<Rightarrow> js_error + bool" where
  "should_hold env channel answer =
     (if (channel = In_app \<or> channel = Email) \<and> de_digestService env then ca_hold answer else Inr False)"

text \<open>\<open>lo_sent\<close> records the deliveries that succeeded; the code keeps no such list.\<close>

record loop_state =
  lo_attempts :: "delivery_attempt list"
  lo_failures :: "js_error list"
  lo_hasHeldChannel :: bool
  lo_sent :: "notification_channel list"

definition settled :: "delivery_attempt list \<Rightarrow> notification_channel \<Rightarrow> bool" where
  "settled attempts channel \<longleftrightarrow>
     list_ex (\<lambda>a. at_channel a = channel \<and> (at_status a = Delivered \<or> at_status a = Held)) attempts"

definition try_channel ::
  "delivery_env \<Rightarrow> bool \<Rightarrow> notification_channel \<Rightarrow> channel_answer \<Rightarrow> loop_state \<Rightarrow> loop_state" where
  "try_channel env retriesLeft channel answer st =
     (case deliver env channel answer of
        Inr _ \<Rightarrow> st\<lparr>lo_attempts := replaceAttempt (lo_attempts st)
             \<lparr>at_channel = channel, at_status = Delivered, at_attemptedAt = Some (ca_at answer), at_error = None\<rparr>,
             lo_sent := lo_sent st @ [channel]\<rparr>
      | Inl failure \<Rightarrow> st\<lparr>lo_failures := lo_failures st @ [failure],
             lo_attempts := replaceAttempt (lo_attempts st)
               \<lparr>at_channel = channel, at_status = (if retriesLeft then Retrying else Failed),
                at_attemptedAt = Some (ca_at answer), at_error = Some (error_text failure)\<rparr>\<rparr>)"

fun channel_loop ::
  "delivery_env \<Rightarrow> bool \<Rightarrow> (nat \<Rightarrow> channel_answer) \<Rightarrow> nat \<Rightarrow> notification_channel list \<Rightarrow> loop_state
    \<Rightarrow> js_error option \<times> loop_state" where
  "channel_loop env retriesLeft answers i [] st = (None, st)"
| "channel_loop env retriesLeft answers i (channel # channels) st =
     (if settled (lo_attempts st) channel then channel_loop env retriesLeft answers (Suc i) channels st
      else case should_hold env channel (answers i) of
             Inl e \<Rightarrow> (Some e, st)
           | Inr True \<Rightarrow>
               channel_loop env retriesLeft answers (Suc i) channels
                 (st\<lparr>lo_hasHeldChannel := True, lo_attempts := replaceAttempt (lo_attempts st)
                    \<lparr>at_channel = channel, at_status = Held, at_attemptedAt = Some (ca_at (answers i)), at_error = None\<rparr>\<rparr>)
           | Inr False \<Rightarrow>
               channel_loop env retriesLeft answers (Suc i) channels
                 (try_channel env retriesLeft channel (answers i) st))"

section \<open>One run of a job\<close>

record process_input =
  pi_env :: delivery_env
  pi_answers :: "nat \<Rightarrow> channel_answer"
  pi_now :: int
  pi_save :: "js_error + unit"
  pi_job :: delivery_job

text \<open>The rows after the run, the status events emitted to users, and the deliveries that succeeded.\<close>

record process_outcome =
  po_result :: "js_error + unit"
  po_rows :: alert_rows
  po_emitted :: "(string \<times> delivery_row) list"
  po_sent :: "(string \<times> notification_channel) list"

definition outcome_status :: "bool \<Rightarrow> loop_state \<Rightarrow> delivery_status" where
  "outcome_status retriesLeft st =
     (if lo_failures st \<noteq> [] then if retriesLeft then Retrying else Failed
      else if lo_hasHeldChannel st then Held else Delivered)"

definition row_after :: "bool \<Rightarrow> int \<Rightarrow> loop_state \<Rightarrow> delivery_row \<Rightarrow> delivery_row" where
  "row_after retriesLeft now st row =
     row\<lparr>dr_deliveryAttempts := lo_attempts st, dr_deliveryStatus := outcome_status retriesLeft st,
         dr_deliveredAt := (if lo_failures st = [] \<and> \<not> lo_hasHeldChannel st then Some now else None)\<rparr>"

definition process_row :: "process_input \<Rightarrow> string \<Rightarrow> alert_rule \<Rightarrow> delivery_row \<Rightarrow> alert_rows \<Rightarrow> process_outcome" where
  "process_row inp user rule row rows =
     (let left = hasRetriesLeft (pi_job inp);
          key = jb_alertEventId (pi_job inp);
          (thrown, st) = channel_loop (pi_env inp) left (pi_answers inp) 0 (ar_channels rule)
            \<lparr>lo_attempts = dr_deliveryAttempts row, lo_failures = [], lo_hasHeldChannel = False, lo_sent = []\<rparr>;
          sent = map (\<lambda>c. (key, c)) (lo_sent st);
          row' = row_after left (pi_now inp) st row
      in case thrown of
           Some e \<Rightarrow> \<lparr>po_result = Inl e, po_rows = rows, po_emitted = [], po_sent = sent\<rparr>
         | None \<Rightarrow>
             (case pi_save inp of
                Inl e \<Rightarrow> \<lparr>po_result = Inl e, po_rows = rows, po_emitted = [], po_sent = sent\<rparr>
              | Inr _ \<Rightarrow> \<lparr>po_result = (case lo_failures st of [] \<Rightarrow> Inr () | failure # _ \<Rightarrow> Inl failure),
                   po_rows = jm_set rows key row', po_emitted = [(user, row')], po_sent = sent\<rparr>))"

definition process :: "process_input \<Rightarrow> alert_rows \<Rightarrow> process_outcome" where
  "process inp rows =
     (let stop = (\<lambda>r. \<lparr>po_result = r, po_rows = rows, po_emitted = [], po_sent = []\<rparr>)
      in case jm_get rows (jb_alertEventId (pi_job inp)) of
           None \<Rightarrow> stop (Inr ())
         | Some row \<Rightarrow>
             (case de_user (pi_env inp) (dr_watchId row) of
                None \<Rightarrow> stop (Inl (PlainError ''Alert owner no longer exists''))
              | Some user \<Rightarrow>
                  (case find (\<lambda>entry. ar_id entry = dr_ruleId row) (de_rules (pi_env inp) (dr_watchId row)) of
                     None \<Rightarrow> stop (Inl (PlainError ''Alert rule no longer exists''))
                   | Some rule \<Rightarrow> process_row inp user rule row rows)))"

text \<open>Any number of runs, retries included, of any jobs.\<close>

fun process_all :: "process_input list \<Rightarrow> alert_rows \<Rightarrow> alert_rows \<times> (string \<times> notification_channel) list" where
  "process_all [] rows = (rows, [])"
| "process_all (inp # inps) rows =
     (let out = process inp rows; (rows', sent) = process_all inps (po_rows out)
      in (rows', po_sent out @ sent))"

section \<open>The queue\<close>

definition enqueue ::
  "(string \<Rightarrow> string \<Rightarrow> 'q \<Rightarrow> (js_error + unit) \<times> 'q) option \<Rightarrow> string \<Rightarrow> bool \<Rightarrow> int \<Rightarrow> 'q \<Rightarrow> (js_error + unit) \<times> 'q" where
  "enqueue queue_add alertEventId force now q =
     (case queue_add of
        None \<Rightarrow> (Inr (), q)
      | Some add \<Rightarrow> add alertEventId (if force then alertEventId @ ''-'' @ int_to_string now else alertEventId) q)"

definition pending_alerts :: "alert_rows \<Rightarrow> delivery_row list" where
  "pending_alerts rows =
     take 500 (sort_key dr_createdAt
       (filter (\<lambda>a. dr_deliveryStatus a = Pending \<or> dr_deliveryStatus a = Retrying) (map snd rows)))"

text \<open>The loop of \<open>dispatchPending\<close>: the first rejected write ends it.\<close>

fun dispatch_loop ::
  "(string \<Rightarrow> string \<Rightarrow> 'q \<Rightarrow> (js_error + unit) \<times> 'q) option \<Rightarrow> int \<Rightarrow> delivery_row list \<Rightarrow> 'q \<Rightarrow> 'q" where
  "dispatch_loop queue_add now [] q = q"
| "dispatch_loop queue_add now (alert # alerts) q =
     (case enqueue queue_add (dr_id alert) False now q of
        (Inl _, q') \<Rightarrow> q'
      | (Inr _, q') \<Rightarrow> dispatch_loop queue_add now alerts q')"

definition dispatchPending ::
  "(string \<Rightarrow> string \<Rightarrow> 'q \<Rightarrow> (js_error + unit) \<times> 'q) option \<Rightarrow> bool \<Rightarrow> bool \<Rightarrow> int \<Rightarrow> alert_rows \<Rightarrow> 'q \<Rightarrow> 'q" where
  "dispatchPending queue_add isLeader dispatching now rows q =
     (if queue_add = None \<or> \<not> isLeader \<or> dispatching then q
      else dispatch_loop queue_add now (pending_alerts rows) q)"

definition startDispatchLoop :: "bool \<Rightarrow> js_num \<Rightarrow> js_num option \<Rightarrow> js_num option" where
  "startDispatchLoop hasQueue dispatchIntervalMs pendingTimer =
     (if \<not> hasQueue \<or> pendingTimer \<noteq> None then pendingTimer else Some dispatchIntervalMs)"

definition stopDispatchLoop :: "js_num option \<Rightarrow> js_num option" where
  "stopDispatchLoop pendingTimer = None"

section \<open>Settled channels stay settled\<close>

lemma settled_replace:
  "\<not> settled attempts (at_channel n) \<Longrightarrow>
   settled (replaceAttempt attempts n) c \<longleftrightarrow>
     (if c = at_channel n then at_status n = Delivered \<or> at_status n = Held else settled attempts c)"
  by (induction attempts) (auto simp: settled_def)

text \<open>A channel handled in a run: nothing settled is touched, and a successful delivery settles it.\<close>

lemma try_channel_effect:
  fixes env left channel answer st
  defines "st' \<equiv> try_channel env left channel answer st"
  assumes "\<not> settled (lo_attempts st) channel"
  shows "lo_sent st' = lo_sent st @ (if settled (lo_attempts st') channel then [channel] else [])"
    and "c \<noteq> channel \<Longrightarrow> settled (lo_attempts st') c \<longleftrightarrow> settled (lo_attempts st) c"
    and "lo_failures st' = [] \<longleftrightarrow> lo_failures st = [] \<and> settled (lo_attempts st') channel"
    and "lo_hasHeldChannel st' = lo_hasHeldChannel st"
  using assms(2) unfolding st'_def
  by (auto simp: try_channel_def settled_replace split: sum.splits)

lemma channel_loop_effect:
  assumes "channel_loop env left answers i channels st = (thrown, st')"
  shows "(\<exists>new. lo_sent st' = lo_sent st @ new \<and> distinct new
      \<and> (\<forall>c \<in> set new. \<not> settled (lo_attempts st) c \<and> settled (lo_attempts st') c))
    \<and> (\<forall>c. settled (lo_attempts st) c \<longrightarrow> settled (lo_attempts st') c)
    \<and> (thrown = None \<longrightarrow> lo_failures st' = [] \<longrightarrow>
        lo_failures st = [] \<and> (\<forall>c \<in> set channels. settled (lo_attempts st') c))"
  using assms
proof (induction channels arbitrary: i st)
  case Nil
  then show ?case by auto
next
  case (Cons ch chs)
  show ?case
  proof (cases "settled (lo_attempts st) ch")
    case True
    with Cons.prems have "channel_loop env left answers (Suc i) chs st = (thrown, st')" by simp
    from Cons.IH [OF this] True show ?thesis by auto
  next
    case new: False
    show ?thesis
    proof (cases "should_hold env ch (answers i)")
      case (Inl e)
      with Cons.prems new show ?thesis by auto
    next
      case (Inr hold)
      let ?held = "st\<lparr>lo_hasHeldChannel := True, lo_attempts := replaceAttempt (lo_attempts st)
        \<lparr>at_channel = ch, at_status = Held, at_attemptedAt = Some (ca_at (answers i)), at_error = None\<rparr>\<rparr>"
      let ?st = "if hold then ?held else try_channel env left ch (answers i) st"
      have run: "channel_loop env left answers (Suc i) chs ?st = (thrown, st')"
        using Cons.prems new Inr by (cases hold) simp_all
      have "\<forall>c. c \<noteq> ch \<longrightarrow> settled (lo_attempts ?st) c = settled (lo_attempts st) c"
        "lo_sent ?st = lo_sent st \<or> lo_sent ?st = lo_sent st @ [ch] \<and> settled (lo_attempts ?st) ch"
        "lo_failures ?st = [] \<longrightarrow> lo_failures st = [] \<and> settled (lo_attempts ?st) ch"
        using new by (simp_all add: try_channel_effect settled_replace)
      with run obtain s1 where run: "channel_loop env left answers (Suc i) chs s1 = (thrown, st')"
        and other: "\<And>c. c \<noteq> ch \<Longrightarrow> settled (lo_attempts s1) c = settled (lo_attempts st) c"
        and sent: "lo_sent s1 = lo_sent st \<or> lo_sent s1 = lo_sent st @ [ch] \<and> settled (lo_attempts s1) ch"
        and failures: "lo_failures s1 = [] \<longrightarrow> lo_failures st = [] \<and> settled (lo_attempts s1) ch"
        by meson
      from Cons.IH [OF run] obtain rest where rest: "lo_sent st' = lo_sent s1 @ rest" "distinct rest"
        "\<And>c. c \<in> set rest \<Longrightarrow> \<not> settled (lo_attempts s1) c \<and> settled (lo_attempts st') c"
        and mono: "\<And>c. settled (lo_attempts s1) c \<Longrightarrow> settled (lo_attempts st') c"
        and fin: "thrown = None \<longrightarrow> lo_failures st' = [] \<longrightarrow>
          lo_failures s1 = [] \<and> (\<forall>c \<in> set chs. settled (lo_attempts st') c)"
        by blast
      have old: "\<not> settled (lo_attempts st) c" if "c \<in> set rest" for c
        using rest(3) [OF that] other [of c] new by metis
      have "\<exists>new. lo_sent st' = lo_sent st @ new \<and> distinct new
          \<and> (\<forall>c \<in> set new. \<not> settled (lo_attempts st) c \<and> settled (lo_attempts st') c)"
        using sent
      proof
        assume "lo_sent s1 = lo_sent st"
        then show ?thesis using rest old by (intro exI [of _ rest]) simp
      next
        assume "lo_sent s1 = lo_sent st @ [ch] \<and> settled (lo_attempts s1) ch"
        moreover from this have "ch \<notin> set rest" using rest(3) by blast
        ultimately show ?thesis using rest old new mono by (intro exI [of _ "ch # rest"]) simp
      qed
      moreover have "settled (lo_attempts st) c \<longrightarrow> settled (lo_attempts st') c" for c
        using other [of c] mono [of c] new by metis
      ultimately show ?thesis using fin failures mono by simp
    qed
  qed
qed

lemma channel_loop_returns:
  "\<forall>i. \<exists>b. ca_hold (answers i) = Inr b \<Longrightarrow> fst (channel_loop env left answers i channels st) = None"
proof (induction channels arbitrary: i st)
  case (Cons ch chs)
  have "\<exists>b. should_hold env ch (answers i) = Inr b"
    using Cons.prems by (cases "(ch = In_app \<or> ch = Email) \<and> de_digestService env") (auto simp: should_hold_def)
  then obtain b where "should_hold env ch (answers i) = Inr b" by blast
  then show ?case using Cons by (cases b) simp_all
qed simp

definition settled_in :: "alert_rows \<Rightarrow> string \<times> notification_channel \<Rightarrow> bool" where
  "settled_in rows = (\<lambda>(key, c). case jm_get rows key of None \<Rightarrow> False | Some row \<Rightarrow> settled (dr_deliveryAttempts row) c)"

text \<open>No run fails to store what it did.\<close>

definition stored :: "process_input \<Rightarrow> bool" where
  "stored inp \<longleftrightarrow> pi_save inp = Inr () \<and> (\<forall>i. \<exists>b. ca_hold (pi_answers inp i) = Inr b)"

lemma process_row_effect:
  fixes user rule
  assumes "stored inp" "jm_get rows (jb_alertEventId (pi_job inp)) = Some row"
  defines "out \<equiv> process_row inp user rule row rows"
  shows "distinct (po_sent out) \<and> (\<forall>d \<in> set (po_sent out). \<not> settled_in rows d \<and> settled_in (po_rows out) d)
    \<and> (\<forall>d. settled_in rows d \<longrightarrow> settled_in (po_rows out) d)"
proof -
  let ?st0 = "\<lparr>lo_attempts = dr_deliveryAttempts row, lo_failures = [], lo_hasHeldChannel = False, lo_sent = []\<rparr>"
  obtain thrown st where run: "channel_loop (pi_env inp) (hasRetriesLeft (pi_job inp)) (pi_answers inp) 0
      (ar_channels rule) ?st0 = (thrown, st)" by force
  have "thrown = None" using channel_loop_returns [of "pi_answers inp"] assms(1) run by (metis fst_conv stored_def)
  moreover obtain new where "lo_sent st = new" "distinct new"
    "\<forall>c \<in> set new. \<not> settled (dr_deliveryAttempts row) c \<and> settled (lo_attempts st) c"
    and "\<forall>c. settled (dr_deliveryAttempts row) c \<longrightarrow> settled (lo_attempts st) c"
    using channel_loop_effect [OF run] by auto
  moreover from calculation run assms(1) have "po_sent out = map (\<lambda>c. (jb_alertEventId (pi_job inp), c)) (lo_sent st)"
    "po_rows out = jm_set rows (jb_alertEventId (pi_job inp))
       (row_after (hasRetriesLeft (pi_job inp)) (pi_now inp) st row)"
    by (simp_all add: out_def process_row_def stored_def Let_def)
  ultimately show ?thesis using assms(2)
    by (auto simp: settled_in_def row_after_def distinct_map inj_on_def)
qed

lemma process_effect:
  fixes rows
  assumes "stored inp"
  defines "out \<equiv> process inp rows"
  shows "distinct (po_sent out) \<and> (\<forall>d \<in> set (po_sent out). \<not> settled_in rows d \<and> settled_in (po_rows out) d)
    \<and> (\<forall>d. settled_in rows d \<longrightarrow> settled_in (po_rows out) d)"
proof -
  have "po_sent out = [] \<and> po_rows out = rows \<or> (\<exists>row user rule. jm_get rows (jb_alertEventId (pi_job inp)) = Some row
      \<and> out = process_row inp user rule row rows)"
    unfolding out_def process_def Let_def by (simp split: option.split) blast
  then show ?thesis using process_row_effect [OF assms(1)] by fastforce
qed

lemma process_all_effect:
  "\<forall>inp \<in> set inps. stored inp \<Longrightarrow>
   distinct (snd (process_all inps rows))
   \<and> (\<forall>d \<in> set (snd (process_all inps rows)). \<not> settled_in rows d \<and> settled_in (fst (process_all inps rows)) d)
   \<and> (\<forall>d. settled_in rows d \<longrightarrow> settled_in (fst (process_all inps rows)) d)"
proof (induction inps arbitrary: rows)
  case (Cons inp inps)
  from Cons.prems have "stored inp" by simp
  note one = process_effect [OF this, of rows]
  obtain rows' sent where rest: "process_all inps (po_rows (process inp rows)) = (rows', sent)" by force
  with Cons.IH [of "po_rows (process inp rows)"] Cons.prems
  have ih: "distinct sent" "\<And>d. d \<in> set sent \<Longrightarrow> \<not> settled_in (po_rows (process inp rows)) d \<and> settled_in rows' d"
    "\<And>d. settled_in (po_rows (process inp rows)) d \<Longrightarrow> settled_in rows' d"
    unfolding list.set by (metis fst_conv snd_conv insert_iff)+
  have all: "process_all (inp # inps) rows = (rows', po_sent (process inp rows) @ sent)"
    using rest by simp
  have "set (po_sent (process inp rows)) \<inter> set sent = {}" using one ih(2) by blast
  moreover have "\<not> settled_in rows d \<and> settled_in rows' d" if "d \<in> set (po_sent (process inp rows) @ sent)" for d
    using that one ih(2,3) [of d] by (auto simp del: split_paired_All)
  ultimately show ?case unfolding all using one ih(1,3) by simp
qed simp

section \<open>Properties\<close>

text \<open>
  C26. No notification is delivered twice: over any number of runs of any jobs, retries after failures
  and queued duplicates included, every alert is delivered successfully at most once on each channel,
  and never again on a channel already delivered or held; every delivery is recorded in the alert's
  attempts. The runs store what they did: the digest preferences can be read and the row saved.
\<close>

theorem delivered_at_most_once:
  assumes "\<forall>inp \<in> set inps. stored inp"
  shows "distinct (snd (process_all inps rows))
    \<and> (\<forall>d \<in> set (snd (process_all inps rows)). \<not> settled_in rows d \<and> settled_in (fst (process_all inps rows)) d)"
  using process_all_effect [OF assms, of rows] by blast

text \<open>A run that ends without an error has dealt with every channel of its rule.\<close>

lemma run_settles:
  assumes "po_result (process inp rows) = Inr ()" "jm_get rows (jb_alertEventId (pi_job inp)) = Some row"
    and "find (\<lambda>entry. ar_id entry = dr_ruleId row) (de_rules (pi_env inp) (dr_watchId row)) = Some rule"
  shows "\<exists>row'. jm_get (po_rows (process inp rows)) (jb_alertEventId (pi_job inp)) = Some row'
    \<and> dr_deliveryStatus row' \<in> {Delivered, Held}
    \<and> (\<forall>c \<in> set (ar_channels rule). settled (dr_deliveryAttempts row') c)"
proof -
  obtain user where out: "process inp rows = process_row inp user rule row rows"
    using assms by (auto simp: process_def Let_def split: option.splits)
  obtain thrown st where run: "channel_loop (pi_env inp) (hasRetriesLeft (pi_job inp)) (pi_answers inp) 0
      (ar_channels rule) \<lparr>lo_attempts = dr_deliveryAttempts row, lo_failures = [], lo_hasHeldChannel = False,
        lo_sent = []\<rparr> = (thrown, st)" by force
  have r: "thrown = None" "lo_failures st = []" "pi_save inp = Inr ()"
    using assms(1) run unfolding out
    by (auto simp: process_row_def Let_def split: option.splits sum.splits list.splits)
  then show ?thesis using channel_loop_effect [OF run] run unfolding out
    by (auto simp: process_row_def row_after_def outcome_status_def Let_def)
qed

section \<open>Runs\<close>

definition retry_rule :: alert_rule where
  "retry_rule = \<lparr>ar_id = ''r'', ar_type = Tx_failed, ar_asset = None, ar_threshold = None, ar_windowMinutes = None,
     ar_channels = [In_app, Webhook], ar_topic = None\<rparr>"

definition retry_env :: delivery_env where
  "retry_env = \<lparr>de_user = (\<lambda>_. Some ''u''), de_rules = (\<lambda>_. [retry_rule]), de_resend = False, de_digestService = True\<rparr>"

definition retry_row :: delivery_row where
  "retry_row = \<lparr>dr_id = ''a'', dr_watchId = ''w'', dr_ruleId = ''r'', dr_createdAt = 0, dr_deliveryStatus = Pending,
     dr_deliveryAttempts = [], dr_deliveredAt = None, dr_claimedAt = None, dr_claimedBy = None, dr_claimKey = None\<rparr>"

text \<open>The run number \<open>made\<close> of the alert's job, which has two: the alert is to be held, the webhook answers \<open>w\<close>.\<close>

definition retry_input :: "nat \<Rightarrow> bool \<Rightarrow> js_error + unit \<Rightarrow> process_input" where
  "retry_input made hold w = \<lparr>pi_env = retry_env,
     pi_answers = (\<lambda>_. \<lparr>ca_hold = Inr hold, ca_delivery = w, ca_at = int made\<rparr>), pi_now = int made, pi_save = Inr (),
     pi_job = \<lparr>jb_alertEventId = ''a'', jb_attempts = Some 2, jb_attemptsMade = made\<rparr>\<rparr>"

lemmas sample_defs = retry_input_def retry_env_def retry_rule_def retry_row_def process_def process_row_def
  row_after_def outcome_status_def try_channel_def should_hold_def deliver_def hasRetriesLeft_def settled_def
  error_text_def Let_def

theorem delivered_at_most_once_witness:
  "snd (process_all [retry_input 0 False (Inl (PlainError ''503'')), retry_input 1 False (Inr ())] [(''a'', retry_row)])
     = [(''a'', In_app), (''a'', Webhook)]
   \<and> distinct (snd (process_all [retry_input 0 False (Inl (PlainError ''503'')), retry_input 1 False (Inr ())]
       [(''a'', retry_row)]))"
proof
  let ?inps = "[retry_input 0 False (Inl (PlainError ''503'')), retry_input 1 False (Inr ())]"
  show "snd (process_all ?inps [(''a'', retry_row)]) = [(''a'', In_app), (''a'', Webhook)]"
    by (simp add: sample_defs)
  have "stored (retry_input made False w)" for made w
    unfolding stored_def retry_input_def by (intro conjI allI exI [of _ False]) simp_all
  then have "\<forall>inp \<in> set ?inps. stored inp" by simp
  from delivered_at_most_once [OF this] show "distinct (snd (process_all ?inps [(''a'', retry_row)]))" by blast
qed

text \<open>
  A held notification is lost by the retry of another channel: the first run holds the in-app
  notification and fails on the webhook; the second skips the held channel, delivers the webhook and
  marks the alert delivered, so no digest, which takes the alerts with status held, will contain it.
  When the retries run out the status is failed, with the same effect.
\<close>

lemma retry_loses_held:
  "(let (rows, sent) = process_all [retry_input 0 True (Inl (PlainError ''503'')), retry_input 1 True (Inr ())]
       [(''a'', retry_row)]
    in case jm_get rows ''a'' of
         Some row \<Rightarrow> dr_deliveryStatus row = Delivered \<and> sent = [(''a'', Webhook)]
           \<and> map (\<lambda>t. (at_channel t, at_status t)) (dr_deliveryAttempts row) = [(In_app, Held), (Webhook, Delivered)]
       | None \<Rightarrow> False)"
  by (simp add: sample_defs)

lemma failure_loses_held:
  "(let (rows, sent) = process_all [retry_input 1 True (Inl (PlainError ''503''))] [(''a'', retry_row)]
    in case jm_get rows ''a'' of
         Some row \<Rightarrow> dr_deliveryStatus row = Failed \<and> sent = []
           \<and> map (\<lambda>t. (at_channel t, at_status t)) (dr_deliveryAttempts row) = [(In_app, Held), (Webhook, Failed)]
       | None \<Rightarrow> False)"
  by (simp add: sample_defs)

end
