(* ===== verification/MonitorDigest.thy ===== *)
theory MonitorDigest
  imports AlertDelivery
begin

text \<open>
  The digest service of the monitor (\<open>monitor-digest.service.ts\<close>): a user's preferences, the
  decision to hold an alert, and the grouping of the held alerts into a digest whose details are
  capped. \<open>Intl\<close>, \<open>toISOString\<close> and the conversion of a payload value to text are parameters; the
  watch of an alert is always loaded.
\<close>

section \<open>Preferences\<close>

record digest_preferences =
  dp_digestEnabled :: bool
  dp_digestIntervalMinutes :: int
  dp_timezone :: string
  dp_quietHoursEnabled :: bool
  dp_quietHoursStart :: string
  dp_quietHoursEnd :: string
  dp_maxDigestAlerts :: int

definition DEFAULT_MAX_DIGEST_ALERTS :: int where "DEFAULT_MAX_DIGEST_ALERTS = 25"

definition default_preferences :: digest_preferences where
  "default_preferences =
     \<lparr>dp_digestEnabled = False, dp_digestIntervalMinutes = 60, dp_timezone = ''UTC'', dp_quietHoursEnabled = False,
      dp_quietHoursStart = ''22:00'', dp_quietHoursEnd = ''08:00'', dp_maxDigestAlerts = DEFAULT_MAX_DIGEST_ALERTS\<rparr>"

definition getPreferences :: "digest_preferences option \<Rightarrow> digest_preferences" where
  "getPreferences pref = (case pref of None \<Rightarrow> default_preferences | Some p \<Rightarrow> p)"

record update_preferences =
  up_digestEnabled :: "bool option"
  up_digestIntervalMinutes :: "int option"
  up_timezone :: "string option"
  up_quietHoursEnabled :: "bool option"
  up_quietHoursStart :: "string option"
  up_quietHoursEnd :: "string option"
  up_maxDigestAlerts :: "int option"

text \<open>A value that is absent or empty is not validated.\<close>

definition given_bad :: "string option \<Rightarrow> (string \<Rightarrow> bool) \<Rightarrow> bool" where
  "given_bad v ok \<longleftrightarrow> (case v of None \<Rightarrow> False | Some s \<Rightarrow> s \<noteq> [] \<and> \<not> ok s)"

definition given :: "'a option \<Rightarrow> 'a \<Rightarrow> 'a" where
  "given v old = (case v of Some x \<Rightarrow> x | None \<Rightarrow> old)"

definition merge_preferences :: "update_preferences \<Rightarrow> digest_preferences \<Rightarrow> digest_preferences" where
  "merge_preferences dto p =
     \<lparr>dp_digestEnabled = given (up_digestEnabled dto) (dp_digestEnabled p),
      dp_digestIntervalMinutes = given (up_digestIntervalMinutes dto) (dp_digestIntervalMinutes p),
      dp_timezone = given (up_timezone dto) (dp_timezone p),
      dp_quietHoursEnabled = given (up_quietHoursEnabled dto) (dp_quietHoursEnabled p),
      dp_quietHoursStart = given (up_quietHoursStart dto) (dp_quietHoursStart p),
      dp_quietHoursEnd = given (up_quietHoursEnd dto) (dp_quietHoursEnd p),
      dp_maxDigestAlerts = given (up_maxDigestAlerts dto) (dp_maxDigestAlerts p)\<rparr>"

definition updatePreferences ::
  "(string \<Rightarrow> bool) \<Rightarrow> update_preferences \<Rightarrow> digest_preferences option \<Rightarrow> js_error + digest_preferences" where
  "updatePreferences isValidTimezone dto pref =
     (if given_bad (up_timezone dto) isValidTimezone
      then Inl (BadRequest (''Invalid IANA timezone: \"'' @ the (up_timezone dto) @ ''\"''))
      else if given_bad (up_quietHoursStart dto) (\<lambda>s. match_time s \<noteq> None)
      then Inl (BadRequest ''quietHoursStart must be in HH:mm 24-hour format'')
      else if given_bad (up_quietHoursEnd dto) (\<lambda>s. match_time s \<noteq> None)
      then Inl (BadRequest ''quietHoursEnd must be in HH:mm 24-hour format'')
      else Inr (merge_preferences dto (getPreferences pref)))"

definition shouldHoldAlert ::
  "(string \<Rightarrow> bool) \<Rightarrow> (int \<Rightarrow> string \<Rightarrow> (string \<times> string) list) \<Rightarrow> digest_preferences option \<Rightarrow> int \<Rightarrow> js_error + bool" where
  "shouldHoldAlert isValidTimezone formatToParts stored_pref now =
     (let pref = getPreferences stored_pref in
      if dp_digestEnabled pref then Inr True
      else if dp_quietHoursEnabled pref
      then isWithinQuietHours isValidTimezone formatToParts now (dp_timezone pref)
             (dp_quietHoursStart pref) (dp_quietHoursEnd pref)
      else Inr False)"

section \<open>Grouping\<close>

record labelled_watch = watch +
  lw_label :: "string option"

record held_alert =
  ha_id :: string
  ha_watchId :: string
  ha_ruleId :: string
  ha_createdAt :: int
  ha_payload :: json
  ha_watch :: labelled_watch

record digest_entry =
  en_id :: string
  en_ruleId :: string
  en_ruleType :: string
  en_watchId :: string
  en_watchLabel :: string
  en_createdAt :: string
  en_isUnresolved :: bool
  en_isRefiring :: bool
  en_summary :: string
  en_payload :: json

record rule_group =
  rg_ruleId :: string
  rg_ruleType :: string
  rg_totalAlerts :: nat
  rg_unresolvedCount :: nat
  rg_refiringCount :: nat
  rg_alerts :: "digest_entry list"
  rg_truncatedCount :: nat

record watch_group =
  wg_watchId :: string
  wg_watchLabel :: string
  wg_publicKey :: string
  wg_rules :: "rule_group list"
  wg_totalAlerts :: nat

record digest_payload =
  dg_flushId :: string
  dg_timestamp :: string
  dg_timezone :: string
  dg_totalAlerts :: nat
  dg_displayedAlerts :: nat
  dg_summarizedCount :: nat
  dg_groups :: "watch_group list"

fun rule_type_text :: "alert_rule_type \<Rightarrow> string" where
  "rule_type_text Amount_received_gte = ''amount_received_gte''"
| "rule_type_text Amount_sent_gte = ''amount_sent_gte''"
| "rule_type_text Asset_received = ''asset_received''"
| "rule_type_text Tx_failed = ''tx_failed''"
| "rule_type_text Any_activity = ''any_activity''"
| "rule_type_text Event_topic_equals = ''event_topic_equals''"
| "rule_type_text Failed_contract_call = ''failed_contract_call''"
| "rule_type_text Balance_above = ''balance_above''"
| "rule_type_text Balance_below = ''balance_below''"
| "rule_type_text Transaction_count = ''transaction_count''"

text \<open>\<open>a || b\<close> on texts, and a payload field's truth.\<close>

definition or_text :: "string option \<Rightarrow> string \<Rightarrow> string" where
  "or_text a b = (case a of Some s \<Rightarrow> if s = [] then b else s | None \<Rightarrow> b)"

definition field_truthy :: "json \<Rightarrow> string \<Rightarrow> bool" where
  "field_truthy p k \<longleftrightarrow> (case field p k of None \<Rightarrow> False | Some v \<Rightarrow> truthy v)"

definition rule_type_of :: "held_alert \<Rightarrow> string" where
  "rule_type_of alert =
     (case find (\<lambda>r. ar_id r = ha_ruleId alert) (wa_alertRules (ha_watch alert)) of
        Some rule \<Rightarrow> rule_type_text (ar_type rule)
      | None \<Rightarrow> or_text (case field (ha_payload alert) ''type'' of Some (J_str t) \<Rightarrow> Some t | _ \<Rightarrow> None) ''alert'')"

definition watch_label_of :: "labelled_watch \<Rightarrow> string \<Rightarrow> string" where
  "watch_label_of w watchId = or_text (lw_label w) (or_text (Some (wa_publicKey w)) watchId)"

text \<open>\<open>`${p.k ?? dflt}`\<close>.\<close>

definition field_text :: "(json \<Rightarrow> string) \<Rightarrow> json \<Rightarrow> string \<Rightarrow> string \<Rightarrow> string" where
  "field_text to_text p k dflt =
     (case field p k of None \<Rightarrow> dflt | Some v \<Rightarrow> if v = J_null then dflt else to_text v)"

definition buildAlertSummary :: "(json \<Rightarrow> string) \<Rightarrow> held_alert \<Rightarrow> string \<Rightarrow> bool \<Rightarrow> bool \<Rightarrow> string" where
  "buildAlertSummary to_text alert ruleType isUnresolved isRefiring =
     (let p = ha_payload alert;
          tag = (if isRefiring then [''[Re-firing]''] else if isUnresolved then [''[Unresolved]''] else []);
          body =
            (if ruleType = ''balance_below'' \<or> ruleType = ''balance_above''
             then ''Balance '' @ field_text to_text p ''observedValue'' ''unknown'' @ '' '' @ field_text to_text p ''asset'' ''XLM''
                    @ '' (threshold: '' @ field_text to_text p ''threshold'' ''?'' @ '')''
             else if ruleType = ''amount_received_gte'' \<or> ruleType = ''asset_received''
             then ''Received '' @ field_text to_text p ''amount'' (field_text to_text p ''receivedAmount'' []) @ '' ''
                    @ field_text to_text p ''asset'' []
             else if ruleType = ''tx_failed'' \<or> ruleType = ''failed_contract_call''
             then ''Failed transaction: '' @ field_text to_text p ''transactionHash'' (ha_id alert)
             else ''Rule '' @ ruleType @ '' triggered'')
      in trim (join_with '' '' (tag @ [body])))"

definition is_active :: "held_alert \<Rightarrow> bool" where
  "is_active alert \<longleftrightarrow>
     (case wa_alertState (ha_watch alert) of None \<Rightarrow> False | Some st \<Rightarrow> jm_get st (ha_ruleId alert) = Some True)"

definition rule_key :: "held_alert \<Rightarrow> string" where
  "rule_key alert = ha_watchId alert @ '':'' @ ha_ruleId alert"

definition entry_of :: "(json \<Rightarrow> string) \<Rightarrow> (int \<Rightarrow> string) \<Rightarrow> bool \<Rightarrow> held_alert \<Rightarrow> digest_entry" where
  "entry_of to_text to_iso seen alert =
     (let ruleType = rule_type_of alert;
          isStateRule = ruleType \<in> {''balance_above'', ''balance_below'', ''transaction_count''};
          isUnresolved = is_active alert \<or> field_truthy (ha_payload alert) ''unresolved''
            \<or> field_truthy (ha_payload alert) ''isUnresolved'';
          isRefiring = field_truthy (ha_payload alert) ''refiring'' \<or> field_truthy (ha_payload alert) ''isRefiring''
            \<or> isStateRule \<and> seen \<and> is_active alert
      in \<lparr>en_id = ha_id alert, en_ruleId = ha_ruleId alert, en_ruleType = ruleType, en_watchId = ha_watchId alert,
          en_watchLabel = watch_label_of (ha_watch alert) (ha_watchId alert), en_createdAt = to_iso (ha_createdAt alert),
          en_isUnresolved = isUnresolved, en_isRefiring = isRefiring,
          en_summary = buildAlertSummary to_text alert ruleType isUnresolved isRefiring, en_payload = ha_payload alert\<rparr>)"

text \<open>The first loop: watches in order of their first alert, their rules likewise.\<close>

type_synonym watch_map = "(string, labelled_watch \<times> (string, digest_entry list) jmap) jmap"

definition entries_of :: "('k, 'a list) jmap \<Rightarrow> 'k \<Rightarrow> 'a list" where
  "entries_of m k = (case jm_get m k of None \<Rightarrow> [] | Some es \<Rightarrow> es)"

definition group_alert ::
  "(json \<Rightarrow> string) \<Rightarrow> (int \<Rightarrow> string) \<Rightarrow> held_alert \<Rightarrow> watch_map \<times> string set \<Rightarrow> watch_map \<times> string set" where
  "group_alert to_text to_iso alert s =
     (let (m, seen) = s;
          (w, rules) = (case jm_get m (ha_watchId alert) of None \<Rightarrow> (ha_watch alert, []) | Some x \<Rightarrow> x);
          entry = entry_of to_text to_iso (rule_key alert \<in> seen) alert
      in (jm_set m (ha_watchId alert) (w, jm_set rules (ha_ruleId alert) (entries_of rules (ha_ruleId alert) @ [entry])),
          insert (rule_key alert) seen))"

text \<open>The second loop: the details of at most \<open>maxAlerts\<close> entries, the others counted.\<close>

definition rule_group_of :: "int \<Rightarrow> nat \<Rightarrow> string \<Rightarrow> digest_entry list \<Rightarrow> rule_group" where
  "rule_group_of maxAlerts displayedCount ruleId ruleAlerts =
     (let shown = take (nat (max 0 (maxAlerts - int displayedCount))) ruleAlerts
      in \<lparr>rg_ruleId = ruleId, rg_ruleType = or_text (case shown of e # _ \<Rightarrow> Some (en_ruleType e) | [] \<Rightarrow> None) ''alert'',
          rg_totalAlerts = length ruleAlerts, rg_unresolvedCount = length (filter en_isUnresolved ruleAlerts),
          rg_refiringCount = length (filter en_isRefiring ruleAlerts), rg_alerts = shown,
          rg_truncatedCount = length ruleAlerts - length shown\<rparr>)"

fun rule_groups :: "int \<Rightarrow> nat \<Rightarrow> (string \<times> digest_entry list) list \<Rightarrow> rule_group list \<times> nat" where
  "rule_groups maxAlerts displayedCount [] = ([], displayedCount)"
| "rule_groups maxAlerts displayedCount ((ruleId, ruleAlerts) # rules) =
     (let g = rule_group_of maxAlerts displayedCount ruleId ruleAlerts;
          (gs, d) = rule_groups maxAlerts (displayedCount + length (rg_alerts g)) rules
      in (g # gs, d))"

fun watch_groups :: "int \<Rightarrow> nat \<Rightarrow> watch_map \<Rightarrow> watch_group list \<times> nat" where
  "watch_groups maxAlerts displayedCount [] = ([], displayedCount)"
| "watch_groups maxAlerts displayedCount ((watchId, w, rules) # m) =
     (let (rgs, d1) = rule_groups maxAlerts displayedCount rules;
          (wgs, d2) = watch_groups maxAlerts d1 m
      in (\<lparr>wg_watchId = watchId, wg_watchLabel = watch_label_of w watchId, wg_publicKey = wa_publicKey w,
           wg_rules = rgs, wg_totalAlerts = sum_list (map (length \<circ> snd) rules)\<rparr> # wgs, d2))"

definition group_all :: "(json \<Rightarrow> string) \<Rightarrow> (int \<Rightarrow> string) \<Rightarrow> held_alert list \<Rightarrow> watch_map \<times> string set" where
  "group_all to_text to_iso alerts = foldl (\<lambda>s a. group_alert to_text to_iso a s) ([], {}) alerts"

definition groupAlerts ::
  "(json \<Rightarrow> string) \<Rightarrow> (int \<Rightarrow> string) \<Rightarrow> int \<Rightarrow> held_alert list \<Rightarrow> int \<Rightarrow> string \<Rightarrow> string \<Rightarrow> digest_payload" where
  "groupAlerts to_text to_iso now alerts maxAlerts timezone flushId =
     (let (groups, displayedCount) = watch_groups maxAlerts 0 (fst (group_all to_text to_iso alerts))
      in \<lparr>dg_flushId = flushId, dg_timestamp = to_iso now, dg_timezone = timezone, dg_totalAlerts = length alerts,
          dg_displayedAlerts = displayedCount, dg_summarizedCount = length alerts - displayedCount, dg_groups = groups\<rparr>)"

section \<open>Stored preferences can be read\<close>

definition times_ok :: "digest_preferences option \<Rightarrow> bool" where
  "times_ok pref \<longleftrightarrow> (let p = getPreferences pref in
     match_time (dp_quietHoursStart p) \<noteq> None \<and> match_time (dp_quietHoursEnd p) \<noteq> None)"

lemma match_time_trim: "match_time s \<noteq> None \<Longrightarrow> trim s = s"
proof -
  assume m: "match_time s \<noteq> None"
  then obtain a b c d e where s: "s = [a, b, c, d, e]" and
    "a \<in> {CHR ''0'', CHR ''1'', CHR ''2''}" "is_digit e"
    by (auto simp: match_time_def split: list.splits if_splits)
  then show ?thesis using is_digit_not_space [of e]
    by (intro trim_id) (auto simp: is_space_def)
qed

lemma quiet_hours_defined:
  assumes "match_time a \<noteq> None" "match_time b \<noteq> None"
  shows "\<exists>r. isWithinQuietHours valid parts now tz a b = Inr r"
  using assms by (auto simp: isWithinQuietHours_def parseTimeMinutes_def match_time_trim Let_def split: option.splits)

text \<open>Preferences that were readable stay readable after an accepted update without an empty time.\<close>

lemma given_ok: "\<not> given_bad v ok \<Longrightarrow> v \<noteq> Some [] \<Longrightarrow> ok old \<Longrightarrow> ok (given v old)"
  by (cases v) (auto simp: given_bad_def given_def)

lemma update_keeps_times:
  assumes "updatePreferences valid dto pref = Inr p" "times_ok pref"
    and "up_quietHoursStart dto \<noteq> Some []" "up_quietHoursEnd dto \<noteq> Some []"
  shows "times_ok (Some p)" "\<exists>b. shouldHoldAlert valid parts (Some p) now = Inr b"
proof -
  from assms(1) have "\<not> given_bad (up_quietHoursStart dto) (\<lambda>s. match_time s \<noteq> None)"
    "\<not> given_bad (up_quietHoursEnd dto) (\<lambda>s. match_time s \<noteq> None)" "p = merge_preferences dto (getPreferences pref)"
    by (simp_all add: updatePreferences_def split: if_splits)
  then have times: "match_time (dp_quietHoursStart p) \<noteq> None" "match_time (dp_quietHoursEnd p) \<noteq> None"
    using given_ok [of _ "\<lambda>s. match_time s \<noteq> None"] assms(2-4)
    by (simp_all add: merge_preferences_def times_ok_def Let_def)
  then show "times_ok (Some p)" by (simp add: times_ok_def getPreferences_def Let_def)
  show "\<exists>b. shouldHoldAlert valid parts (Some p) now = Inr b"
    using quiet_hours_defined [OF times]
    by (cases "dp_digestEnabled p"; cases "dp_quietHoursEnabled p") (auto simp: shouldHoldAlert_def getPreferences_def Let_def)
qed

text \<open>An empty time is accepted and stored; from then on the decision throws for every alert of the user.\<close>

lemma empty_time_accepted:
  "\<exists>p. updatePreferences (\<lambda>_. True) \<lparr>up_digestEnabled = None, up_digestIntervalMinutes = None, up_timezone = None,
      up_quietHoursEnabled = Some True, up_quietHoursStart = Some [], up_quietHoursEnd = None, up_maxDigestAlerts = None\<rparr>
      None = Inr p
    \<and> (\<forall>parts now. \<exists>e. shouldHoldAlert (\<lambda>_. True) parts (Some p) now = Inl e)"
  by (simp add: updatePreferences_def given_bad_def merge_preferences_def given_def getPreferences_def
      default_preferences_def shouldHoldAlert_def isWithinQuietHours_def parseTimeMinutes_def trim_def match_time_def)

section \<open>The groups partition the alerts\<close>

lemma entries_of_set [simp]: "entries_of (jm_set m k es) k' = (if k' = k then es else entries_of m k')"
  by (simp add: entries_of_def)

text \<open>A measure summed over a map changes by what its entry changes by.\<close>

lemma sum_jm_set:
  fixes f :: "'v \<Rightarrow> nat"
  assumes "jm_ok m"
  shows "sum_list (map (f \<circ> snd) (jm_set m k v)) + (case jm_get m k of None \<Rightarrow> 0 | Some u \<Rightarrow> f u)
    = sum_list (map (f \<circ> snd) m) + f v"
  using assms
proof (induction m k v rule: jm_set.induct)
  case (2 k' v' m k v)
  then show ?case by (cases "k' = k") (auto simp: jm_ok_def)
qed simp

definition map_entries :: "watch_map \<Rightarrow> string \<Rightarrow> string \<Rightarrow> digest_entry list" where
  "map_entries m w r = (case jm_get m w of None \<Rightarrow> [] | Some (_, rules) \<Rightarrow> entries_of rules r)"

definition map_count :: "watch_map \<Rightarrow> nat" where
  "map_count m = sum_list (map ((\<lambda>(w, rules). sum_list (map (length \<circ> snd) rules)) \<circ> snd) m)"

definition map_ok :: "watch_map \<Rightarrow> bool" where
  "map_ok m \<longleftrightarrow> jm_ok m \<and> (\<forall>k w rules. jm_get m k = Some (w, rules) \<longrightarrow> jm_ok rules)"

lemma group_alert_effect:
  fixes to_text to_iso alert m seen
  defines "m' \<equiv> fst (group_alert to_text to_iso alert (m, seen))"
  assumes "map_ok m"
  shows "map_ok m'"
    and "map en_id (map_entries m' w r) = map en_id (map_entries m w r)
      @ (if ha_watchId alert = w \<and> ha_ruleId alert = r then [ha_id alert] else [])"
    and "map_count m' = Suc (map_count m)"
proof -
  obtain w0 rules where old: "(case jm_get m (ha_watchId alert) of None \<Rightarrow> (ha_watch alert, []) | Some x \<Rightarrow> x) = (w0, rules)"
    by force
  let ?e = "entry_of to_text to_iso (rule_key alert \<in> seen) alert"
  let ?rules = "jm_set rules (ha_ruleId alert) (entries_of rules (ha_ruleId alert) @ [?e])"
  have m': "m' = jm_set m (ha_watchId alert) (w0, ?rules)" using old by (simp add: m'_def group_alert_def)
  have rules: "jm_ok rules" "map_entries m (ha_watchId alert) r = entries_of rules r" for r
    using old assms(2) by (auto simp: map_ok_def map_entries_def entries_of_def split: option.splits)
  have e: "en_id ?e = ha_id alert" by (simp add: entry_of_def Let_def)
  show "map_ok m'" using assms(2) rules by (auto simp: m' map_ok_def)
  show "map en_id (map_entries m' w r) = map en_id (map_entries m w r)
      @ (if ha_watchId alert = w \<and> ha_ruleId alert = r then [ha_id alert] else [])"
    using rules(2) e by (auto simp: m' map_entries_def)
  have "sum_list (map (length \<circ> snd) ?rules) = Suc (sum_list (map (length \<circ> snd) rules))"
    using sum_jm_set [OF rules(1), of length "ha_ruleId alert" "entries_of rules (ha_ruleId alert) @ [?e]"]
    by (simp add: entries_of_def split: option.splits)
  then show "map_count m' = Suc (map_count m)"
    using sum_jm_set [of m "\<lambda>(w, rules). sum_list (map (length \<circ> snd) rules)" "ha_watchId alert" "(w0, ?rules)"] assms(2) old
    by (auto simp: m' map_count_def map_ok_def split: option.splits)
qed

lemma group_all_effect:
  fixes to_text to_iso alerts
  defines "m \<equiv> fst (group_all to_text to_iso alerts)"
  shows "map_ok m" "map_count m = length alerts"
    and "map en_id (map_entries m w r) = map ha_id (filter (\<lambda>a. ha_watchId a = w \<and> ha_ruleId a = r) alerts)"
  unfolding m_def
proof (induction alerts rule: rev_induct)
  case Nil
  { case 1 then show ?case by (simp add: group_all_def map_ok_def) }
  { case 2 then show ?case by (simp add: group_all_def map_count_def) }
  { case 3 then show ?case by (simp add: group_all_def map_entries_def) }
next
  case (snoc a alerts)
  obtain m seen where m: "group_all to_text to_iso alerts = (m, seen)" by force
  then have step: "group_all to_text to_iso (alerts @ [a]) = group_alert to_text to_iso a (m, seen)"
    by (simp add: group_all_def)
  have ok: "map_ok m" using snoc(1) m by simp
  note eff = group_alert_effect [OF ok, of to_text to_iso a seen]
  { case 1 then show ?case using eff(1) step by simp }
  { case 2 then show ?case using eff(3) step snoc(2) m by simp }
  { case 3 then show ?case using eff(2) step snoc(3) m by simp }
qed

section \<open>The details are capped, the counts are not\<close>

text \<open>What a rule group says about the entries it stands for.\<close>

definition group_of_entries :: "rule_group \<Rightarrow> string \<times> digest_entry list \<Rightarrow> bool" where
  "group_of_entries g e \<longleftrightarrow> rg_ruleId g = fst e \<and> rg_totalAlerts g = length (snd e)
     \<and> rg_alerts g = take (length (rg_alerts g)) (snd e) \<and> rg_truncatedCount g + length (rg_alerts g) = length (snd e)"

abbreviation shown_in :: "rule_group list \<Rightarrow> nat" where
  "shown_in gs \<equiv> sum_list (map (length \<circ> rg_alerts) gs)"

lemma min_min_add: "min N (min N a + b) = min N (a + b :: nat)"
  by (simp add: min_def)

lemma rule_groups_effect:
  assumes "rule_groups maxAlerts d rules = (gs, d')"
  shows "list_all2 group_of_entries gs rules" "d' = d + shown_in gs"
    "d \<le> nat maxAlerts \<Longrightarrow> d' = min (nat maxAlerts) (d + sum_list (map (length \<circ> snd) rules))"
proof -
  have "list_all2 group_of_entries gs rules \<and> d' = d + shown_in gs
    \<and> (d \<le> nat maxAlerts \<longrightarrow> d' = min (nat maxAlerts) (d + sum_list (map (length \<circ> snd) rules)))"
    using assms
  proof (induction maxAlerts d rules arbitrary: gs rule: rule_groups.induct)
    case (2 maxAlerts d ruleId es rules)
    let ?g = "rule_group_of maxAlerts d ruleId es"
    obtain gs' where gs: "gs = ?g # gs'" "rule_groups maxAlerts (d + length (rg_alerts ?g)) rules = (gs', d')"
      using "2.prems" by (auto simp: Let_def split: prod.splits)
    have g: "group_of_entries ?g (ruleId, es)" "length (rg_alerts ?g) = min (length es) (nat (maxAlerts - int d))"
      by (auto simp: rule_group_of_def group_of_entries_def Let_def min_def max_def)
    have "d + length (rg_alerts ?g) = min (nat maxAlerts) (d + length es)" if "d \<le> nat maxAlerts"
      using that unfolding g(2) by linarith
    moreover obtain ih: "list_all2 group_of_entries gs' rules" "d' = d + length (rg_alerts ?g) + shown_in gs'"
      "d + length (rg_alerts ?g) \<le> nat maxAlerts \<longrightarrow>
        d' = min (nat maxAlerts) (d + length (rg_alerts ?g) + sum_list (map (length \<circ> snd) rules))"
      using "2.IH" [OF refl gs(2)] by blast
    ultimately have "d \<le> nat maxAlerts \<longrightarrow> d' = min (nat maxAlerts) (d + length es + sum_list (map (length \<circ> snd) rules))"
      using min_min_add by (metis min.cobounded1)
    then show ?case using ih(1,2) g(1) gs(1) by (simp add: add.assoc o_def)
  qed simp
  then show "list_all2 group_of_entries gs rules" "d' = d + shown_in gs"
    "d \<le> nat maxAlerts \<Longrightarrow> d' = min (nat maxAlerts) (d + sum_list (map (length \<circ> snd) rules))"
    by auto
qed

definition group_of_watch :: "watch_group \<Rightarrow> string \<times> labelled_watch \<times> (string, digest_entry list) jmap \<Rightarrow> bool" where
  "group_of_watch g e \<longleftrightarrow> wg_watchId g = fst e \<and> list_all2 group_of_entries (wg_rules g) (snd (snd e))
     \<and> wg_totalAlerts g = sum_list (map (length \<circ> snd) (snd (snd e)))"

lemma watch_groups_effect:
  assumes "watch_groups maxAlerts d m = (gs, d')"
  shows "list_all2 group_of_watch gs m \<and> d' = d + sum_list (map (shown_in \<circ> wg_rules) gs)
    \<and> (d \<le> nat maxAlerts \<longrightarrow> d' = min (nat maxAlerts) (d + map_count m))"
  using assms
proof (induction maxAlerts d m arbitrary: gs rule: watch_groups.induct)
  case (2 maxAlerts d watchId w rules m)
  obtain rgs d1 where rgs: "rule_groups maxAlerts d rules = (rgs, d1)" by force
  obtain gs' where gs: "watch_groups maxAlerts d1 m = (gs', d')" "gs = \<lparr>wg_watchId = watchId,
      wg_watchLabel = watch_label_of w watchId, wg_publicKey = wa_publicKey w, wg_rules = rgs,
      wg_totalAlerts = sum_list (map (length \<circ> snd) rules)\<rparr> # gs'"
    using "2.prems" rgs by (auto split: prod.splits)
  have mc: "map_count ((watchId, w, rules) # m) = sum_list (map (length \<circ> snd) rules) + map_count m"
    by (simp add: map_count_def)
  obtain ih: "list_all2 group_of_watch gs' m" "d' = d1 + sum_list (map (shown_in \<circ> wg_rules) gs')"
    "d1 \<le> nat maxAlerts \<longrightarrow> d' = min (nat maxAlerts) (d1 + map_count m)"
    using "2.IH" [OF rgs [symmetric] refl gs(1)] by blast
  note r = rule_groups_effect [OF rgs]
  have "d \<le> nat maxAlerts \<longrightarrow> d' = min (nat maxAlerts) (d + map_count ((watchId, w, rules) # m))"
    using r(3) ih(3) min_min_add unfolding mc by (metis add.assoc min.cobounded1)
  moreover have "list_all2 group_of_watch gs ((watchId, w, rules) # m)"
    using r(1) ih(1) by (simp add: gs(2) group_of_watch_def)
  moreover have "d' = d + sum_list (map (shown_in \<circ> wg_rules) gs)"
    using r(2) ih(2) by (simp add: gs(2))
  ultimately show ?case by blast
qed (simp add: map_count_def)

lemma group_totals:
  "list_all2 group_of_watch gs m \<Longrightarrow> sum_list (map wg_totalAlerts gs) = map_count m \<and> map wg_watchId gs = map fst m"
  by (induction rule: list_all2_induct) (auto simp: group_of_watch_def map_count_def)

lemma rule_ids: "list_all2 group_of_entries gs rules \<Longrightarrow> map rg_ruleId gs = map fst rules"
  by (induction rule: list_all2_induct) (auto simp: group_of_entries_def)

text \<open>
  A digest accounts for every alert: its total is the number of alerts and the sum of its groups'
  totals; it shows the details of min(max(0, maxAlerts), total) alerts and counts the others; every
  watch and every rule of a watch has one group; the total of a rule's group is the number of the
  alerts of that watch and rule, and it shows the first of them, in order.
\<close>

theorem digest_accounts_for_all:
  fixes alerts :: "held_alert list"
  defines "own \<equiv> \<lambda>g rg. filter (\<lambda>a. ha_watchId a = wg_watchId g \<and> ha_ruleId a = rg_ruleId rg) alerts"
  assumes "groupAlerts to_text to_iso now alerts maxAlerts timezone flushId = d"
  shows "dg_totalAlerts d = length alerts \<and> dg_displayedAlerts d = min (nat maxAlerts) (length alerts)
    \<and> dg_displayedAlerts d + dg_summarizedCount d = length alerts
    \<and> sum_list (map wg_totalAlerts (dg_groups d)) = length alerts
    \<and> sum_list (map (shown_in \<circ> wg_rules) (dg_groups d)) = dg_displayedAlerts d
    \<and> distinct (map wg_watchId (dg_groups d))
    \<and> (\<forall>g \<in> set (dg_groups d). distinct (map rg_ruleId (wg_rules g))
        \<and> (\<forall>rg \<in> set (wg_rules g). rg_totalAlerts rg = length (own g rg)
            \<and> map en_id (rg_alerts rg) = take (length (rg_alerts rg)) (map ha_id (own g rg))
            \<and> rg_truncatedCount rg + length (rg_alerts rg) = length (own g rg)))"
proof -
  let ?m = "fst (group_all to_text to_iso alerts)"
  note m = group_all_effect [of to_text to_iso alerts]
  obtain gs n where gs: "watch_groups maxAlerts 0 ?m = (gs, n)" by force
  have d: "dg_totalAlerts d = length alerts" "dg_displayedAlerts d = n" "dg_summarizedCount d = length alerts - n"
    "dg_groups d = gs"
    using assms(2) [symmetric] gs by (simp_all add: groupAlerts_def)
  have eff: "list_all2 group_of_watch gs ?m" "n = sum_list (map (shown_in \<circ> wg_rules) gs)"
    "n = min (nat maxAlerts) (length alerts)"
    using watch_groups_effect [OF gs] m(2) by simp_all
  have groups: "distinct (map rg_ruleId (wg_rules g))
        \<and> (\<forall>rg \<in> set (wg_rules g). rg_totalAlerts rg = length (own g rg)
            \<and> map en_id (rg_alerts rg) = take (length (rg_alerts rg)) (map ha_id (own g rg))
            \<and> rg_truncatedCount rg + length (rg_alerts rg) = length (own g rg))" if "g \<in> set gs" for g
  proof -
    from that eff(1) obtain k w rules where e: "(k, w, rules) \<in> set ?m" "group_of_watch g (k, w, rules)"
      by (metis list_all2_iff in_set_zip in_set_conv_nth list_all2_nthD2 list_all2_nthD prod_cases3)
    have look: "jm_get ?m k = Some (w, rules)" "jm_ok rules"
      using m(1) e(1) jm_get_in by (fastforce simp: map_ok_def)+
    have ids: "map rg_ruleId (wg_rules g) = map fst rules" using e(2) by (simp add: group_of_watch_def rule_ids)
    have "rg_totalAlerts rg = length (own g rg)
        \<and> map en_id (rg_alerts rg) = take (length (rg_alerts rg)) (map ha_id (own g rg))
        \<and> rg_truncatedCount rg + length (rg_alerts rg) = length (own g rg)" if rg: "rg \<in> set (wg_rules g)" for rg
    proof -
      have "list_all2 group_of_entries (wg_rules g) rules" using e(2) by (simp add: group_of_watch_def)
      with rg obtain r es where es: "(r, es) \<in> set rules" "group_of_entries rg (r, es)"
        by (metis in_set_conv_nth list_all2_nthD list_all2_lengthD prod.collapse)
      have "entries_of rules r = es" using es(1) look(2) by (simp add: entries_of_def jm_get_in)
      then have "map en_id es = map ha_id (own g rg)"
        using m(3) [of k r] look(1) e(2) es(2)
        by (simp add: map_entries_def own_def group_of_watch_def group_of_entries_def)
      moreover from this have "length es = length (own g rg)" by (metis length_map)
      ultimately show ?thesis using es(2) by (simp add: group_of_entries_def) (metis take_map)
    qed
    then show ?thesis using ids look(2) by (simp add: jm_ok_def)
  qed
  have "distinct (map wg_watchId gs)" "sum_list (map wg_totalAlerts gs) = length alerts"
    using group_totals [OF eff(1)] m(1,2) by (simp_all add: map_ok_def jm_ok_def)
  then show ?thesis using eff(2,3) groups by (simp add: d)
qed

definition sample_alert :: "string \<Rightarrow> string \<Rightarrow> held_alert" where
  "sample_alert i r = \<lparr>ha_id = i, ha_watchId = ''w'', ha_ruleId = r, ha_createdAt = 0, ha_payload = J_obj [],
     ha_watch = \<lparr>wa_id = ''w'', wa_publicKey = ''GA'', wa_type = Account_watch, wa_network = Net_testnet,
       wa_alertRules = [], wa_alertState = None, wa_lastEvaluatedAt = None, lw_label = None\<rparr>\<rparr>"

text \<open>Three alerts of one watch, one of them between two of another rule, and room for one.\<close>

theorem digest_accounts_for_all_witness:
  "let d = groupAlerts (\<lambda>_. []) (\<lambda>_. []) 0 [sample_alert ''1'' ''r'', sample_alert ''2'' ''q'', sample_alert ''3'' ''r''] 1 ''UTC'' ''f''
   in dg_displayedAlerts d = 1 \<and> dg_summarizedCount d = 2 \<and> sum_list (map wg_totalAlerts (dg_groups d)) = 3
     \<and> map (\<lambda>g. map (\<lambda>r. (rg_ruleId r, rg_totalAlerts r, map en_id (rg_alerts r))) (wg_rules g)) (dg_groups d)
       = [[(''r'', 2, [''1'']), (''q'', 1, [])]]"
proof -
  let ?alerts = "[sample_alert ''1'' ''r'', sample_alert ''2'' ''q'', sample_alert ''3'' ''r'']"
  let ?d = "groupAlerts (\<lambda>_. []) (\<lambda>_. []) 0 ?alerts 1 ''UTC'' ''f''"
  have "map (\<lambda>g. map (\<lambda>r. (rg_ruleId r, rg_totalAlerts r, map en_id (rg_alerts r))) (wg_rules g)) (dg_groups ?d)
       = [[(''r'', 2, [''1'']), (''q'', 1, [])]]"
    by (simp add: groupAlerts_def group_all_def group_alert_def sample_alert_def entries_of_def rule_group_of_def
        entry_of_def rule_key_def Let_def)
  then show ?thesis
    using digest_accounts_for_all [OF refl, of "\<lambda>_. []" "\<lambda>_. []" 0 ?alerts 1 "''UTC''" "''f''"]
    unfolding Let_def by simp
qed

end
