(* ===== verification/DigestFlush.thy ===== *)
theory DigestFlush
  imports MonitorDigest
begin

text \<open>
  Flushing digests (\<open>claimHeldAlerts\<close> and \<open>flushDigestForUser\<close> of
  \<open>monitor-digest.service.ts\<close>): a flush claims the held alerts of a user in one transaction,
  delivers the digest, and marks the alerts delivered, or held again when the delivery failed. The
  flushes of any number of replicas interleave with each other, with the clock, with crashes and
  with the notification workers.
\<close>

section \<open>Claiming\<close>

definition DEFAULT_CLAIM_TIMEOUT_MS :: int where "DEFAULT_CLAIM_TIMEOUT_MS = 5 * 60 * 1000"

text \<open>The \<open>WHERE\<close> clause; a comparison with a null \<open>claimed_at\<close> does not hold.\<close>

definition claimable :: "string list \<Rightarrow> int \<Rightarrow> delivery_row \<Rightarrow> bool" where
  "claimable watchIds expiredThreshold row \<longleftrightarrow>
     dr_watchId row \<in> set watchIds
     \<and> (dr_deliveryStatus row = Held
        \<or> dr_deliveryStatus row = Claimed \<and> (case dr_claimedAt row of None \<Rightarrow> False | Some t \<Rightarrow> t < expiredThreshold))"

text \<open>\<open>UPDATE ... WHERE id IN (ids)\<close>.\<close>

definition update_rows :: "string list \<Rightarrow> (delivery_row \<Rightarrow> delivery_row) \<Rightarrow> alert_rows \<Rightarrow> alert_rows" where
  "update_rows ids f rows = map (\<lambda>(k, r). (k, if k \<in> set ids then f r else r)) rows"

definition claim_row :: "int \<Rightarrow> string \<Rightarrow> string \<Rightarrow> delivery_row \<Rightarrow> delivery_row" where
  "claim_row now workerId flushId r =
     r\<lparr>dr_deliveryStatus := Claimed, dr_claimedAt := Some now, dr_claimedBy := Some workerId, dr_claimKey := Some flushId\<rparr>"

definition deliver_row :: "int \<Rightarrow> delivery_row \<Rightarrow> delivery_row" where
  "deliver_row now r =
     r\<lparr>dr_deliveryStatus := Delivered, dr_deliveredAt := Some now, dr_claimedAt := None, dr_claimedBy := None,
       dr_claimKey := None\<rparr>"

definition release_row :: "delivery_row \<Rightarrow> delivery_row" where
  "release_row r = r\<lparr>dr_deliveryStatus := Held, dr_claimedAt := None, dr_claimedBy := None, dr_claimKey := None\<rparr>"

definition claim_ids :: "string list \<Rightarrow> int \<Rightarrow> alert_rows \<Rightarrow> string list" where
  "claim_ids watchIds expiredThreshold rows =
     map dr_id (sort_key dr_createdAt (filter (claimable watchIds expiredThreshold) (map snd rows)))"

text \<open>
  \<open>started\<close> is the clock when the threshold is computed, \<open>now\<close> inside the transaction; the result is
  the ids of the claimed alerts in order of creation, or nothing.
\<close>

definition claimHeldAlerts ::
  "string list \<Rightarrow> string list \<Rightarrow> string \<Rightarrow> string \<Rightarrow> int \<Rightarrow> int \<Rightarrow> int \<Rightarrow> alert_rows \<Rightarrow> string list option \<times> alert_rows" where
  "claimHeldAlerts completedFlushes watchIds workerId flushId claimTimeoutMs started now rows =
     (if flushId \<in> set completedFlushes then (None, rows)
      else if length watchIds = 0 then (None, rows)
      else let ids = claim_ids watchIds (started - claimTimeoutMs) rows
           in if length ids = 0 then (None, rows)
              else (Some ids, update_rows ids (claim_row now workerId flushId) rows))"

section \<open>Interleaved flushes\<close>

text \<open>
  A flush in progress is known by its claim time and its alerts. \<open>ds_digests\<close> lists the digests
  delivered by the flushes that succeeded.
\<close>

record digest_system =
  ds_now :: int
  ds_rows :: alert_rows
  ds_completed :: "string list"
  ds_active :: "string \<Rightarrow> (int \<times> string list) option"
  ds_digests :: "(string \<times> string list) list"

datatype digest_event =
    Digest_time int
  | Digest_claim string string int
  | Digest_nothing string
  | Digest_delivered string
  | Digest_failed string
  | Digest_crash string
  | Worker_saves string

text \<open>
  \<open>late\<close>: a flush may still write after its claim has expired. A crash, or a user who no longer
  exists, leaves the rows claimed. The workers insert alerts and store the outcome of pending ones.
\<close>

inductive digest_step ::
  "bool \<Rightarrow> int \<Rightarrow> string list \<Rightarrow> digest_system \<Rightarrow> digest_event \<Rightarrow> digest_system \<Rightarrow> bool" for late timeout watchIds where
  digest_time: "0 \<le> d \<Longrightarrow> digest_step late timeout watchIds s (Digest_time d) (s\<lparr>ds_now := ds_now s + d\<rparr>)"
| digest_claim: "\<lbrakk>ds_active s f = None; started \<le> ds_now s;
    claimHeldAlerts (ds_completed s) watchIds worker f timeout started (ds_now s) (ds_rows s) = (Some ids, rows')\<rbrakk>
    \<Longrightarrow> digest_step late timeout watchIds s (Digest_claim f worker started)
          (s\<lparr>ds_rows := rows', ds_active := (ds_active s)(f := Some (ds_now s, ids))\<rparr>)"
| digest_nothing: "\<lbrakk>ds_active s f = None; started \<le> ds_now s;
    claimHeldAlerts (ds_completed s) watchIds worker f timeout started (ds_now s) (ds_rows s) = (None, rows')\<rbrakk>
    \<Longrightarrow> digest_step late timeout watchIds s (Digest_nothing f) s"
| digest_delivered: "\<lbrakk>ds_active s f = Some (t, ids); late \<or> ds_now s \<le> t + timeout\<rbrakk>
    \<Longrightarrow> digest_step late timeout watchIds s (Digest_delivered f)
          (s\<lparr>ds_rows := update_rows ids (deliver_row (ds_now s)) (ds_rows s), ds_completed := ds_completed s @ [f],
             ds_active := (ds_active s)(f := None), ds_digests := ds_digests s @ [(f, ids)]\<rparr>)"
| digest_failed: "\<lbrakk>ds_active s f = Some (t, ids); late \<or> ds_now s \<le> t + timeout\<rbrakk>
    \<Longrightarrow> digest_step late timeout watchIds s (Digest_failed f)
          (s\<lparr>ds_rows := update_rows ids release_row (ds_rows s), ds_active := (ds_active s)(f := None)\<rparr>)"
| digest_crash: "ds_active s f = Some (t, ids)
    \<Longrightarrow> digest_step late timeout watchIds s (Digest_crash f) (s\<lparr>ds_active := (ds_active s)(f := None)\<rparr>)"
| worker_saves: "\<lbrakk>case jm_get (ds_rows s) k of None \<Rightarrow> True | Some r \<Rightarrow> dr_deliveryStatus r \<in> {Pending, Retrying};
    dr_id row = k; dr_deliveryStatus row \<noteq> Claimed\<rbrakk>
    \<Longrightarrow> digest_step late timeout watchIds s (Worker_saves k) (s\<lparr>ds_rows := jm_set (ds_rows s) k row\<rparr>)"

inductive_cases digest_stepE: "digest_step late timeout watchIds s e s'"

inductive digest_run ::
  "bool \<Rightarrow> int \<Rightarrow> string list \<Rightarrow> digest_system \<Rightarrow> digest_event list \<Rightarrow> digest_system \<Rightarrow> bool" for late timeout watchIds s0 where
  digest_start: "digest_run late timeout watchIds s0 [] s0"
| digest_next: "digest_run late timeout watchIds s0 tr s \<Longrightarrow> digest_step late timeout watchIds s e s'
    \<Longrightarrow> digest_run late timeout watchIds s0 (tr @ [e]) s'"

definition keys_ok :: "alert_rows \<Rightarrow> bool" where
  "keys_ok rows \<longleftrightarrow> jm_ok rows \<and> (\<forall>(k, r) \<in> set rows. dr_id r = k)"

definition start_digests :: "int \<Rightarrow> alert_rows \<Rightarrow> digest_system" where
  "start_digests now rows = \<lparr>ds_now = now, ds_rows = rows, ds_completed = [], ds_active = (\<lambda>_. None), ds_digests = []\<rparr>"

section \<open>Rows under updates\<close>

lemma update_rows_get [simp]:
  "jm_get (update_rows ids f rows) k = map_option (\<lambda>r. if k \<in> set ids then f r else r) (jm_get rows k)"
  by (induction rows) (auto simp: update_rows_def)

lemma keys_ok_iff: "keys_ok rows \<longleftrightarrow> jm_ok rows \<and> (\<forall>k r. jm_get rows k = Some r \<longrightarrow> dr_id r = k)"
proof -
  have "(\<forall>(k, r) \<in> set rows. dr_id r = k) \<longleftrightarrow> (\<forall>k r. jm_get rows k = Some r \<longrightarrow> dr_id r = k)" if "jm_ok rows"
    using jm_get_in [OF that] jm_get_Some_in [of rows] by (metis (mono_tags, lifting) case_prodD case_prodI2)
  then show ?thesis unfolding keys_ok_def by blast
qed

lemma keys_ok_update [simp]: "keys_ok rows \<Longrightarrow> (\<And>r. dr_id (f r) = dr_id r) \<Longrightarrow> keys_ok (update_rows ids f rows)"
  by (auto simp: keys_ok_def update_rows_def jm_ok_def comp_def case_prod_beta)

lemma keys_ok_set [simp]: "keys_ok rows \<Longrightarrow> dr_id r = k \<Longrightarrow> keys_ok (jm_set rows k r)"
  by (simp add: keys_ok_iff)

lemma row_ids [simp]: "dr_id (claim_row now w f r) = dr_id r" "dr_id (deliver_row now r) = dr_id r" "dr_id (release_row r) = dr_id r"
  by (simp_all add: claim_row_def deliver_row_def release_row_def)

lemma set_claim_ids:
  assumes "keys_ok rows"
  shows "set (claim_ids w th rows) = {k. \<exists>r. jm_get rows k = Some r \<and> claimable w th r}"
  using assms by (force simp: claim_ids_def keys_ok_def dest: jm_get_in jm_get_Some_in)

lemma distinct_claim_ids:
  assumes "keys_ok rows"
  shows "distinct (claim_ids w th rows)"
proof -
  have "map dr_id (map snd rows) = map fst rows" using assms by (auto simp: keys_ok_def)
  moreover have "distinct (map fst rows)" using assms by (simp add: keys_ok_def jm_ok_def)
  ultimately have "distinct (map dr_id (map snd rows))" by metis
  then have "distinct (map dr_id (filter (claimable w th) (map snd rows)))" by (rule distinct_map_filter)
  then show ?thesis by (simp add: claim_ids_def distinct_map)
qed

text \<open>No alert is skipped: a claim takes every held alert and every alert whose claim has expired.\<close>

lemma claim_takes_all:
  assumes "keys_ok rows" "f \<notin> set completed" "jm_get rows k = Some r" "claimable w (started - timeout) r"
  shows "\<exists>ids rows'. claimHeldAlerts completed w worker f timeout started now rows = (Some ids, rows')
    \<and> k \<in> set ids \<and> distinct ids"
proof -
  have "k \<in> set (claim_ids w (started - timeout) rows)" using set_claim_ids [OF assms(1)] assms(3,4) by blast
  moreover from this have "claim_ids w (started - timeout) rows \<noteq> []" by auto
  moreover have "w \<noteq> []" using assms(4) by (auto simp: claimable_def)
  ultimately show ?thesis using assms(2) distinct_claim_ids [OF assms(1)] by (simp add: claimHeldAlerts_def Let_def)
qed

section \<open>Timely flushes exclude each other\<close>

definition claimed_by :: "alert_rows \<Rightarrow> string \<Rightarrow> int \<Rightarrow> string \<Rightarrow> bool" where
  "claimed_by rows f t k \<longleftrightarrow> (case jm_get rows k of None \<Rightarrow> False
     | Some r \<Rightarrow> dr_deliveryStatus r = Claimed \<and> dr_claimedAt r = Some t \<and> dr_claimKey r = Some f)"

definition delivered_in :: "alert_rows \<Rightarrow> string \<Rightarrow> bool" where
  "delivered_in rows k \<longleftrightarrow> (case jm_get rows k of None \<Rightarrow> False | Some r \<Rightarrow> dr_deliveryStatus r = Delivered)"

definition flush_inv :: "int \<Rightarrow> digest_system \<Rightarrow> bool" where
  "flush_inv timeout s \<longleftrightarrow> keys_ok (ds_rows s)
     \<and> (\<forall>f t ids. ds_active s f = Some (t, ids) \<longrightarrow> t \<le> ds_now s \<and> distinct ids
         \<and> (ds_now s \<le> t + timeout \<longrightarrow> (\<forall>k \<in> set ids. claimed_by (ds_rows s) f t k)))
     \<and> (\<forall>k \<in> set (concat (map snd (ds_digests s))). delivered_in (ds_rows s) k)
     \<and> distinct (concat (map snd (ds_digests s)))"

lemma flush_invI:
  assumes "keys_ok (ds_rows s)"
    and "\<And>f t ids. ds_active s f = Some (t, ids) \<Longrightarrow> t \<le> ds_now s \<and> distinct ids"
    and "\<And>f t ids k. ds_active s f = Some (t, ids) \<Longrightarrow> ds_now s \<le> t + timeout \<Longrightarrow> k \<in> set ids \<Longrightarrow>
      claimed_by (ds_rows s) f t k"
    and "\<And>k. k \<in> set (concat (map snd (ds_digests s))) \<Longrightarrow> delivered_in (ds_rows s) k"
    and "distinct (concat (map snd (ds_digests s)))"
  shows "flush_inv timeout s"
  using assms unfolding flush_inv_def by blast

lemma flush_invD:
  assumes "flush_inv timeout s"
  shows "keys_ok (ds_rows s)"
    and "ds_active s f = Some (t, ids) \<Longrightarrow> t \<le> ds_now s \<and> distinct ids"
    and "ds_active s f = Some (t, ids) \<Longrightarrow> ds_now s \<le> t + timeout \<Longrightarrow> k \<in> set ids \<Longrightarrow> claimed_by (ds_rows s) f t k"
    and "k \<in> set (concat (map snd (ds_digests s))) \<Longrightarrow> delivered_in (ds_rows s) k"
    and "distinct (concat (map snd (ds_digests s)))"
  using assms unfolding flush_inv_def by blast+

text \<open>Rows outside an update keep their claims and deliveries.\<close>

lemma update_other:
  "k \<notin> set ids \<Longrightarrow> claimed_by (update_rows ids g rows) f t k = claimed_by rows f t k"
  "k \<notin> set ids \<Longrightarrow> delivered_in (update_rows ids g rows) k = delivered_in rows k"
  by (simp_all add: claimed_by_def delivered_in_def split: option.split)

lemma claim_exclusive:
  "claimed_by rows f t k \<Longrightarrow> claimed_by rows g u k \<Longrightarrow> f = g \<and> t = u"
  "claimed_by rows f t k \<Longrightarrow> \<not> delivered_in rows k"
  by (auto simp: claimed_by_def delivered_in_def split: option.splits)

lemma claim_ids_fresh:
  assumes "keys_ok rows" "k \<in> set (claim_ids w th rows)"
  shows "claimed_by rows f t k \<Longrightarrow> t < th" "\<not> delivered_in rows k" "jm_get rows k \<noteq> None"
  using assms by (auto simp: set_claim_ids claimable_def claimed_by_def delivered_in_def)

text \<open>A claim takes rows that no other flush holds in time and that no digest contains.\<close>

lemma claim_inv:
  fixes s worker f ids
  assumes inv: "flush_inv timeout s" and f: "ds_active s f = None" "started \<le> ds_now s"
    and ids: "ids = claim_ids w (started - timeout) (ds_rows s)"
  defines "rows' \<equiv> update_rows ids (claim_row (ds_now s) worker f) (ds_rows s)"
  shows "flush_inv timeout (s\<lparr>ds_rows := rows', ds_active := (ds_active s)(f := Some (ds_now s, ids))\<rparr>)"
proof -
  note D = flush_invD [OF inv]
  note fresh = claim_ids_fresh [OF D(1), of _ w "started - timeout", folded ids]
  have new: "claimed_by rows' f (ds_now s) k" if "k \<in> set ids" for k
    using that fresh(3) [OF that] by (auto simp: rows'_def claimed_by_def claim_row_def)
  have old: "k \<notin> set ids" if "claimed_by (ds_rows s) g t k" "ds_now s \<le> t + timeout" for g t k
    using fresh(1) [OF _ that(1)] that(2) f(2) by fastforce
  show ?thesis
  proof (rule flush_invI; simp del: set_concat)
    show "keys_ok rows'" using D(1) by (simp add: rows'_def)
    show "distinct (concat (map snd (ds_digests s)))" by (rule D(5))
    show "delivered_in rows' k" if "k \<in> set (concat (map snd (ds_digests s)))" for k
      using D(4) [OF that] fresh(2) update_other(2) unfolding rows'_def by metis
    show "t \<le> ds_now s \<and> distinct js" if "(if g = f then Some (ds_now s, ids) else ds_active s g) = Some (t, js)" for g t js
      using that D(2) [of g t js] distinct_claim_ids [OF D(1)] by (auto simp: ids split: if_splits)
    show "claimed_by rows' g t k"
      if "(if g = f then Some (ds_now s, ids) else ds_active s g) = Some (t, js)" "ds_now s \<le> t + timeout" "k \<in> set js"
      for g t js k
      using that new old D(3) [of g t js k] by (cases "g = f") (auto simp: rows'_def update_other)
  qed
qed

text \<open>A flush that ends in time writes only rows it still holds.\<close>

lemma finish_inv:
  assumes inv: "flush_inv timeout s" and f: "ds_active s f = Some (t, ids)" "ds_now s \<le> t + timeout"
    and g: "\<And>r. dr_id (g r) = dr_id r"
    and s': "ds_rows s' = update_rows ids g (ds_rows s)" "ds_active s' = (ds_active s)(f := None)" "ds_now s' = ds_now s"
    and dg: "ds_digests s' = ds_digests s
      \<or> ds_digests s' = ds_digests s @ [(f, ids)] \<and> (\<forall>r. dr_deliveryStatus (g r) = Delivered)"
  shows "flush_inv timeout s'"
proof -
  note D = flush_invD [OF inv]
  note mine = D(3) [OF f]
  have no: "k \<notin> set ids" if "delivered_in (ds_rows s) k" for k using that mine claim_exclusive(2) by blast
  have del: "delivered_in (ds_rows s') k" if "k \<in> set ids" "ds_digests s' \<noteq> ds_digests s" for k
    using mine [OF that(1)] that dg by (auto simp: s'(1) claimed_by_def delivered_in_def split: option.splits)
  show ?thesis
  proof (rule flush_invI)
    show "keys_ok (ds_rows s')" using D(1) g by (simp add: s'(1))
    show "u \<le> ds_now s' \<and> distinct js" if "ds_active s' h = Some (u, js)" for h u js
      using that D(2) [of h u js] by (auto simp: s' split: if_splits)
    show "claimed_by (ds_rows s') h u k"
      if "ds_active s' h = Some (u, js)" "ds_now s' \<le> u + timeout" "k \<in> set js" for h u js k
    proof -
      have h: "h \<noteq> f" "claimed_by (ds_rows s) h u k" using that D(3) by (auto simp: s' split: if_splits)
      then have "k \<notin> set ids" using mine claim_exclusive(1) by blast
      then show ?thesis using h(2) by (simp add: s' update_other)
    qed
    show "delivered_in (ds_rows s') k" if "k \<in> set (concat (map snd (ds_digests s')))" for k
    proof (cases "k \<in> set (concat (map snd (ds_digests s)))")
      case True
      then show ?thesis using D(4) no by (simp add: s' update_other del: set_concat)
    next
      case False
      then show ?thesis using that dg del by auto
    qed
    have "set ids \<inter> set (concat (map snd (ds_digests s))) = {}" using no D(4) by blast
    moreover have "concat (map snd (ds_digests s')) \<in> {concat (map snd (ds_digests s)), concat (map snd (ds_digests s)) @ ids}"
      using dg by auto
    ultimately show "distinct (concat (map snd (ds_digests s')))"
      using D(5) D(2) [OF f(1)] by (elim insertE emptyE) (simp_all del: set_concat add: Int_commute)
  qed
qed

lemma worker_inv:
  assumes inv: "flush_inv timeout s" and row: "dr_id row = k"
    and free: "case jm_get (ds_rows s) k of None \<Rightarrow> True | Some r \<Rightarrow> dr_deliveryStatus r \<in> {Pending, Retrying}"
  shows "flush_inv timeout (s\<lparr>ds_rows := jm_set (ds_rows s) k row\<rparr>)"
proof -
  note D = flush_invD [OF inv]
  have k: "\<not> claimed_by (ds_rows s) g t k" "\<not> delivered_in (ds_rows s) k" for g t
    using free by (auto simp: claimed_by_def delivered_in_def split: option.splits)
  have "claimed_by (jm_set (ds_rows s) k row) g t j" if "claimed_by (ds_rows s) g t j" for g t j
    using that k by (cases "j = k") (auto simp: claimed_by_def)
  moreover have "delivered_in (jm_set (ds_rows s) k row) j" if "delivered_in (ds_rows s) j" for j
    using that k by (cases "j = k") (auto simp: delivered_in_def)
  ultimately show ?thesis using D row by (intro flush_invI) (simp_all del: set_concat)
qed

lemma flush_step_inv:
  assumes step: "digest_step False timeout w s e s'" and inv: "flush_inv timeout s"
  shows "flush_inv timeout s'"
  using step
proof cases
  case (digest_time d)
  then show ?thesis using flush_invD [OF inv] by (intro flush_invI) (simp, force, simp, simp, simp)
next
  case (digest_claim f started worker ids rows')
  then show ?thesis using claim_inv [OF inv]
    by (auto simp: claimHeldAlerts_def Let_def split: if_splits)
next
  case (digest_delivered f t ids)
  from digest_delivered(4) have "ds_now s \<le> t + timeout" by simp
  from finish_inv [OF inv digest_delivered(3) this, of "deliver_row (ds_now s)" s'] show ?thesis
    by (simp add: digest_delivered(2)) (simp add: deliver_row_def)
next
  case (digest_failed f t ids)
  from digest_failed(4) have "ds_now s \<le> t + timeout" by simp
  from finish_inv [OF inv digest_failed(3) this, of release_row s'] show ?thesis
    by (simp add: digest_failed(2))
next
  case (digest_crash f t ids)
  then show ?thesis using flush_invD [OF inv] by (intro flush_invI) (simp_all split: if_splits)
next
  case (worker_saves k row)
  then show ?thesis using worker_inv [OF inv worker_saves(4,3)] by simp
qed (use inv in simp)

lemma flush_run_inv:
  "digest_run False timeout w s0 tr s \<Longrightarrow> flush_inv timeout s0 \<Longrightarrow> flush_inv timeout s"
  by (induction rule: digest_run.induct) (auto intro: flush_step_inv)

text \<open>A run of the notification worker on a pending alert is such a worker step, or stores nothing.\<close>

lemma process_is_worker_step:
  fixes inp s
  defines "k \<equiv> jb_alertEventId (pi_job inp)" and "rows' \<equiv> po_rows (process inp (ds_rows s))"
  assumes "keys_ok (ds_rows s)" "jm_get (ds_rows s) k = Some row" "dr_deliveryStatus row \<in> {Pending, Retrying}"
  shows "rows' = ds_rows s \<or> digest_step late timeout w s (Worker_saves k) (s\<lparr>ds_rows := rows'\<rparr>)"
proof -
  have "rows' = ds_rows s \<or> (\<exists>left now st. rows' = jm_set (ds_rows s) k (row_after left now st row))"
    using assms(4) unfolding rows'_def k_def process_def process_row_def Let_def
    by (auto split: option.split sum.split prod.split)
  moreover have "dr_id row = k" using assms(3,4) by (simp add: keys_ok_iff)
  moreover have "dr_deliveryStatus (row_after left now st row) \<noteq> Claimed" for left now st
    by (simp add: row_after_def outcome_status_def)
  ultimately show ?thesis using assms(4,5)
    by (auto simp: row_after_def intro!: digest_step.worker_saves)
qed

section \<open>Properties\<close>


section \<open>Runs\<close>

definition held_row :: delivery_row where
  "held_row = \<lparr>dr_id = ''a'', dr_watchId = ''w'', dr_ruleId = ''r'', dr_createdAt = 0, dr_deliveryStatus = Held,
     dr_deliveryAttempts = [], dr_deliveredAt = None, dr_claimedAt = None, dr_claimedBy = None, dr_claimKey = None\<rparr>"

definition flush_start :: digest_system where
  "flush_start = start_digests 0 [(''a'', held_row)]"

lemma held_ok: "keys_ok [(''a'', held_row)]"
  by (simp add: keys_ok_def jm_ok_def held_row_def)

lemma first_claim:
  "digest_run late DEFAULT_CLAIM_TIMEOUT_MS [''w''] flush_start ([] @ [Digest_claim ''f'' ''p'' 0])
     (flush_start\<lparr>ds_rows := [(''a'', claim_row 0 ''p'' ''f'' held_row)],
        ds_active := (\<lambda>_. None)(''f'' := Some (0, [''a'']))\<rparr>)"
proof -
  have "digest_step late DEFAULT_CLAIM_TIMEOUT_MS [''w''] flush_start (Digest_claim ''f'' ''p'' 0)
     (flush_start\<lparr>ds_rows := [(''a'', claim_row 0 ''p'' ''f'' held_row)],
        ds_active := (ds_active flush_start)(''f'' := Some (ds_now flush_start, [''a'']))\<rparr>)"
    by (rule digest_step.digest_claim)
       (simp_all add: flush_start_def start_digests_def claimHeldAlerts_def claim_ids_def claimable_def held_row_def
          update_rows_def Let_def)
  then show ?thesis using digest_next [OF digest_start] by (simp add: flush_start_def start_digests_def)
qed


text \<open>
  Nothing stops a flush that took longer than the claim timeout: its claim has been taken over, and both
  flushes deliver the alert.
\<close>

lemma slow_flush_sends_twice:
  "\<exists>tr s. digest_run True DEFAULT_CLAIM_TIMEOUT_MS [''w''] flush_start tr s
     \<and> ds_digests s = [(''f'', [''a'']), (''g'', [''a''])]"
proof -
  let ?T = "DEFAULT_CLAIM_TIMEOUT_MS"
  let ?s1 = "flush_start\<lparr>ds_rows := [(''a'', claim_row 0 ''p'' ''f'' held_row)], ds_active := (\<lambda>_. None)(''f'' := Some (0, [''a'']))\<rparr>"
  let ?s2 = "?s1\<lparr>ds_now := 300001\<rparr>"
  let ?s3 = "?s2\<lparr>ds_rows := [(''a'', claim_row 300001 ''q'' ''g'' (claim_row 0 ''p'' ''f'' held_row))],
    ds_active := (ds_active ?s2)(''g'' := Some (300001, [''a'']))\<rparr>"
  have "digest_step True ?T [''w''] ?s1 (Digest_time 300001) (?s1\<lparr>ds_now := ds_now ?s1 + 300001\<rparr>)"
    by (rule digest_step.digest_time) simp
  then have 2: "digest_run True ?T [''w''] flush_start (([] @ [Digest_claim ''f'' ''p'' 0]) @ [Digest_time 300001]) ?s2"
    using digest_next [OF first_claim] by (simp add: flush_start_def start_digests_def)
  have "digest_step True ?T [''w''] ?s2 (Digest_claim ''g'' ''q'' 300001)
      (?s2\<lparr>ds_rows := [(''a'', claim_row 300001 ''q'' ''g'' (claim_row 0 ''p'' ''f'' held_row))],
         ds_active := (ds_active ?s2)(''g'' := Some (ds_now ?s2, [''a'']))\<rparr>)"
    by (rule digest_step.digest_claim)
       (simp_all add: flush_start_def start_digests_def claimHeldAlerts_def claim_ids_def claimable_def held_row_def
          claim_row_def update_rows_def Let_def DEFAULT_CLAIM_TIMEOUT_MS_def)
  then have 3: "digest_step True ?T [''w''] ?s2 (Digest_claim ''g'' ''q'' 300001) ?s3" by simp
  have "\<exists>s4. digest_step True ?T [''w''] ?s3 (Digest_delivered ''f'') s4 \<and> ds_digests s4 = [(''f'', [''a''])]
      \<and> ds_active s4 ''g'' = Some (300001, [''a''])"
    by (intro exI conjI, rule digest_step.digest_delivered [of _ _ 0 "[''a'']"]) (simp_all add: flush_start_def start_digests_def)
  then obtain s4 where 4: "digest_step True ?T [''w''] ?s3 (Digest_delivered ''f'') s4" "ds_digests s4 = [(''f'', [''a''])]"
    "ds_active s4 ''g'' = Some (300001, [''a''])" by blast
  have "\<exists>s5. digest_step True ?T [''w''] s4 (Digest_delivered ''g'') s5 \<and> ds_digests s5 = [(''f'', [''a'']), (''g'', [''a''])]"
    by (intro exI conjI, rule digest_step.digest_delivered [OF 4(3)]) (simp_all add: 4(2))
  then show ?thesis using digest_next [OF digest_next [OF digest_next [OF 2 3] 4(1)]] by blast
qed

end
