(* ===== verification/EventIngestion.thy ===== *)
theory EventIngestion
  imports StateEvaluation
begin

text \<open>
  The storage of ledger events: \<open>EventIngestionService\<close> of \<open>event-ingestion.service.ts\<close> in
  \<open>apps/api/src/modules/monitor\<close>, with the unique indexes of \<open>watch-event.entity.ts\<close> and
  \<open>alert-event.entity.ts\<close>. The state holds the watches in memory (under their stream key), the
  three tables, the jobs queued and the messages sent to clients (events here, status changes in
  \<open>StreamPolling\<close>). Which database and queue calls
  reject is decided by an environment, by the number of calls made so far; \<open>localeCompare\<close> is a
  parameter of it as well.
\<close>

section \<open>State\<close>

record ingest_event = monitor_event +
  ie_pagingToken :: string
  ie_eventType :: event_source
  ie_ledger :: "int option"
  ie_occurredAt :: int
  ie_sentAsset :: "string option"
  ie_transactionHash :: "string option"
  ie_payload :: json

datatype stream_mode = Sse | Poll

datatype stream_status = Streaming | Polling | Stream_failed

record stream_watch = watch +
  sw_userId :: string
  sw_eventTypes :: "event_source list"
  sw_transactionCursor :: "string option"
  sw_paymentCursor :: "string option"
  sw_contractCursor :: "string option"
  sw_cursorLedger :: "int option"
  sw_lastEventAt :: "int option"
  sw_lastError :: "string option"
  sw_streamMode :: stream_mode
  sw_status :: stream_status

text \<open>The columns of the unique indexes of the two event tables.\<close>

type_synonym event_key = "string \<times> event_source \<times> string"
type_synonym alert_key = "string \<times> string \<times> event_key"

record watch_event =
  we_watchId :: string
  we_event :: ingest_event

record event_alert =
  ea_watchId :: string
  ea_ruleId :: string
  ea_watchEvent :: event_key
  ea_payload :: json
  ea_deliveryStatus :: delivery_status
  ea_deliveryAttempts :: "(notification_channel \<times> delivery_status) list"

definition event_key :: "string \<Rightarrow> ingest_event \<Rightarrow> event_key" where
  "event_key watchId event = (watchId, me_source event, ie_pagingToken event)"

definition row_key :: "watch_event \<Rightarrow> event_key" where
  "row_key row = event_key (we_watchId row) (we_event row)"

definition alert_key :: "event_alert \<Rightarrow> alert_key" where
  "alert_key a = (ea_watchId a, ea_ruleId a, ea_watchEvent a)"

text \<open>
  A transaction commits, or it rejects before or after the object in memory was updated; in
  either case the tables are as before.
\<close>

datatype tx_outcome = Commits | Rejects_early | Rejects_late

record ingest_env =
  env_tx :: "nat \<Rightarrow> tx_outcome"
  env_update :: "nat \<Rightarrow> bool"
  env_queue :: "nat \<Rightarrow> bool"
  env_localeCompare :: "string \<Rightarrow> string \<Rightarrow> int"

record ingest_state =
  is_registry :: "(string, stream_watch list) jmap"
  is_watches :: "(string, stream_watch) jmap"
  is_events :: "watch_event list"
  is_alerts :: "event_alert list"
  is_jobs :: "alert_key list"
  is_emitted :: "(string \<times> event_key) list"
  is_statuses :: "(string \<times> string \<times> stream_mode \<times> stream_status \<times> string option) list"
  is_calls :: nat

definition db_error :: js_error where
  "db_error = PlainError ''database''"

definition watches_at :: "ingest_state \<Rightarrow> string \<Rightarrow> stream_watch list" where
  "watches_at st key = (case jm_get (is_registry st) key of Some ws \<Rightarrow> ws | None \<Rightarrow> [])"

text \<open>Changing the objects in memory, and the rows of the table, that have an id of \<open>ids\<close>.\<close>

definition touch_memory :: "string list \<Rightarrow> (stream_watch \<Rightarrow> stream_watch) \<Rightarrow> ingest_state \<Rightarrow> ingest_state" where
  "touch_memory ids f st =
     st\<lparr>is_registry := map (\<lambda>(key, ws). (key, map (\<lambda>w. if wa_id w \<in> set ids then f w else w) ws)) (is_registry st)\<rparr>"

definition touch_rows :: "string list \<Rightarrow> (stream_watch \<Rightarrow> stream_watch) \<Rightarrow> ingest_state \<Rightarrow> ingest_state" where
  "touch_rows ids f st =
     st\<lparr>is_watches := map (\<lambda>(i, w). (i, if i \<in> set ids then f w else w)) (is_watches st)\<rparr>"

section \<open>Cursors\<close>

fun cursor_of :: "event_source \<Rightarrow> stream_watch \<Rightarrow> string option" where
  "cursor_of Src_transaction w = sw_transactionCursor w"
| "cursor_of Src_payment w = sw_paymentCursor w"
| "cursor_of Src_contract w = sw_contractCursor w"

fun set_cursor :: "event_source \<Rightarrow> string \<Rightarrow> stream_watch \<Rightarrow> stream_watch" where
  "set_cursor Src_transaction c w = w\<lparr>sw_transactionCursor := Some c\<rparr>"
| "set_cursor Src_payment c w = w\<lparr>sw_paymentCursor := Some c\<rparr>"
| "set_cursor Src_contract c w = w\<lparr>sw_contractCursor := Some c\<rparr>"

text \<open>\<open>/^\d+$/\<close>.\<close>

definition all_digits :: "string \<Rightarrow> bool" where
  "all_digits s \<longleftrightarrow> s \<noteq> [] \<and> list_all is_digit s"

definition compareNumericCursors :: "(string \<Rightarrow> string \<Rightarrow> int) \<Rightarrow> string \<Rightarrow> string \<Rightarrow> int" where
  "compareNumericCursors localeCompare left right =
     (if \<not> all_digits left \<or> \<not> all_digits right then localeCompare left right
      else let leftValue = nat_of_digits left; rightValue = nat_of_digits right
           in if leftValue = rightValue then 0 else if leftValue > rightValue then 1 else - 1)"

definition highestLedger :: "int option \<Rightarrow> int \<Rightarrow> int" where
  "highestLedger current following =
     (case current of None \<Rightarrow> following | Some c \<Rightarrow> if following > c then following else c)"

definition isAfterCursor :: "ingest_env \<Rightarrow> stream_watch \<Rightarrow> ingest_event \<Rightarrow> bool" where
  "isAfterCursor env w event =
     (let current = cursor_of (me_source event) w in
      if falsy current then True
      else if the current = ie_pagingToken event then False
      else if me_source event = Src_contract
      then (case (ie_ledger event, sw_cursorLedger w) of
              (Some ledger, Some cursorLedger) \<Rightarrow> ledger \<ge> cursorLedger
            | _ \<Rightarrow> True)
      else compareNumericCursors (env_localeCompare env) (ie_pagingToken event) (the current) > 0)"

definition shouldAdvanceCursor ::
  "ingest_env \<Rightarrow> stream_watch \<Rightarrow> event_source \<Rightarrow> string \<Rightarrow> int option \<Rightarrow> bool" where
  "shouldAdvanceCursor env w source following ledger =
     (let current = cursor_of source w in
      if falsy current then True
      else if the current = following then False
      else if source \<noteq> Src_contract
      then compareNumericCursors (env_localeCompare env) following (the current) > 0
      else (case (ledger, sw_cursorLedger w) of
              (Some l, Some cursorLedger) \<Rightarrow> l \<ge> cursorLedger
            | _ \<Rightarrow> True))"

text \<open>The columns an update sets; the \<open>CASE\<close> of the statement is \<open>highestLedger\<close>.\<close>

definition advance :: "event_source \<Rightarrow> string \<Rightarrow> int option \<Rightarrow> stream_watch \<Rightarrow> stream_watch" where
  "advance source cursor ledger w =
     (let w' = set_cursor source cursor w
      in case ledger of None \<Rightarrow> w'
         | Some l \<Rightarrow> w'\<lparr>sw_cursorLedger := Some (highestLedger (sw_cursorLedger w) l)\<rparr>)"

definition updateCursor ::
  "ingest_env \<Rightarrow> string \<Rightarrow> event_source \<Rightarrow> string \<Rightarrow> int option \<Rightarrow> ingest_state
    \<Rightarrow> (js_error + unit) \<times> ingest_state" where
  "updateCursor env key source cursor ledger st =
     (let watches = filter (\<lambda>w. shouldAdvanceCursor env w source cursor ledger) (watches_at st key);
          ids = map wa_id watches;
          st' = st\<lparr>is_calls := is_calls st + 1\<rparr>
      in if watches = [] then (Inr (), st)
         else if \<not> env_update env (is_calls st) then (Inl db_error, st')
         else (Inr (), touch_memory ids (advance source cursor ledger)
                         (touch_rows ids (advance source cursor ledger) st')))"

section \<open>Storing an event\<close>

text \<open>\<open>lastEventAt\<close>, in memory and as the \<open>CASE\<close> of the update.\<close>

definition latest_event :: "int \<Rightarrow> int option \<Rightarrow> int option" where
  "latest_event occurredAt current =
     (case current of None \<Rightarrow> Some occurredAt
      | Some t \<Rightarrow> Some (if occurredAt > t then occurredAt else t))"

definition occurred :: "ingest_event \<Rightarrow> stream_watch \<Rightarrow> stream_watch" where
  "occurred event w = w\<lparr>sw_lastEventAt := latest_event (ie_occurredAt event) (sw_lastEventAt w)\<rparr>"

definition alert_row :: "stream_watch \<Rightarrow> ingest_event \<Rightarrow> alert_rule \<Rightarrow> event_alert" where
  "alert_row w event rule =
     \<lparr>ea_watchId = wa_id w, ea_ruleId = ar_id rule, ea_watchEvent = event_key (wa_id w) event,
      ea_payload = ie_payload event,
      ea_deliveryStatus = Pending, ea_deliveryAttempts = map (\<lambda>channel. (channel, Pending)) (ar_channels rule)\<rparr>"

text \<open>The rules in turn: the table after the inserts, and the rows they returned.\<close>

fun insert_alerts ::
  "stream_watch \<Rightarrow> ingest_event \<Rightarrow> alert_rule list \<Rightarrow> event_alert list \<Rightarrow> event_alert list
    \<Rightarrow> event_alert list \<times> event_alert list" where
  "insert_alerts w event [] table alertEvents = (table, alertEvents)"
| "insert_alerts w event (rule # rules) table alertEvents =
     (if \<not> matches rule (wa_publicKey w) (monitor_event.truncate event)
      then insert_alerts w event rules table alertEvents
      else let row = alert_row w event rule in
           if alert_key row \<in> alert_key ` set table
           then insert_alerts w event rules table alertEvents
           else insert_alerts w event rules (table @ [row]) (alertEvents @ [row]))"

text \<open>\<open>None\<close>: the event was stored before.\<close>

definition persistForWatch ::
  "ingest_env \<Rightarrow> stream_watch \<Rightarrow> ingest_event \<Rightarrow> ingest_state
    \<Rightarrow> (js_error + event_alert list option) \<times> ingest_state" where
  "persistForWatch env w event st =
     (let outcome = env_tx env (is_calls st);
          st' = st\<lparr>is_calls := is_calls st + 1\<rparr>
      in if outcome = Rejects_early then (Inl db_error, st')
         else if event_key (wa_id w) event \<in> row_key ` set (is_events st)
         then (if outcome = Commits then (Inr None, st') else (Inl db_error, st'))
         else let remembered = touch_memory [wa_id w] (occurred event) st' in
              if outcome = Rejects_late then (Inl db_error, remembered)
              else let (table, alertEvents) = insert_alerts w event (wa_alertRules w) (is_alerts st) []
                   in (Inr (Some alertEvents),
                       (touch_rows [wa_id w] ((\<lambda>w. w\<lparr>sw_lastError := None\<rparr>) \<circ> occurred event) remembered)
                         \<lparr>is_events := is_events st @ [\<lparr>we_watchId = wa_id w, we_event = event\<rparr>],
                          is_alerts := table\<rparr>))"

text \<open>A rejected job is logged.\<close>

fun enqueue_alerts :: "ingest_env \<Rightarrow> event_alert list \<Rightarrow> ingest_state \<Rightarrow> ingest_state" where
  "enqueue_alerts env [] st = st"
| "enqueue_alerts env (a # alerts) st =
     enqueue_alerts env alerts
       (st\<lparr>is_jobs := (if env_queue env (is_calls st) then is_jobs st @ [alert_key a] else is_jobs st),
           is_calls := is_calls st + 1\<rparr>)"

fun ingest_watches ::
  "ingest_env \<Rightarrow> ingest_event \<Rightarrow> stream_watch list \<Rightarrow> ingest_state \<Rightarrow> (js_error + unit) \<times> ingest_state" where
  "ingest_watches env event [] st = (Inr (), st)"
| "ingest_watches env event (w # ws) st =
     (case persistForWatch env w event st of
        (Inl e, st1) \<Rightarrow> (Inl e, st1)
      | (Inr None, st1) \<Rightarrow> ingest_watches env event ws st1
      | (Inr (Some alertEvents), st1) \<Rightarrow>
          ingest_watches env event ws
            (enqueue_alerts env alertEvents
               (st1\<lparr>is_emitted := is_emitted st1 @ [(sw_userId w, event_key (wa_id w) event)]\<rparr>)))"

definition subscribed :: "ingest_env \<Rightarrow> ingest_event \<Rightarrow> stream_watch \<Rightarrow> bool" where
  "subscribed env event w \<longleftrightarrow> ie_eventType event \<in> set (sw_eventTypes w) \<and> isAfterCursor env w event"

definition ingest :: "ingest_env \<Rightarrow> string \<Rightarrow> ingest_event \<Rightarrow> ingest_state \<Rightarrow> (js_error + unit) \<times> ingest_state" where
  "ingest env key event st = ingest_watches env event (filter (subscribed env event) (watches_at st key)) st"

section \<open>Runs\<close>

datatype ingest_op =
    Op_ingest string ingest_event
  | Op_cursor string event_source string "int option"

fun ingest_step :: "ingest_env \<Rightarrow> ingest_op \<Rightarrow> ingest_state \<Rightarrow> (js_error + unit) \<times> ingest_state" where
  "ingest_step env (Op_ingest key event) st = ingest env key event st"
| "ingest_step env (Op_cursor key source cursor ledger) st = updateCursor env key source cursor ledger st"

definition ingest_run :: "ingest_env \<Rightarrow> ingest_op list \<Rightarrow> ingest_state \<Rightarrow> ingest_state" where
  "ingest_run env ops st = foldl (\<lambda>st op. snd (ingest_step env op st)) st ops"

section \<open>What a run keeps\<close>

lemma touch_simps [simp]:
  "is_registry (touch_rows ids f st) = is_registry st" "is_events (touch_rows ids f st) = is_events st"
  "is_alerts (touch_rows ids f st) = is_alerts st" "is_jobs (touch_rows ids f st) = is_jobs st"
  "is_emitted (touch_rows ids f st) = is_emitted st" "is_calls (touch_rows ids f st) = is_calls st"
  "is_watches (touch_memory ids f st) = is_watches st" "is_events (touch_memory ids f st) = is_events st"
  "is_alerts (touch_memory ids f st) = is_alerts st" "is_jobs (touch_memory ids f st) = is_jobs st"
  "is_emitted (touch_memory ids f st) = is_emitted st" "is_calls (touch_memory ids f st) = is_calls st"
  by (simp_all add: touch_rows_def touch_memory_def)

lemma cursor_simps [simp]:
  "wa_id (set_cursor source c w) = wa_id w" "wa_alertRules (set_cursor source c w) = wa_alertRules w"
  "wa_publicKey (set_cursor source c w) = wa_publicKey w" "sw_userId (set_cursor source c w) = sw_userId w"
  "sw_eventTypes (set_cursor source c w) = sw_eventTypes w" "wa_type (set_cursor source c w) = wa_type w"
  by (cases source; simp)+

lemma occurred_simps [simp]:
  "wa_id (occurred event w) = wa_id w" "wa_alertRules (occurred event w) = wa_alertRules w"
  "wa_publicKey (occurred event w) = wa_publicKey w" "sw_userId (occurred event w) = sw_userId w"
  "sw_eventTypes (occurred event w) = sw_eventTypes w" "cursor_of source (occurred event w) = cursor_of source w"
  "sw_cursorLedger (occurred event w) = sw_cursorLedger w" "wa_type (occurred event w) = wa_type w"
  by (simp_all add: occurred_def) (cases source; simp)

lemma advance_simps [simp]:
  "wa_id (advance source c l w) = wa_id w" "wa_alertRules (advance source c l w) = wa_alertRules w"
  "wa_publicKey (advance source c l w) = wa_publicKey w" "sw_userId (advance source c l w) = sw_userId w"
  "sw_eventTypes (advance source c l w) = sw_eventTypes w" "wa_type (advance source c l w) = wa_type w"
  by (simp_all add: advance_def Let_def split: option.splits)

definition memory_watches :: "ingest_state \<Rightarrow> stream_watch set" where
  "memory_watches st = (\<Union>entry \<in> set (is_registry st). set (snd entry))"

lemma watches_at_memory: "set (watches_at st key) \<subseteq> memory_watches st"
  by (auto simp: watches_at_def memory_watches_def split: option.splits dest!: jm_get_Some_in [OF sym] intro: bexI)

lemma memory_touch: "memory_watches (touch_memory ids f st) = (\<lambda>w. if wa_id w \<in> set ids then f w else w) ` memory_watches st"
  by (simp add: memory_watches_def touch_memory_def image_UN split_def del: if_image_distrib)

lemma memory_calls [simp]:
  "memory_watches (st\<lparr>is_calls := n\<rparr>) = memory_watches st"
  "memory_watches (touch_rows ids f st) = memory_watches st"
  by (simp_all add: memory_watches_def)

text \<open>What is fixed about a watch while it is registered.\<close>

record watch_facts =
  wf_rules :: "string \<Rightarrow> alert_rule list"
  wf_publicKey :: "string \<Rightarrow> string"
  wf_user :: "string \<Rightarrow> string"

definition knows :: "watch_facts \<Rightarrow> stream_watch \<Rightarrow> bool" where
  "knows F w \<longleftrightarrow> wa_alertRules w = wf_rules F (wa_id w) \<and> wa_publicKey w = wf_publicKey F (wa_id w)
    \<and> sw_userId w = wf_user F (wa_id w)"

text \<open>The alerts that the stored events call for.\<close>

definition due_alerts :: "watch_facts \<Rightarrow> watch_event list \<Rightarrow> alert_key set" where
  "due_alerts F rows =
     (\<Union>row \<in> set rows. {(we_watchId row, ar_id rule, row_key row) | rule.
        rule \<in> set (wf_rules F (we_watchId row))
        \<and> matches rule (wf_publicKey F (we_watchId row)) (monitor_event.truncate (we_event row))})"

definition ingest_inv :: "watch_facts \<Rightarrow> ingest_state \<Rightarrow> bool" where
  "ingest_inv F st \<longleftrightarrow>
     (\<forall>w \<in> memory_watches st. knows F w)
     \<and> distinct (map row_key (is_events st))
     \<and> distinct (map alert_key (is_alerts st))
     \<and> alert_key ` set (is_alerts st) = due_alerts F (is_events st)
     \<and> distinct (is_jobs st) \<and> set (is_jobs st) \<subseteq> alert_key ` set (is_alerts st)
     \<and> is_emitted st = map (\<lambda>row. (wf_user F (we_watchId row), row_key row)) (is_events st)"

lemma insert_alerts_effect:
  "insert_alerts w event rules table acc = (table', acc') \<Longrightarrow>
    \<exists>added. table' = table @ added \<and> acc' = acc @ added
      \<and> (distinct (map alert_key table) \<longrightarrow> distinct (map alert_key table'))
      \<and> alert_key ` set table' = alert_key ` set table \<union>
          {(wa_id w, ar_id rule, event_key (wa_id w) event) | rule.
             rule \<in> set rules \<and> matches rule (wa_publicKey w) (monitor_event.truncate event)}"
proof (induction w event rules table acc arbitrary: table' acc' rule: insert_alerts.induct)
  case (2 w event rule rules table acc)
  let ?row = "alert_row w event rule"
  have key: "alert_key ?row = (wa_id w, ar_id rule, event_key (wa_id w) event)"
    by (simp add: alert_key_def alert_row_def)
  show ?case
  proof (cases "matches rule (wa_publicKey w) (monitor_event.truncate event)")
    case False
    then have "insert_alerts w event rules table acc = (table', acc')" using "2.prems" by simp
    from "2.IH"(1) [OF False this] False show ?thesis by auto
  next
    case m: True
    show ?thesis
    proof (cases "alert_key ?row \<in> alert_key ` set table")
      case True
      then have "insert_alerts w event rules table acc = (table', acc')" using "2.prems" m by (simp add: Let_def)
      from "2.IH"(2) [OF _ refl True this] m True key show ?thesis by auto
    next
      case False
      then have "insert_alerts w event rules (table @ [?row]) (acc @ [?row]) = (table', acc')"
        using "2.prems" m by (simp add: Let_def)
      from "2.IH"(3) [OF _ refl False this] m obtain added where
        "table' = (table @ [?row]) @ added" "acc' = (acc @ [?row]) @ added"
        "distinct (map alert_key (table @ [?row])) \<longrightarrow> distinct (map alert_key table')"
        "alert_key ` set table' = alert_key ` set (table @ [?row]) \<union>
          {(wa_id w, ar_id rule, event_key (wa_id w) event) | rule.
             rule \<in> set rules \<and> matches rule (wa_publicKey w) (monitor_event.truncate event)}"
        by blast
      then show ?thesis using False m key
        by (intro exI [of _ "?row # added"]) auto
    qed
  qed
qed simp

lemma knows_changed [simp]:
  "knows F (occurred event w) = knows F w" "knows F (advance source c l w) = knows F w"
  by (simp_all add: knows_def)

lemma memory_registry: "is_registry st' = is_registry st \<Longrightarrow> memory_watches st' = memory_watches st"
  by (simp add: memory_watches_def)

lemma due_alerts_snoc:
  assumes "knows F w"
  shows "due_alerts F (rows @ [\<lparr>we_watchId = wa_id w, we_event = event\<rparr>]) = due_alerts F rows \<union>
     {(wa_id w, ar_id rule, event_key (wa_id w) event) | rule.
        rule \<in> set (wa_alertRules w) \<and> matches rule (wa_publicKey w) (monitor_event.truncate event)}"
  using assms by (simp add: due_alerts_def knows_def row_key_def Un_commute)

lemma knows_kept:
  assumes "\<forall>w \<in> memory_watches st. knows F w" "\<And>w. knows F w \<Longrightarrow> knows F (f w)"
  shows "\<forall>w \<in> memory_watches (touch_memory ids f st). knows F w"
  using assms by (auto simp: memory_touch)

lemma ingest_inv_cong:
  assumes "ingest_inv F st" "is_events st' = is_events st" "is_alerts st' = is_alerts st" "is_jobs st' = is_jobs st"
    "is_emitted st' = is_emitted st" "\<forall>w \<in> memory_watches st'. knows F w"
  shows "ingest_inv F st'"
  using assms unfolding ingest_inv_def by metis

text \<open>A stored event: the rows it adds, and the message and jobs that follow it.\<close>

lemma persist_Inl:
  assumes "persistForWatch env w event st = (Inl e, st')" "ingest_inv F st"
  shows "ingest_inv F st'"
proof -
  have K: "\<forall>v \<in> memory_watches st. knows F v" using assms(2) by (simp add: ingest_inv_def)
  have "st' = st\<lparr>is_calls := is_calls st + 1\<rparr> \<or> st' = touch_memory [wa_id w] (occurred event) (st\<lparr>is_calls := is_calls st + 1\<rparr>)"
    using assms(1) by (auto simp: persistForWatch_def Let_def split: if_splits prod.splits)
  then show ?thesis
  proof
    assume "st' = st\<lparr>is_calls := is_calls st + 1\<rparr>"
    then show ?thesis using K by (intro ingest_inv_cong [OF assms(2)]) simp_all
  next
    assume "st' = touch_memory [wa_id w] (occurred event) (st\<lparr>is_calls := is_calls st + 1\<rparr>)"
    then show ?thesis using K by (intro ingest_inv_cong [OF assms(2)]) (auto simp: memory_touch)
  qed
qed

lemma persist_None:
  assumes "persistForWatch env w event st = (Inr None, st')"
  shows "st' = st\<lparr>is_calls := is_calls st + 1\<rparr> \<and> event_key (wa_id w) event \<in> row_key ` set (is_events st)"
  using assms by (auto simp: persistForWatch_def Let_def split: if_splits prod.splits)

lemma persist_Some:
  assumes "persistForWatch env w event st = (Inr (Some added), st')"
  shows "event_key (wa_id w) event \<notin> row_key ` set (is_events st)
    \<and> is_events st' = is_events st @ [\<lparr>we_watchId = wa_id w, we_event = event\<rparr>]
    \<and> insert_alerts w event (wa_alertRules w) (is_alerts st) [] = (is_alerts st', added)
    \<and> is_jobs st' = is_jobs st \<and> is_emitted st' = is_emitted st
    \<and> is_registry st' = is_registry (touch_memory [wa_id w] (occurred event) st)"
  using assms by (auto simp: persistForWatch_def Let_def touch_memory_def touch_rows_def split: if_splits prod.splits)

lemma enqueue_keeps [simp]:
  "is_registry (enqueue_alerts env alerts st) = is_registry st"
  "is_events (enqueue_alerts env alerts st) = is_events st"
  "is_alerts (enqueue_alerts env alerts st) = is_alerts st"
  "is_emitted (enqueue_alerts env alerts st) = is_emitted st"
  by (induction alerts arbitrary: st) simp_all

lemma enqueue_distinct:
  "distinct (map alert_key alerts) \<Longrightarrow> distinct (is_jobs st) \<Longrightarrow> alert_key ` set alerts \<inter> set (is_jobs st) = {} \<Longrightarrow>
    distinct (is_jobs (enqueue_alerts env alerts st))"
proof (induction alerts arbitrary: st)
  case (Cons a alerts)
  let ?st = "st\<lparr>is_jobs := (if env_queue env (is_calls st) then is_jobs st @ [alert_key a] else is_jobs st),
           is_calls := is_calls st + 1\<rparr>"
  have "distinct (map alert_key alerts)" "distinct (is_jobs ?st)" "alert_key ` set alerts \<inter> set (is_jobs ?st) = {}"
    using Cons.prems by auto
  from Cons.IH [OF this] show ?case by simp
qed simp

lemma enqueue_jobs: "set (is_jobs (enqueue_alerts env alerts st)) \<subseteq> set (is_jobs st) \<union> alert_key ` set alerts"
proof (induction alerts arbitrary: st)
  case (Cons a alerts)
  let ?st = "st\<lparr>is_jobs := (if env_queue env (is_calls st) then is_jobs st @ [alert_key a] else is_jobs st),
           is_calls := is_calls st + 1\<rparr>"
  have "set (is_jobs ?st) \<subseteq> insert (alert_key a) (set (is_jobs st))" by auto
  with Cons.IH [of ?st] show ?case by auto
qed simp

lemma stored_inv:
  assumes "persistForWatch env w event st = (Inr (Some added), st1)" "ingest_inv F st" "knows F w"
  shows "ingest_inv F (enqueue_alerts env added
    (st1\<lparr>is_emitted := is_emitted st1 @ [(sw_userId w, event_key (wa_id w) event)]\<rparr>))" (is "ingest_inv F ?st")
proof -
  let ?row = "\<lparr>we_watchId = wa_id w, we_event = event\<rparr>"
  note P = persist_Some [OF assms(1)]
  obtain new where new: "is_alerts st1 = is_alerts st @ new" "added = new"
      "distinct (map alert_key (is_alerts st)) \<longrightarrow> distinct (map alert_key (is_alerts st1))"
      "alert_key ` set (is_alerts st1) = alert_key ` set (is_alerts st) \<union>
          {(wa_id w, ar_id rule, event_key (wa_id w) event) | rule.
             rule \<in> set (wa_alertRules w) \<and> matches rule (wa_publicKey w) (monitor_event.truncate event)}"
    using insert_alerts_effect [of w event "wa_alertRules w" "is_alerts st" "[]" "is_alerts st1" added] P by auto
  have I: "distinct (map row_key (is_events st))" "distinct (map alert_key (is_alerts st))"
      "alert_key ` set (is_alerts st) = due_alerts F (is_events st)" "distinct (is_jobs st)"
      "set (is_jobs st) \<subseteq> alert_key ` set (is_alerts st)"
      "is_emitted st = map (\<lambda>row. (wf_user F (we_watchId row), row_key row)) (is_events st)"
      "\<forall>w \<in> memory_watches st. knows F w"
    using assms(2) unfolding ingest_inv_def by metis+
  have all: "distinct (map alert_key (is_alerts st @ new))" using new I(2) by simp
  then have fresh: "alert_key ` set new \<inter> set (is_jobs st) = {}" "distinct (map alert_key new)"
    using I(5) by auto
  have jobs: "distinct (is_jobs ?st)" "set (is_jobs ?st) \<subseteq> set (is_jobs st) \<union> alert_key ` set new"
    using enqueue_distinct [of new "st1\<lparr>is_emitted := is_emitted st1 @ [(sw_userId w, event_key (wa_id w) event)]\<rparr>" env]
      enqueue_jobs [of env new "st1\<lparr>is_emitted := is_emitted st1 @ [(sw_userId w, event_key (wa_id w) event)]\<rparr>"]
      fresh I(4) P new(2) by simp_all
  have mem: "\<forall>v \<in> memory_watches ?st. knows F v"
    using knows_kept [OF I(7), of "occurred event" "[wa_id w]"] P
    by (simp add: memory_watches_def)
  show ?thesis unfolding ingest_inv_def
  proof (intro conjI)
    show "distinct (map row_key (is_events ?st))"
      using I(1) P by (simp add: row_key_def)
    show "distinct (map alert_key (is_alerts ?st))" using all new(1) by simp
    show "alert_key ` set (is_alerts ?st) = due_alerts F (is_events ?st)"
      using new(4) I(3) P due_alerts_snoc [OF assms(3), of "is_events st" event] by simp
    show "set (is_jobs ?st) \<subseteq> alert_key ` set (is_alerts ?st)"
      using jobs(2) I(5) new(1) by auto
    show "is_emitted ?st = map (\<lambda>row. (wf_user F (we_watchId row), row_key row)) (is_events ?st)"
      using I(6) P assms(3) by (simp add: knows_def row_key_def)
  qed (use mem jobs in auto)
qed

lemma ingest_watches_inv:
  "ingest_watches env event ws st = (r, st') \<Longrightarrow> ingest_inv F st \<Longrightarrow> \<forall>w \<in> set ws. knows F w \<Longrightarrow> ingest_inv F st'"
proof (induction env event ws st arbitrary: r st' rule: ingest_watches.induct)
  case (2 env event w ws st)
  obtain o1 st1 where P: "persistForWatch env w event st = (o1, st1)" by (cases "persistForWatch env w event st")
  consider e where "o1 = Inl e" | "o1 = Inr None" | added where "o1 = Inr (Some added)"
    by (metis not_None_eq sum.exhaust)
  then show ?case
  proof cases
    case 1
    then show ?thesis using "2.prems" P persist_Inl by fastforce
  next
    case 2
    have "ingest_inv F st1" using persist_None P 2 "2.prems"(2)
      by (auto simp: ingest_inv_def memory_watches_def dest!: persist_None)
    then show ?thesis using "2.IH"(1) [OF P [symmetric] 2] "2.prems" P 2 by simp
  next
    case 3
    from stored_inv [OF P [unfolded 3] "2.prems"(2)] show ?thesis
      using "2.IH"(2) [OF P [symmetric] 3] "2.prems" P 3 by simp
  qed
qed simp

lemma updateCursor_cases:
  obtains (same) "updateCursor env key source cursor ledger st = (Inr (), st)"
      "\<forall>w \<in> set (watches_at st key). \<not> shouldAdvanceCursor env w source cursor ledger"
  | (failed) "updateCursor env key source cursor ledger st = (Inl db_error, st\<lparr>is_calls := is_calls st + 1\<rparr>)"
  | (moved) ids where "updateCursor env key source cursor ledger st =
       (Inr (), touch_memory ids (advance source cursor ledger)
          (touch_rows ids (advance source cursor ledger) (st\<lparr>is_calls := is_calls st + 1\<rparr>)))"
      "ids = map wa_id (filter (\<lambda>w. shouldAdvanceCursor env w source cursor ledger) (watches_at st key))"
  unfolding updateCursor_def Let_def filter_empty_conv by metis

lemma ingest_step_inv:
  assumes "ingest_inv F st"
  shows "ingest_inv F (snd (ingest_step env op st))"
proof (cases op)
  case (Op_ingest key event)
  have "\<forall>w \<in> set (watches_at st key). knows F w"
    using assms watches_at_memory [of st key] by (auto simp: ingest_inv_def)
  then have K: "\<forall>w \<in> set (filter (subscribed env event) (watches_at st key)). knows F w" by simp
  obtain r st' where R: "ingest_watches env event (filter (subscribed env event) (watches_at st key)) st = (r, st')"
    by fastforce
  from ingest_watches_inv [OF R assms K] show ?thesis by (simp add: Op_ingest ingest_def R)
next
  case (Op_cursor key source cursor ledger)
  have K: "\<forall>w \<in> memory_watches st. knows F w" using assms by (simp add: ingest_inv_def)
  show ?thesis
    by (cases rule: updateCursor_cases [of env key source cursor ledger st])
      (use K assms in \<open>auto intro!: ingest_inv_cong [OF assms] simp: memory_touch Op_cursor\<close>)
qed

lemma ingest_run_inv: "ingest_inv F st \<Longrightarrow> ingest_inv F (ingest_run env ops st)"
  by (induction ops arbitrary: st) (auto simp: ingest_run_def ingest_step_inv)

section \<open>Properties\<close>

text \<open>
  C13. Events are stored, announced and alerted exactly once. Whatever the sequence of events (an
  event may arrive any number of times, from a stream and from a poll) and of cursor updates, and
  whichever database and queue calls reject on the way, every stored event is stored once for its
  watch and sent to the user of the watch once; the alerts are exactly those that the rules of the
  watch raise on its stored events, one for each rule and event; and no alert is queued twice.
\<close>

theorem events_exactly_once:
  assumes "\<forall>w \<in> memory_watches st. knows F w"
    and "is_events st = []" "is_alerts st = []" "is_jobs st = []" "is_emitted st = []"
    and "st' = ingest_run env ops st"
  shows "distinct (map row_key (is_events st'))
    \<and> is_emitted st' = map (\<lambda>row. (wf_user F (we_watchId row), row_key row)) (is_events st')
    \<and> distinct (map alert_key (is_alerts st'))
    \<and> alert_key ` set (is_alerts st') = due_alerts F (is_events st')
    \<and> distinct (is_jobs st') \<and> set (is_jobs st') \<subseteq> alert_key ` set (is_alerts st')"
proof -
  have "ingest_inv F st" using assms(1-5) by (simp add: ingest_inv_def due_alerts_def)
  from ingest_run_inv [OF this, of env ops] show ?thesis
    unfolding assms(6) ingest_inv_def by metis
qed

section \<open>Instances\<close>

definition sample_stream_watch :: stream_watch where
  "sample_stream_watch =
     \<lparr>wa_id = ''w1'', wa_publicKey = ''GA'', wa_type = Account_watch, wa_network = Net_testnet,
      wa_alertRules = [\<lparr>ar_id = ''r1'', ar_type = Any_activity, ar_asset = None, ar_threshold = None,
        ar_windowMinutes = None, ar_channels = [Email], ar_topic = None\<rparr>],
      wa_alertState = None, wa_lastEvaluatedAt = None, sw_userId = ''u1'', sw_eventTypes = [Src_transaction],
      sw_transactionCursor = Some ''5'', sw_paymentCursor = None, sw_contractCursor = None, sw_cursorLedger = None,
      sw_lastEventAt = None, sw_lastError = None, sw_streamMode = Poll, sw_status = Polling\<rparr>"

definition sample_stream_event :: "string \<Rightarrow> ingest_event" where
  "sample_stream_event token =
     \<lparr>me_source = Src_transaction, me_amount = None, me_asset = None, me_sentAmount = None, me_receivedAmount = None,
      me_receivedAsset = None, me_from = None, me_to = None, me_successful = Some True, me_topic = None,
      ie_pagingToken = token, ie_eventType = Src_transaction, ie_ledger = Some 7, ie_occurredAt = 0,
      ie_sentAsset = None, ie_transactionHash = None, ie_payload = J_null\<rparr>"

definition sample_stream_state :: "(string, stream_watch list) jmap \<Rightarrow> ingest_state" where
  "sample_stream_state reg =
     \<lparr>is_registry = reg, is_watches = concat (map (\<lambda>(key, ws). map (\<lambda>w. (wa_id w, w)) ws) reg),
      is_events = [], is_alerts = [], is_jobs = [], is_emitted = [], is_statuses = [], is_calls = 0\<rparr>"

definition sample_facts :: watch_facts where
  "sample_facts = \<lparr>wf_rules = (\<lambda>_. wa_alertRules sample_stream_watch), wf_publicKey = (\<lambda>_. ''GA''), wf_user = (\<lambda>_. ''u1'')\<rparr>"

definition sample_env :: ingest_env where
  "sample_env = \<lparr>env_tx = (\<lambda>n. if n = 0 then Rejects_late else Commits), env_update = (\<lambda>_. True),
      env_queue = (\<lambda>_. True), env_localeCompare = (\<lambda>_ _. 0)\<rparr>"

lemmas sample_stream_defs = sample_stream_watch_def sample_stream_event_def sample_stream_state_def sample_facts_def
  sample_env_def

text \<open>The event comes three times, and the first transaction rejects.\<close>

lemma sample_ingest_run:
  "let st' = ingest_run sample_env (replicate 3 (Op_ingest ''k'' (sample_stream_event ''6'')))
       (sample_stream_state [(''k'', [sample_stream_watch])])
   in map row_key (is_events st') = [(''w1'', Src_transaction, ''6'')]
      \<and> is_jobs st' = [(''w1'', ''r1'', (''w1'', Src_transaction, ''6''))]"
  by code_simp

theorem events_exactly_once_witness:
  "let st' = ingest_run sample_env (replicate 3 (Op_ingest ''k'' (sample_stream_event ''6'')))
       (sample_stream_state [(''k'', [sample_stream_watch])])
   in is_events st' \<noteq> [] \<and> is_jobs st' \<noteq> []
      \<and> alert_key ` set (is_alerts st') = due_alerts sample_facts (is_events st')"
proof -
  have "\<forall>w \<in> memory_watches (sample_stream_state [(''k'', [sample_stream_watch])]). knows sample_facts w"
    by (simp add: memory_watches_def sample_stream_defs knows_def)
  from events_exactly_once [OF this _ _ _ _ refl, of sample_env "replicate 3 (Op_ingest ''k'' (sample_stream_event ''6''))"]
    sample_ingest_run
  show ?thesis by (auto simp: Let_def sample_stream_state_def)
qed

end
