(* ===== verification/StreamPolling.thy ===== *)
theory StreamPolling
  imports EventIngestion
begin

text \<open>
  How the records of the ledger reach the event store: the normalisation of Horizon and contract
  records, the polls of an account and of a contract, and the handler of a streamed record, all
  of \<open>stream-manager.service.ts\<close> in \<open>apps/api/src/modules/monitor\<close>. Horizon and the Soroban RPC
  server are the parameters that answer a page request; the text of a number, \<open>Number\<close>, the
  parsing of dates and the clock are parameters too.
\<close>

section \<open>Normalisation\<close>

record js_host =
  num_text :: "js_num \<Rightarrow> string"
  to_ledger :: "json option \<Rightarrow> int option"   \<comment> \<open>\<open>optionalNumber\<close>; ledgers are whole numbers\<close>
  parse_time :: "string \<Rightarrow> int"
  now_time :: int

definition optionalString :: "js_host \<Rightarrow> json option \<Rightarrow> string option" where
  "optionalString host v =
     (case v of Some (J_str s) \<Rightarrow> Some s | Some (J_num n) \<Rightarrow> Some (num_text host n) | _ \<Rightarrow> None)"

definition requiredString :: "js_host \<Rightarrow> json option \<Rightarrow> string \<Rightarrow> js_error + string" where
  "requiredString host v name =
     (case optionalString host v of
        Some s \<Rightarrow> Inr s
      | None \<Rightarrow> Inl (PlainError (''Horizon event is missing '' @ name)))"

text \<open>\<open>a ?? b\<close> of two fields.\<close>

definition nullish_or :: "json option \<Rightarrow> json option \<Rightarrow> json option" where
  "nullish_or a b = (if a = None \<or> a = Some J_null then b else a)"

definition asset_text :: "string option \<Rightarrow> string option \<Rightarrow> string option \<Rightarrow> string option" where
  "asset_text assetType assetCode assetIssuer =
     (if assetType = Some ''native'' then Some ''XLM''
      else if falsy assetCode then None
      else Some (the assetCode @ (if falsy assetIssuer then [] else '':'' @ the assetIssuer)))"

text \<open>\<open>event.payload.topic\<close>, where it is a text.\<close>

definition payload_topic :: "json \<Rightarrow> string option" where
  "payload_topic payload = (case field payload ''topic'' of Some (J_str s) \<Rightarrow> Some s | _ \<Rightarrow> None)"

definition normalizeHorizonEvent :: "js_host \<Rightarrow> event_source \<Rightarrow> json \<Rightarrow> js_error + ingest_event" where
  "normalizeHorizonEvent host source v =
     (let str = (\<lambda>name. optionalString host (field v name));
          asset = asset_text (str ''asset_type'') (str ''asset_code'') (str ''asset_issuer'');
          sourceAsset = asset_text (str ''source_asset_type'') (str ''source_asset_code'') (str ''source_asset_issuer'')
      in and_then (requiredString host (field v ''paging_token'') ''paging_token'') (\<lambda>token.
         Inr \<lparr>me_source = source,
              me_amount = str ''amount'',
              me_asset = asset,
              me_sentAmount = optionalString host (nullish_or (field v ''source_amount'') (field v ''amount'')),
              me_receivedAmount = str ''amount'',
              me_receivedAsset = asset,
              me_from = optionalString host (nullish_or (field v ''from'') (field v ''source_account'')),
              me_to = optionalString host (nullish_or (field v ''to'') (field v ''account'')),
              me_successful =
                (if source = Src_transaction
                 then (case field v ''successful'' of Some (J_bool b) \<Rightarrow> Some b | _ \<Rightarrow> None) else None),
              me_topic = payload_topic v,
              ie_pagingToken = token,
              ie_eventType = source,
              ie_ledger = to_ledger host (nullish_or (field v ''ledger_attr'') (field v ''ledger'')),
              ie_occurredAt = (case str ''created_at'' of Some t \<Rightarrow> parse_time host t | None \<Rightarrow> now_time host),
              ie_sentAsset = or_else sourceAsset asset,
              ie_transactionHash = optionalString host (nullish_or (field v ''transaction_hash'') (field v ''hash'')),
              ie_payload = v\<rparr>))"

text \<open>A contract event as the RPC client returns it, its topics and value in XDR as base64 text.\<close>

record rpc_event =
  re_id :: string
  re_type :: string
  re_ledger :: int
  re_ledgerClosedAt :: string
  re_pagingToken :: string
  re_inSuccessfulContractCall :: bool
  re_txHash :: string
  re_contractId :: "string option"
  re_topic :: "string list"
  re_value :: string

definition contract_payload :: "rpc_event \<Rightarrow> json" where
  "contract_payload r =
     J_obj ([(''id'', J_str (re_id r)), (''type'', J_str (re_type r)),
          (''ledger'', J_num (of_int (re_ledger r))), (''ledgerClosedAt'', J_str (re_ledgerClosedAt r)),
          (''pagingToken'', J_str (re_pagingToken r)),
          (''inSuccessfulContractCall'', J_bool (re_inSuccessfulContractCall r)),
          (''transactionHash'', J_str (re_txHash r))]
        @ (case re_contractId r of Some c \<Rightarrow> [(''contractId'', J_str c)] | None \<Rightarrow> [])
        @ [(''topic'', J_arr (map J_str (re_topic r))), (''value'', J_str (re_value r))])"

definition normalizeContractEvent :: "js_host \<Rightarrow> rpc_event \<Rightarrow> ingest_event" where
  "normalizeContractEvent host r =
     \<lparr>me_source = Src_contract, me_amount = None, me_asset = None, me_sentAmount = None, me_receivedAmount = None,
      me_receivedAsset = None, me_from = None, me_to = None,
      me_successful = Some (re_inSuccessfulContractCall r), me_topic = payload_topic (contract_payload r),
      ie_pagingToken = re_pagingToken r, ie_eventType = Src_contract, ie_ledger = Some (re_ledger r),
      ie_occurredAt = parse_time host (re_ledgerClosedAt r), ie_sentAsset = None,
      ie_transactionHash = Some (re_txHash r), ie_payload = contract_payload r\<rparr>"

section \<open>Polling an account\<close>

record horizon_pages =
  page_after :: "event_source \<Rightarrow> string \<Rightarrow> js_error + json list"
  page_latest :: "event_source \<Rightarrow> js_error + json list"

text \<open>\<open>cursors.reduce\<close>; a cursor that is no number makes \<open>BigInt\<close> throw.\<close>

fun lowest_cursor :: "string \<Rightarrow> string list \<Rightarrow> js_error + string" where
  "lowest_cursor lowest [] = Inr lowest"
| "lowest_cursor lowest (c # cursors) =
     and_then (bigint_of_string c) (\<lambda>a. and_then (bigint_of_string lowest) (\<lambda>b.
       lowest_cursor (if a < b then c else lowest) cursors))"

definition latest_token :: "json list \<Rightarrow> string" where
  "latest_token found =
     (case found of [] \<Rightarrow> ''0''
      | r # _ \<Rightarrow> (case field r ''paging_token'' of Some (J_str s) \<Rightarrow> s | _ \<Rightarrow> ''0''))"

definition ensureAccountCursor ::
  "ingest_env \<Rightarrow> horizon_pages \<Rightarrow> string \<Rightarrow> event_source \<Rightarrow> ingest_state
    \<Rightarrow> (js_error + string) \<times> ingest_state" where
  "ensureAccountCursor env api key source st =
     (let cursors = map the (filter (\<lambda>c. \<not> falsy c) (map (cursor_of source) (watches_at st key))) in
      case cursors of
        c # cs \<Rightarrow> (lowest_cursor c cs, st)
      | [] \<Rightarrow>
          (case page_latest api source of
             Inl e \<Rightarrow> (Inl e, st)
           | Inr found \<Rightarrow>
               (case updateCursor env key source (latest_token found) None st of
                  (Inl e, st1) \<Rightarrow> (Inl e, st1)
                | (Inr _, st1) \<Rightarrow> (Inr (latest_token found), st1))))"

text \<open>What is done with one record, by the loop of a poll and by the handler of a stream.\<close>

definition take_event ::
  "ingest_env \<Rightarrow> string \<Rightarrow> event_source \<Rightarrow> ingest_event \<Rightarrow> ingest_state \<Rightarrow> (js_error + unit) \<times> ingest_state" where
  "take_event env key source event st =
     (case ingest env key event st of
        (Inl e, st1) \<Rightarrow> (Inl e, st1)
      | (Inr _, st1) \<Rightarrow> updateCursor env key source (ie_pagingToken event) (ie_ledger event) st1)"

definition take_record ::
  "ingest_env \<Rightarrow> js_host \<Rightarrow> string \<Rightarrow> event_source \<Rightarrow> json \<Rightarrow> ingest_state \<Rightarrow> (js_error + unit) \<times> ingest_state" where
  "take_record env host key source r st =
     (case normalizeHorizonEvent host source r of
        Inl e \<Rightarrow> (Inl e, st)
      | Inr event \<Rightarrow> take_event env key source event st)"

fun take_records ::
  "ingest_env \<Rightarrow> js_host \<Rightarrow> string \<Rightarrow> event_source \<Rightarrow> json list \<Rightarrow> ingest_state
    \<Rightarrow> (js_error + unit) \<times> ingest_state" where
  "take_records env host key source [] st = (Inr (), st)"
| "take_records env host key source (r # rs) st =
     (case take_record env host key source r st of
        (Inl e, st1) \<Rightarrow> (Inl e, st1)
      | (Inr _, st1) \<Rightarrow> take_records env host key source rs st1)"

definition pollAccount ::
  "ingest_env \<Rightarrow> js_host \<Rightarrow> horizon_pages \<Rightarrow> string \<Rightarrow> event_source \<Rightarrow> ingest_state
    \<Rightarrow> (js_error + unit) \<times> ingest_state" where
  "pollAccount env host api key source st =
     (case ensureAccountCursor env api key source st of
        (Inl e, st1) \<Rightarrow> (Inl e, st1)
      | (Inr cursor, st1) \<Rightarrow>
          (case page_after api source cursor of
             Inl e \<Rightarrow> (Inl e, st1)
           | Inr found \<Rightarrow> take_records env host key source found st1))"

section \<open>Polling a contract\<close>

datatype events_from = From_cursor string | From_ledger int

record events_response =
  er_events :: "rpc_event list"
  er_cursor :: string
  er_latestLedger :: int

record rpc_pages =
  rpc_latest :: "js_error + int"
  rpc_events :: "events_from \<Rightarrow> js_error + events_response"

fun ingest_contract ::
  "ingest_env \<Rightarrow> js_host \<Rightarrow> string \<Rightarrow> rpc_event list \<Rightarrow> ingest_state \<Rightarrow> (js_error + unit) \<times> ingest_state" where
  "ingest_contract env host key [] st = (Inr (), st)"
| "ingest_contract env host key (r # rs) st =
     (case ingest env key (normalizeContractEvent host r) st of
        (Inl e, st1) \<Rightarrow> (Inl e, st1)
      | (Inr _, st1) \<Rightarrow> ingest_contract env host key rs st1)"

text \<open>\<open>w\<close> is the first watch of the key.\<close>

definition pollContract ::
  "ingest_env \<Rightarrow> js_host \<Rightarrow> rpc_pages \<Rightarrow> string \<Rightarrow> stream_watch \<Rightarrow> ingest_state
    \<Rightarrow> (js_error + unit) \<times> ingest_state" where
  "pollContract env host api key w st =
     (let request = (if \<not> falsy (sw_contractCursor w) then Inr (From_cursor (the (sw_contractCursor w)))
                     else case sw_cursorLedger w of
                            Some l \<Rightarrow> Inr (From_ledger (l + 1))
                          | None \<Rightarrow> and_then (rpc_latest api) (\<lambda>l. Inr (From_ledger l)))
      in case and_then request (rpc_events api) of
           Inl e \<Rightarrow> (Inl e, st)
         | Inr response \<Rightarrow>
             (case ingest_contract env host key (er_events response) st of
                (Inl e, st1) \<Rightarrow> (Inl e, st1)
              | (Inr _, st1) \<Rightarrow>
                  updateCursor env key Src_contract (er_cursor response) (Some (er_latestLedger response)) st1))"

section \<open>Status\<close>

definition with_status :: "stream_mode \<Rightarrow> stream_status \<Rightarrow> string option \<Rightarrow> stream_watch \<Rightarrow> stream_watch" where
  "with_status mode status err w = w\<lparr>sw_streamMode := mode, sw_status := status, sw_lastError := err\<rparr>"

text \<open>Only the watches that change are written and told to their users.\<close>

definition setStatus ::
  "ingest_env \<Rightarrow> string \<Rightarrow> stream_mode \<Rightarrow> stream_status \<Rightarrow> string option \<Rightarrow> ingest_state
    \<Rightarrow> (js_error + unit) \<times> ingest_state" where
  "setStatus env key mode status err st =
     (let changed = filter (\<lambda>w. sw_streamMode w \<noteq> mode \<or> sw_status w \<noteq> status \<or> sw_lastError w \<noteq> err) (watches_at st key);
          ids = map wa_id changed;
          st' = st\<lparr>is_calls := is_calls st + 1\<rparr>
      in if changed = [] then (Inr (), st)
         else if \<not> env_update env (is_calls st) then (Inl db_error, st')
         else (Inr (), (touch_memory ids (with_status mode status err) (touch_rows ids (with_status mode status err) st'))
                \<lparr>is_statuses := is_statuses st @ map (\<lambda>w. (sw_userId w, wa_id w, mode, status, err)) changed\<rparr>))"

section \<open>Polls and streams\<close>

definition poll_body ::
  "ingest_env \<Rightarrow> js_host \<Rightarrow> horizon_pages \<Rightarrow> rpc_pages \<Rightarrow> string \<Rightarrow> stream_watch \<Rightarrow> ingest_state
    \<Rightarrow> (js_error + unit) \<times> ingest_state" where
  "poll_body env host api rpc key w st =
     (if wa_type w = Contract_watch then pollContract env host rpc key w st
      else case pollAccount env host api key Src_transaction st of
             (Inl e, st1) \<Rightarrow> (Inl e, st1)
           | (Inr _, st1) \<Rightarrow> pollAccount env host api key Src_payment st1)"

text \<open>\<open>poll\<close> of a group that is neither stopped nor polling; the error of a poll becomes its status.\<close>

definition poll ::
  "ingest_env \<Rightarrow> js_host \<Rightarrow> horizon_pages \<Rightarrow> rpc_pages \<Rightarrow> string \<Rightarrow> ingest_state \<Rightarrow> ingest_state" where
  "poll env host api rpc key st =
     (case watches_at st key of
        [] \<Rightarrow> st
      | w # _ \<Rightarrow>
          (case (case poll_body env host api rpc key w st of
                   (Inl e, st1) \<Rightarrow> (Inl e, st1)
                 | (Inr _, st1) \<Rightarrow> setStatus env key Poll Polling None st1) of
             (Inl e, st2) \<Rightarrow> snd (setStatus env key Poll Stream_failed (Some (error_text e)) st2)
           | (Inr _, st2) \<Rightarrow> st2))"

text \<open>The chain of a source: an error becomes the status, and the next record is taken.\<close>

definition stream_message ::
  "ingest_env \<Rightarrow> js_host \<Rightarrow> string \<Rightarrow> stream_mode \<Rightarrow> event_source \<Rightarrow> json \<Rightarrow> ingest_state \<Rightarrow> ingest_state" where
  "stream_message env host key mode source r st =
     (case take_record env host key source r st of
        (Inl e, st1) \<Rightarrow> snd (setStatus env key mode Stream_failed (Some (error_text e)) st1)
      | (Inr _, st1) \<Rightarrow> st1)"

section \<open>What taking an event keeps\<close>

lemma watches_at_registry: "is_registry st' = is_registry st \<Longrightarrow> watches_at st' key = watches_at st key"
  by (simp add: watches_at_def)

lemma jm_get_map_values: "jm_get (map (\<lambda>(k, v). (k, f v)) m) key = map_option f (jm_get m key)"
  by (induction m) auto

lemma watches_at_touch [simp]:
  "watches_at (touch_memory ids f st) key = map (\<lambda>w. if wa_id w \<in> set ids then f w else w) (watches_at st key)"
  "watches_at (touch_rows ids f st) key = watches_at st key"
  "watches_at (st\<lparr>is_calls := n\<rparr>) key = watches_at st key"
  by (simp_all add: watches_at_def touch_memory_def jm_get_map_values split: option.splits)

lemma cursor_advance [simp]:
  "cursor_of source (advance s c l w) = (if source = s then Some c else cursor_of source w)"
  by (cases source; cases s; simp add: advance_def Let_def split: option.splits)

text \<open>What selects the events of a watch.\<close>

definition position :: "event_source \<Rightarrow> stream_watch \<Rightarrow> string \<times> watch_type \<times> event_source list \<times> string option" where
  "position source w = (wa_id w, wa_type w, sw_eventTypes w, cursor_of source w)"

lemma position_occurred [simp]: "position source (occurred event w) = position source w"
  by (simp add: position_def)

definition grows :: "string \<Rightarrow> event_source \<Rightarrow> ingest_state \<Rightarrow> ingest_state \<Rightarrow> bool" where
  "grows key source st st' \<longleftrightarrow>
     map (position source) (watches_at st' key) = map (position source) (watches_at st key)
     \<and> set (is_events st) \<subseteq> set (is_events st')"

lemma grows_refl [simp]: "grows key source st st" and
  grows_trans: "grows key source st st1 \<Longrightarrow> grows key source st1 st2 \<Longrightarrow> grows key source st st2"
  by (auto simp: grows_def)

lemma grows_calls [simp]: "grows key source st (st\<lparr>is_calls := n\<rparr>)"
  by (simp add: grows_def)

lemma persist_grows:
  assumes "persistForWatch env w event st = (r, st')"
  shows "grows key source st st'"
proof -
  consider "st' = st\<lparr>is_calls := is_calls st + 1\<rparr>"
    | "st' = touch_memory [wa_id w] (occurred event) (st\<lparr>is_calls := is_calls st + 1\<rparr>)"
    | added where "r = Inr (Some added)"
    using assms by (auto simp: persistForWatch_def Let_def split: if_splits prod.splits)
  then show ?thesis
  proof cases
    case 3
    from persist_Some [OF assms [unfolded 3]] show ?thesis
      by (simp add: grows_def watches_at_registry [of st' "touch_memory [wa_id w] (occurred event) st"] subset_insertI)
  qed (auto simp: grows_def)
qed

lemma ingest_watches_grows:
  "ingest_watches env event ws st = (r, st') \<Longrightarrow>
    grows key source st st' \<and> (r = Inr () \<longrightarrow> (\<forall>w \<in> set ws. event_key (wa_id w) event \<in> row_key ` set (is_events st')))"
proof (induction env event ws st arbitrary: r st' rule: ingest_watches.induct)
  case (2 env event w ws st)
  obtain o1 st1 where P: "persistForWatch env w event st = (o1, st1)" by (cases "persistForWatch env w event st")
  note G = persist_grows [OF P, of key source]
  consider e where "o1 = Inl e" | "o1 = Inr None" | added where "o1 = Inr (Some added)"
    by (metis not_None_eq sum.exhaust)
  then show ?case
  proof cases
    case 1
    then show ?thesis using "2.prems" P G by auto
  next
    case 2
    have "ingest_watches env event ws st1 = (r, st')" using "2.prems" P 2 by simp
    from "2.IH"(1) [OF P [symmetric] 2 refl this] G show ?thesis
      using persist_None [OF P [unfolded 2]] by (auto simp: grows_def)
  next
    case 3
    let ?st = "enqueue_alerts env added
      (st1\<lparr>is_emitted := is_emitted st1 @ [(sw_userId w, event_key (wa_id w) event)]\<rparr>)"
    have R: "ingest_watches env event ws ?st = (r, st')" using "2.prems" P 3 by simp
    have "grows key source st1 ?st" by (simp add: grows_def watches_at_def)
    moreover have "event_key (wa_id w) event \<in> row_key ` set (is_events ?st)"
      using persist_Some [OF P [unfolded 3]] by (simp add: row_key_def)
    ultimately show ?thesis
      using "2.IH"(2) [OF P [symmetric] 3 refl R] grows_trans [OF G] by (auto simp: grows_def)
  qed
qed simp

lemma ingest_grows:
  assumes "ingest env key event st = (r, st')"
  shows "grows key source st st'"
    and "r = Inr () \<Longrightarrow> w \<in> set (watches_at st key) \<Longrightarrow> subscribed env event w \<Longrightarrow>
      event_key (wa_id w) event \<in> row_key ` set (is_events st')"
  using ingest_watches_grows [OF assms [unfolded ingest_def], of key source] by auto

section \<open>Cursors without gaps\<close>

definition token :: "ingest_event \<Rightarrow> nat" where
  "token event = nat_of_digits (ie_pagingToken event)"

definition cursor_at :: "event_source \<Rightarrow> stream_watch \<Rightarrow> nat" where
  "cursor_at source w = nat_of_digits (the (cursor_of source w))"

definition numbered :: "event_source \<Rightarrow> stream_watch \<Rightarrow> bool" where
  "numbered source w \<longleftrightarrow> (case cursor_of source w of Some c \<Rightarrow> all_digits c | None \<Rightarrow> False)"

text \<open>The history of an account in one source: numeric paging tokens, in ascending order.\<close>

definition ledger_history :: "event_source \<Rightarrow> ingest_event list \<Rightarrow> bool" where
  "ledger_history source H \<longleftrightarrow>
     sorted_wrt (\<lambda>a b. token a < token b) H
     \<and> list_all (\<lambda>e. me_source e = source \<and> all_digits (ie_pagingToken e)) H"

text \<open>
  Up to its cursor a watch has every event that it subscribed to since the cursor was \<open>start\<close>.
\<close>

definition no_gap :: "ingest_event list \<Rightarrow> (string \<Rightarrow> nat) \<Rightarrow> string \<Rightarrow> event_source \<Rightarrow> ingest_state \<Rightarrow> bool" where
  "no_gap H start key source st \<longleftrightarrow>
     (\<forall>w \<in> set (watches_at st key). numbered source w
        \<and> (\<forall>e \<in> set H. ie_eventType e \<in> set (sw_eventTypes w) \<and> start (wa_id w) < token e
              \<and> token e \<le> cursor_at source w \<longrightarrow> event_key (wa_id w) e \<in> row_key ` set (is_events st)))"

lemma no_gapD:
  "no_gap H start key source st \<Longrightarrow> w \<in> set (watches_at st key) \<Longrightarrow> e \<in> set H \<Longrightarrow> ie_eventType e \<in> set (sw_eventTypes w) \<Longrightarrow>
    start (wa_id w) < token e \<Longrightarrow> token e \<le> cursor_at source w \<Longrightarrow> event_key (wa_id w) e \<in> row_key ` set (is_events st)"
  by (simp add: no_gap_def)

lemma positions_transfer:
  assumes "map (position source) ws' = map (position source) ws" "w' \<in> set ws'"
  obtains w where "w \<in> set ws" "wa_id w = wa_id w'" "sw_eventTypes w = sw_eventTypes w'"
    "cursor_of source w = cursor_of source w'"
proof -
  have "position source w' \<in> set (map (position source) ws)" using assms by (metis image_eqI list.set_map)
  then show ?thesis using that by (auto simp: position_def)
qed

lemma grows_ids: "grows key source st st' \<Longrightarrow> map wa_id (watches_at st' key) = map wa_id (watches_at st key)"
  unfolding grows_def position_def by (drule conjunct1, drule arg_cong [where f = "map fst"]) (simp add: o_def)

lemma grows_types: "grows key source st st' \<Longrightarrow> map wa_type (watches_at st' key) = map wa_type (watches_at st key)"
  unfolding grows_def position_def by (drule conjunct1, drule arg_cong [where f = "map (fst \<circ> snd)"]) (simp add: o_def)

lemma no_gap_grows:
  assumes "no_gap H start key source st" "grows key source st st'"
  shows "no_gap H start key source st'"
  unfolding no_gap_def
proof (intro ballI)
  fix w' assume "w' \<in> set (watches_at st' key)"
  with assms(2) obtain w where w: "w \<in> set (watches_at st key)" "wa_id w = wa_id w'"
      "sw_eventTypes w = sw_eventTypes w'" "cursor_of source w = cursor_of source w'"
    unfolding grows_def by (blast elim: positions_transfer)
  have eq: "numbered source w' = numbered source w" "cursor_at source w' = cursor_at source w"
    by (simp_all add: numbered_def cursor_at_def w(4))
  have sub: "row_key ` set (is_events st) \<subseteq> row_key ` set (is_events st')"
    using assms(2) by (auto simp: grows_def)
  have old: "numbered source w \<and> (\<forall>e \<in> set H. ie_eventType e \<in> set (sw_eventTypes w) \<and> start (wa_id w) < token e
              \<and> token e \<le> cursor_at source w \<longrightarrow> event_key (wa_id w) e \<in> row_key ` set (is_events st))"
    using assms(1) w(1) unfolding no_gap_def by blast
  then have "event_key (wa_id w') e \<in> row_key ` set (is_events st')"
    if "e \<in> set H" "ie_eventType e \<in> set (sw_eventTypes w')" "start (wa_id w') < token e" "token e \<le> cursor_at source w'" for e
    using that by (intro subsetD [OF sub]) (simp add: eq w(2,3))
  then show "numbered source w' \<and> (\<forall>e \<in> set H. ie_eventType e \<in> set (sw_eventTypes w') \<and> start (wa_id w') < token e
              \<and> token e \<le> cursor_at source w' \<longrightarrow> event_key (wa_id w') e \<in> row_key ` set (is_events st'))"
    using old eq(1) by simp
qed

text \<open>On numbered cursors both guards are the order of the numbers.\<close>

lemma after_numbered:
  assumes "numbered source w" "source \<noteq> Src_contract"
  shows "me_source e = source \<Longrightarrow> all_digits (ie_pagingToken e) \<Longrightarrow>
      isAfterCursor env w e \<longleftrightarrow> cursor_at source w < token e"
    and "all_digits c \<Longrightarrow> shouldAdvanceCursor env w source c l \<longleftrightarrow> cursor_at source w < nat_of_digits c"
proof -
  obtain d where d: "cursor_of source w = Some d" "all_digits d"
    using assms(1) by (auto simp: numbered_def split: option.splits)
  then have "\<not> falsy (Some d)" by (simp add: falsy_def all_digits_def)
  then show "me_source e = source \<Longrightarrow> all_digits (ie_pagingToken e) \<Longrightarrow>
      isAfterCursor env w e \<longleftrightarrow> cursor_at source w < token e"
    and "all_digits c \<Longrightarrow> shouldAdvanceCursor env w source c l \<longleftrightarrow> cursor_at source w < nat_of_digits c"
    using d assms(2)
    by (auto simp: isAfterCursor_def shouldAdvanceCursor_def cursor_at_def token_def compareNumericCursors_def Let_def)
qed

text \<open>Moving the cursors of a key: a watch moves exactly when it is behind.\<close>

lemma update_watches:
  assumes "updateCursor env key s c l st = (r, st')" "distinct (map wa_id (watches_at st key))"
  shows "is_events st' = is_events st \<and>
    (watches_at st' key = watches_at st key \<and> (r = Inr () \<longrightarrow> (\<forall>w \<in> set (watches_at st key). \<not> shouldAdvanceCursor env w s c l))
     \<or> r = Inr () \<and> watches_at st' key =
        map (\<lambda>w. if shouldAdvanceCursor env w s c l then advance s c l w else w) (watches_at st key))"
proof (cases rule: updateCursor_cases [of env key s c l st])
  case (moved ids)
  have "(wa_id w \<in> set ids) = shouldAdvanceCursor env w s c l" if "w \<in> set (watches_at st key)" for w
    using that assms(2) moved(2) by (auto simp: distinct_map inj_on_def)
  then show ?thesis using moved assms(1) by auto
qed (use assms in auto)

lemma update_grows:
  assumes "updateCursor env key s c l st = (r, st')" "distinct (map wa_id (watches_at st key))" "source \<noteq> s"
  shows "grows key source st st'"
  using update_watches [OF assms(1,2)] assms(3) by (auto simp: grows_def position_def)

text \<open>
  Taking the event that follows the cursors: no gap opens, whatever fails, and once it is taken
  every watch has reached it.
\<close>

lemma ledger_historyD:
  assumes "ledger_history source H" "e \<in> set H"
  shows "me_source e = source" "all_digits (ie_pagingToken e)" "h \<in> set H \<Longrightarrow> token h = token e \<Longrightarrow> h = e"
proof -
  show "me_source e = source" "all_digits (ie_pagingToken e)"
    using assms by (auto simp: ledger_history_def list_all_iff)
  have "inj_on token (set H)"
  proof (rule inj_onI)
    fix x y assume "x \<in> set H" "y \<in> set H" "token x = token y"
    then obtain i j where "i < length H" "j < length H" "x = H ! i" "y = H ! j" by (auto simp: in_set_conv_nth)
    moreover have "sorted_wrt (\<lambda>a b. token a < token b) H" using assms(1) by (simp add: ledger_history_def)
    ultimately show "x = y" using \<open>token x = token y\<close>
      by (metis linorder_neqE_nat order_less_irrefl sorted_wrt_nth_less)
  qed
  then show "h \<in> set H \<Longrightarrow> token h = token e \<Longrightarrow> h = e" using assms(2) by (simp add: inj_on_def)
qed

lemma take_event_no_gap:
  assumes "take_event env key source e st = (r, st')"
    and H: "ledger_history source H" "e \<in> set H" "source \<noteq> Src_contract"
    and inv: "no_gap H start key source st" "distinct (map wa_id (watches_at st key))"
    and nxt: "\<forall>w \<in> set (watches_at st key). \<forall>h \<in> set H. cursor_at source w < token h \<longrightarrow> token e \<le> token h"
  shows "no_gap H start key source st' \<and> map wa_id (watches_at st' key) = map wa_id (watches_at st key)
    \<and> (r = Inr () \<longrightarrow> (\<forall>w \<in> set (watches_at st' key). token e \<le> cursor_at source w))"
proof -
  note e = ledger_historyD [OF H(1,2)]
  obtain r1 st1 where I: "ingest env key e st = (r1, st1)" by fastforce
  note G = ingest_grows(1) [OF I, of source]
  have ids: "map wa_id (watches_at st1 key) = map wa_id (watches_at st key)" by (rule grows_ids [OF G])
  have gap: "no_gap H start key source st1" by (rule no_gap_grows [OF inv(1) G])
  show ?thesis
  proof (cases r1)
    case (Inl x)
    then have "r = Inl x" "st' = st1" using assms(1) I by (simp_all add: take_event_def)
    then show ?thesis using gap ids by simp
  next
    case (Inr u)
    let ?c = "ie_pagingToken e"
    have U: "updateCursor env key source ?c (ie_ledger e) st1 = (r, st')"
      using assms(1) I Inr by (simp add: take_event_def)
    have d: "distinct (map wa_id (watches_at st1 key))" using inv(2) ids by simp
    have adv: "shouldAdvanceCursor env w source ?c (ie_ledger e) \<longleftrightarrow> cursor_at source w < token e"
      if "w \<in> set (watches_at st1 key)" for w
      using after_numbered(2) [OF _ H(3) e(2), of w env "ie_ledger e"] gap that by (simp add: no_gap_def token_def)
    have stored: "event_key (wa_id w) e \<in> row_key ` set (is_events st1)"
      if w: "w \<in> set (watches_at st1 key)" "ie_eventType e \<in> set (sw_eventTypes w)" "cursor_at source w < token e" for w
    proof -
      from G w(1) obtain v where v: "v \<in> set (watches_at st key)" "wa_id v = wa_id w"
          "sw_eventTypes v = sw_eventTypes w" "cursor_of source v = cursor_of source w"
        unfolding grows_def by (blast elim: positions_transfer)
      have "numbered source v" using inv(1) v(1) by (simp add: no_gap_def)
      from after_numbered(1) [OF this H(3) e(1,2)] v w(3) have "isAfterCursor env v e" by (simp add: cursor_at_def)
      then have "subscribed env e v" using w(2) v(3) by (simp add: subscribed_def)
      from ingest_grows(2) [OF I _ v(1) this] Inr v(2) show ?thesis by simp
    qed
    have ahead: "token e \<le> token h" if "w \<in> set (watches_at st1 key)" "h \<in> set H" "cursor_at source w < token h" for w h
    proof -
      from G that(1) obtain v where "v \<in> set (watches_at st key)" "cursor_of source v = cursor_of source w"
        unfolding grows_def by (blast elim: positions_transfer)
      then show ?thesis using nxt that(2,3) by (simp add: cursor_at_def)
    qed
    from update_watches [OF U d] consider
        "watches_at st' key = watches_at st1 key" "r = Inr () \<longrightarrow> (\<forall>w \<in> set (watches_at st1 key). token e \<le> cursor_at source w)"
      | "r = Inr ()" "watches_at st' key =
          map (\<lambda>w. if cursor_at source w < token e then advance source ?c (ie_ledger e) w else w) (watches_at st1 key)"
      using adv by (smt (verit) linorder_not_less map_eq_conv)
    then show ?thesis
    proof cases
      case 1
      have "grows key source st1 st'" using 1 update_watches [OF U d] by (simp add: grows_def)
      then show ?thesis using no_gap_grows [OF gap] 1 ids by simp
    next
      case 2
      let ?f = "\<lambda>w. if cursor_at source w < token e then advance source ?c (ie_ledger e) w else w"
      have f: "wa_id (?f w) = wa_id w" "sw_eventTypes (?f w) = sw_eventTypes w"
          "cursor_at source (?f w) = max (cursor_at source w) (token e)" for w
        by (auto simp: cursor_at_def token_def max_def)
      have events: "is_events st' = is_events st1" using update_watches [OF U d] by simp
      have "numbered source (?f w) \<and> (\<forall>h \<in> set H. ie_eventType h \<in> set (sw_eventTypes w) \<and> start (wa_id w) < token h
              \<and> token h \<le> max (cursor_at source w) (token e) \<longrightarrow> event_key (wa_id w) h \<in> row_key ` set (is_events st1))"
        if w: "w \<in> set (watches_at st1 key)" for w
      proof (intro conjI ballI impI, goal_cases)
        case 1
        show ?case using gap w e(2) by (auto simp: no_gap_def numbered_def)
      next
        case (2 h)
        show ?case
        proof (cases "token h \<le> cursor_at source w")
          case True
          then show ?thesis using 2 gap w by (simp add: no_gap_def)
        next
          case False
          then have "token h = token e" using 2 ahead [OF w, of h] by (simp add: max_def split: if_splits)
          then have "h = e" using e(3) 2 by simp
          then show ?thesis using stored [OF w] 2 False by simp
        qed
      qed
      then have "no_gap H start key source st'"
        unfolding no_gap_def 2(2) events by (simp only: list.set_map ball_simps f) blast
      moreover have "\<forall>w \<in> set (watches_at st' key). token e \<le> cursor_at source w"
        unfolding 2(2) list.set_map ball_simps f by simp
      moreover have "map wa_id (watches_at st' key) = map wa_id (watches_at st1 key)"
        unfolding 2(2) by (simp add: o_def f)
      ultimately show ?thesis using ids by simp
    qed
  qed
qed

text \<open>The records of a page are what follows the cursor \<open>c\<close>, as many as the page holds.\<close>

lemma next_of_page:
  assumes "ledger_history source H" "take n (filter (\<lambda>e. c < token e) H) = e # es"
  shows "e \<in> set H \<and> (\<forall>h \<in> set H. c < token h \<longrightarrow> token e \<le> token h)
    \<and> es = take (n - 1) (filter (\<lambda>h. token e < token h) H)"
proof -
  let ?F = "filter (\<lambda>e. c < token e) H"
  obtain rest where F: "?F = e # rest" and n: "0 < n" "es = take (n - 1) rest"
    using assms(2) by (cases ?F; cases n) auto
  have S: "sorted_wrt (\<lambda>a b. token a < token b) (e # rest)"
    using assms(1) F by (metis ledger_history_def sorted_wrt_filter)
  have mem: "x \<in> set (e # rest) \<longleftrightarrow> x \<in> set H \<and> c < token x" for x unfolding F [symmetric] by auto
  have e: "e \<in> set H" "c < token e" using mem [of e] by simp_all
  have "filter (\<lambda>h. token e < token h) H = filter (\<lambda>h. token e < token h) ?F"
    using e(2) by (auto intro: filter_cong)
  also have "\<dots> = rest" unfolding F using S by (simp add: filter_id_conv)
  finally have "rest = filter (\<lambda>h. token e < token h) H" ..
  moreover have "token e \<le> token h" if "h \<in> set H" "c < token h" for h
  proof -
    have "h \<in> set (e # rest)" using that mem by blast
    then show ?thesis using S by auto
  qed
  ultimately show ?thesis using e n by blast
qed

lemma take_records_no_gap:
  assumes H: "ledger_history source H" "source \<noteq> Src_contract"
  shows "take_records env host key source rs st = (r, st') \<Longrightarrow>
    map_result (normalizeHorizonEvent host source) rs = Inr (take n (filter (\<lambda>e. c < token e) H)) \<Longrightarrow>
    no_gap H start key source st \<Longrightarrow> distinct (map wa_id (watches_at st key)) \<Longrightarrow>
    \<forall>w \<in> set (watches_at st key). c \<le> cursor_at source w \<Longrightarrow>
    no_gap H start key source st' \<and> map wa_id (watches_at st' key) = map wa_id (watches_at st key)
    \<and> (r = Inr () \<longrightarrow> (\<forall>e \<in> set (take n (filter (\<lambda>e. c < token e) H)).
         \<forall>w \<in> set (watches_at st' key). token e \<le> cursor_at source w))"
proof (induction rs arbitrary: n c st)
  case Nil
  then have none: "take n (filter (\<lambda>e. c < token e) H) = []" by simp
  have "st' = st" using Nil(1) by simp
  then show ?case unfolding none using Nil by simp
next
  case (Cons v rs)
  obtain e es where N: "normalizeHorizonEvent host source v = Inr e" "map_result (normalizeHorizonEvent host source) rs = Inr es"
      and page: "take n (filter (\<lambda>e. c < token e) H) = e # es"
    using Cons.prems(2) by (auto simp: and_then_Inr_iff)
  note nx = next_of_page [OF H(1) page]
  obtain r1 st1 where T: "take_event env key source e st = (r1, st1)" by fastforce
  have TR: "take_record env host key source v st = (r1, st1)" by (simp add: take_record_def N T)
  have "\<forall>w \<in> set (watches_at st key). \<forall>h \<in> set H. cursor_at source w < token h \<longrightarrow> token e \<le> token h"
    using nx Cons.prems(5) by (meson order_le_less_trans)
  note step = take_event_no_gap [OF T H(1) _ H(2) Cons.prems(3,4) this]
  have step: "no_gap H start key source st1" "map wa_id (watches_at st1 key) = map wa_id (watches_at st key)"
      "r1 = Inr () \<longrightarrow> (\<forall>w \<in> set (watches_at st1 key). token e \<le> cursor_at source w)"
    using step nx by blast+
  show ?case
  proof (cases r1)
    case (Inl x)
    then have "r = Inl x" "st' = st1" using Cons.prems(1) TR by simp_all
    then show ?thesis using step by simp
  next
    case (Inr u)
    have R: "take_records env host key source rs st1 = (r, st')" using Cons.prems(1) TR Inr by simp
    have es: "map_result (normalizeHorizonEvent host source) rs = Inr (take (n - 1) (filter (\<lambda>h. token e < token h) H))"
      using N nx by simp
    have reach: "\<forall>w \<in> set (watches_at st1 key). token e \<le> cursor_at source w" using step(3) Inr by simp
    have "distinct (map wa_id (watches_at st1 key))" using step(2) Cons.prems(4) by simp
    from Cons.IH [OF R es step(1) this reach]
    have IH: "no_gap H start key source st'" "map wa_id (watches_at st' key) = map wa_id (watches_at st1 key)"
        "r = Inr () \<longrightarrow> (\<forall>h \<in> set (take (n - 1) (filter (\<lambda>h. token e < token h) H)).
         \<forall>w \<in> set (watches_at st' key). token h \<le> cursor_at source w)"
      by blast+
    show ?thesis
    proof (intro conjI impI ballI)
      show "no_gap H start key source st'" by (rule IH(1))
      show "map wa_id (watches_at st' key) = map wa_id (watches_at st key)" using IH(2) step(2) by simp
      fix h w assume ok: "r = Inr ()" and h: "h \<in> set (take n (filter (\<lambda>e. c < token e) H))" and w: "w \<in> set (watches_at st' key)"
      consider "h = e" "es = []" | x where "h = e" "x \<in> set es" | "h \<in> set es"
        using h page by (metis all_not_in_conv set_ConsD set_empty)
      then show "token h \<le> cursor_at source w"
      proof cases
        case 1
        then have "st' = st1" using R N(2) by (cases rs) (auto simp: and_then_Inr_iff)
        then show ?thesis using reach w 1 by simp
      next
        case (2 x)
        then have "token e < token x" using nx by (auto dest: in_set_takeD)
        moreover have "token x \<le> cursor_at source w" using IH(3) ok nx 2 w by simp
        ultimately show ?thesis using 2 by simp
      next
        case 3
        then show ?thesis using IH(3) ok nx w by simp
      qed
    qed
  qed
qed

section \<open>Polls without gaps\<close>

text \<open>
  Horizon answers a page request, of the \<open>limit(200)\<close> of the code, with the records of the
  history that follow the cursor, or it rejects.
\<close>

definition PAGE_LIMIT :: nat where "PAGE_LIMIT = 200"

definition serves :: "js_host \<Rightarrow> horizon_pages \<Rightarrow> event_source \<Rightarrow> ingest_event list \<Rightarrow> bool" where
  "serves host api source H \<longleftrightarrow>
     (\<forall>c rs. all_digits c \<longrightarrow> page_after api source c = Inr rs \<longrightarrow>
        map_result (normalizeHorizonEvent host source) rs
          = Inr (take PAGE_LIMIT (filter (\<lambda>e. nat_of_digits c < token e) H)))"

lemma lowest_cursor_digits:
  "all_digits l \<Longrightarrow> list_all all_digits cs \<Longrightarrow>
    \<exists>c. lowest_cursor l cs = Inr c \<and> all_digits c \<and> c \<in> set (l # cs) \<and> (\<forall>x \<in> set (l # cs). nat_of_digits c \<le> nat_of_digits x)"
proof (induction cs arbitrary: l)
  case (Cons d cs)
  have big: "bigint_of_string d = Inr (int (nat_of_digits d))" "bigint_of_string l = Inr (int (nat_of_digits l))"
    using Cons.prems by (simp_all add: bigint_of_digits all_digits_def)
  let ?l = "if nat_of_digits d < nat_of_digits l then d else l"
  have "all_digits ?l" "list_all all_digits cs" using Cons.prems by simp_all
  from Cons.IH [OF this] obtain c where c: "lowest_cursor ?l cs = Inr c" "all_digits c" "c \<in> set (?l # cs)"
      "\<forall>x \<in> set (?l # cs). nat_of_digits c \<le> nat_of_digits x" by blast
  then show ?case by (intro exI [of _ c]) (auto simp: big split: if_splits)
qed simp

lemma ensure_cursor_numbered:
  assumes "watches_at st key \<noteq> []" "\<forall>w \<in> set (watches_at st key). numbered source w"
  obtains c where "ensureAccountCursor env api key source st = (Inr c, st)" "all_digits c"
    "\<forall>w \<in> set (watches_at st key). nat_of_digits c \<le> cursor_at source w"
    "nat_of_digits c = Min (cursor_at source ` set (watches_at st key))"
proof -
  let ?cs = "map (\<lambda>w. the (cursor_of source w)) (watches_at st key)"
  have ok: "\<not> falsy (cursor_of source w)" "all_digits (the (cursor_of source w))" if "w \<in> set (watches_at st key)" for w
    using assms(2) that by (auto simp: numbered_def falsy_def all_digits_def split: option.splits)
  have "filter (\<lambda>c. \<not> falsy c) (map (cursor_of source) (watches_at st key)) = map (cursor_of source) (watches_at st key)"
    using ok(1) by (auto simp: filter_id_conv)
  then have cursors: "map the (filter (\<lambda>c. \<not> falsy c) (map (cursor_of source) (watches_at st key))) = ?cs"
    by (simp add: o_def)
  obtain d ds where D: "?cs = d # ds" using assms(1) by (cases ?cs) auto
  have "all_digits x" if "x \<in> set (d # ds)" for x
    using that ok(2) unfolding D [symmetric] by auto
  then obtain c where c: "lowest_cursor d ds = Inr c" "all_digits c" "c \<in> set (d # ds)" "\<forall>x \<in> set (d # ds). nat_of_digits c \<le> nat_of_digits x"
    using lowest_cursor_digits [of d ds] by (auto simp: list_all_iff)
  have "nat_of_digits c \<le> cursor_at source w" if "w \<in> set (watches_at st key)" for w
    using c(4) that unfolding D [symmetric] by (auto simp: cursor_at_def)
  moreover from this have "nat_of_digits c = Min (cursor_at source ` set (watches_at st key))"
    using c(3) unfolding D [symmetric] by (intro Min_eqI [symmetric]) (auto simp: cursor_at_def)
  moreover have "ensureAccountCursor env api key source st = (Inr c, st)"
    unfolding ensureAccountCursor_def Let_def cursors D by (simp add: c(1))
  ultimately show ?thesis using that c(2) by blast
qed

lemma poll_no_gap:
  assumes "pollAccount env host api key source st = (r, st')"
    and H: "ledger_history source H" "source \<noteq> Src_contract" "serves host api source H"
    and st: "no_gap H start key source st" "distinct (map wa_id (watches_at st key))" "watches_at st key \<noteq> []"
  shows "no_gap H start key source st' \<and> map wa_id (watches_at st' key) = map wa_id (watches_at st key)
    \<and> (r = Inr () \<longrightarrow>
        (\<forall>e \<in> set (take PAGE_LIMIT (filter (\<lambda>e. Min (cursor_at source ` set (watches_at st key)) < token e) H)).
         \<forall>w \<in> set (watches_at st' key). token e \<le> cursor_at source w))"
proof -
  obtain c where c: "ensureAccountCursor env api key source st = (Inr c, st)" "all_digits c"
    "\<forall>w \<in> set (watches_at st key). nat_of_digits c \<le> cursor_at source w"
    "nat_of_digits c = Min (cursor_at source ` set (watches_at st key))"
    using ensure_cursor_numbered [OF st(3)] st(1) unfolding no_gap_def by metis
  show ?thesis
  proof (cases "page_after api source c")
    case (Inl e)
    then have "r = Inl e" "st' = st" using assms(1) c(1) by (simp_all add: pollAccount_def)
    then show ?thesis using st by simp
  next
    case (Inr rs)
    then have n: "map_result (normalizeHorizonEvent host source) rs
             = Inr (take PAGE_LIMIT (filter (\<lambda>e. nat_of_digits c < token e) H))"
      using H(3) c(2) unfolding serves_def by blast
    have R: "take_records env host key source rs st = (r, st')" using assms(1) c(1) Inr by (simp add: pollAccount_def)
    from take_records_no_gap [OF H(1,2) R n st(1,2) c(3)] show ?thesis unfolding c(4) .
  qed
qed

text \<open>The poll of another source leaves the cursors of this one alone.\<close>

lemma take_event_grows:
  assumes "take_event env key s e st = (r, st')" "distinct (map wa_id (watches_at st key))" "source \<noteq> s"
  shows "grows key source st st'"
proof -
  obtain r1 st1 where I: "ingest env key e st = (r1, st1)" by fastforce
  note G = ingest_grows(1) [OF I, of source]
  have d: "distinct (map wa_id (watches_at st1 key))" using assms(2) grows_ids [OF G] by simp
  show ?thesis
  proof (cases r1)
    case (Inl x)
    then show ?thesis using assms(1) I G by (simp add: take_event_def)
  next
    case (Inr u)
    then have "updateCursor env key s (ie_pagingToken e) (ie_ledger e) st1 = (r, st')"
      using assms(1) I by (simp add: take_event_def)
    from grows_trans [OF G update_grows [OF this d assms(3)]] show ?thesis .
  qed
qed

lemma take_records_grows:
  "take_records env host key s rs st = (r, st') \<Longrightarrow> distinct (map wa_id (watches_at st key)) \<Longrightarrow> source \<noteq> s \<Longrightarrow>
    grows key source st st'"
proof (induction rs arbitrary: st)
  case (Cons v rs)
  obtain r1 st1 where T: "take_record env host key s v st = (r1, st1)" by fastforce
  have G: "grows key source st st1"
    using T take_event_grows [OF _ Cons.prems(2,3)] by (auto simp: take_record_def split: sum.splits)
  have "distinct (map wa_id (watches_at st1 key))" using Cons.prems(2) grows_ids [OF G] by simp
  then show ?case using Cons.IH [of st1] Cons.prems T G grows_trans [OF G] by (auto split: sum.splits)
qed simp

lemma poll_grows:
  assumes "pollAccount env host api key s st = (r, st')" "source \<noteq> s"
    and "no_gap H start key s st" "distinct (map wa_id (watches_at st key))" "watches_at st key \<noteq> []"
  shows "grows key source st st'"
proof -
  obtain c where c: "ensureAccountCursor env api key s st = (Inr c, st)"
    using ensure_cursor_numbered [OF assms(5)] assms(3) unfolding no_gap_def by metis
  show ?thesis
    using assms(1) take_records_grows [OF _ assms(4,2)] by (auto simp: pollAccount_def c split: sum.splits)
qed

definition polls ::
  "ingest_env \<Rightarrow> js_host \<Rightarrow> horizon_pages \<Rightarrow> rpc_pages \<Rightarrow> string \<Rightarrow> nat \<Rightarrow> ingest_state \<Rightarrow> ingest_state" where
  "polls env host api rpc key n st = (poll env host api rpc key ^^ n) st"

definition account_sources :: "event_source set" where
  "account_sources = {Src_transaction, Src_payment}"

definition polls_inv :: "(event_source \<Rightarrow> ingest_event list) \<Rightarrow> (event_source \<Rightarrow> string \<Rightarrow> nat) \<Rightarrow> string \<Rightarrow> ingest_state \<Rightarrow> bool" where
  "polls_inv H start key st \<longleftrightarrow>
     watches_at st key \<noteq> [] \<and> distinct (map wa_id (watches_at st key))
     \<and> list_all (\<lambda>t. t = Account_watch) (map wa_type (watches_at st key))
     \<and> (\<forall>s \<in> account_sources. no_gap (H s) (start s) key s st)"

lemma poll_inv:
  assumes H: "\<forall>s \<in> account_sources. ledger_history s (H s) \<and> serves host api s (H s)"
    and inv: "polls_inv H start key st" and s: "s \<in> account_sources"
    and poll: "pollAccount env host api key s st = (r, st')"
  shows "polls_inv H start key st'"
proof -
  have st: "watches_at st key \<noteq> []" "distinct (map wa_id (watches_at st key))"
      "\<And>s. s \<in> account_sources \<Longrightarrow> no_gap (H s) (start s) key s st"
    using inv by (auto simp: polls_inv_def)
  have "s \<noteq> Src_contract" using s by (auto simp: account_sources_def)
  from poll_no_gap [OF poll _ this _ st(3) [OF s] st(2,1)] H s
  have own: "no_gap (H s) (start s) key s st'" "map wa_id (watches_at st' key) = map wa_id (watches_at st key)"
    by blast+
  have G: "grows key t st st'" if "t \<noteq> s" for t
    by (rule poll_grows [OF poll that st(3) [OF s] st(2,1)])
  have "no_gap (H t) (start t) key t st'" if t: "t \<in> account_sources" for t
    using no_gap_grows [OF st(3) [OF t] G] own(1) by (cases "t = s") auto
  moreover have "watches_at st' key \<noteq> []" using own(2) st(1) by auto
  moreover have "distinct (map wa_id (watches_at st' key))" using own(2) st(2) by simp
  moreover have "map wa_type (watches_at st' key) = map wa_type (watches_at st key)"
    by (rule grows_types [OF G [of Src_contract]]) (use \<open>s \<noteq> Src_contract\<close> in simp)
  ultimately show ?thesis using inv unfolding polls_inv_def by metis
qed

lemma status_positions: "position source (with_status mode status err w) = position source w"
  by (cases source; simp add: position_def with_status_def)

lemma set_status_grows: "grows key source st (snd (setStatus env key mode status err st))"
proof -
  have touched: "grows key source s (touch_memory ids (with_status mode status err) (touch_rows ids (with_status mode status err) s))" for ids s
    by (auto simp: grows_def status_positions)
  have told: "grows key source s (t\<lparr>is_statuses := x\<rparr>)" if "grows key source s t" for s t x
    using that watches_at_registry [of "t\<lparr>is_statuses := x\<rparr>" t key] by (simp add: grows_def)
  have "grows key source st ((touch_memory ids (with_status mode status err)
      (touch_rows ids (with_status mode status err) (st\<lparr>is_calls := n\<rparr>)))\<lparr>is_statuses := x\<rparr>)" for ids n x
    by (rule told [OF grows_trans [OF grows_calls touched]])
  then show ?thesis unfolding setStatus_def Let_def by (simp del: touch_simps)
qed

lemma polls_inv_grows:
  assumes "polls_inv H start key st" "\<And>s. grows key s st st'"
  shows "polls_inv H start key st'"
proof -
  have same: "map wa_id (watches_at st' key) = map wa_id (watches_at st key)"
      "map wa_type (watches_at st' key) = map wa_type (watches_at st key)"
    by (rule grows_ids [OF assms(2)], rule grows_types [OF assms(2)])
  then have "watches_at st' key \<noteq> []" using assms(1) by (auto simp: polls_inv_def)
  then show ?thesis
    using assms(1) no_gap_grows [OF _ assms(2)] same unfolding polls_inv_def by metis
qed

lemma poll_all_inv:
  assumes H: "\<forall>s \<in> account_sources. ledger_history s (H s) \<and> serves host api s (H s)"
    and inv: "polls_inv H start key st"
  shows "polls_inv H start key (poll env host api rpc key st)"
proof -
  obtain w ws where W: "watches_at st key = w # ws" "wa_type w = Account_watch"
    using inv by (cases "watches_at st key") (auto simp: polls_inv_def)
  obtain r1 st1 where P1: "pollAccount env host api key Src_transaction st = (r1, st1)" by fastforce
  have I1: "polls_inv H start key st1" by (rule poll_inv [OF H inv _ P1]) (simp add: account_sources_def)
  obtain r2 st2 where P2: "pollAccount env host api key Src_payment st1 = (r2, st2)" by fastforce
  have I2: "polls_inv H start key st2" by (rule poll_inv [OF H I1 _ P2]) (simp add: account_sources_def)
  obtain r3 st3 where P3: "poll_body env host api rpc key w st = (r3, st3)" by fastforce
  have I3: "polls_inv H start key st3"
    using P3 P1 P2 W(2) I1 I2 by (auto simp: poll_body_def split: sum.splits)
  obtain r4 st4 where P4: "setStatus env key Poll Polling None st3 = (r4, st4)" by fastforce
  have I4: "polls_inv H start key st4"
    using polls_inv_grows [OF I3 set_status_grows [of key _ st3 env Poll Polling None]] P4 by simp
  have last_status: "polls_inv H start key (snd (setStatus env key mode status err s))" if "polls_inv H start key s" for mode status err s
    by (rule polls_inv_grows [OF that set_status_grows])
  show ?thesis
    unfolding poll_def W(1) using I3 I4 last_status by (cases r3; cases r4) (simp_all add: P3 P4)
qed

lemma polls_inv_run:
  assumes "\<forall>s \<in> account_sources. ledger_history s (H s) \<and> serves host api s (H s)"
  shows "polls_inv H start key st \<Longrightarrow> polls_inv H start key (polls env host api rpc key n st)"
  by (induction n) (simp_all add: polls_def poll_all_inv [OF assms])

text \<open>The cursors a watch has now, by its id.\<close>

definition start_cursor :: "string \<Rightarrow> ingest_state \<Rightarrow> event_source \<Rightarrow> string \<Rightarrow> nat" where
  "start_cursor key st source i =
     (case find (\<lambda>w. wa_id w = i) (watches_at st key) of Some w \<Rightarrow> cursor_at source w | None \<Rightarrow> 0)"

lemma find_by_id: "distinct (map wa_id ws) \<Longrightarrow> w \<in> set ws \<Longrightarrow> find (\<lambda>v. wa_id v = wa_id w) ws = Some w"
  by (induction ws) force+

lemma polls_inv_start:
  assumes "watches_at st key \<noteq> []" "distinct (map wa_id (watches_at st key))"
    and "\<forall>w \<in> set (watches_at st key). wa_type w = Account_watch \<and> (\<forall>s \<in> account_sources. numbered s w)"
  shows "polls_inv H (start_cursor key st) key st"
  using assms by (auto simp: polls_inv_def no_gap_def start_cursor_def find_by_id list_all_iff)

section \<open>Properties\<close>


text \<open>
  A poll that succeeds makes progress: the next 200 events after the lowest cursor of the
  account's watches are stored for every watch that was before them and subscribed to them, and
  every watch has reached them, so that enough successful polls store the whole history.
\<close>

theorem poll_makes_progress:
  assumes "source \<in> account_sources" "ledger_history source H" "serves host api source H"
    and "watches_at st key \<noteq> []" "distinct (map wa_id (watches_at st key))"
    and "\<forall>w \<in> set (watches_at st key). numbered source w"
    and "pollAccount env host api key source st = (Inr (), st')"
    and "e \<in> set (take PAGE_LIMIT (filter (\<lambda>e. Min (cursor_at source ` set (watches_at st key)) < token e) H))"
    and "w \<in> set (watches_at st key)" "w' \<in> set (watches_at st' key)" "wa_id w' = wa_id w"
  shows "token e \<le> cursor_at source w'
    \<and> (ie_eventType e \<in> set (sw_eventTypes w') \<and> cursor_at source w < token e
        \<longrightarrow> event_key (wa_id w) e \<in> row_key ` set (is_events st'))"
proof -
  have gap: "no_gap H (start_cursor key st source) key source st"
    using assms(5,6) by (auto simp: no_gap_def start_cursor_def find_by_id)
  have "source \<noteq> Src_contract" using assms(1) by (auto simp: account_sources_def)
  from poll_no_gap [OF assms(7,2) this assms(3) gap assms(5,4)]
  have gap': "no_gap H (start_cursor key st source) key source st'" and reached: "token e \<le> cursor_at source w'"
    using assms(8,10) by blast+
  have "start_cursor key st source (wa_id w) = cursor_at source w"
    using assms(5,9) by (simp add: start_cursor_def find_by_id)
  moreover have "e \<in> set H" using assms(8) by (auto dest: in_set_takeD)
  ultimately show ?thesis using no_gapD [OF gap' assms(10)] reached assms(11) by simp
qed

section \<open>Instances\<close>

definition sample_host :: js_host where
  "sample_host = \<lparr>num_text = (\<lambda>_. []), to_ledger = (\<lambda>_. None), parse_time = (\<lambda>_. 0), now_time = 0\<rparr>"

definition sample_record :: "string \<Rightarrow> json" where
  "sample_record t = J_obj [(''paging_token'', J_str t)]"

definition sample_polled :: "string \<Rightarrow> ingest_event" where
  "sample_polled t =
     \<lparr>me_source = Src_transaction, me_amount = None, me_asset = None, me_sentAmount = None, me_receivedAmount = None,
      me_receivedAsset = None, me_from = None, me_to = None, me_successful = None, me_topic = None,
      ie_pagingToken = t, ie_eventType = Src_transaction, ie_ledger = None, ie_occurredAt = 0,
      ie_sentAsset = None, ie_transactionHash = None, ie_payload = sample_record t\<rparr>"

definition sample_history :: "event_source \<Rightarrow> ingest_event list" where
  "sample_history s = (if s = Src_transaction then map sample_polled [''6'', ''7''] else [])"

definition sample_pages :: horizon_pages where
  "sample_pages =
     \<lparr>page_after = (\<lambda>s c. if s = Src_transaction
        then Inr (map sample_record (filter (\<lambda>t. nat_of_digits c < nat_of_digits t) [''6'', ''7''])) else Inr []),
      page_latest = (\<lambda>s. Inr [])\<rparr>"

definition sample_contract_event :: "int \<Rightarrow> string \<Rightarrow> rpc_event" where
  "sample_contract_event l t =
     \<lparr>re_id = t, re_type = ''contract'', re_ledger = l, re_ledgerClosedAt = [], re_pagingToken = t,
      re_inSuccessfulContractCall = True, re_txHash = [], re_contractId = None, re_topic = [''AAAA''], re_value = []\<rparr>"

definition sample_contract_watch :: stream_watch where
  "sample_contract_watch = sample_stream_watch\<lparr>wa_type := Contract_watch, sw_eventTypes := [Src_contract]\<rparr>"

definition sample_rpc :: rpc_pages where
  "sample_rpc = \<lparr>rpc_latest = Inr 40,
     rpc_events = (\<lambda>from. if from = From_cursor ''a'' then Inr \<lparr>er_events = [sample_contract_event 50 ''b''], er_cursor = ''b'', er_latestLedger = 101\<rparr>
        else Inr \<lparr>er_events = [sample_contract_event 45 ''a''], er_cursor = ''a'', er_latestLedger = 100\<rparr>)\<rparr>"

definition sample_poll_state :: ingest_state where
  "sample_poll_state = sample_stream_state [(''k'', [sample_stream_watch\<lparr>sw_paymentCursor := Some ''0''\<rparr>])]"

lemmas sample_poll_defs = sample_host_def sample_record_def sample_polled_def sample_history_def sample_pages_def
  sample_poll_state_def

lemma sample_normalized:
  "map_result (normalizeHorizonEvent sample_host Src_transaction) (map sample_record ts) = Inr (map sample_polled ts)"
  by (induction ts)
    (simp_all add: normalizeHorizonEvent_def sample_poll_defs requiredString_def optionalString_def nullish_or_def
      asset_text_def falsy_def payload_topic_def or_else_def Let_def)

lemma sample_digits: "nat_of_digits ''6'' = 6" "nat_of_digits ''7'' = 7" "nat_of_digits ''5'' = 5" "nat_of_digits ''0'' = 0"
  "all_digits ''6''" "all_digits ''7''" "all_digits ''5''" "all_digits ''0''"
  by code_simp+

lemma sample_token: "token (sample_polled ''6'') = 6" "token (sample_polled ''7'') = 7"
  by (simp_all add: token_def sample_polled_def sample_digits)

lemma sample_cursor: "cursor_at Src_transaction (sample_stream_watch\<lparr>sw_paymentCursor := Some ''0''\<rparr>) = 5"
  by (simp add: cursor_at_def sample_stream_watch_def sample_digits)

lemma sample_serves: "\<forall>s \<in> account_sources. ledger_history s (sample_history s) \<and> serves sample_host sample_pages s (sample_history s)"
proof -
  have tok: "token (sample_polled t) = nat_of_digits t" for t by (simp add: token_def sample_polled_def)
  have "ledger_history Src_transaction (sample_history Src_transaction)"
    by (simp add: ledger_history_def sample_history_def tok sample_digits) (simp add: sample_polled_def sample_digits)
  moreover have "take PAGE_LIMIT (map sample_polled (filter P [''6'', ''7''])) = map sample_polled (filter P [''6'', ''7''])" for P
    by (simp add: PAGE_LIMIT_def)
  then have "serves sample_host sample_pages Src_transaction (sample_history Src_transaction)"
    by (auto simp: serves_def sample_pages_def sample_history_def tok sample_normalized filter_map o_def simp del: list.map filter.simps)
  ultimately show ?thesis
    by (simp add: account_sources_def serves_def ledger_history_def sample_history_def)
       (simp add: sample_pages_def)
qed

lemma sample_numbered:
  "\<forall>w \<in> set (watches_at sample_poll_state ''k''). wa_type w = Account_watch \<and> (\<forall>s \<in> account_sources. numbered s w)"
  by (simp add: account_sources_def watches_at_def sample_poll_defs sample_stream_defs numbered_def sample_digits)

lemma sample_watches: "watches_at sample_poll_state ''k'' = [sample_stream_watch\<lparr>sw_paymentCursor := Some ''0''\<rparr>]"
  by (simp add: watches_at_def sample_poll_defs sample_stream_state_def)

text \<open>The first poll fails on its first transaction; the second reaches the end of the history.\<close>

lemma sample_polls:
  "map (\<lambda>w. (wa_id w, sw_eventTypes w, cursor_at Src_transaction w))
     (watches_at (polls sample_env sample_host sample_pages sample_rpc ''k'' 2 sample_poll_state) ''k'')
   = [(''w1'', [Src_transaction], 7)]"
  by code_simp


lemma sample_second_poll:
  "map (\<lambda>w. (wa_id w, sw_eventTypes w)) (watches_at (snd (pollAccount (sample_env\<lparr>env_tx := \<lambda>_. Commits\<rparr>) sample_host sample_pages
      ''k'' Src_transaction sample_poll_state)) ''k'') = [(''w1'', [Src_transaction])]"
  "fst (pollAccount (sample_env\<lparr>env_tx := \<lambda>_. Commits\<rparr>) sample_host sample_pages ''k'' Src_transaction sample_poll_state) = Inr ()"
  by code_simp+

theorem poll_makes_progress_witness:
  "(''w1'', Src_transaction, ''7'') \<in> row_key ` set (is_events
     (snd (pollAccount (sample_env\<lparr>env_tx := \<lambda>_. Commits\<rparr>) sample_host sample_pages ''k'' Src_transaction sample_poll_state)))"
proof -
  let ?w = "sample_stream_watch\<lparr>sw_paymentCursor := Some ''0''\<rparr>"
  let ?poll = "pollAccount (sample_env\<lparr>env_tx := \<lambda>_. Commits\<rparr>) sample_host sample_pages ''k'' Src_transaction sample_poll_state"
  obtain w' where w': "watches_at (snd ?poll) ''k'' = [w']" "wa_id w' = ''w1''" "sw_eventTypes w' = [Src_transaction]"
    using sample_second_poll(1) by (auto simp: map_eq_Cons_conv)
  have P: "?poll = (Inr (), snd ?poll)" using sample_second_poll(2) by (metis prod.collapse)
  have H: "ledger_history Src_transaction (sample_history Src_transaction)"
      "serves sample_host sample_pages Src_transaction (sample_history Src_transaction)"
    using sample_serves by (simp_all add: account_sources_def)
  have "event_key (wa_id ?w) (sample_polled ''7'') \<in> row_key ` set (is_events (snd ?poll))"
  proof (rule poll_makes_progress [where w' = w', OF _ H _ _ _ P, THEN conjunct2, THEN mp])
    show "sample_polled ''7'' \<in> set (take PAGE_LIMIT (filter (\<lambda>e. Min (cursor_at Src_transaction ` set (watches_at sample_poll_state ''k'')) < token e)
        (sample_history Src_transaction)))"
      by (simp add: sample_watches sample_cursor sample_history_def sample_token PAGE_LIMIT_def)
    show "ie_eventType (sample_polled ''7'') \<in> set (sw_eventTypes w') \<and> cursor_at Src_transaction ?w < token (sample_polled ''7'')"
      by (simp add: w' sample_cursor sample_token) (simp add: sample_polled_def)
    show "\<forall>w \<in> set (watches_at sample_poll_state ''k''). numbered Src_transaction w"
      using sample_numbered by (simp add: account_sources_def)
    show "wa_id w' = wa_id ?w" by (simp add: w' sample_stream_watch_def)
  qed (simp_all add: sample_watches account_sources_def w'(1))
  then show ?thesis by (simp add: event_key_def sample_polled_def sample_stream_watch_def)
qed

section \<open>What is lost\<close>

text \<open>
  A stream does not keep the guarantee of the polls. When the event 6 cannot be stored, the error
  is caught, the event 7 moves the cursor past it, and no later poll or stream asks for it again.
\<close>

lemma streamed_failure_skipped:
  "let st1 = stream_message sample_env sample_host ''k'' Sse Src_transaction (sample_record ''6'') sample_poll_state;
       st2 = stream_message sample_env sample_host ''k'' Sse Src_transaction (sample_record ''7'') st1;
       st3 = polls sample_env sample_host sample_pages sample_rpc ''k'' 2 st2
   in map row_key (is_events st3) = [(''w1'', Src_transaction, ''7'')]"
  by code_simp

text \<open>
  The poll of a contract moves \<open>cursorLedger\<close> to the latest ledger of the network, while the page
  it read may end earlier. The events of the next page that lie before that ledger are then taken
  for events before the cursor, and dropped.
\<close>

lemma persist_events:
  assumes "persistForWatch env v event st = (o1, st1)"
  shows "is_events st1 = is_events st \<or> is_events st1 = is_events st @ [\<lparr>we_watchId = wa_id v, we_event = event\<rparr>]"
  using assms unfolding persistForWatch_def Let_def
  by (simp split: if_splits prod.splits) auto

lemma ingest_watches_other:
  "ingest_watches env event ws st = (res, st') \<Longrightarrow> i \<notin> wa_id ` set ws \<Longrightarrow>
    event_key i event \<notin> row_key ` set (is_events st) \<Longrightarrow> event_key i event \<notin> row_key ` set (is_events st')"
proof (induction env event ws st rule: ingest_watches.induct)
  case (2 env event v ws st)
  obtain o1 st1 where P: "persistForWatch env v event st = (o1, st1)" by (cases "persistForWatch env v event st")
  have "row_key \<lparr>we_watchId = wa_id v, we_event = event\<rparr> \<noteq> event_key i event"
    using "2.prems"(2) by (auto simp: row_key_def event_key_def)
  then have keep: "event_key i event \<notin> row_key ` set (is_events st1)"
    using persist_events [OF P] "2.prems"(3) by auto
  have ws: "i \<notin> wa_id ` set ws" using "2.prems"(2) by simp
  consider e where "o1 = Inl e" | "o1 = Inr None" | added where "o1 = Inr (Some added)"
    by (metis not_None_eq sum.exhaust)
  then show ?case
  proof cases
    case 1
    then show ?thesis using "2.prems"(1) P keep by simp
  next
    case 2
    then have "ingest_watches env event ws st1 = (res, st')" using "2.prems"(1) P by simp
    from "2.IH"(1) [OF P [symmetric] 2 refl this ws keep] show ?thesis .
  next
    case 3
    then have "ingest_watches env event ws (enqueue_alerts env added
        (st1\<lparr>is_emitted := is_emitted st1 @ [(sw_userId v, event_key (wa_id v) event)]\<rparr>)) = (res, st')"
      using "2.prems"(1) P by simp
    from "2.IH"(2) [OF P [symmetric] 3 refl this ws] keep show ?thesis by simp
  qed
qed simp

lemma contract_event_dropped:
  assumes "w \<in> set (watches_at st key)" "sw_cursorLedger w = Some l" "re_ledger r < l"
    and "sw_contractCursor w = Some c" "c \<noteq> []" "distinct (map wa_id (watches_at st key))"
    and "(wa_id w, Src_contract, re_pagingToken r) \<notin> row_key ` set (is_events st)"
    and "ingest env key (normalizeContractEvent host r) st = (res, st')"
  shows "(wa_id w, Src_contract, re_pagingToken r) \<notin> row_key ` set (is_events st')"
proof -
  let ?e = "normalizeContractEvent host r"
  have "\<not> subscribed env ?e w"
    using assms(2-5) by (simp add: subscribed_def isAfterCursor_def normalizeContractEvent_def falsy_def Let_def)
  then have other: "wa_id w \<notin> wa_id ` set (filter (subscribed env ?e) (watches_at st key))"
    using assms(1,6) by (auto simp: distinct_map inj_on_def)
  have key: "event_key (wa_id w) ?e = (wa_id w, Src_contract, re_pagingToken r)"
    by (simp add: event_key_def normalizeContractEvent_def)
  from ingest_watches_other [OF assms(8) [unfolded ingest_def] other, unfolded key, OF assms(7)] show ?thesis .
qed

text \<open>Two pages of one event each, with ledger 100 the latest: the event of ledger 50 is lost.\<close>

lemma contract_backlog_lost:
  "let env = sample_env\<lparr>env_tx := \<lambda>_. Commits\<rparr>;
       st0 = sample_stream_state [(''k'', [sample_contract_watch])];
       (r1, st1) = pollContract env sample_host sample_rpc ''k'' (hd (watches_at st0 ''k'')) st0;
       (r2, st2) = pollContract env sample_host sample_rpc ''k'' (hd (watches_at st1 ''k'')) st1
   in r1 = Inr () \<and> r2 = Inr () \<and> map row_key (is_events st2) = [(''w1'', Src_contract, ''a'')]
      \<and> map sw_contractCursor (watches_at st2 ''k'') = [Some ''b'']"
  by code_simp

text \<open>
  The topics of a contract event are a list of texts, which is never equal to the text of a rule:
  rules on a topic never fire.
\<close>

lemma topic_rules_never_fire:
  "ar_type rule = Event_topic_equals \<Longrightarrow>
    \<not> matches rule publicKey (monitor_event.truncate (normalizeContractEvent host r))"
  by (simp add: matches_def normalizeContractEvent_def payload_topic_def contract_payload_def monitor_event.truncate_def
      falsy_def split: option.splits)

end
