(* ===== verification/StreamManager.thy ===== *)
theory StreamManager
  imports StreamPolling
begin

text \<open>
  The streams of the monitor: the class \<open>StreamManager\<close> of \<open>stream-manager.service.ts\<close> in
  \<open>apps/api/src/modules/monitor\<close> (its records are followed in \<open>StreamPolling\<close>). The groups are
  objects in a heap, since a continuation keeps its grp after the grp was stopped; a stream is
  an index into the list of all streams ever opened. The code between two \<open>await\<close>s is one step,
  and what is awaited is a pending continuation that a later step completes.
\<close>

section \<open>Backoff\<close>

definition INITIAL_RECONNECT_DELAY_MS :: js_num where "INITIAL_RECONNECT_DELAY_MS = 1000"
definition MAX_RECONNECT_DELAY_MS :: js_num where "MAX_RECONNECT_DELAY_MS = 60000"
definition RECONNECT_BACKOFF_FACTOR :: js_num where "RECONNECT_BACKOFF_FACTOR = 2"
definition RECONNECT_JITTER_RATIO :: js_num where "RECONNECT_JITTER_RATIO = fl (2 / 10)"
definition FALLBACK_POLL_INTERVAL_MS :: js_num where "FALLBACK_POLL_INTERVAL_MS = 30000"
definition CONTRACT_POLL_INTERVAL_MS :: js_num where "CONTRACT_POLL_INTERVAL_MS = 2000"

definition calculateReconnectDelay :: "nat \<Rightarrow> js_num \<Rightarrow> js_num" where
  "calculateReconnectDelay attempts jitterFactor =
     (let exponentialDelay = INITIAL_RECONNECT_DELAY_MS * RECONNECT_BACKOFF_FACTOR ^ attempts;
          cappedDelay = min MAX_RECONNECT_DELAY_MS exponentialDelay;
          jitter = of_int \<lfloor>js_mul jitterFactor (min 1000 (js_mul cappedDelay RECONNECT_JITTER_RATIO))\<rfloor>
      in min MAX_RECONNECT_DELAY_MS (js_add cappedDelay jitter))"

section \<open>Groups\<close>

record stream_group =
  sg_key :: string
  sg_mode :: stream_mode
  sg_stopped :: bool
  sg_closers :: "(event_source, nat) jmap"
  sg_reconnectTimers :: "event_source list"
  sg_reconnectAttempts :: "(event_source, nat) jmap"
  sg_pollTimer :: "js_num option"

datatype pending =
    Starting nat                    \<comment> \<open>\<open>start\<close>, waiting for \<open>setStatus\<close>\<close>
  | Opening nat event_source        \<comment> \<open>\<open>openAccountStream\<close>, waiting for its cursor\<close>
  | Reconnecting nat event_source   \<comment> \<open>\<open>reconnect\<close>, waiting for \<open>setStatus\<close>\<close>
  | First_poll nat js_num           \<comment> \<open>\<open>startPolling\<close>, waiting for its first poll\<close>
  | Restarting string               \<comment> \<open>\<open>promotePollingGroup\<close>, about to start the key again\<close>

record manager =
  sm_heap :: "stream_group list"
  sm_groups :: "(string, nat) jmap"
  sm_active :: int
  sm_shuttingDown :: bool
  sm_streams :: "bool list"         \<comment> \<open>whether each stream is open\<close>
  sm_pending :: "pending list"

definition new_manager :: manager where
  "new_manager = \<lparr>sm_heap = [], sm_groups = [], sm_active = 0, sm_shuttingDown = False, sm_streams = [], sm_pending = []\<rparr>"

text \<open>What the steps read of the other services; \<open>mc_first\<close> is the type of the first watch of a key.\<close>

record manager_context =
  mc_max :: int
  mc_producerEnabled :: bool
  mc_isLeader :: bool
  mc_first :: "string \<Rightarrow> watch_type option"

definition createGroup :: "string \<Rightarrow> stream_mode \<Rightarrow> stream_group" where
  "createGroup key mode =
     \<lparr>sg_key = key, sg_mode = mode, sg_stopped = False, sg_closers = [], sg_reconnectTimers = [],
      sg_reconnectAttempts = [], sg_pollTimer = None\<rparr>"

definition add_group :: "stream_group \<Rightarrow> manager \<Rightarrow> manager" where
  "add_group g m =
     m\<lparr>sm_heap := sm_heap m @ [g], sm_groups := jm_set (sm_groups m) (sg_key g) (length (sm_heap m))\<rparr>"

definition change_group :: "nat \<Rightarrow> (stream_group \<Rightarrow> stream_group) \<Rightarrow> manager \<Rightarrow> manager" where
  "change_group g f m = m\<lparr>sm_heap := (sm_heap m)[g := f (sm_heap m ! g)]\<rparr>"

definition await_step :: "pending \<Rightarrow> manager \<Rightarrow> manager" where
  "await_step p m = m\<lparr>sm_pending := sm_pending m @ [p]\<rparr>"

definition startPolling :: "string \<Rightarrow> js_num \<Rightarrow> manager \<Rightarrow> manager" where
  "startPolling key intervalMs m =
     await_step (First_poll (length (sm_heap m)) intervalMs) (add_group (createGroup key Poll) m)"

definition start :: "manager_context \<Rightarrow> string \<Rightarrow> manager \<Rightarrow> manager" where
  "start ctx key m =
     (if jm_has (sm_groups m) key then m
      else if \<not> mc_producerEnabled ctx \<or> \<not> mc_isLeader ctx then m
      else case mc_first ctx key of
             None \<Rightarrow> m
           | Some Contract_watch \<Rightarrow> startPolling key CONTRACT_POLL_INTERVAL_MS m
           | Some Account_watch \<Rightarrow>
               if sm_active m + 2 > mc_max ctx then startPolling key FALLBACK_POLL_INTERVAL_MS m
               else await_step (Starting (length (sm_heap m)))
                      ((add_group (createGroup key Sse) m)\<lparr>sm_active := sm_active m + 2\<rparr>))"

text \<open>The streams of the closers are closed.\<close>

definition close_streams :: "nat list \<Rightarrow> manager \<Rightarrow> manager" where
  "close_streams ids m = m\<lparr>sm_streams := foldl (\<lambda>ss i. ss[i := False]) (sm_streams m) ids\<rparr>"

definition halt_group :: "stream_group \<Rightarrow> stream_group" where
  "halt_group g = g\<lparr>sg_stopped := True, sg_reconnectTimers := [], sg_reconnectAttempts := [], sg_pollTimer := None\<rparr>"

text \<open>\<open>stop\<close> up to the promotion, which only the end of a streaming grp triggers.\<close>

definition close_group :: "string \<Rightarrow> nat \<Rightarrow> manager \<Rightarrow> manager" where
  "close_group key g m =
     (let grp = sm_heap m ! g;
          m1 = change_group g halt_group (close_streams (map snd (sg_closers grp)) m);
          m2 = m1\<lparr>sm_groups := jm_delete (sm_groups m) key\<rparr>
      in if sg_mode grp = Sse then m2\<lparr>sm_active := sm_active m - 2\<rparr> else m2)"

definition promotePollingGroup :: "manager_context \<Rightarrow> manager \<Rightarrow> manager" where
  "promotePollingGroup ctx m =
     (if sm_shuttingDown m \<or> sm_active m + 2 > mc_max ctx then m
      else case find (\<lambda>(key, g). sg_mode (sm_heap m ! g) = Poll \<and> mc_first ctx (sg_key (sm_heap m ! g)) = Some Account_watch)
                  (sm_groups m) of
             None \<Rightarrow> m
           | Some (key, g) \<Rightarrow> await_step (Restarting (sg_key (sm_heap m ! g))) (close_group key g m))"

definition stop :: "manager_context \<Rightarrow> string \<Rightarrow> manager \<Rightarrow> manager" where
  "stop ctx key m =
     (case jm_get (sm_groups m) key of
        None \<Rightarrow> m
      | Some g \<Rightarrow>
          let m' = close_group key g m
          in if sg_mode (sm_heap m ! g) = Sse then promotePollingGroup ctx m' else m')"

definition stopAll :: "manager_context \<Rightarrow> manager \<Rightarrow> manager" where
  "stopAll ctx m = foldl (\<lambda>m key. stop ctx key m) m (map fst (sm_groups m))"

definition startAll :: "manager_context \<Rightarrow> string list \<Rightarrow> manager \<Rightarrow> manager" where
  "startAll ctx keys m =
     (if \<not> mc_producerEnabled ctx \<or> \<not> mc_isLeader ctx then m else foldl (\<lambda>m key. start ctx key m) m keys)"

definition onApplicationShutdown :: "manager_context \<Rightarrow> manager \<Rightarrow> manager" where
  "onApplicationShutdown ctx m = stopAll ctx (m\<lparr>sm_shuttingDown := True\<rparr>)"

section \<open>Streams and reconnection\<close>

definition openAccountStream :: "manager_context \<Rightarrow> nat \<Rightarrow> event_source \<Rightarrow> manager \<Rightarrow> manager" where
  "openAccountStream ctx g source m =
     (if mc_first ctx (sg_key (sm_heap m ! g)) = None \<or> sg_stopped (sm_heap m ! g) then m
      else await_step (Opening g source) m)"

text \<open>The cursor is known: the stream opens, and its closer replaces the one there was.\<close>

definition stream_opened :: "nat \<Rightarrow> event_source \<Rightarrow> manager \<Rightarrow> manager" where
  "stream_opened g source m =
     change_group g (\<lambda>grp. grp\<lparr>sg_closers := jm_set (sg_closers grp) source (length (sm_streams m))\<rparr>)
       (m\<lparr>sm_streams := sm_streams m @ [True]\<rparr>)"

definition reconnect :: "nat \<Rightarrow> event_source \<Rightarrow> manager \<Rightarrow> manager" where
  "reconnect g source m =
     (let grp = sm_heap m ! g in
      if sg_stopped grp \<or> source \<in> set (sg_reconnectTimers grp) then m
      else await_step (Reconnecting g source)
             (change_group g (\<lambda>grp. grp\<lparr>sg_closers := jm_delete (sg_closers grp) source\<rparr>)
               (close_streams (case jm_get (sg_closers grp) source of Some i \<Rightarrow> [i] | None \<Rightarrow> []) m)))"

definition reconnect_scheduled :: "nat \<Rightarrow> event_source \<Rightarrow> manager \<Rightarrow> manager" where
  "reconnect_scheduled g source m =
     change_group g (\<lambda>grp.
       let attempts = (case jm_get (sg_reconnectAttempts grp) source of Some n \<Rightarrow> n | None \<Rightarrow> 0)
       in grp\<lparr>sg_reconnectAttempts := jm_set (sg_reconnectAttempts grp) source (attempts + 1),
                sg_reconnectTimers := js_set_add (sg_reconnectTimers grp) source\<rparr>) m"

definition reconnect_fired :: "manager_context \<Rightarrow> nat \<Rightarrow> event_source \<Rightarrow> manager \<Rightarrow> manager" where
  "reconnect_fired ctx g source m =
     openAccountStream ctx g source
       (change_group g (\<lambda>grp. grp\<lparr>sg_reconnectTimers := filter (\<lambda>s. s \<noteq> source) (sg_reconnectTimers grp)\<rparr>) m)"

definition stream_message_received :: "nat \<Rightarrow> event_source \<Rightarrow> manager \<Rightarrow> manager" where
  "stream_message_received g source m =
     change_group g (\<lambda>grp. grp\<lparr>sg_reconnectAttempts := jm_set (sg_reconnectAttempts grp) source 0\<rparr>) m"

definition first_poll_done :: "nat \<Rightarrow> js_num \<Rightarrow> manager \<Rightarrow> manager" where
  "first_poll_done g intervalMs m =
     (if sg_stopped (sm_heap m ! g) then m
      else change_group g (\<lambda>grp. grp\<lparr>sg_pollTimer := Some intervalMs\<rparr>) m)"

section \<open>Counters\<close>

record stream_stats =
  st_maxSseConnections :: int
  st_horizonSseConnections :: int
  st_streamGroups :: nat
  st_sseGroups :: nat
  st_pollingGroups :: nat

definition stats :: "manager_context \<Rightarrow> manager \<Rightarrow> stream_stats" where
  "stats ctx m =
     (let modes = map (\<lambda>(key, g). sg_mode (sm_heap m ! g)) (sm_groups m)
      in \<lparr>st_maxSseConnections = mc_max ctx, st_horizonSseConnections = sm_active m,
          st_streamGroups = length (sm_groups m),
          st_sseGroups = length (filter (\<lambda>mode. mode = Sse) modes),
          st_pollingGroups = length (filter (\<lambda>mode. mode \<noteq> Sse) modes)\<rparr>)"

section \<open>Steps\<close>

text \<open>A continuation completes when it is pending; \<open>opened\<close> tells whether the cursor was found.\<close>

datatype manager_event =
    Do_start string | Do_stop string | Do_startAll "string list" | Do_stopAll | Do_shutdown
  | Complete pending bool
  | Stream_error nat event_source | Timer_fired nat event_source | Message nat event_source

fun complete :: "manager_context \<Rightarrow> pending \<Rightarrow> bool \<Rightarrow> manager \<Rightarrow> manager" where
  "complete ctx (Starting g) opened m =
     openAccountStream ctx g Src_payment (openAccountStream ctx g Src_transaction m)"
| "complete ctx (Opening g source) opened m = (if opened then stream_opened g source m else reconnect g source m)"
| "complete ctx (Reconnecting g source) opened m = reconnect_scheduled g source m"
| "complete ctx (First_poll g intervalMs) opened m = first_poll_done g intervalMs m"
| "complete ctx (Restarting key) opened m = start ctx key m"

fun manager_step :: "manager_context \<times> manager_event \<Rightarrow> manager \<Rightarrow> manager" where
  "manager_step (ctx, Do_start key) m = start ctx key m"
| "manager_step (ctx, Do_stop key) m = stop ctx key m"
| "manager_step (ctx, Do_startAll keys) m = startAll ctx keys m"
| "manager_step (ctx, Do_stopAll) m = stopAll ctx m"
| "manager_step (ctx, Do_shutdown) m = onApplicationShutdown ctx m"
| "manager_step (ctx, Complete p opened) m =
     (if p \<in> set (sm_pending m) then complete ctx p opened (m\<lparr>sm_pending := remove1 p (sm_pending m)\<rparr>) else m)"
| "manager_step (ctx, Stream_error g source) m = (if g < length (sm_heap m) then reconnect g source m else m)"
| "manager_step (ctx, Timer_fired g source) m =
     (if g < length (sm_heap m) \<and> source \<in> set (sg_reconnectTimers (sm_heap m ! g)) then reconnect_fired ctx g source m else m)"
| "manager_step (ctx, Message g source) m = (if g < length (sm_heap m) then stream_message_received g source m else m)"

definition manager_run :: "(manager_context \<times> manager_event) list \<Rightarrow> manager \<Rightarrow> manager" where
  "manager_run events m = foldl (\<lambda>m e. manager_step e m) m events"

section \<open>The budget of streams\<close>

definition is_sse :: "manager \<Rightarrow> string \<times> nat \<Rightarrow> bool" where
  "is_sse m entry \<longleftrightarrow> sg_mode (sm_heap m ! snd entry) = Sse"

definition manager_ok :: "int \<Rightarrow> manager \<Rightarrow> bool" where
  "manager_ok mx m \<longleftrightarrow>
     jm_ok (sm_groups m)
     \<and> (\<forall>(key, g) \<in> set (sm_groups m). g < length (sm_heap m) \<and> sg_key (sm_heap m ! g) = key \<and> \<not> sg_stopped (sm_heap m ! g))
     \<and> sm_active m = 2 * int (length (filter (is_sse m) (sm_groups m))) \<and> sm_active m \<le> mx"

lemma manager_ok_cong:
  assumes "manager_ok mx m" "sm_heap m' = sm_heap m" "sm_groups m' = sm_groups m" "sm_active m' = sm_active m"
  shows "manager_ok mx m'"
proof -
  have "is_sse m' = is_sse m" by (rule ext) (simp add: is_sse_def assms(2))
  then show ?thesis using assms by (simp add: manager_ok_def)
qed

lemma await_ok [simp]: "manager_ok mx (await_step p m) = manager_ok mx m"
  unfolding await_step_def by (intro iffI; erule manager_ok_cong; simp)

lemma close_streams_ok [simp]: "manager_ok mx (close_streams ids m) = manager_ok mx m"
  unfolding close_streams_def by (intro iffI; erule manager_ok_cong; simp)

lemma change_group_ok:
  assumes "manager_ok mx m"
    and "\<And>grp. sg_key (f grp) = sg_key grp \<and> sg_mode (f grp) = sg_mode grp \<and> sg_stopped (f grp) = sg_stopped grp"
  shows "manager_ok mx (change_group g f m)"
proof -
  have upd: "(sm_heap m)[g := f (sm_heap m ! g)] ! i = (if i = g \<and> g < length (sm_heap m) then f (sm_heap m ! i) else sm_heap m ! i)" for i
    by (cases "g < length (sm_heap m)") (auto simp: list_update_beyond)
  have nth: "sg_key ((sm_heap m)[g := f (sm_heap m ! g)] ! i) = sg_key (sm_heap m ! i)"
      "sg_mode ((sm_heap m)[g := f (sm_heap m ! g)] ! i) = sg_mode (sm_heap m ! i)"
      "sg_stopped ((sm_heap m)[g := f (sm_heap m ! g)] ! i) = sg_stopped (sm_heap m ! i)" for i
    using assms(2) by (simp_all add: upd)
  then have "is_sse (change_group g f m) = is_sse m" by (intro ext) (simp add: is_sse_def change_group_def)
  then show ?thesis using assms(1) by (auto simp: manager_ok_def change_group_def nth)
qed

lemma add_group_ok:
  assumes "manager_ok mx m" "\<not> jm_has (sm_groups m) (sg_key grp)" "\<not> sg_stopped grp"
    and "d = (if sg_mode grp = Sse then 2 else 0)" "sm_active m + d \<le> mx"
  shows "manager_ok mx ((add_group grp m)\<lparr>sm_active := sm_active m + d\<rparr>)"
proof -
  let ?m = "(add_group grp m)\<lparr>sm_active := sm_active m + d\<rparr>"
  have groups: "sm_groups ?m = sm_groups m @ [(sg_key grp, length (sm_heap m))]"
    using assms(2) by (simp add: add_group_def jm_set_fresh)
  have heap: "sm_heap ?m = sm_heap m @ [grp]" by (simp add: add_group_def)
  have inside: "g < length (sm_heap m)" if "(key, g) \<in> set (sm_groups m)" for key g
    using assms(1) that by (auto simp: manager_ok_def)
  have "filter (is_sse ?m) (sm_groups m) = filter (is_sse m) (sm_groups m)"
    using inside by (intro filter_cong) (auto simp: is_sse_def heap nth_append)
  moreover have "is_sse ?m (sg_key grp, length (sm_heap m)) = (sg_mode grp = Sse)"
    by (simp add: is_sse_def heap)
  moreover have "jm_ok (sm_groups ?m)" using assms(1) by (simp add: manager_ok_def add_group_def)
  ultimately show ?thesis using assms(1,3-5) unfolding manager_ok_def groups heap
    by (auto simp: nth_append)
qed

lemma close_group_ok:
  assumes "manager_ok mx m" "jm_get (sm_groups m) key = Some g"
  shows "manager_ok mx (close_group key g m)"
proof -
  have mem: "(key, g) \<in> set (sm_groups m)" using jm_get_Some_in [OF assms(2)] .
  have ok: "jm_ok (sm_groups m)" "sm_active m = 2 * int (length (filter (is_sse m) (sm_groups m)))" "sm_active m \<le> mx"
      "\<And>k i. (k, i) \<in> set (sm_groups m) \<Longrightarrow> i < length (sm_heap m) \<and> sg_key (sm_heap m ! i) = k \<and> \<not> sg_stopped (sm_heap m ! i)"
    using assms(1) by (auto simp: manager_ok_def)
  let ?m = "close_group key g m"
  have groups: "sm_groups ?m = jm_delete (sm_groups m) key" "sm_heap ?m = (sm_heap m)[g := halt_group (sm_heap m ! g)]"
    by (simp_all add: close_group_def Let_def change_group_def close_streams_def)
  have other: "i \<noteq> g" if "(k, i) \<in> set (jm_delete (sm_groups m) key)" for k i
    using that ok(4) [of k i] ok(4) [OF mem] by (auto simp: jm_delete_def)
  have count: "length (filter (is_sse ?m) (jm_delete (sm_groups m) key)) = length (filter (is_sse m) (jm_delete (sm_groups m) key))"
  proof (intro arg_cong [where f = length] filter_cong refl)
    fix entry assume "entry \<in> set (jm_delete (sm_groups m) key)"
    then have "snd entry \<noteq> g" using other by (metis prod.collapse)
    then show "is_sse ?m entry = is_sse m entry" by (simp add: is_sse_def groups)
  qed
  have active: "sm_active ?m = sm_active m - (if is_sse m (key, g) then 2 else 0)"
    by (simp add: close_group_def Let_def change_group_def close_streams_def is_sse_def)
  have "length (filter (is_sse m) (sm_groups m)) = length (filter (is_sse m) (jm_delete (sm_groups m) key)) + (if is_sse m (key, g) then 1 else 0)"
    by (rule filter_jm_delete [OF ok(1) assms(2)])
  then have act: "sm_active ?m = 2 * int (length (filter (is_sse ?m) (sm_groups ?m)))" "sm_active ?m \<le> mx"
    using ok(2,3) active count by (auto simp: groups(1) split: if_splits)
  have "\<forall>(k, i) \<in> set (sm_groups ?m). i < length (sm_heap ?m) \<and> sg_key (sm_heap ?m ! i) = k \<and> \<not> sg_stopped (sm_heap ?m ! i)"
    using other ok(4) by (fastforce simp: groups jm_delete_def)
  then show ?thesis using act ok(1) unfolding manager_ok_def groups(1) by simp
qed

lemma createGroup_simps [simp]:
  "sg_key (createGroup key mode) = key" "sg_mode (createGroup key mode) = mode" "\<not> sg_stopped (createGroup key mode)"
  by (simp_all add: createGroup_def)

lemma startPolling_ok:
  assumes "manager_ok mx m" "\<not> jm_has (sm_groups m) key"
  shows "manager_ok mx (startPolling key intervalMs m)"
proof -
  have "manager_ok mx ((add_group (createGroup key Poll) m)\<lparr>sm_active := sm_active m + 0\<rparr>)"
    using assms by (intro add_group_ok) (auto simp: manager_ok_def)
  moreover have "(add_group (createGroup key Poll) m)\<lparr>sm_active := sm_active m + 0\<rparr> = add_group (createGroup key Poll) m"
    by (simp add: add_group_def)
  ultimately show ?thesis by (simp add: startPolling_def)
qed

lemma start_ok: "manager_ok mx m \<Longrightarrow> mc_max ctx = mx \<Longrightarrow> manager_ok mx (start ctx key m)"
  using add_group_ok [of mx m "createGroup key Sse" 2]
  by (simp add: start_def startPolling_ok split: option.split watch_type.split)

lemma promote_ok:
  assumes "manager_ok mx m"
  shows "manager_ok mx (promotePollingGroup ctx m)"
proof -
  let ?P = "\<lambda>(key, g). sg_mode (sm_heap m ! g) = Poll \<and> mc_first ctx (sg_key (sm_heap m ! g)) = Some Account_watch"
  have "manager_ok mx (close_group key g m)" if f: "find ?P (sm_groups m) = Some (key, g)" for key g
  proof -
    obtain i where "i < length (sm_groups m)" "sm_groups m ! i = (key, g)"
      using find_Some_iff [THEN iffD1, OF f] by metis
    then have "(key, g) \<in> set (sm_groups m)" by (auto simp: in_set_conv_nth)
    moreover have "jm_ok (sm_groups m)" using assms by (simp add: manager_ok_def)
    ultimately have "jm_get (sm_groups m) key = Some g" by (rule jm_get_in [rotated])
    then show ?thesis by (rule close_group_ok [OF assms])
  qed
  then show ?thesis using assms by (auto simp: promotePollingGroup_def split: option.split)
qed

lemma stop_ok: "manager_ok mx m \<Longrightarrow> manager_ok mx (stop ctx key m)"
  by (auto simp: stop_def Let_def close_group_ok promote_ok split: option.splits)

lemma stop_all_ok: "manager_ok mx m \<Longrightarrow> manager_ok mx (foldl (\<lambda>m key. stop ctx key m) m keys)"
  by (induction keys arbitrary: m) (simp_all add: stop_ok)

lemma start_all_ok: "manager_ok mx m \<Longrightarrow> mc_max ctx = mx \<Longrightarrow> manager_ok mx (foldl (\<lambda>m key. start ctx key m) m keys)"
  by (induction keys arbitrary: m) (simp_all add: start_ok)

lemma open_ok [simp]: "manager_ok mx (openAccountStream ctx g source m) = manager_ok mx m" if "manager_ok mx m"
  using that by (simp add: openAccountStream_def)

lemma reconnect_ok: "manager_ok mx m \<Longrightarrow> manager_ok mx (reconnect g source m)"
  by (simp add: reconnect_def Let_def change_group_ok)

lemma complete_ok:
  assumes "manager_ok mx m" "mc_max ctx = mx"
  shows "manager_ok mx (complete ctx p opened m)"
proof (cases p)
  case (Opening g source)
  have "manager_ok mx (m\<lparr>sm_streams := sm_streams m @ [True]\<rparr>)" by (rule manager_ok_cong [OF assms(1)]) simp_all
  then show ?thesis using Opening assms(1) by (simp add: stream_opened_def change_group_ok reconnect_ok)
qed (use assms in \<open>simp_all add: reconnect_scheduled_def Let_def first_poll_done_def change_group_ok start_ok openAccountStream_def\<close>)

lemma manager_step_ok:
  assumes "manager_ok mx m" "mc_max (fst e) = mx"
  shows "manager_ok mx (manager_step e m)"
proof -
  have shut: "manager_ok mx (m\<lparr>sm_shuttingDown := True\<rparr>)" "manager_ok mx (m\<lparr>sm_pending := ps\<rparr>)" for ps
    by (rule manager_ok_cong [OF assms(1)]; simp)+
  show ?thesis
    using assms shut
    by (cases "(e, m)" rule: manager_step.cases)
      (simp_all add: start_ok stop_ok startAll_def stopAll_def onApplicationShutdown_def stop_all_ok start_all_ok complete_ok
        reconnect_ok reconnect_fired_def stream_message_received_def change_group_ok openAccountStream_def)
qed

lemma manager_run_ok: "manager_ok mx m \<Longrightarrow> \<forall>e \<in> set events. mc_max (fst e) = mx \<Longrightarrow> manager_ok mx (manager_run events m)"
  by (induction events arbitrary: m) (simp_all add: manager_run_def manager_step_ok)

text \<open>\<open>stop\<close> adds no group.\<close>

lemma stop_groups: "set (sm_groups (stop ctx key m)) \<subseteq> {e \<in> set (sm_groups m). fst e \<noteq> key}"
proof -
  have close: "sm_groups (close_group k g n) = jm_delete (sm_groups n) k" for k g n
    by (simp add: close_group_def Let_def change_group_def close_streams_def)
  have promote: "set (sm_groups (promotePollingGroup ctx n)) \<subseteq> set (sm_groups n)" for n
    by (auto simp: promotePollingGroup_def await_step_def close jm_delete_def split: option.splits)
  show ?thesis
  proof (cases "jm_get (sm_groups m) key")
    case None
    then have "key \<notin> fst ` set (sm_groups m)" by (simp add: jm_get_None_iff)
    then show ?thesis using None by (auto simp: stop_def)
  next
    case (Some g)
    then show ?thesis using promote [of "close_group key g m"] by (auto simp: stop_def Let_def close jm_delete_def)
  qed
qed

lemma stop_all_groups: "set (sm_groups (foldl (\<lambda>m key. stop ctx key m) m keys)) \<subseteq> {e \<in> set (sm_groups m). fst e \<notin> set keys}"
proof (induction keys arbitrary: m)
  case (Cons k keys)
  show ?case using Cons.IH [of "stop ctx k m"] stop_groups [of ctx k m] by fastforce
qed simp

lemma stopAll_empty: "sm_groups (stopAll ctx m) = []"
proof -
  have "{e \<in> set (sm_groups m). fst e \<notin> set (map fst (sm_groups m))} = {}" by auto
  then show ?thesis
    using stop_all_groups [of ctx m "map fst (sm_groups m)"] unfolding stopAll_def by (metis set_empty subset_empty)
qed

section \<open>Properties\<close>


lemma js_add_ge:
  assumes "1000 \<le> c" "0 \<le> k"
  shows "1000 \<le> js_add c k"
proof -
  have "of_int 1000 \<le> c + k" using assms by simp
  from fl_ge_of_int [OF _ this] show ?thesis by (simp add: js_add_def)
qed

lemma min_mono_bounds:
  fixes a b :: js_num
  assumes "1000 \<le> a" "a \<le> b"
  shows "1000 \<le> min 60000 a \<and> min 60000 a \<le> 60000 \<and> min 60000 a \<le> min 60000 b"
  using assms by (auto simp: min_def)

text \<open>
  The delay before a reconnection stays between one second and one minute, jitter included,
  for any number of attempts and any jitter factor, and it does not shrink from one attempt to
  the next.
\<close>

theorem reconnect_delay_bounds:
  assumes "0 \<le> jitterFactor"
  shows "1000 \<le> calculateReconnectDelay attempts jitterFactor
    \<and> calculateReconnectDelay attempts jitterFactor \<le> 60000
    \<and> calculateReconnectDelay attempts jitterFactor \<le> calculateReconnectDelay (attempts + 1) jitterFactor"
proof -
  let ?c = "\<lambda>n. min 60000 (1000 * 2 ^ n :: rat)"
  let ?j = "\<lambda>n. js_mul jitterFactor (min 1000 (js_mul (?c n) RECONNECT_JITTER_RATIO))"
  have unfold: "calculateReconnectDelay n jitterFactor = min 60000 (js_add (?c n) (of_int \<lfloor>?j n\<rfloor>))" for n
    by (simp add: calculateReconnectDelay_def INITIAL_RECONNECT_DELAY_MS_def MAX_RECONNECT_DELAY_MS_def
        RECONNECT_BACKOFF_FACTOR_def Let_def)
  have ratio: "0 \<le> RECONNECT_JITTER_RATIO" by (simp add: RECONNECT_JITTER_RATIO_def fl_nonneg)
  have c: "1000 \<le> ?c n" "?c n \<le> ?c (n + 1)" for n
    by (auto simp: min_def mult_mono)
  have share: "0 \<le> js_mul (?c n) RECONNECT_JITTER_RATIO" for n
    using c(1) [of n] ratio by (auto simp: js_mul_def intro!: fl_nonneg mult_nonneg_nonneg)
  have j: "0 \<le> ?j n" for n
    using assms share [of n] by (auto simp: js_mul_def intro!: fl_nonneg mult_nonneg_nonneg)
  have "js_mul (?c n) RECONNECT_JITTER_RATIO \<le> js_mul (?c (n + 1)) RECONNECT_JITTER_RATIO" for n
    unfolding js_mul_def using c(1) [of n] c(2) [of n] ratio
    by (intro fl_mono_nonneg mult_right_mono mult_nonneg_nonneg) linarith+
  then have "?j n \<le> ?j (n + 1)" for n
    unfolding js_mul_def [of jitterFactor] using assms share [of n]
    by (intro fl_mono_nonneg mult_left_mono mult_nonneg_nonneg min.mono) auto
  then have fj: "(of_int \<lfloor>?j n\<rfloor> :: rat) \<le> of_int \<lfloor>?j (n + 1)\<rfloor>" "(0::rat) \<le> of_int \<lfloor>?j n\<rfloor>" for n
    using j [of n] by (simp_all add: floor_mono)
  have "js_add (?c n) (of_int \<lfloor>?j n\<rfloor>) \<le> js_add (?c (n + 1)) (of_int \<lfloor>?j (n + 1)\<rfloor>)" for n
    unfolding js_add_def using c(1) [of n] c(2) [of n] fj [of n] by (intro fl_mono_nonneg) linarith+
  moreover have "1000 \<le> js_add (?c n) (of_int \<lfloor>?j n\<rfloor>)" for n
    using js_add_ge [OF c(1) fj(2), of n n] .
  ultimately show ?thesis unfolding unfold by (intro min_mono_bounds)
qed

section \<open>Instances\<close>

definition sample_context :: "bool \<Rightarrow> manager_context" where
  "sample_context leader = \<lparr>mc_max = 2, mc_producerEnabled = True, mc_isLeader = leader, mc_first = (\<lambda>_. Some Account_watch)\<rparr>"

definition sample_manager_events :: "(manager_context \<times> manager_event) list" where
  "sample_manager_events =
     [(sample_context True, Do_startAll [''a'', ''b'']), (sample_context True, Complete (Starting 0) True),
      (sample_context True, Complete (Opening 0 Src_payment) True), (sample_context True, Do_stop ''a''),
      (sample_context True, Complete (Restarting ''b'') True)]"

text \<open>The account \<open>b\<close> polls until \<open>a\<close> stops, and then takes over its connections.\<close>

lemma sample_manager_run:
  "map fst (sm_groups (manager_run sample_manager_events new_manager)) = [''b'']
   \<and> sm_active (manager_run sample_manager_events new_manager) = 2"
  by code_simp


theorem reconnect_delay_bounds_witness:
  "1000 \<le> calculateReconnectDelay 3 (1 / 2) \<and> calculateReconnectDelay 3 (1 / 2) \<le> 60000"
  using reconnect_delay_bounds [of "1 / 2" 3] by simp

section \<open>What outlives a stop\<close>

text \<open>
  \<open>openAccountStream\<close> does not look at \<open>stopped\<close> again after waiting for its cursor. A group
  that stops in between (here because the replica lost its lease) opens its stream all the same:
  no group is registered and no connection is counted, yet a connection stays open.
\<close>

lemma stream_survives_stop:
  "let m = manager_run [(sample_context True, Do_start ''a''), (sample_context True, Complete (Starting 0) True),
       (sample_context False, Do_stopAll), (sample_context False, Complete (Opening 0 Src_transaction) True)] new_manager
   in sm_groups m = [] \<and> sm_active m = 0 \<and> sm_streams m = [True]"
  by code_simp

end
