(* ===== verification/SsrfGuard.thy ===== *)
theory SsrfGuard
  imports Prelude "HOL-Library.Word"
begin

unbundle bit_operations_syntax

text \<open>
  The guard of outbound requests (\<open>apps/api/src/common/ssrf-guard.ts\<close>) and the redirect loop of
  the webhook delivery that uses it (\<open>monitor/notification-worker.service.ts\<close>). Bit operators work
  on 32-bit words. The address syntax of \<open>net.isIP\<close> is modelled; the URL parser, the resolver and
  the HTTP client are parameters.
\<close>

section \<open>Addresses\<close>

text \<open>\<open>net.isIP\<close>: four decimal octets without leading zeros, or groups of hexadecimal digits with at
  most one gap, a dotted tail and a zone.\<close>

definition is_octet :: "string \<Rightarrow> bool" where
  "is_octet s \<longleftrightarrow> s \<noteq> [] \<and> list_all is_digit s \<and> length s \<le> 3 \<and> (length s = 1 \<or> hd s \<noteq> CHR ''0'') \<and> nat_of_digits s \<le> 255"

definition isIPv4 :: "string \<Rightarrow> bool" where
  "isIPv4 s \<longleftrightarrow> length (split_on CHR ''.'' s) = 4 \<and> list_all is_octet (split_on CHR ''.'' s)"

definition is_hex :: "char \<Rightarrow> bool" where
  "is_hex c \<longleftrightarrow> is_digit c \<or> c \<in> set ''abcdefABCDEF''"

definition is_group :: "string \<Rightarrow> bool" where
  "is_group s \<longleftrightarrow> s \<noteq> [] \<and> length s \<le> 4 \<and> list_all is_hex s"

text \<open>The number of 16-bit groups a list of parts stands for; a dotted address only at the end.\<close>

fun group_count :: "bool \<Rightarrow> string list \<Rightarrow> nat option" where
  "group_count dotted [] = Some 0"
| "group_count dotted (p # ps) =
     (if is_group p then map_option Suc (group_count dotted ps)
      else if dotted \<and> ps = [] \<and> isIPv4 p then Some 2 else None)"

definition part_count :: "bool \<Rightarrow> string \<Rightarrow> nat option" where
  "part_count dotted s = (if s = [] then Some 0 else group_count dotted (split_on CHR '':'' s))"

text \<open>Before and after the first \<open>::\<close>.\<close>

fun split_gap :: "string \<Rightarrow> (string \<times> string) option" where
  "split_gap (a # b # cs) =
     (if a = CHR '':'' \<and> b = CHR '':'' then Some ([], cs) else map_option (\<lambda>(l, r). (a # l, r)) (split_gap (b # cs)))"
| "split_gap _ = None"

definition is_zone_char :: "char \<Rightarrow> bool" where
  "is_zone_char c \<longleftrightarrow> is_digit c \<or> c \<in> set ''abcdefghijklmnopqrstuvwxyzABCDEFGHIJKLMNOPQRSTUVWXYZ-.:''"

definition isIPv6 :: "string \<Rightarrow> bool" where
  "isIPv6 s =
     (let body = takeWhile (\<lambda>c. c \<noteq> CHR ''%'') s; zone = dropWhile (\<lambda>c. c \<noteq> CHR ''%'') s
      in (zone = [] \<or> tl zone \<noteq> [] \<and> list_all is_zone_char (tl zone))
         \<and> (case split_gap body of
              None \<Rightarrow> body \<noteq> [] \<and> part_count True body = Some 8
            | Some (l, r) \<Rightarrow>
                (case (part_count False l, part_count True r) of (Some m, Some n) \<Rightarrow> m + n \<le> 7 | _ \<Rightarrow> False)))"

definition isIP :: "string \<Rightarrow> nat" where
  "isIP s = (if isIPv4 s then 4 else if isIPv6 s then 6 else 0)"

section \<open>The ranges\<close>

definition ipv4ToInt :: "string \<Rightarrow> 32 word" where
  "ipv4ToInt ip = foldl (\<lambda>acc octet. push_bit 8 acc + of_nat (nat_of_digits octet)) 0 (split_on CHR ''.'' ip)"

definition inIpv4Range :: "string \<Rightarrow> string \<times> nat \<Rightarrow> bool" where
  "inIpv4Range ip cidr =
     (let (range, nbits) = cidr;
          mask32 = (if nbits = 0 then 0 else push_bit (32 - nbits) (NOT 0)) :: 32 word
      in ipv4ToInt ip AND mask32 = ipv4ToInt range AND mask32)"

text \<open>\<open>cidr.split('/')\<close> and \<open>Number\<close> are already applied.\<close>

definition FORBIDDEN_IPV4_RANGES :: "(string \<times> nat) list" where
  "FORBIDDEN_IPV4_RANGES =
     [(''0.0.0.0'', 8), (''10.0.0.0'', 8), (''100.64.0.0'', 10), (''127.0.0.0'', 8), (''169.254.0.0'', 16),
      (''172.16.0.0'', 12), (''192.0.0.0'', 24), (''192.168.0.0'', 16), (''198.18.0.0'', 15), (''224.0.0.0'', 4),
      (''240.0.0.0'', 4)]"

definition starts_with :: "string \<Rightarrow> string \<Rightarrow> bool" where
  "starts_with p s \<longleftrightarrow> take (length p) s = p"

definition forbidden_v4 :: "string \<Rightarrow> bool" where
  "forbidden_v4 ip \<longleftrightarrow> list_ex (inIpv4Range ip) FORBIDDEN_IPV4_RANGES"

text \<open>\<open>/^::ffff:(\d+\.\d+\.\d+\.\d+)$/\<close>.\<close>

definition mapped_v4 :: "string \<Rightarrow> string option" where
  "mapped_v4 s =
     (let rest = drop 7 s; parts = split_on CHR ''.'' rest
      in if starts_with ''::ffff:'' s \<and> length parts = 4 \<and> list_all (\<lambda>p. p \<noteq> [] \<and> list_all is_digit p) parts
         then Some rest else None)"

definition forbidden_v6 :: "string \<Rightarrow> bool" where
  "forbidden_v6 ip =
     (let normalized = to_lower ip
      in if normalized = ''::1'' \<or> normalized = ''::'' then True
         else if starts_with ''fe80:'' normalized \<or> starts_with ''fe8'' normalized \<or> starts_with ''fe9'' normalized
           \<or> starts_with ''fea'' normalized \<or> starts_with ''feb'' normalized then True
         else if starts_with ''fc'' normalized \<or> starts_with ''fd'' normalized then True
         else case mapped_v4 normalized of
                Some v4 \<Rightarrow> isIP v4 = 4 \<and> forbidden_v4 v4
              | None \<Rightarrow> False)"

definition isForbiddenIp :: "string \<Rightarrow> bool" where
  "isForbiddenIp ip =
     (let version = isIP ip
      in if version = 4 then forbidden_v4 ip else if version = 6 then forbidden_v6 ip else False)"

section \<open>Destinations\<close>

datatype guard_error = Guard_bad_request string | Guard_bad_gateway string | Guard_type_error string | Guard_error string

record url =
  url_protocol :: string
  url_hostname :: string
  url_origin :: string

text \<open>The resolver: the addresses of a name, or a rejection.\<close>

definition assertPublicHostname :: "(string \<Rightarrow> string list option) \<Rightarrow> string \<Rightarrow> guard_error + unit" where
  "assertPublicHostname dnsLookup hostname =
     (if isIP hostname \<noteq> 0
      then throw_if (isForbiddenIp hostname) (Guard_bad_request ''Target host resolves to a non-public address'')
      else case dnsLookup hostname of
             None \<Rightarrow> Inl (Guard_bad_gateway (''Could not resolve host: '' @ hostname))
           | Some records \<Rightarrow>
               throw_if (length records = 0 \<or> list_ex isForbiddenIp records)
                 (Guard_bad_request ''Target host resolves to a non-public address''))"

definition assertHttpDestination :: "(string \<Rightarrow> string list option) \<Rightarrow> url \<Rightarrow> guard_error + unit" where
  "assertHttpDestination dnsLookup u =
     (if url_protocol u \<noteq> ''https:'' \<and> url_protocol u \<noteq> ''http:''
      then Inl (Guard_bad_request (''Unsupported protocol: '' @ url_protocol u))
      else assertPublicHostname dnsLookup (url_hostname u))"

definition assertSafeWebhookDestination :: "(string \<Rightarrow> string list option) \<Rightarrow> url \<Rightarrow> guard_error + unit" where
  "assertSafeWebhookDestination dnsLookup u = assertHttpDestination dnsLookup u"

definition assertSafeDestination :: "(string \<Rightarrow> string list option) \<Rightarrow> url \<Rightarrow> string list \<Rightarrow> guard_error + unit" where
  "assertSafeDestination dnsLookup u allowedOrigins =
     (if url_origin u \<notin> set allowedOrigins
      then Inl (Guard_bad_request (''Destination origin \"'' @ url_origin u @ ''\" is not an allowed provider origin''))
      else assertHttpDestination dnsLookup u)"

definition assertRelativePath :: "(string \<Rightarrow> url option) \<Rightarrow> string \<Rightarrow> guard_error + unit" where
  "assertRelativePath new_url path =
     (if \<not> starts_with ''/'' path \<or> starts_with ''//'' path
      then Inl (Guard_bad_request ''path must be a relative path beginning with a single \"/\"'')
      else if CHR 0x5C \<in> set path then Inl (Guard_bad_request ''path must not contain backslashes'')
      else if new_url path \<noteq> None then Inl (Guard_bad_request ''path must be a relative path, not an absolute URL'')
      else Inr ())"

definition assertSafeExternalUrl ::
  "(string \<Rightarrow> url option) \<Rightarrow> (string \<Rightarrow> string list option) \<Rightarrow> string \<Rightarrow> guard_error + url" where
  "assertSafeExternalUrl new_url dnsLookup rawUrl =
     (case new_url rawUrl of
        None \<Rightarrow> Inl (Guard_bad_request (''Invalid URL: '' @ rawUrl))
      | Some u \<Rightarrow> and_then (assertHttpDestination dnsLookup u) (\<lambda>_. Inr u))"

definition isSameOrigin :: "(string \<Rightarrow> url option) \<Rightarrow> string \<Rightarrow> string \<Rightarrow> bool" where
  "isSameOrigin new_url a b =
     (case (new_url a, new_url b) of (Some l, Some r) \<Rightarrow> url_origin l = url_origin r | _ \<Rightarrow> False)"

section \<open>Following redirects\<close>

definition MAX_SAFE_REDIRECTS :: nat where "MAX_SAFE_REDIRECTS = 5"

definition REDIRECT_STATUS_CODES :: "nat list" where
  "REDIRECT_STATUS_CODES = [301, 302, 303, 307, 308]"

record response =
  rs_status :: nat
  rs_location :: "string option"

text \<open>What the network answers at each hop: the resolver before the request, the request itself.\<close>

record web =
  web_dns :: "nat \<Rightarrow> string \<Rightarrow> string list option"
  web_fetch :: "nat \<Rightarrow> url \<Rightarrow> guard_error + response"
  web_url :: "string \<Rightarrow> url \<Rightarrow> url option"

definition response_ok :: "response \<Rightarrow> guard_error + unit" where
  "response_ok r =
     (if 200 \<le> rs_status r \<and> rs_status r \<le> 299 then Inr ()
      else Inl (Guard_error (''Webhook returned HTTP '' @ digits_of_nat (rs_status r))))"

text \<open>The loop, with the list of the destinations requested so far.\<close>

function send_loop :: "web \<Rightarrow> nat \<Rightarrow> url \<Rightarrow> url list \<Rightarrow> (guard_error + unit) \<times> url list" where
  "send_loop w hop currentUrl requested =
     (let requested' = requested @ [currentUrl]
      in case web_fetch w hop currentUrl of
           Inl e \<Rightarrow> (Inl e, requested')
         | Inr response \<Rightarrow>
             if rs_status response \<notin> set REDIRECT_STATUS_CODES then (response_ok response, requested')
             else if hop \<ge> MAX_SAFE_REDIRECTS then (Inl (Guard_error ''Too many webhook redirects''), requested')
             else if rs_location response = None \<or> rs_location response = Some [] then (response_ok response, requested')
             else case web_url w (the (rs_location response)) currentUrl of
                    None \<Rightarrow> (Inl (Guard_type_error ''Invalid URL''), requested')
                  | Some u \<Rightarrow>
                      (case assertSafeWebhookDestination (web_dns w (Suc hop)) u of
                         Inl e \<Rightarrow> (Inl e, requested')
                       | Inr _ \<Rightarrow> send_loop w (Suc hop) u requested'))"
  by pat_completeness auto
termination by (relation "measure (\<lambda>(w, hop, u, r). MAX_SAFE_REDIRECTS - hop)") auto

declare send_loop.simps [simp del]

definition sendWebhook :: "web \<Rightarrow> url \<Rightarrow> (guard_error + unit) \<times> url list" where
  "sendWebhook w destination =
     (case assertSafeWebhookDestination (web_dns w 0) destination of
        Inl e \<Rightarrow> (Inl e, [])
      | Inr _ \<Rightarrow> send_loop w 0 destination [])"

section \<open>What a destination must be\<close>

text \<open>A public host: a literal outside the ranges, or a name whose addresses all are.\<close>

definition public_host :: "(string \<Rightarrow> string list option) \<Rightarrow> string \<Rightarrow> bool" where
  "public_host dnsLookup h \<longleftrightarrow>
     (if isIP h \<noteq> 0 then \<not> isForbiddenIp h
      else \<exists>rs. dnsLookup h = Some rs \<and> rs \<noteq> [] \<and> (\<forall>a \<in> set rs. \<not> isForbiddenIp a))"

lemma assertHttp_iff:
  "assertHttpDestination dns u = Inr () \<longleftrightarrow>
     url_protocol u \<in> {''https:'', ''http:''} \<and> public_host dns (url_hostname u)"
  by (auto simp: assertHttpDestination_def assertPublicHostname_def public_host_def list_ex_iff throw_if_def
      split: option.splits)

lemma send_loop_guarded:
  assumes "length requested = hop" "hop \<le> 5"
    and "\<And>i. i < length (requested @ [u]) \<Longrightarrow> assertHttpDestination (web_dns w i) ((requested @ [u]) ! i) = Inr ()"
  shows "length (snd (send_loop w hop u requested)) \<le> 6
    \<and> (\<forall>i < length (snd (send_loop w hop u requested)).
        assertHttpDestination (web_dns w i) (snd (send_loop w hop u requested) ! i) = Inr ())"
  using assms
proof (induction w hop u requested rule: send_loop.induct)
  case (1 w hop u requested)
  let ?stop = "snd (send_loop w hop u requested) = requested @ [u]"
  show ?case
  proof (cases ?stop)
    case True
    then show ?thesis using "1.prems" by simp
  next
    case False
    then obtain response v where step: "web_fetch w hop u = Inr response" "rs_status response \<in> set REDIRECT_STATUS_CODES"
      "\<not> hop \<ge> MAX_SAFE_REDIRECTS" "\<not> (rs_location response = None \<or> rs_location response = Some [])"
      "web_url w (the (rs_location response)) u = Some v"
      "assertSafeWebhookDestination (web_dns w (Suc hop)) v = Inr ()"
      by (auto simp: send_loop.simps [of w hop u requested] Let_def split: sum.splits option.splits if_splits)
    then have eq: "send_loop w hop u requested = send_loop w (Suc hop) v (requested @ [u])"
      by (auto simp: send_loop.simps [of w hop u requested] Let_def)
    have "assertHttpDestination (web_dns w i) ((requested @ [u, v]) ! i) = Inr ()" if "i < length (requested @ [u, v])" for i
    proof (cases "i = Suc hop")
      case True
      then show ?thesis using "1.prems"(1) step(6) by (simp add: assertSafeWebhookDestination_def nth_append)
    next
      case False
      with that "1.prems"(1) have "i < length (requested @ [u])" by simp
      moreover from this have "(requested @ [u, v]) ! i = (requested @ [u]) ! i" by (simp add: nth_append)
      ultimately show ?thesis using "1.prems"(3) by metis
    qed
    then show ?thesis unfolding eq
      using "1.IH" [OF refl step(1) _ step(3) _ step(5,6)] step(2-4) "1.prems"(1) by (simp add: MAX_SAFE_REDIRECTS_def)
  qed
qed

section \<open>Ranges as intervals of octets\<close>

lemma mask_top: "x AND push_bit k (NOT 0) = push_bit k (drop_bit k x)" for x :: "32 word"
  by (rule bit_word_eqI) (auto simp: bit_simps)

lemma top_bits_eq:
  assumes "n < 2 ^ 32" "m < 2 ^ 32"
  shows "(of_nat n AND push_bit k (NOT 0) :: 32 word) = of_nat m AND push_bit k (NOT 0) \<longleftrightarrow> n div 2 ^ k = m div 2 ^ k"
proof -
  have top: "unat (drop_bit k (of_nat j :: 32 word)) = j div 2 ^ k" if "j < 2 ^ 32" for j
  proof -
    have "unat (of_nat j :: 32 word) = j" using that by (simp add: unat_of_nat take_bit_eq_mod)
    then show ?thesis unfolding unat_drop_bit_eq by (simp add: drop_bit_eq_div)
  qed
  have top_again: "drop_bit k (push_bit k (drop_bit k x)) = drop_bit k x" for x :: "32 word"
    by (rule bit_word_eqI) (auto simp: bit_simps dest: bit_imp_le_length)
  have "push_bit k (drop_bit k x) = push_bit k (drop_bit k y) \<longleftrightarrow> drop_bit k x = drop_bit k y" for x y :: "32 word"
    using top_again by metis
  then show ?thesis using top [OF assms(1)] top [OF assms(2)] unfolding mask_top
    by (metis word_unat_eq_iff)
qed

lemma ipv4ToInt_quad:
  "split_on CHR ''.'' ip = [p, q, r, s] \<Longrightarrow>
   ipv4ToInt ip = of_nat (((nat_of_digits p * 256 + nat_of_digits q) * 256 + nat_of_digits r) * 256 + nat_of_digits s)"
  by (simp add: ipv4ToInt_def push_bit_eq_mult)

lemma range_ints:
  "ipv4ToInt ''0.0.0.0'' = of_nat 0" "ipv4ToInt ''10.0.0.0'' = of_nat 0x0A000000" "ipv4ToInt ''100.64.0.0'' = of_nat 0x64400000"
  "ipv4ToInt ''127.0.0.0'' = of_nat 0x7F000000" "ipv4ToInt ''169.254.0.0'' = of_nat 0xA9FE0000"
  "ipv4ToInt ''172.16.0.0'' = of_nat 0xAC100000" "ipv4ToInt ''192.0.0.0'' = of_nat 0xC0000000"
  "ipv4ToInt ''192.168.0.0'' = of_nat 0xC0A80000" "ipv4ToInt ''198.18.0.0'' = of_nat 0xC6120000"
  "ipv4ToInt ''224.0.0.0'' = of_nat 0xE0000000" "ipv4ToInt ''240.0.0.0'' = of_nat 0xF0000000"
  by (simp_all add: ipv4ToInt_quad nat_of_digits_def digit_val_def)

lemma pair_eq: "y < k \<Longrightarrow> v < k \<Longrightarrow> x * k + y = u * k + v \<longleftrightarrow> x = u \<and> y = (v :: nat)"
  by (metis add.commute div_mult_self1 div_less add_0 mod_mult_self1 mod_less less_nat_zero_code)

lemma block_eq: "0 < (k :: nat) \<Longrightarrow> b div k = q \<longleftrightarrow> q * k \<le> b \<and> b < Suc q * k"
  by (auto simp: div_nat_eqI less_eq_div_iff_mult_less_eq dividend_less_times_div mult.commute
      intro: div_less_iff_less_mult [THEN iffD1])

lemma range_div:
  assumes "ipv4ToInt ip = of_nat n" "n < 2 ^ 32" "ipv4ToInt base = of_nat m" "m < 2 ^ 32" "k = 32 - nbits" "0 < nbits"
  shows "inIpv4Range ip (base, nbits) \<longleftrightarrow> n div 2 ^ k = m div 2 ^ k"
  using assms top_bits_eq [OF assms(2,4)] by (simp add: inIpv4Range_def)

text \<open>The number of an address, cut after its first, its second or its third octet.\<close>

lemma quad_div:
  fixes a b c d :: nat
  assumes "b < 256" "c < 256" "d < 256"
  defines "n \<equiv> ((a * 256 + b) * 256 + c) * 256 + d"
  shows "n div 2 ^ 24 = a" "n div 2 ^ 16 = a * 256 + b" "n div 2 ^ 8 = (a * 256 + b) * 256 + c"
    "n div 2 ^ 22 = a * 4 + b div 64" "n div 2 ^ 20 = a * 16 + b div 16" "n div 2 ^ 17 = a * 128 + b div 2" "n div 2 ^ 28 = a div 16"
  using assms by (simp_all add: n_def)

lemma forbidden_quad:
  fixes a b c d :: nat
  assumes "ipv4ToInt ip = of_nat (((a * 256 + b) * 256 + c) * 256 + d)" "a < 256" "b < 256" "c < 256" "d < 256"
  shows "forbidden_v4 ip \<longleftrightarrow>
     a = 0 \<or> a = 10 \<or> a = 100 \<and> 64 \<le> b \<and> b \<le> 127 \<or> a = 127 \<or> a = 169 \<and> b = 254 \<or> a = 172 \<and> 16 \<le> b \<and> b \<le> 31
     \<or> a = 192 \<and> b = 0 \<and> c = 0 \<or> a = 192 \<and> b = 168 \<or> a = 198 \<and> b \<in> {18, 19} \<or> 224 \<le> a"
proof -
  let ?n = "((a * 256 + b) * 256 + c) * 256 + d"
  have n: "?n < 2 ^ 32" using assms(2-5) by simp
  note R = range_div [OF assms(1) n]
  note D = quad_div [OF assms(3-5), of a]
  have "inIpv4Range ip (''0.0.0.0'', 8) \<longleftrightarrow> a = 0" using R [OF range_ints(1), of 24 8] unfolding D by simp
  moreover have "inIpv4Range ip (''10.0.0.0'', 8) \<longleftrightarrow> a = 10" using R [OF range_ints(2), of 24 8] unfolding D by simp
  moreover have "inIpv4Range ip (''100.64.0.0'', 10) \<longleftrightarrow> a = 100 \<and> 64 \<le> b \<and> b \<le> 127"
    using R [OF range_ints(3), of 22 10] assms(3) pair_eq [of "b div 64" 4 1 a 100] unfolding D by (auto simp: block_eq)
  moreover have "inIpv4Range ip (''127.0.0.0'', 8) \<longleftrightarrow> a = 127" using R [OF range_ints(4), of 24 8] unfolding D by simp
  moreover have "inIpv4Range ip (''169.254.0.0'', 16) \<longleftrightarrow> a = 169 \<and> b = 254"
    using R [OF range_ints(5), of 16 16] assms(3) pair_eq [of b 256 254 a 169] unfolding D by simp
  moreover have "inIpv4Range ip (''172.16.0.0'', 12) \<longleftrightarrow> a = 172 \<and> 16 \<le> b \<and> b \<le> 31"
    using R [OF range_ints(6), of 20 12] assms(3) pair_eq [of "b div 16" 16 1 a 172] unfolding D by (auto simp: block_eq)
  moreover have "inIpv4Range ip (''192.0.0.0'', 24) \<longleftrightarrow> a = 192 \<and> b = 0 \<and> c = 0"
    using R [OF range_ints(7), of 8 24] assms(3,4) pair_eq [of c 256 0 "a * 256 + b" "192 * 256"] pair_eq [of b 256 0 a 192]
    unfolding D by simp
  moreover have "inIpv4Range ip (''192.168.0.0'', 16) \<longleftrightarrow> a = 192 \<and> b = 168"
    using R [OF range_ints(8), of 16 16] assms(3) pair_eq [of b 256 168 a 192] unfolding D by simp
  moreover have "inIpv4Range ip (''198.18.0.0'', 15) \<longleftrightarrow> a = 198 \<and> b \<in> {18, 19}"
    using R [OF range_ints(9), of 17 15] assms(3) pair_eq [of "b div 2" 128 9 a 198] unfolding D by (auto simp: block_eq)
  moreover have "inIpv4Range ip (''224.0.0.0'', 4) \<or> inIpv4Range ip (''240.0.0.0'', 4) \<longleftrightarrow> 224 \<le> a"
    using R [OF range_ints(10), of 28 4] R [OF range_ints(11), of 28 4] assms(2) unfolding D by (auto simp: block_eq)
  ultimately show ?thesis unfolding forbidden_v4_def FORBIDDEN_IPV4_RANGES_def by simp
qed

section \<open>Properties\<close>

text \<open>
  The IPv4 check is exactly the list of special-purpose blocks, octet by octet: the shifts, the
  mask and the comparison of the 32-bit arithmetic neither miss nor add an address.
\<close>

theorem ipv4_ranges_exact:
  assumes "split_on CHR ''.'' ip = [p, q, r, s]" "isIPv4 ip"
  defines "a \<equiv> nat_of_digits p" and "b \<equiv> nat_of_digits q" and "c \<equiv> nat_of_digits r"
  shows "isForbiddenIp ip \<longleftrightarrow>
     a = 0 \<or> a = 10 \<or> a = 100 \<and> 64 \<le> b \<and> b \<le> 127 \<or> a = 127 \<or> a = 169 \<and> b = 254 \<or> a = 172 \<and> 16 \<le> b \<and> b \<le> 31
     \<or> a = 192 \<and> b = 0 \<and> c = 0 \<or> a = 192 \<and> b = 168 \<or> a = 198 \<and> b \<in> {18, 19} \<or> 224 \<le> a"
proof -
  have o: "nat_of_digits p \<le> 255" "nat_of_digits q \<le> 255" "nat_of_digits r \<le> 255" "nat_of_digits s \<le> 255"
    using assms(1,2) by (simp_all add: isIPv4_def is_octet_def)
  then have o: "a < 256" "b < 256" "c < 256" "nat_of_digits s < 256" by (simp_all add: a_def b_def c_def)
  have "isForbiddenIp ip = forbidden_v4 ip" using assms(2) by (simp add: isForbiddenIp_def isIP_def)
  then show ?thesis
    using forbidden_quad [OF ipv4ToInt_quad [OF assms(1), folded a_def b_def c_def] o] by (rule trans)
qed

text \<open>The metadata address of cloud hosts.\<close>

theorem ipv4_ranges_exact_witness: "isForbiddenIp ''169.254.169.254'' \<and> \<not> isForbiddenIp ''172.32.0.1''"
proof -
  have "split_on CHR ''.'' ''169.254.169.254'' = [''169'', ''254'', ''169'', ''254'']"
    "split_on CHR ''.'' ''172.32.0.1'' = [''172'', ''32'', ''0'', ''1'']" by simp_all
  moreover from this have "isIPv4 ''169.254.169.254''" "isIPv4 ''172.32.0.1''"
    by (simp_all add: isIPv4_def is_octet_def nat_of_digits_def digit_val_def is_digit_def)
  ultimately show ?thesis
    using ipv4_ranges_exact [of "''169.254.169.254''"] ipv4_ranges_exact [of "''172.32.0.1''"]
    by (simp add: nat_of_digits_def digit_val_def)
qed

text \<open>
  C10. A webhook delivery requests nothing unguarded: whatever the network answers, it makes at most six
  requests, and at each of them the destination is http or https with a host that was, when the
  request was decided on, a public literal address or a name that resolved to public addresses only.
\<close>

theorem webhook_requests_guarded:
  assumes "sendWebhook w destination = (result, requested)"
  shows "length requested \<le> Suc MAX_SAFE_REDIRECTS
    \<and> (\<forall>i < length requested. url_protocol (requested ! i) \<in> {''https:'', ''http:''}
        \<and> public_host (web_dns w i) (url_hostname (requested ! i)))"
proof (cases "assertHttpDestination (web_dns w 0) destination")
  case (Inl e)
  then show ?thesis using assms by (simp add: sendWebhook_def assertSafeWebhookDestination_def)
next
  case (Inr u)
  then have "requested = snd (send_loop w 0 destination [])"
    using assms by (simp add: sendWebhook_def assertSafeWebhookDestination_def)
  then show ?thesis using send_loop_guarded [of "[]" 0 destination w] Inr
    by (simp add: assertHttp_iff MAX_SAFE_REDIRECTS_def)
qed

text \<open>A public destination that redirects to the loopback address: one request, then a refusal.\<close>

definition redirecting_web :: web where
  "redirecting_web = \<lparr>web_dns = (\<lambda>_ _. Some [''8.8.8.8'']),
     web_fetch = (\<lambda>_ _. Inr \<lparr>rs_status = 302, rs_location = Some ''http://127.0.0.1/''\<rparr>),
     web_url = (\<lambda>_ _. Some \<lparr>url_protocol = ''http:'', url_hostname = ''127.0.0.1'', url_origin = ''http://127.0.0.1''\<rparr>)\<rparr>"

lemma literal_verdicts: "\<not> isForbiddenIp ''8.8.8.8''" "isForbiddenIp ''127.0.0.1''" "isIP ''127.0.0.1'' = 4" "isIP ''h'' = 0"
proof -
  have v4: "isIPv4 ''8.8.8.8''" "isIPv4 ''127.0.0.1''"
    by (simp_all add: isIPv4_def is_octet_def nat_of_digits_def digit_val_def is_digit_def)
  then show "isIP ''127.0.0.1'' = 4" by (simp add: isIP_def)
  have "ipv4ToInt ''8.8.8.8'' = of_nat (((8 * 256 + 8) * 256 + 8) * 256 + 8)"
    "ipv4ToInt ''127.0.0.1'' = of_nat (((127 * 256 + 0) * 256 + 0) * 256 + 1)"
    by (simp_all add: ipv4ToInt_quad nat_of_digits_def digit_val_def)
  from this [THEN forbidden_quad] v4 show "\<not> isForbiddenIp ''8.8.8.8''" "isForbiddenIp ''127.0.0.1''"
    by (simp_all add: isForbiddenIp_def isIP_def)
  show "isIP ''h'' = 0"
    by (simp add: isIP_def isIPv4_def isIPv6_def part_count_def is_group_def is_hex_def is_digit_def Let_def)
qed

theorem webhook_requests_guarded_witness:
  "let d = \<lparr>url_protocol = ''https:'', url_hostname = ''h'', url_origin = ''https://h''\<rparr>;
       (result, requested) = sendWebhook redirecting_web d
   in requested = [d] \<and> public_host (web_dns redirecting_web 0) ''h'' \<and> (case result of Inl _ \<Rightarrow> True | Inr _ \<Rightarrow> False)"
proof -
  let ?d = "\<lparr>url_protocol = ''https:'', url_hostname = ''h'', url_origin = ''https://h''\<rparr>"
  have s: "sendWebhook redirecting_web ?d = (Inl (Guard_bad_request ''Target host resolves to a non-public address''), [?d])"
    using literal_verdicts
    by (simp add: sendWebhook_def redirecting_web_def assertSafeWebhookDestination_def assertHttpDestination_def
        assertPublicHostname_def send_loop.simps REDIRECT_STATUS_CODES_def MAX_SAFE_REDIRECTS_def throw_if_def Let_def)
  from webhook_requests_guarded [OF s] show ?thesis by (simp add: s)
qed

text \<open>
  Addresses that are loopback or private and pass: the mapped form written in hexadecimal, the
  IPv4-compatible form, the loopback address without its gap, and the multicast block of IPv6.
\<close>

lemma unguarded_v6:
  "\<forall>ip \<in> {''::ffff:7f00:1'', ''::127.0.0.1'', ''0:0:0:0:0:0:0:1'', ''ff02::1''}. isIP ip = 6 \<and> \<not> isForbiddenIp ip"
  by code_simp

end
