(* ===== verification/AccountGraph.thy ===== *)
theory AccountGraph
  imports JsNumber "HOL-Library.Multiset"
begin

text \<open>
  The relationship graph of an account: \<open>graph.service.ts\<close> of
  \<open>apps/api/src/modules/transaction\<close>. The answers of Horizon are parameters (a rejected lookup is
  \<open>None\<close>; \<open>fetchAccount\<close>, \<open>fetchOffers\<close> and the loops catch every rejection); the budget, the
  cache of accounts, the nodes and the edges are the state that the builders share.
\<close>

section \<open>Types\<close>

datatype node_type = Node_account | Node_multisig | Node_anchor | Node_contract

datatype relationship = Signs_for | Co_signer | Offer_match | Payment_edge

datatype graph_mode = Mode_signers | Mode_offers | Mode_payments | Mode_all

datatype truncation = Node_limit | Horizon_request_limit

record graph_node =
  gn_id :: string
  gn_label :: string
  gn_type :: node_type
  gn_signerCount :: nat
  gn_balanceCount :: nat

datatype edge_metadata =
    Weight_of js_num
  | Of_account string
  | Offer_of string string string   \<comment> \<open>selling asset, buying asset, price\<close>
  | Payment_of string "string option" string   \<comment> \<open>amount, asset, transaction hash\<close>

record graph_edge =
  ge_source :: string
  ge_target :: string
  ge_relationship :: relationship
  ge_metadata :: edge_metadata

record graph_limits =
  gl_maxDepth :: nat
  gl_maxNodes :: nat
  gl_maxHorizonRequests :: nat

record graph_signer =
  gs_key :: string
  gs_weight :: js_num

text \<open>A balance counts here by its asset code, if it has one.\<close>

record graph_account =
  ga_signers :: "graph_signer list"
  ga_assetCodes :: "string option list"
  ga_medThreshold :: "js_num option"

record offer_asset =
  oa_type :: string
  oa_code :: "string option"
  oa_issuer :: "string option"

record pending_offer =
  po_seller :: string
  po_selling :: offer_asset
  po_buying :: offer_asset
  po_price :: string

record payment_op =
  pm_type :: string
  pm_from :: string
  pm_to :: string
  pm_amount :: string
  pm_assetCode :: "string option"
  pm_assetType :: string
  pm_transactionHash :: string

text \<open>
  Horizon, the limits, and the character U+2026, which is not one of the characters of a
  \<open>string\<close> here.
\<close>

record graph_context =
  gx_account :: "string \<Rightarrow> graph_account option"
  gx_offers :: "string \<Rightarrow> pending_offer list option"
  gx_counterOffers :: "offer_asset \<Rightarrow> offer_asset \<Rightarrow> pending_offer list option"
  gx_payments :: "string \<Rightarrow> payment_op list option"
  gx_limits :: graph_limits
  gx_ellipsis :: string

record graph_state =
  gt_requests :: nat
  gt_truncatedBy :: "truncation option"
  gt_cache :: "(string, graph_account option) jmap"
  gt_nodes :: "(string, graph_node) jmap"
  gt_edges :: "graph_edge list"

definition GRAPH_MAX_DEPTH :: nat where "GRAPH_MAX_DEPTH = 3"
definition DEFAULT_GRAPH_MAX_NODES :: nat where "DEFAULT_GRAPH_MAX_NODES = 150"
definition DEFAULT_GRAPH_MAX_HORIZON_REQUESTS :: nat where "DEFAULT_GRAPH_MAX_HORIZON_REQUESTS = 60"

text \<open>A setting as \<open>Number\<close> reads it.\<close>

definition positive :: "js_num option \<Rightarrow> nat \<Rightarrow> nat" where
  "positive v fallback =
     (case v of Some x \<Rightarrow> if x \<in> \<int> \<and> x > 0 then nat \<lfloor>x\<rfloor> else fallback | None \<Rightarrow> fallback)"

definition limits :: "(string \<Rightarrow> js_num option) \<Rightarrow> graph_limits" where
  "limits config =
     \<lparr>gl_maxDepth = GRAPH_MAX_DEPTH,
      gl_maxNodes = positive (config ''GRAPH_MAX_NODES'') DEFAULT_GRAPH_MAX_NODES,
      gl_maxHorizonRequests = positive (config ''GRAPH_MAX_HORIZON_REQUESTS'') DEFAULT_GRAPH_MAX_HORIZON_REQUESTS\<rparr>"

section \<open>The budget\<close>

definition truncate_by :: "truncation \<Rightarrow> graph_state \<Rightarrow> graph_state" where
  "truncate_by t st = st\<lparr>gt_truncatedBy := (case gt_truncatedBy st of None \<Rightarrow> Some t | Some u \<Rightarrow> Some u)\<rparr>"

definition takeRequest :: "graph_context \<Rightarrow> graph_state \<Rightarrow> bool \<times> graph_state" where
  "takeRequest ctx st =
     (if gt_requests st \<ge> gl_maxHorizonRequests (gx_limits ctx) then (False, truncate_by Horizon_request_limit st)
      else (True, st\<lparr>gt_requests := gt_requests st + 1\<rparr>))"

definition hasRoomFor :: "graph_context \<Rightarrow> nat \<Rightarrow> nat \<Rightarrow> graph_state \<Rightarrow> bool \<times> graph_state" where
  "hasRoomFor ctx current extra st =
     (if current + extra > gl_maxNodes (gx_limits ctx) then (False, truncate_by Node_limit st) else (True, st))"

definition exhausted :: "graph_state \<Rightarrow> bool" where
  "exhausted st \<longleftrightarrow> gt_truncatedBy st \<noteq> None"

section \<open>Accounts and nodes\<close>

definition loadAccount :: "graph_context \<Rightarrow> string \<Rightarrow> graph_state \<Rightarrow> graph_account option \<times> graph_state" where
  "loadAccount ctx publicKey st =
     (case jm_get (gt_cache st) publicKey of
        Some p \<Rightarrow> (p, st)
      | None \<Rightarrow>
          let (allowed, st1) = takeRequest ctx st;
              p = (if allowed then gx_account ctx publicKey else None)
          in (p, st1\<lparr>gt_cache := jm_set (gt_cache st1) publicKey p\<rparr>))"

definition starts_with :: "char \<Rightarrow> string \<Rightarrow> bool" where
  "starts_with c s \<longleftrightarrow> (case s of [] \<Rightarrow> False | d # _ \<Rightarrow> d = c)"

definition classifyNode :: "string \<Rightarrow> graph_account option \<Rightarrow> node_type" where
  "classifyNode publicKey account =
     (if starts_with (CHR ''C'') publicKey then Node_contract
      else case account of
             None \<Rightarrow> Node_account
           | Some a \<Rightarrow>
               let highThreshold = (case ga_medThreshold a of Some t \<Rightarrow> t > 1 | None \<Rightarrow> False);
                   creditBalances = filter (\<lambda>c. c \<noteq> None \<and> c \<noteq> Some []) (ga_assetCodes a)
               in if length (ga_signers a) \<ge> 2 \<or> highThreshold then Node_multisig
                  else if length creditBalances \<ge> 3 then Node_anchor
                  else Node_account)"

definition classifyLabel :: "graph_context \<Rightarrow> string \<Rightarrow> node_type \<Rightarrow> string" where
  "classifyLabel ctx publicKey t =
     (if t = Node_contract then ''contract:'' @ take 8 publicKey @ gx_ellipsis ctx else publicKey)"

definition buildNode ::
  "graph_context \<Rightarrow> string \<Rightarrow> graph_account option \<Rightarrow> graph_state \<Rightarrow> graph_node option \<times> graph_state" where
  "buildNode ctx publicKey account st =
     (case jm_get (gt_nodes st) publicKey of
        Some existing \<Rightarrow> (Some existing, st)
      | None \<Rightarrow>
          let (room, st1) = hasRoomFor ctx (length (gt_nodes st)) 1 st in
          if \<not> room then (None, st1)
          else let t = classifyNode publicKey account;
                   node = \<lparr>gn_id = publicKey, gn_label = classifyLabel ctx publicKey t, gn_type = t,
                     gn_signerCount = (case account of Some a \<Rightarrow> length (ga_signers a) | None \<Rightarrow> 0),
                     gn_balanceCount = (case account of Some a \<Rightarrow> length (ga_assetCodes a) | None \<Rightarrow> 0)\<rparr>
               in (Some node, st1\<lparr>gt_nodes := jm_set (gt_nodes st1) publicKey node\<rparr>))"

definition push_edge :: "graph_edge \<Rightarrow> graph_state \<Rightarrow> graph_state" where
  "push_edge e st = st\<lparr>gt_edges := gt_edges st @ [e]\<rparr>"

section \<open>Signers\<close>

definition is_signer_key :: "string \<Rightarrow> bool" where
  "is_signer_key k \<longleftrightarrow> k \<noteq> [] \<and> starts_with (CHR ''G'') k"

text \<open>Only signers that fit under the node limit get nodes and edges.\<close>

fun add_signers :: "graph_context \<Rightarrow> graph_signer list \<Rightarrow> graph_state \<Rightarrow> string list \<times> graph_state" where
  "add_signers ctx [] st = ([], st)"
| "add_signers ctx (s # ss) st =
     (if \<not> is_signer_key (gs_key s) then add_signers ctx ss st
      else case buildNode ctx (gs_key s) None st of
             (None, st1) \<Rightarrow> ([], st1)
           | (Some _, st1) \<Rightarrow> (let (keys, st2) = add_signers ctx ss st1 in (gs_key s # keys, st2)))"

definition signs_for :: "graph_account \<Rightarrow> string \<Rightarrow> string \<Rightarrow> graph_edge" where
  "signs_for account pk signer =
     \<lparr>ge_source = signer, ge_target = pk, ge_relationship = Signs_for,
      ge_metadata = Weight_of (case find (\<lambda>s. gs_key s = signer) (ga_signers account) of
        Some s \<Rightarrow> gs_weight s | None \<Rightarrow> 1)\<rparr>"

fun enqueue_signers ::
  "nat \<Rightarrow> nat \<Rightarrow> string list \<Rightarrow> (string \<times> nat) list \<Rightarrow> string list \<Rightarrow> (string \<times> nat) list \<times> string list" where
  "enqueue_signers depth level [] queue visited = (queue, visited)"
| "enqueue_signers depth level (signer # signers) queue visited =
     (if signer \<notin> set visited \<and> level + 1 < depth + 1
      then enqueue_signers depth level signers (queue @ [(signer, level + 1)]) (visited @ [signer])
      else enqueue_signers depth level signers queue visited)"

fun co_signers :: "string \<Rightarrow> string list \<Rightarrow> graph_edge list" where
  "co_signers pk [] = []"
| "co_signers pk (k # ks) =
     map (\<lambda>j. \<lparr>ge_source = k, ge_target = j, ge_relationship = Co_signer, ge_metadata = Of_account pk\<rparr>) ks
     @ co_signers pk ks"

text \<open>One turn of the loop: \<open>None\<close> is the \<open>break\<close>.\<close>

definition signers_turn ::
  "graph_context \<Rightarrow> nat \<Rightarrow> string \<Rightarrow> nat \<Rightarrow> (string \<times> nat) list \<Rightarrow> string list \<Rightarrow> graph_state
    \<Rightarrow> ((string \<times> nat) list \<times> string list) option \<times> graph_state" where
  "signers_turn ctx depth pk level queue visited st =
     (let (account, st1) = loadAccount ctx pk st;
          (node, st2) = buildNode ctx pk account st1
      in if node = None then (None, st2)
         else case account of
                None \<Rightarrow> (Some (queue, visited), st2)
              | Some a \<Rightarrow>
                  if level \<ge> depth \<or> ga_signers a = [] then (Some (queue, visited), st2)
                  else let (signerKeys, st3) = add_signers ctx (ga_signers a) st2
                       in (Some (enqueue_signers depth level signerKeys queue visited),
                           st3\<lparr>gt_edges := gt_edges st3 @ map (signs_for a pk) signerKeys @ co_signers pk signerKeys\<rparr>))"

lemma enqueue_signers_added:
  "enqueue_signers depth level signers queue visited = (queue', visited') \<Longrightarrow>
    \<exists>added. queue' = queue @ map (\<lambda>k. (k, level + 1)) added \<and> visited' = visited @ added
      \<and> (added = [] \<or> level < depth)"
proof (induction signers arbitrary: queue visited)
  case (Cons signer signers)
  show ?case
  proof (cases "signer \<notin> set visited \<and> level + 1 < depth + 1")
    case True
    then obtain added where "queue' = (queue @ [(signer, level + 1)]) @ map (\<lambda>k. (k, level + 1)) added"
        "visited' = (visited @ [signer]) @ added"
      using Cons by fastforce
    then show ?thesis using True by (intro exI [of _ "signer # added"]) simp
  qed (use Cons in auto)
qed simp

lemma signers_turn_queue:
  assumes "signers_turn ctx depth pk level queue visited st = (Some (queue', visited'), st')"
  shows "\<exists>added. queue' = queue @ map (\<lambda>k. (k, level + 1)) added \<and> visited' = visited @ added
    \<and> (added = [] \<or> level < depth)"
proof -
  have "(queue', visited') = (queue, visited) \<or>
      (\<exists>keys. enqueue_signers depth level keys queue visited = (queue', visited'))"
    using assms by (auto simp: signers_turn_def Let_def split: prod.splits option.splits if_splits)
  then show ?thesis using enqueue_signers_added by (metis append_Nil2 list.simps(8) prod.inject)
qed

text \<open>
  The loop. An account is replaced in the queue by accounts of a higher level, up to \<open>depth\<close>, so the
  queue descends in the multiset order.
\<close>

definition queue_rank :: "nat \<Rightarrow> (string \<times> nat) list \<Rightarrow> nat multiset" where
  "queue_rank depth queue = image_mset (\<lambda>(pk, level). depth - level) (mset queue)"

lemma queue_rank_less:
  assumes "signers_turn ctx depth pk level queue visited st = (Some (queue', visited'), st')"
  shows "(queue_rank depth queue', queue_rank depth ((pk, level) # queue)) \<in> mult {(x, y). x < (y::nat)}"
proof -
  obtain added where a: "queue' = queue @ map (\<lambda>k. (k, level + 1)) added" "added = [] \<or> level < depth"
    using signers_turn_queue [OF assms] by auto
  have "(queue_rank depth queue + image_mset (\<lambda>k. depth - (level + 1)) (mset added),
      queue_rank depth queue + {#depth - level#}) \<in> mult {(x, y). x < (y::nat)}"
    using a(2) by (intro one_step_implies_mult) (auto simp: set_mset_mset)
  then show ?thesis by (simp add: queue_rank_def a(1) image_mset.compositionality o_def)
qed

function signers_loop ::
  "graph_context \<Rightarrow> nat \<Rightarrow> (string \<times> nat) list \<Rightarrow> string list \<Rightarrow> graph_state \<Rightarrow> graph_state" where
  "signers_loop ctx depth [] visited st = st"
| "signers_loop ctx depth ((pk, level) # queue) visited st =
     (if exhausted st then st
      else case signers_turn ctx depth pk level queue visited st of
             (None, st1) \<Rightarrow> st1
           | (Some (queue', visited'), st1) \<Rightarrow> signers_loop ctx depth queue' visited' st1)"
  by pat_completeness auto
termination
  by (relation "inv_image (mult {(x, y). x < (y::nat)}) (\<lambda>(ctx, depth, queue, visited, st). queue_rank depth queue)")
    (auto intro!: wf_mult wf_inv_image wf intro: queue_rank_less [OF sym])

declare signers_loop.simps(2) [simp del]

definition buildSignersGraph :: "graph_context \<Rightarrow> string \<Rightarrow> nat \<Rightarrow> graph_state \<Rightarrow> graph_state" where
  "buildSignersGraph ctx rootAccount depth st = signers_loop ctx depth [(rootAccount, 0)] [rootAccount] st"

section \<open>Offers\<close>

definition assetLabel :: "offer_asset \<Rightarrow> string" where
  "assetLabel asset =
     (if oa_type asset = ''native'' \<or> oa_code asset = None \<or> oa_code asset = Some [] then ''XLM''
      else case oa_issuer asset of
             Some issuer \<Rightarrow> if issuer = [] then the (oa_code asset) else the (oa_code asset) @ '':'' @ issuer
           | None \<Rightarrow> the (oa_code asset))"

definition fetchOffers :: "graph_context \<Rightarrow> string \<Rightarrow> graph_state \<Rightarrow> pending_offer list \<times> graph_state" where
  "fetchOffers ctx rootAccount st =
     (let (allowed, st1) = takeRequest ctx st
      in if \<not> allowed then ([], st1)
         else (case gx_offers ctx rootAccount of Some offers \<Rightarrow> offers | None \<Rightarrow> [], st1))"

text \<open>The sellers matched so far, and those of them that are no nodes yet.\<close>

record offer_match_state =
  om_matched :: "string list"
  om_pendingNew :: "string list"

text \<open>The counter-offers of one offer; the flag is \<open>break counterOffers\<close>.\<close>

fun match_counters ::
  "graph_context \<Rightarrow> string \<Rightarrow> pending_offer \<Rightarrow> pending_offer list \<Rightarrow> offer_match_state \<Rightarrow> graph_state
    \<Rightarrow> bool \<times> offer_match_state \<times> graph_state" where
  "match_counters ctx rootAccount offer [] om st = (False, om, st)"
| "match_counters ctx rootAccount offer (counter # counters) om st =
     (let seller = po_seller counter in
      if seller = rootAccount then match_counters ctx rootAccount offer counters om st
      else let fresh = (\<not> jm_has (gt_nodes st) seller \<and> seller \<notin> set (om_pendingNew om));
               (room, st1) = (if fresh then hasRoomFor ctx (length (gt_nodes st) + length (om_pendingNew om)) 1 st
                              else (True, st))
           in if \<not> room then (True, om, st1)
              else let om1 = om\<lparr>om_matched := js_set_add (om_matched om) seller,
                                om_pendingNew := (if fresh then om_pendingNew om @ [seller] else om_pendingNew om)\<rparr>;
                       rel = list_ex (\<lambda>e. ge_source e = seller \<and> ge_target e = rootAccount
                               \<and> ge_relationship e = Offer_match) (gt_edges st1);
                       st2 = (if rel then st1
                              else push_edge \<lparr>ge_source = seller, ge_target = rootAccount, ge_relationship = Offer_match,
                                     ge_metadata = Offer_of (assetLabel (po_buying offer)) (assetLabel (po_selling offer))
                                       (po_price counter)\<rparr> st1)
                   in match_counters ctx rootAccount offer counters om1 st2)"

text \<open>
  The offers come from Horizon, so their assets have valid codes and issuers and \<open>sdkAsset\<close> does not
  throw on them.
\<close>

fun match_offers ::
  "graph_context \<Rightarrow> string \<Rightarrow> pending_offer list \<Rightarrow> offer_match_state \<Rightarrow> graph_state
    \<Rightarrow> offer_match_state \<times> graph_state" where
  "match_offers ctx rootAccount [] om st = (om, st)"
| "match_offers ctx rootAccount (offer # offers) om st =
     (let (allowed, st1) = takeRequest ctx st
      in if \<not> allowed then (om, st1)
         else case gx_counterOffers ctx (po_buying offer) (po_selling offer) of
                None \<Rightarrow> match_offers ctx rootAccount offers om st1
              | Some counters \<Rightarrow>
                  (let (stop, om2, st2) = match_counters ctx rootAccount offer counters om st1
                   in if stop then (om2, st2) else match_offers ctx rootAccount offers om2 st2))"

text \<open>\<open>this.buildNode(pk, await loadAccount(pk), nodes, budget)\<close>, for one account and in a loop.\<close>

definition load_node :: "graph_context \<Rightarrow> string \<Rightarrow> graph_state \<Rightarrow> graph_state" where
  "load_node ctx pk st = (let (account, st1) = loadAccount ctx pk st in snd (buildNode ctx pk account st1))"

definition load_nodes :: "graph_context \<Rightarrow> string list \<Rightarrow> graph_state \<Rightarrow> graph_state" where
  "load_nodes ctx pks st = foldl (\<lambda>st pk. load_node ctx pk st) st pks"

definition buildOffersGraph :: "graph_context \<Rightarrow> string \<Rightarrow> graph_state \<Rightarrow> graph_state" where
  "buildOffersGraph ctx rootAccount st =
     (let (offers, st1) = fetchOffers ctx rootAccount st;
          st2 = load_node ctx rootAccount st1
      in if offers = [] then st2
         else let (om, st3) = match_offers ctx rootAccount offers \<lparr>om_matched = [], om_pendingNew = []\<rparr> st2
              in load_nodes ctx (om_matched om) st3)"

section \<open>Payments\<close>

definition payment_edge :: "payment_op \<Rightarrow> graph_edge" where
  "payment_edge op =
     \<lparr>ge_source = pm_from op, ge_target = pm_to op, ge_relationship = Payment_edge,
      ge_metadata = Payment_of (pm_amount op)
        (if pm_assetCode op \<noteq> None \<and> pm_assetCode op \<noteq> Some [] then pm_assetCode op
         else if pm_assetType op = ''native'' then Some ''XLM'' else pm_assetCode op)
        (pm_transactionHash op)\<rparr>"

fun connect_payments ::
  "graph_context \<Rightarrow> payment_op list \<Rightarrow> string list \<Rightarrow> string list \<Rightarrow> graph_state \<Rightarrow> string list \<times> graph_state" where
  "connect_payments ctx [] joined pendingNew st = (joined, st)"
| "connect_payments ctx (op # ops) joined pendingNew st =
     (if pm_from op = [] \<or> pm_to op = [] then connect_payments ctx ops joined pendingNew st
      else let fresh = filter (\<lambda>pk. \<not> jm_has (gt_nodes st) pk \<and> pk \<notin> set pendingNew) (dedupe [pm_from op, pm_to op]);
               (room, st1) = hasRoomFor ctx (length (gt_nodes st) + length pendingNew) (length fresh) st
           in if \<not> room then (joined, st1)
              else connect_payments ctx ops (js_set_add (js_set_add joined (pm_from op)) (pm_to op)) (pendingNew @ fresh)
                     (push_edge (payment_edge op) st1))"

definition buildPaymentsGraph :: "graph_context \<Rightarrow> string \<Rightarrow> graph_state \<Rightarrow> graph_state" where
  "buildPaymentsGraph ctx rootAccount st =
     (let (allowed, st1) = takeRequest ctx st
      in if \<not> allowed then load_node ctx rootAccount st1
         else case gx_payments ctx rootAccount of
                None \<Rightarrow> load_node ctx rootAccount st1
              | Some page \<Rightarrow>
                  let paymentOps = filter (\<lambda>r. pm_type r = ''payment'') page in
                  if paymentOps = [] then load_node ctx rootAccount st1
                  else let (joined, st2) = connect_payments ctx paymentOps [] [] (load_node ctx rootAccount st1)
                       in load_nodes ctx joined st2)"

section \<open>The graph\<close>

record graph_result =
  gr_nodes :: "graph_node list"
  gr_edges :: "graph_edge list"
  gr_rootAccount :: string
  gr_depth :: nat
  gr_mode :: graph_mode
  gr_nodeCount :: nat
  gr_edgeCount :: nat
  gr_truncated :: bool
  gr_truncatedBy :: "truncation option"
  gr_horizonRequests :: nat
  gr_limits :: graph_limits

definition new_graph :: graph_state where
  "new_graph = \<lparr>gt_requests = 0, gt_truncatedBy = None, gt_cache = [], gt_nodes = [], gt_edges = []\<rparr>"

text \<open>A later mode starts only while no limit was hit.\<close>

definition graph_modes :: "graph_context \<Rightarrow> string \<Rightarrow> nat \<Rightarrow> graph_mode \<Rightarrow> graph_state \<Rightarrow> graph_state" where
  "graph_modes ctx rootAccount depth mode st =
     (let st1 = (if mode = Mode_signers \<or> mode = Mode_all then buildSignersGraph ctx rootAccount depth st else st);
          st2 = (if \<not> exhausted st1 \<and> (mode = Mode_offers \<or> mode = Mode_all) then buildOffersGraph ctx rootAccount st1 else st1)
      in if \<not> exhausted st2 \<and> (mode = Mode_payments \<or> mode = Mode_all) then buildPaymentsGraph ctx rootAccount st2 else st2)"

definition buildGraph :: "graph_context \<Rightarrow> string \<Rightarrow> nat \<Rightarrow> graph_mode \<Rightarrow> string \<Rightarrow> js_error + graph_result" where
  "buildGraph ctx rootAccount depth mode network =
     (case loadAccount ctx rootAccount new_graph of
        (None, st) \<Rightarrow> Inl (NotFound (''Account '' @ rootAccount @ '' not found on '' @ network))
      | (Some a, st) \<Rightarrow>
          let st' = graph_modes ctx rootAccount depth mode st
          in Inr \<lparr>gr_nodes = map snd (gt_nodes st'), gr_edges = gt_edges st', gr_rootAccount = rootAccount,
                  gr_depth = depth, gr_mode = mode, gr_nodeCount = length (gt_nodes st'),
                  gr_edgeCount = length (gt_edges st'), gr_truncated = exhausted st',
                  gr_truncatedBy = gt_truncatedBy st', gr_horizonRequests = gt_requests st',
                  gr_limits = gx_limits ctx\<rparr>)"

section \<open>Limits and edges\<close>

definition node_ids :: "graph_state \<Rightarrow> string set" where
  "node_ids st = fst ` set (gt_nodes st)"

definition within_limits :: "graph_context \<Rightarrow> graph_state \<Rightarrow> bool" where
  "within_limits ctx st \<longleftrightarrow>
     gt_requests st \<le> gl_maxHorizonRequests (gx_limits ctx)
     \<and> length (gt_nodes st) \<le> gl_maxNodes (gx_limits ctx)
     \<and> jm_ok (gt_nodes st) \<and> (\<forall>(k, node) \<in> set (gt_nodes st). gn_id node = k)"

text \<open>The endpoints of the edges are nodes, or among \<open>P\<close>.\<close>

definition edges_within :: "string set \<Rightarrow> graph_state \<Rightarrow> bool" where
  "edges_within P st \<longleftrightarrow> (\<forall>e \<in> set (gt_edges st). ge_source e \<in> node_ids st \<union> P \<and> ge_target e \<in> node_ids st \<union> P)"

lemma truncate_simps [simp]:
  "gt_requests (truncate_by t st) = gt_requests st" "gt_nodes (truncate_by t st) = gt_nodes st"
  "gt_edges (truncate_by t st) = gt_edges st" "gt_cache (truncate_by t st) = gt_cache st"
  "exhausted (truncate_by t st)"
  by (simp_all add: truncate_by_def exhausted_def split: option.split)

lemma takeRequest_effect:
  assumes "takeRequest ctx st = (ok, st')"
  shows "gt_nodes st' = gt_nodes st \<and> gt_edges st' = gt_edges st \<and> gt_cache st' = gt_cache st
    \<and> (within_limits ctx st \<longrightarrow> within_limits ctx st') \<and> (exhausted st \<longrightarrow> exhausted st') \<and> (\<not> ok \<longrightarrow> exhausted st')
    \<and> gt_requests st' = gt_requests st + (if ok then 1 else 0)"
  using assms by (auto simp: takeRequest_def within_limits_def exhausted_def split: if_splits)
    (auto simp: truncate_by_def split: option.splits)

lemma hasRoomFor_effect:
  assumes "hasRoomFor ctx current extra st = (ok, st')"
  shows "gt_nodes st' = gt_nodes st \<and> gt_edges st' = gt_edges st \<and> gt_cache st' = gt_cache st
    \<and> gt_requests st' = gt_requests st \<and> (exhausted st \<longrightarrow> exhausted st') \<and> (\<not> ok \<longrightarrow> exhausted st') \<and> (ok \<longrightarrow> st' = st)
    \<and> ok = (current + extra \<le> gl_maxNodes (gx_limits ctx))"
  using assms by (auto simp: hasRoomFor_def split: if_splits)

lemma loadAccount_effect:
  assumes "loadAccount ctx pk st = (a, st')"
  shows "gt_nodes st' = gt_nodes st \<and> gt_edges st' = gt_edges st
    \<and> (within_limits ctx st \<longrightarrow> within_limits ctx st') \<and> (exhausted st \<longrightarrow> exhausted st')"
proof (cases "jm_get (gt_cache st) pk")
  case None
  obtain ok st1 where t: "takeRequest ctx st = (ok, st1)" by fastforce
  then have "st' = st1\<lparr>gt_cache := jm_set (gt_cache st1) pk (if ok then gx_account ctx pk else None)\<rparr>"
    using assms None by (auto simp: loadAccount_def Let_def)
  moreover from this have "within_limits ctx st' = within_limits ctx st1" "exhausted st' = exhausted st1"
    by (simp_all add: within_limits_def exhausted_def)
  ultimately show ?thesis using takeRequest_effect [OF t] by simp
qed (use assms in \<open>simp add: loadAccount_def\<close>)

lemma buildNode_effect:
  assumes "buildNode ctx pk a st = (node, st')"
  shows "node_ids st' = (if node = None then node_ids st else insert pk (node_ids st))
    \<and> gt_edges st' = gt_edges st \<and> gt_cache st' = gt_cache st \<and> gt_requests st' = gt_requests st
    \<and> (within_limits ctx st \<longrightarrow> within_limits ctx st') \<and> (exhausted st \<longrightarrow> exhausted st')
    \<and> (node = None \<longrightarrow> exhausted st' \<and> gt_nodes st' = gt_nodes st)
    \<and> (node \<noteq> None \<longrightarrow> gt_truncatedBy st' = gt_truncatedBy st)
    \<and> (node = None \<longleftrightarrow> pk \<notin> node_ids st \<and> gl_maxNodes (gx_limits ctx) \<le> length (gt_nodes st))
    \<and> length (gt_nodes st') = length (gt_nodes st) + (if pk \<in> node_ids st \<or> node = None then 0 else 1)"
proof (cases "jm_get (gt_nodes st) pk")
  case (Some existing)
  then have "pk \<in> node_ids st" by (force simp: node_ids_def dest: jm_get_Some_in)
  moreover have "st' = st" "node = Some existing" using assms Some by (simp_all add: buildNode_def)
  ultimately show ?thesis by auto
next
  case None
  then have new: "pk \<notin> fst ` set (gt_nodes st)" by (simp add: jm_get_None_iff)
  obtain room st1 where r: "hasRoomFor ctx (length (gt_nodes st)) 1 st = (room, st1)" by fastforce
  note R = hasRoomFor_effect [OF r]
  show ?thesis
  proof (cases room)
    case False
    then have "node = None" "st' = st1" using assms None r by (simp_all add: buildNode_def)
    then show ?thesis using R False new by (auto simp: node_ids_def within_limits_def)
  next
    case True
    then obtain n where n: "node = Some n" "gn_id n = pk" "st' = st\<lparr>gt_nodes := jm_set (gt_nodes st) pk n\<rparr>"
      using assms None r R by (auto simp: buildNode_def Let_def)
    have set: "jm_set (gt_nodes st) pk n = gt_nodes st @ [(pk, n)]"
      by (rule jm_set_fresh [OF new])
    then show ?thesis using n R True new jm_ok_set [of "gt_nodes st" pk n]
      by (auto simp: node_ids_def within_limits_def exhausted_def set)
  qed
qed

text \<open>What every builder keeps: more nodes and edges, within the limits.\<close>

definition extends :: "graph_context \<Rightarrow> graph_state \<Rightarrow> graph_state \<Rightarrow> bool" where
  "extends ctx st st' \<longleftrightarrow>
     node_ids st \<subseteq> node_ids st' \<and> set (gt_edges st) \<subseteq> set (gt_edges st')
     \<and> (within_limits ctx st \<longrightarrow> within_limits ctx st') \<and> (exhausted st \<longrightarrow> exhausted st')"

lemma extends_refl [simp]: "extends ctx st st"
  by (simp add: extends_def)

lemma extends_trans: "extends ctx st st1 \<Longrightarrow> extends ctx st1 st2 \<Longrightarrow> extends ctx st st2"
  unfolding extends_def by (intro conjI impI) (metis subset_trans)+

lemma extends_request: "takeRequest ctx st = (ok, st') \<Longrightarrow> extends ctx st st'"
  using takeRequest_effect [of ctx st ok st'] by (simp add: extends_def node_ids_def)

lemma extends_load: "loadAccount ctx pk st = (a, st') \<Longrightarrow> extends ctx st st'"
  using loadAccount_effect [of ctx pk st a st'] by (simp add: extends_def node_ids_def)

lemma extends_build: "buildNode ctx pk a st = (node, st') \<Longrightarrow> extends ctx st st'"
  using buildNode_effect [of ctx pk a st node st'] by (auto simp: extends_def)

lemma edges_within_mono:
  assumes "edges_within P st" "gt_edges st' = gt_edges st" "node_ids st \<union> P \<subseteq> node_ids st' \<union> Q"
  shows "edges_within Q st'"
  unfolding edges_within_def assms(2)
proof
  fix e assume "e \<in> set (gt_edges st)"
  then have "ge_source e \<in> node_ids st \<union> P" "ge_target e \<in> node_ids st \<union> P"
    using assms(1) by (simp_all only: edges_within_def)
  then show "ge_source e \<in> node_ids st' \<union> Q \<and> ge_target e \<in> node_ids st' \<union> Q" using assms(3) by (simp only: subsetD)
qed

lemma edges_within_edges: "gt_edges st' = gt_edges st \<Longrightarrow> gt_nodes st' = gt_nodes st \<Longrightarrow> edges_within P st' = edges_within P st"
  by (simp add: edges_within_def node_ids_def)

subsection \<open>Signers\<close>

lemma add_signers_effect:
  "add_signers ctx ss st = (keys, st') \<Longrightarrow>
    extends ctx st st' \<and> gt_edges st' = gt_edges st \<and> set keys \<subseteq> node_ids st' \<and> node_ids st' = node_ids st \<union> set keys"
proof (induction ctx ss st arbitrary: keys st' rule: add_signers.induct)
  case (2 ctx s ss st)
  show ?case
  proof (cases "is_signer_key (gs_key s)")
    case True
    obtain node st1 where b: "buildNode ctx (gs_key s) None st = (node, st1)" by fastforce
    note B = buildNode_effect [OF b] extends_build [OF b]
    show ?thesis
    proof (cases node)
      case None
      then show ?thesis using "2.prems" b B True by auto
    next
      case (Some n)
      obtain ks st2 where r: "add_signers ctx ss st1 = (ks, st2)" by fastforce
      have "keys = gs_key s # ks" "st' = st2" using "2.prems" b r True Some by (auto simp: Let_def)
      moreover note "2.IH"(2) [OF _ b [symmetric] Some r] True
      ultimately show ?thesis using B Some extends_trans [OF B(2)] by auto
    qed
  qed (use 2 in auto)
qed simp

lemma co_signers_keys: "e \<in> set (co_signers pk keys) \<Longrightarrow> ge_source e \<in> set keys \<and> ge_target e \<in> set keys"
  by (induction keys) auto

text \<open>A builder that starts with the root in the graph, or with room for it.\<close>

definition has_root :: "graph_context \<Rightarrow> string \<Rightarrow> graph_state \<Rightarrow> bool" where
  "has_root ctx rootAccount st \<longleftrightarrow> rootAccount \<in> node_ids st \<or> length (gt_nodes st) < gl_maxNodes (gx_limits ctx)"

lemma signers_turn_effect:
  assumes "signers_turn ctx depth pk level queue visited st = (res, st')"
  shows "extends ctx st st' \<and> (edges_within {} st \<longrightarrow> edges_within {} st') \<and> (res \<noteq> None \<longrightarrow> pk \<in> node_ids st')
    \<and> (res = None \<longrightarrow> exhausted st' \<and> \<not> has_root ctx pk st)"
proof -
  obtain a st1 where l: "loadAccount ctx pk st = (a, st1)" by fastforce
  obtain node st2 where b: "buildNode ctx pk a st1 = (node, st2)" by fastforce
  note L = loadAccount_effect [OF l] and B = buildNode_effect [OF b]
  have E: "extends ctx st st2" by (rule extends_trans [OF extends_load [OF l] extends_build [OF b]])
  have W: "edges_within {} st \<longrightarrow> edges_within {} st2"
    using L B by (auto simp: edges_within_def node_ids_def split: if_splits)
  consider "node = None" | "node \<noteq> None" "res = Some (queue, visited)" "st' = st2" | acc where "node \<noteq> None" "a = Some acc"
      "\<not> (level \<ge> depth \<or> ga_signers acc = [])"
    using assms l b by (auto simp: signers_turn_def Let_def split: option.splits if_splits)
  then show ?thesis
  proof cases
    case 1
    then have "res = None" "st' = st2" using assms l b by (auto simp: signers_turn_def Let_def)
    moreover have "\<not> has_root ctx pk st" using B L 1 by (auto simp: has_root_def node_ids_def)
    ultimately show ?thesis using E W B 1 by simp
  next
    case 2
    then show ?thesis using E W B by simp
  next
    case (3 acc)
    obtain keys st3 where k: "add_signers ctx (ga_signers acc) st2 = (keys, st3)" by fastforce
    note K = add_signers_effect [OF k]
    have R: "st' = st3\<lparr>gt_edges := gt_edges st3 @ map (signs_for acc pk) keys @ co_signers pk keys\<rparr>" "res \<noteq> None"
      using assms l b 3 k by (auto simp: signers_turn_def Let_def)
    have ids: "node_ids st' = node_ids st3" "pk \<in> node_ids st3" using R K B 3 by (auto simp: node_ids_def)
    have "extends ctx st3 st'" using R by (auto simp: extends_def node_ids_def within_limits_def exhausted_def)
    moreover have "edges_within {} st'" if "edges_within {} st2"
      using that K ids R by (auto simp: edges_within_def signs_for_def dest: co_signers_keys)
    ultimately show ?thesis using E W K R ids extends_trans by metis
  qed
qed

lemma signers_loop_effect:
  "extends ctx st (signers_loop ctx depth queue visited st)
    \<and> (edges_within {} st \<longrightarrow> edges_within {} (signers_loop ctx depth queue visited st))
    \<and> (queue \<noteq> [] \<longrightarrow> \<not> exhausted st \<longrightarrow> has_root ctx (fst (hd queue)) st \<longrightarrow>
        fst (hd queue) \<in> node_ids (signers_loop ctx depth queue visited st))"
proof (induction ctx depth queue visited st rule: signers_loop.induct)
  case (2 ctx depth pk level queue visited st)
  show ?case
  proof (cases "exhausted st")
    case True
    then show ?thesis by (simp add: signers_loop.simps)
  next
    case False
    obtain res st1 where t: "signers_turn ctx depth pk level queue visited st = (res, st1)" by fastforce
    note T = signers_turn_effect [OF t]
    show ?thesis
    proof (cases res)
      case None
      then show ?thesis using T t False by (simp add: signers_loop.simps)
    next
      case (Some qv)
      obtain q' v' where qv: "qv = (q', v')" by fastforce
      have eq: "signers_loop ctx depth ((pk, level) # queue) visited st = signers_loop ctx depth q' v' st1"
        using t False Some qv by (simp add: signers_loop.simps)
      have IH: "extends ctx st1 (signers_loop ctx depth q' v' st1)"
          "edges_within {} st1 \<longrightarrow> edges_within {} (signers_loop ctx depth q' v' st1)"
        using "2.IH" [OF False t [symmetric] Some [unfolded qv] refl] by blast+
      have "extends ctx st (signers_loop ctx depth q' v' st1)" using T IH(1) extends_trans by blast
      moreover have "has_root ctx pk st \<longrightarrow> pk \<in> node_ids (signers_loop ctx depth q' v' st1)"
        using T IH(1) Some unfolding extends_def by blast
      moreover have "edges_within {} st \<longrightarrow> edges_within {} (signers_loop ctx depth q' v' st1)"
        using T IH(2) by blast
      ultimately show ?thesis unfolding eq by simp
    qed
  qed
qed simp

subsection \<open>Loading nodes that were given room\<close>

lemma load_node_effect:
  assumes "st' = load_node ctx pk st"
  shows "extends ctx st st' \<and> gt_edges st' = gt_edges st
    \<and> (pk \<in> node_ids st \<or> length (gt_nodes st) < gl_maxNodes (gx_limits ctx) \<longrightarrow>
        node_ids st' = insert pk (node_ids st)
        \<and> length (gt_nodes st') = length (gt_nodes st) + (if pk \<in> node_ids st then 0 else 1))"
proof -
  obtain a st1 where l: "loadAccount ctx pk st = (a, st1)" by fastforce
  obtain node st2 where b: "buildNode ctx pk a st1 = (node, st2)" by fastforce
  have st': "st' = st2" using assms l b by (simp add: load_node_def)
  have same: "gt_nodes st1 = gt_nodes st" "gt_edges st1 = gt_edges st" using loadAccount_effect [OF l] by simp_all
  then have ids: "node_ids st1 = node_ids st" by (simp add: node_ids_def)
  show ?thesis
    unfolding st' using buildNode_effect [OF b] same ids extends_trans [OF extends_load [OF l] extends_build [OF b]]
    by auto
qed

definition reserved :: "graph_context \<Rightarrow> string list \<Rightarrow> graph_state \<Rightarrow> bool" where
  "reserved ctx pend st \<longleftrightarrow>
     distinct pend \<and> set pend \<inter> node_ids st = {}
     \<and> length (gt_nodes st) + length pend \<le> gl_maxNodes (gx_limits ctx)"

lemma load_nodes_reserved:
  "reserved ctx pend st \<Longrightarrow> set pks \<subseteq> node_ids st \<union> set pend \<Longrightarrow>
    extends ctx st (load_nodes ctx pks st) \<and> gt_edges (load_nodes ctx pks st) = gt_edges st
    \<and> set pks \<subseteq> node_ids (load_nodes ctx pks st)"
proof (induction pks arbitrary: pend st)
  case (Cons pk pks)
  let ?st = "load_node ctx pk st"
  have "length (gt_nodes st) < gl_maxNodes (gx_limits ctx)" if "pk \<in> set pend"
    using length_pos_if_in_set [OF that] Cons.prems(1) unfolding reserved_def by linarith
  then have "pk \<in> node_ids st \<or> length (gt_nodes st) < gl_maxNodes (gx_limits ctx)"
    using Cons.prems(2) by auto
  then have N: "node_ids ?st = insert pk (node_ids st)" "extends ctx st ?st" "gt_edges ?st = gt_edges st"
      "length (gt_nodes ?st) = length (gt_nodes st) + (if pk \<in> node_ids st then 0 else 1)"
    using load_node_effect [of _ ctx pk st, OF refl] by auto
  let ?pend = "if pk \<in> node_ids st then pend else remove1 pk pend"
  have shorter: "length (gt_nodes ?st) + length ?pend \<le> gl_maxNodes (gx_limits ctx)"
  proof (cases "pk \<in> node_ids st")
    case False
    then have "pk \<in> set pend" using Cons.prems(2) by auto
    then have "length (remove1 pk pend) + 1 = length pend"
      using length_pos_if_in_set [of pk pend] by (simp add: length_remove1)
    then show ?thesis using Cons.prems(1) N(4) False by (simp add: reserved_def)
  qed (use Cons.prems(1) N(4) in \<open>simp add: reserved_def\<close>)
  then have "reserved ctx ?pend ?st"
    using Cons.prems N(1) by (auto simp: reserved_def)
  moreover have "set pks \<subseteq> node_ids ?st \<union> set ?pend"
    using Cons.prems N(1) by (auto simp: reserved_def)
  ultimately have IH: "extends ctx ?st (load_nodes ctx pks ?st)" "gt_edges (load_nodes ctx pks ?st) = gt_edges ?st"
      "set pks \<subseteq> node_ids (load_nodes ctx pks ?st)"
    using Cons.IH by blast+
  have eq: "load_nodes ctx (pk # pks) st = load_nodes ctx pks ?st" by (simp add: load_nodes_def)
  have "pk \<in> node_ids (load_nodes ctx pks ?st)" using N(1) IH(1) unfolding extends_def by blast
  then show ?case unfolding eq using IH N extends_trans by auto
qed (simp add: load_nodes_def)

subsection \<open>Offers\<close>

definition match_inv :: "graph_context \<Rightarrow> string \<Rightarrow> offer_match_state \<Rightarrow> graph_state \<Rightarrow> bool" where
  "match_inv ctx rootAccount om st \<longleftrightarrow>
     reserved ctx (om_pendingNew om) st \<and> edges_within (set (om_pendingNew om)) st
     \<and> set (om_matched om) \<subseteq> node_ids st \<union> set (om_pendingNew om)
     \<and> set (om_pendingNew om) \<subseteq> set (om_matched om) \<and> rootAccount \<in> node_ids st"

lemma match_inv_cong:
  assumes "match_inv ctx rootAccount om st" "gt_nodes st' = gt_nodes st" "gt_edges st' = gt_edges st"
  shows "match_inv ctx rootAccount om st'"
  using assms by (simp add: match_inv_def reserved_def edges_within_def node_ids_def)

lemma match_counters_effect:
  "match_counters ctx rootAccount offer counters om st = (stop, om', st') \<Longrightarrow> match_inv ctx rootAccount om st \<Longrightarrow>
    match_inv ctx rootAccount om' st' \<and> extends ctx st st' \<and> gt_nodes st' = gt_nodes st"
proof (induction ctx rootAccount offer counters om st rule: match_counters.induct)
  case (2 ctx rootAccount offer counter counters om st)
  let ?seller = "po_seller counter"
  let ?fresh = "\<not> jm_has (gt_nodes st) ?seller \<and> ?seller \<notin> set (om_pendingNew om)"
  show ?case
  proof (cases "?seller = rootAccount")
    case True
    then show ?thesis using 2 by (simp add: Let_def)
  next
    case False
    obtain room st1 where r: "(if ?fresh then hasRoomFor ctx (length (gt_nodes st) + length (om_pendingNew om)) 1 st
                              else (True, st)) = (room, st1)" by fastforce
    have R: "gt_nodes st1 = gt_nodes st" "gt_edges st1 = gt_edges st" "gt_requests st1 = gt_requests st"
        "exhausted st \<longrightarrow> exhausted st1" "room \<longrightarrow> st1 = st"
        "room \<longrightarrow> ?fresh \<longrightarrow> length (gt_nodes st) + length (om_pendingNew om) + 1 \<le> gl_maxNodes (gx_limits ctx)"
      using r hasRoomFor_effect [of ctx "length (gt_nodes st) + length (om_pendingNew om)" 1 st room st1]
      by (auto split: if_splits)
    have E1: "extends ctx st st1" using R by (simp add: extends_def node_ids_def within_limits_def)
    show ?thesis
    proof (cases room)
      case no: False
      then have "om' = om" "st' = st1" using "2.prems"(1) False r by (auto simp: Let_def)
      then show ?thesis using "2.prems"(2) R E1 match_inv_cong by blast
    next
      case yes: True
      let ?om1 = "om\<lparr>om_matched := js_set_add (om_matched om) ?seller,
                     om_pendingNew := (if ?fresh then om_pendingNew om @ [?seller] else om_pendingNew om)\<rparr>"
      let ?e = "\<lparr>ge_source = ?seller, ge_target = rootAccount, ge_relationship = Offer_match,
                 ge_metadata = Offer_of (assetLabel (po_buying offer)) (assetLabel (po_selling offer)) (po_price counter)\<rparr>"
      let ?rel = "list_ex (\<lambda>e. ge_source e = ?seller \<and> ge_target e = rootAccount \<and> ge_relationship e = Offer_match) (gt_edges st1)"
      let ?st2 = "if ?rel then st1 else push_edge ?e st1"
      have go: "match_counters ctx rootAccount offer counters ?om1 ?st2 = (stop, om', st')"
        using "2.prems"(1) False r yes by (simp add: Let_def)
      have st1: "st1 = st" using R(5) yes by simp
      have inv: "reserved ctx (om_pendingNew om) st" "edges_within (set (om_pendingNew om)) st"
          "set (om_matched om) \<subseteq> node_ids st \<union> set (om_pendingNew om)"
          "set (om_pendingNew om) \<subseteq> set (om_matched om)" "rootAccount \<in> node_ids st"
        using "2.prems"(2) by (auto simp: match_inv_def)
      have n2: "gt_nodes ?st2 = gt_nodes st" "gt_requests ?st2 = gt_requests st" "exhausted ?st2 = exhausted st"
        using st1 by (auto simp: push_edge_def exhausted_def)
      have known: "?seller \<in> node_ids st \<union> set (om_pendingNew ?om1)"
        by (auto simp: node_ids_def)
      have "reserved ctx (om_pendingNew ?om1) ?st2"
        using inv(1) R(6) yes n2 by (auto simp: reserved_def node_ids_def)
      moreover have "edges_within (set (om_pendingNew ?om1)) ?st2"
        using inv(2,5) known st1 by (auto simp: edges_within_def push_edge_def node_ids_def)
      moreover have "set (om_matched ?om1) \<subseteq> node_ids st \<union> set (om_pendingNew ?om1)"
        using inv(3) known by auto
      moreover have "set (om_pendingNew ?om1) \<subseteq> set (om_matched ?om1)"
        using inv(4) by auto
      ultimately have I: "match_inv ctx rootAccount ?om1 ?st2"
        using inv(5) n2(1) by (simp add: match_inv_def node_ids_def)
      have E2: "extends ctx st ?st2"
        using st1 n2 by (auto simp: extends_def node_ids_def within_limits_def push_edge_def)
      have IH: "match_inv ctx rootAccount om' st' \<and> extends ctx ?st2 st' \<and> gt_nodes st' = gt_nodes ?st2"
        by (rule "2.IH"(2) [OF refl False refl refl r [symmetric] _ refl refl refl go I]) (use yes in simp)
      then have "match_inv ctx rootAccount om' st'" "extends ctx ?st2 st'" "gt_nodes st' = gt_nodes ?st2" by blast+
      moreover have "extends ctx st st'" by (rule extends_trans [OF E2 calculation(2)])
      ultimately show ?thesis using n2(1) by (simp only:)
    qed
  qed
qed simp

lemma match_offers_effect:
  "match_offers ctx rootAccount offers om st = (om', st') \<Longrightarrow> match_inv ctx rootAccount om st \<Longrightarrow>
    match_inv ctx rootAccount om' st' \<and> extends ctx st st'"
proof (induction ctx rootAccount offers om st rule: match_offers.induct)
  case (2 ctx rootAccount offer offers om st)
  obtain allowed st1 where t: "takeRequest ctx st = (allowed, st1)" by fastforce
  note T = takeRequest_effect [OF t]
  have E1: "extends ctx st st1" by (rule extends_request [OF t])
  have I1: "match_inv ctx rootAccount om st1" using match_inv_cong [OF "2.prems"(2)] T by blast
  show ?case
  proof (cases allowed)
    case False
    then show ?thesis using "2.prems"(1) t I1 E1 by simp
  next
    case True
    show ?thesis
    proof (cases "gx_counterOffers ctx (po_buying offer) (po_selling offer)")
      case None
      then have go: "match_offers ctx rootAccount offers om st1 = (om', st')" using "2.prems"(1) t True by simp
      have "match_inv ctx rootAccount om' st' \<and> extends ctx st1 st'"
        by (rule "2.IH"(1) [OF refl t [symmetric] _ None go I1]) (use True in simp)
      then show ?thesis using extends_trans [OF E1] by blast
    next
      case (Some counters)
      obtain stop om2 st2 where c: "match_counters ctx rootAccount offer counters om st1 = (stop, om2, st2)"
        by (metis prod_cases3)
      have C: "match_inv ctx rootAccount om2 st2" "extends ctx st1 st2"
        using match_counters_effect [OF c I1] by blast+
      show ?thesis
      proof (cases stop)
        case True
        then have "om' = om2" "st' = st2" using "2.prems"(1) t \<open>allowed\<close> Some c by simp_all
        then show ?thesis using C extends_trans [OF E1] by simp
      next
        case False
        then have go: "match_offers ctx rootAccount offers om2 st2 = (om', st')" using "2.prems"(1) t True Some c by simp
        have "match_inv ctx rootAccount om' st' \<and> extends ctx st2 st'"
          by (rule "2.IH"(2) [OF refl t [symmetric] _ Some refl c [symmetric] refl False go C(1)]) (use True in simp)
        then show ?thesis using extends_trans [OF extends_trans [OF E1 C(2)]] by blast
      qed
    qed
  qed
qed simp

lemma load_root:
  assumes "has_root ctx rootAccount st" "within_limits ctx st" "edges_within {} st"
  shows "rootAccount \<in> node_ids (load_node ctx rootAccount st) \<and> extends ctx st (load_node ctx rootAccount st)
    \<and> edges_within {} (load_node ctx rootAccount st) \<and> within_limits ctx (load_node ctx rootAccount st)"
proof -
  note L = load_node_effect [of _ ctx rootAccount st, OF refl]
  have "node_ids st \<union> {} \<subseteq> node_ids (load_node ctx rootAccount st) \<union> {}" using L by (simp add: extends_def)
  with L have "edges_within {} (load_node ctx rootAccount st)" using edges_within_mono [OF assms(3)] by blast
  moreover have "rootAccount \<in> node_ids (load_node ctx rootAccount st)"
    using L assms(1) unfolding has_root_def by blast
  ultimately show ?thesis using L assms(2) by (simp add: extends_def)
qed

lemma offers_effect:
  assumes "has_root ctx rootAccount st" "within_limits ctx st" "edges_within {} st"
  shows "extends ctx st (buildOffersGraph ctx rootAccount st) \<and> edges_within {} (buildOffersGraph ctx rootAccount st)
    \<and> rootAccount \<in> node_ids (buildOffersGraph ctx rootAccount st)"
proof -
  obtain offers st1 where f: "fetchOffers ctx rootAccount st = (offers, st1)" by fastforce
  obtain ok st0 where t: "takeRequest ctx st = (ok, st0)" by fastforce
  have st1: "st1 = st0" using f t by (auto simp: fetchOffers_def split: if_splits)
  have E1: "extends ctx st st1" unfolding st1 by (rule extends_request [OF t])
  have same: "gt_nodes st1 = gt_nodes st" "gt_edges st1 = gt_edges st" using takeRequest_effect [OF t] st1 by simp_all
  have ok1: "has_root ctx rootAccount st1" "within_limits ctx st1" "edges_within {} st1"
    using assms E1 same by (simp_all add: has_root_def extends_def edges_within_def node_ids_def)
  let ?st2 = "load_node ctx rootAccount st1"
  note R = load_root [OF ok1]
  show ?thesis
  proof (cases "offers = []")
    case True
    then show ?thesis using f R extends_trans [OF E1] by (simp add: buildOffersGraph_def)
  next
    case False
    obtain om st3 where m: "match_offers ctx rootAccount offers \<lparr>om_matched = [], om_pendingNew = []\<rparr> ?st2 = (om, st3)"
      by fastforce
    have "match_inv ctx rootAccount \<lparr>om_matched = [], om_pendingNew = []\<rparr> ?st2"
      using R by (simp add: match_inv_def reserved_def within_limits_def)
    from match_offers_effect [OF m this] have M: "match_inv ctx rootAccount om st3" "extends ctx ?st2 st3" by blast+
    have inv: "reserved ctx (om_pendingNew om) st3" "edges_within (set (om_pendingNew om)) st3"
        "set (om_matched om) \<subseteq> node_ids st3 \<union> set (om_pendingNew om)" "set (om_pendingNew om) \<subseteq> set (om_matched om)"
        "rootAccount \<in> node_ids st3"
      using M(1) by (auto simp: match_inv_def)
    from load_nodes_reserved [OF inv(1,3)]
    have N: "extends ctx st3 (load_nodes ctx (om_matched om) st3)" "gt_edges (load_nodes ctx (om_matched om) st3) = gt_edges st3"
        "set (om_matched om) \<subseteq> node_ids (load_nodes ctx (om_matched om) st3)" by blast+
    have "node_ids st3 \<union> set (om_pendingNew om) \<subseteq> node_ids (load_nodes ctx (om_matched om) st3) \<union> {}"
      using N(1,3) inv(4) by (auto simp: extends_def)
    from edges_within_mono [OF inv(2) N(2) this]
    have "edges_within {} (load_nodes ctx (om_matched om) st3)" .
    moreover have "extends ctx st (load_nodes ctx (om_matched om) st3)"
      using extends_trans [OF extends_trans [OF extends_trans [OF E1] M(2)] N(1)] R by blast
    moreover have "rootAccount \<in> node_ids (load_nodes ctx (om_matched om) st3)" using inv(5) N(1) by (auto simp: extends_def)
    moreover have "buildOffersGraph ctx rootAccount st = load_nodes ctx (om_matched om) st3"
      using f m False by (simp add: buildOffersGraph_def)
    ultimately show ?thesis by simp
  qed
qed

subsection \<open>Payments\<close>

lemma connect_effect:
  "connect_payments ctx ops joined pend st = (joined', st') \<Longrightarrow> reserved ctx pend st \<Longrightarrow>
    edges_within (set pend) st \<Longrightarrow> set joined \<subseteq> node_ids st \<union> set pend \<Longrightarrow> set pend \<subseteq> set joined \<Longrightarrow>
    \<exists>pend'. reserved ctx pend' st' \<and> edges_within (set pend') st' \<and> set joined' \<subseteq> node_ids st' \<union> set pend'
      \<and> set pend' \<subseteq> set joined' \<and> extends ctx st st' \<and> node_ids st' = node_ids st"
proof (induction ops arbitrary: joined pend st)
  case Nil
  then show ?case by (intro exI [of _ pend]) auto
next
  case (Cons op ops)
  show ?case
  proof (cases "pm_from op = [] \<or> pm_to op = []")
    case True
    then show ?thesis using Cons by simp
  next
    case False
    let ?fresh = "filter (\<lambda>pk. \<not> jm_has (gt_nodes st) pk \<and> pk \<notin> set pend) (dedupe [pm_from op, pm_to op])"
    obtain room st1 where r: "hasRoomFor ctx (length (gt_nodes st) + length pend) (length ?fresh) st = (room, st1)"
      by fastforce
    note R = hasRoomFor_effect [OF r]
    show ?thesis
    proof (cases room)
      case no: False
      then have eq: "joined' = joined" "st' = st1" using Cons.prems(1) False r by (auto simp: Let_def)
      have same: "node_ids st1 = node_ids st" "gt_nodes st1 = gt_nodes st" using R by (simp_all add: node_ids_def)
      have "reserved ctx pend st1" "extends ctx st st1"
        using Cons.prems(2) R same by (simp_all add: reserved_def extends_def within_limits_def)
      moreover have "edges_within (set pend) st1" using Cons.prems(3) R edges_within_edges by blast
      ultimately show ?thesis unfolding eq using Cons.prems(4,5) same(1) by (intro exI [of _ pend]) simp
    next
      case yes: True
      let ?joined = "js_set_add (js_set_add joined (pm_from op)) (pm_to op)"
      let ?st2 = "push_edge (payment_edge op) st"
      have go: "connect_payments ctx ops ?joined (pend @ ?fresh) ?st2 = (joined', st')"
        using Cons.prems(1) False r yes R by (auto simp: Let_def)
      have n2: "gt_nodes ?st2 = gt_nodes st" "node_ids ?st2 = node_ids st" by (simp_all add: push_edge_def node_ids_def)
      have fresh: "set ?fresh = {pk \<in> {pm_from op, pm_to op}. pk \<notin> node_ids st \<and> pk \<notin> set pend}" "distinct ?fresh"
        by (auto simp: node_ids_def simp del: dedupe.simps)
      have "reserved ctx (pend @ ?fresh) ?st2"
        using Cons.prems(2) fresh R yes n2 unfolding reserved_def by (auto simp del: dedupe.simps)
      moreover have "edges_within (set (pend @ ?fresh)) ?st2"
        using Cons.prems(3) unfolding edges_within_def n2(2) set_append fresh(1)
        by (auto simp: push_edge_def payment_edge_def)
      moreover have "set ?joined \<subseteq> node_ids ?st2 \<union> set (pend @ ?fresh)"
        using Cons.prems(4) unfolding n2(2) set_append fresh(1) by auto
      moreover have "set (pend @ ?fresh) \<subseteq> set ?joined"
        using Cons.prems(5) unfolding set_append fresh(1) by auto
      ultimately have IH: "\<exists>pend'. reserved ctx pend' st' \<and> edges_within (set pend') st' \<and> set joined' \<subseteq> node_ids st' \<union> set pend'
          \<and> set pend' \<subseteq> set joined' \<and> extends ctx ?st2 st' \<and> node_ids st' = node_ids ?st2"
        by (rule Cons.IH [OF go])
      have "extends ctx st ?st2" by (auto simp: extends_def node_ids_def within_limits_def push_edge_def exhausted_def)
      then show ?thesis using IH n2(2) extends_trans by metis
    qed
  qed
qed

lemma payments_effect:
  assumes "has_root ctx rootAccount st" "within_limits ctx st" "edges_within {} st"
  shows "extends ctx st (buildPaymentsGraph ctx rootAccount st) \<and> edges_within {} (buildPaymentsGraph ctx rootAccount st)
    \<and> rootAccount \<in> node_ids (buildPaymentsGraph ctx rootAccount st)"
proof -
  obtain ok st1 where t: "takeRequest ctx st = (ok, st1)" by fastforce
  have E1: "extends ctx st st1" by (rule extends_request [OF t])
  have same: "gt_nodes st1 = gt_nodes st" "gt_edges st1 = gt_edges st" using takeRequest_effect [OF t] by simp_all
  have ok1: "has_root ctx rootAccount st1" "within_limits ctx st1" "edges_within {} st1"
    using assms E1 same by (simp_all add: has_root_def extends_def edges_within_def node_ids_def)
  let ?st2 = "load_node ctx rootAccount st1"
  note R = load_root [OF ok1]
  have short: ?thesis if "buildPaymentsGraph ctx rootAccount st = ?st2"
    unfolding that using R extends_trans [OF E1] by blast
  show ?thesis
  proof (cases "\<exists>page. ok \<and> gx_payments ctx rootAccount = Some page \<and> filter (\<lambda>r. pm_type r = ''payment'') page \<noteq> []")
    case False
    then have "buildPaymentsGraph ctx rootAccount st = ?st2"
      using t by (auto simp: buildPaymentsGraph_def Let_def split: option.split)
    then show ?thesis by (rule short)
  next
    case True
    then obtain page where page: "ok" "gx_payments ctx rootAccount = Some page" "filter (\<lambda>r. pm_type r = ''payment'') page \<noteq> []"
      by blast
    obtain joined st3 where c: "connect_payments ctx (filter (\<lambda>r. pm_type r = ''payment'') page) [] [] ?st2 = (joined, st3)"
      by fastforce
    have eq: "buildPaymentsGraph ctx rootAccount st = load_nodes ctx joined st3"
      using t page c by (simp add: buildPaymentsGraph_def Let_def)
    have "reserved ctx [] ?st2" "edges_within (set []) ?st2" using R by (simp_all add: reserved_def within_limits_def)
    from connect_effect [OF c this] obtain pend where inv: "reserved ctx pend st3" "edges_within (set pend) st3"
        "set joined \<subseteq> node_ids st3 \<union> set pend" "set pend \<subseteq> set joined" "extends ctx ?st2 st3" "node_ids st3 = node_ids ?st2"
      by auto
    from load_nodes_reserved [OF inv(1,3)]
    have N: "extends ctx st3 (load_nodes ctx joined st3)" "gt_edges (load_nodes ctx joined st3) = gt_edges st3"
        "set joined \<subseteq> node_ids (load_nodes ctx joined st3)" by blast+
    have "node_ids st3 \<union> set pend \<subseteq> node_ids (load_nodes ctx joined st3) \<union> {}"
      using N(1,3) inv(4) by (auto simp: extends_def)
    from edges_within_mono [OF inv(2) N(2) this] have "edges_within {} (load_nodes ctx joined st3)" .
    moreover have "extends ctx st (load_nodes ctx joined st3)"
      using extends_trans [OF extends_trans [OF extends_trans [OF E1] inv(5)] N(1)] R by blast
    moreover have "rootAccount \<in> node_ids (load_nodes ctx joined st3)" using inv(6) R N(1) by (auto simp: extends_def)
    ultimately show ?thesis unfolding eq by simp
  qed
qed

section \<open>The limits of a graph\<close>

lemma positive_pos: "0 < fallback \<Longrightarrow> 0 < positive v fallback"
proof (cases v)
  case (Some x)
  assume "0 < fallback"
  moreover have "0 < nat \<lfloor>x\<rfloor>" if "x \<in> \<int>" "x > 0" using that by (auto elim!: Ints_cases)
  ultimately show ?thesis using Some by (simp add: positive_def)
qed (simp add: positive_def)

lemma modes_effect:
  assumes "has_root ctx rootAccount st" "within_limits ctx st" "edges_within {} st" "\<not> exhausted st"
    and "st' = graph_modes ctx rootAccount depth mode st"
  shows "within_limits ctx st' \<and> edges_within {} st' \<and> rootAccount \<in> node_ids st'"
proof -
  define st1 where "st1 = (if mode = Mode_signers \<or> mode = Mode_all then buildSignersGraph ctx rootAccount depth st else st)"
  define st2 where "st2 = (if \<not> exhausted st1 \<and> (mode = Mode_offers \<or> mode = Mode_all) then buildOffersGraph ctx rootAccount st1 else st1)"
  have st': "st' = (if \<not> exhausted st2 \<and> (mode = Mode_payments \<or> mode = Mode_all) then buildPaymentsGraph ctx rootAccount st2 else st2)"
    unfolding assms(5) graph_modes_def st2_def st1_def by (simp only: Let_def)
  let ?good = "\<lambda>s. within_limits ctx s \<and> edges_within {} s"
  have S: "?good (buildSignersGraph ctx rootAccount depth st) \<and> rootAccount \<in> node_ids (buildSignersGraph ctx rootAccount depth st)"
    using signers_loop_effect [of ctx st depth "[(rootAccount, 0)]" "[rootAccount]"] assms(1-4)
    by (simp add: buildSignersGraph_def extends_def)
  have O: "?good (buildOffersGraph ctx rootAccount s) \<and> rootAccount \<in> node_ids (buildOffersGraph ctx rootAccount s)"
    if "has_root ctx rootAccount s" "?good s" for s
    using offers_effect [OF that(1)] that(2) by (simp add: extends_def)
  have P: "?good (buildPaymentsGraph ctx rootAccount s) \<and> rootAccount \<in> node_ids (buildPaymentsGraph ctx rootAccount s)"
    if "has_root ctx rootAccount s" "?good s" for s
    using payments_effect [OF that(1)] that(2) by (simp add: extends_def)
  have one: "?good st1 \<and> has_root ctx rootAccount st1 \<and> (mode = Mode_signers \<or> mode = Mode_all \<longrightarrow> rootAccount \<in> node_ids st1)"
    unfolding st1_def using S assms(1-3) by (simp add: has_root_def)
  then have two: "?good st2 \<and> has_root ctx rootAccount st2 \<and> (mode \<noteq> Mode_payments \<or> rootAccount \<in> node_ids st2 \<longrightarrow> exhausted st1 \<or> rootAccount \<in> node_ids st2)"
    unfolding st2_def using O [of st1] by (cases mode) (auto simp: has_root_def)
  have early: "\<not> exhausted st1" if "mode = Mode_offers \<or> mode = Mode_payments"
    using that assms(4) by (auto simp: st1_def)
  have early2: "\<not> exhausted st2" if "mode = Mode_payments"
    using that early by (auto simp: st2_def)
  show ?thesis
    unfolding st' using one two early early2 P [of st2]
    by (cases mode) (auto simp: st2_def)
qed

text \<open>
  C15. A graph is within its limits and closed. Whatever Horizon answers and whatever the settings,
  a graph has at most the configured nodes and cost at most the configured requests; its nodes are
  distinct and include the root; every edge joins two of its nodes, also when a limit cut the
  traversal short; and it says that it is truncated exactly when it names the limit.
\<close>

theorem graph_within_limits:
  assumes "buildGraph ctx rootAccount depth mode network = Inr g" "gx_limits ctx = limits config"
  shows "gr_horizonRequests g \<le> gl_maxHorizonRequests (limits config)
    \<and> gr_nodeCount g = length (gr_nodes g) \<and> gr_nodeCount g \<le> gl_maxNodes (limits config)
    \<and> distinct (map gn_id (gr_nodes g)) \<and> rootAccount \<in> gn_id ` set (gr_nodes g)
    \<and> ge_source ` set (gr_edges g) \<union> ge_target ` set (gr_edges g) \<subseteq> gn_id ` set (gr_nodes g)
    \<and> gr_truncated g = (gr_truncatedBy g \<noteq> None)"
proof -
  obtain a st where l: "loadAccount ctx rootAccount new_graph = (Some a, st)"
    using assms(1) by (auto simp: buildGraph_def split: prod.splits option.splits)
  define st' where "st' = graph_modes ctx rootAccount depth mode st"
  have new: "within_limits ctx new_graph" "gt_nodes new_graph = []" "gt_edges new_graph = []"
    by (simp_all add: within_limits_def new_graph_def)
  have "\<not> exhausted st"
    using l by (auto simp: loadAccount_def new_graph_def takeRequest_def exhausted_def Let_def split: if_splits)
  moreover have "has_root ctx rootAccount st" "within_limits ctx st" "edges_within {} st"
    using loadAccount_effect [OF l] new positive_pos
    by (simp_all add: has_root_def edges_within_def assms(2) limits_def DEFAULT_GRAPH_MAX_NODES_def)
  ultimately have ok: "within_limits ctx st'" "edges_within {} st'" "rootAccount \<in> node_ids st'"
    using modes_effect [OF _ _ _ _ st'_def] by blast+
  have ids: "map gn_id (map snd (gt_nodes st')) = map fst (gt_nodes st')"
    using ok(1) by (auto simp: within_limits_def)
  then have set_ids: "gn_id ` set (map snd (gt_nodes st')) = node_ids st'"
    unfolding node_ids_def by (metis list.set_map)
  have g: "gr_nodes g = map snd (gt_nodes st')" "gr_edges g = gt_edges st'" "gr_nodeCount g = length (gt_nodes st')"
      "gr_horizonRequests g = gt_requests st'" "gr_truncated g = exhausted st'" "gr_truncatedBy g = gt_truncatedBy st'"
    using assms(1) l by (auto simp: buildGraph_def Let_def st'_def)
  have "ge_source ` set (gt_edges st') \<union> ge_target ` set (gt_edges st') \<subseteq> node_ids st'"
    using ok(2) by (auto simp: edges_within_def)
  then show ?thesis
    unfolding g set_ids ids using ok(1,3) assms(2) by (simp add: within_limits_def jm_ok_def exhausted_def)
qed

section \<open>Completeness of the traversal\<close>

text \<open>The accounts that sign for an account, and the accounts within some steps of the root.\<close>

definition signer_keys :: "graph_context \<Rightarrow> string \<Rightarrow> string list" where
  "signer_keys ctx pk =
     (case gx_account ctx pk of None \<Rightarrow> [] | Some a \<Rightarrow> filter is_signer_key (map gs_key (ga_signers a)))"

fun ball :: "graph_context \<Rightarrow> string \<Rightarrow> nat \<Rightarrow> string set" where
  "ball ctx rootAccount 0 = {rootAccount}"
| "ball ctx rootAccount (Suc n) = ball ctx rootAccount n \<union> (\<Union>v \<in> ball ctx rootAccount n. set (signer_keys ctx v))"

definition signs :: "graph_state \<Rightarrow> (string \<times> string) set" where
  "signs st = (\<lambda>e. (ge_source e, ge_target e)) ` {e \<in> set (gt_edges st). ge_relationship e = Signs_for}"

definition honest_cache :: "graph_context \<Rightarrow> graph_state \<Rightarrow> bool" where
  "honest_cache ctx st \<longleftrightarrow> (\<forall>(k, p) \<in> set (gt_cache st). p = gx_account ctx k)"

lemma load_honest:
  assumes "loadAccount ctx pk st = (a, st')" "honest_cache ctx st" "\<not> exhausted st'"
  shows "a = gx_account ctx pk \<and> honest_cache ctx st'"
proof (cases "jm_get (gt_cache st) pk")
  case None
  obtain ok st1 where t: "takeRequest ctx st = (ok, st1)" by fastforce
  have st': "st' = st1\<lparr>gt_cache := jm_set (gt_cache st1) pk a\<rparr>" "a = (if ok then gx_account ctx pk else None)"
    using assms(1) None t by (auto simp: loadAccount_def Let_def)
  then have "exhausted st' = exhausted st1" by (simp add: exhausted_def)
  then have "ok" using takeRequest_effect [OF t] assms(3) by auto
  have "set (jm_set m k v) \<subseteq> insert (k, v) (set m)" for m :: "(string, graph_account option) jmap" and k v
    by (induction m k v rule: jm_set.induct) auto
  then have "honest_cache ctx st'"
    using assms(2) takeRequest_effect [OF t] st' \<open>ok\<close> unfolding honest_cache_def by fastforce
  then show ?thesis using st'(2) \<open>ok\<close> by simp
next
  case (Some p)
  then have "a = p" "st' = st" using assms(1) by (simp_all add: loadAccount_def)
  then show ?thesis using assms(2) jm_get_Some_in [OF Some] by (auto simp: honest_cache_def)
qed

lemma add_signers_all:
  "add_signers ctx ss st = (keys, st') \<Longrightarrow> \<not> exhausted st' \<Longrightarrow>
    keys = filter is_signer_key (map gs_key ss) \<and> gt_cache st' = gt_cache st"
proof (induction ctx ss st arbitrary: keys st' rule: add_signers.induct)
  case (2 ctx s ss st)
  show ?case
  proof (cases "is_signer_key (gs_key s)")
    case True
    obtain node st1 where b: "buildNode ctx (gs_key s) None st = (node, st1)" by fastforce
    note B = buildNode_effect [OF b]
    show ?thesis
    proof (cases node)
      case None
      then show ?thesis using "2.prems" b B True by auto
    next
      case (Some n)
      obtain ks st2 where r: "add_signers ctx ss st1 = (ks, st2)" by fastforce
      have eq: "keys = gs_key s # ks" "st' = st2" using "2.prems"(1) b r True Some by (auto simp: Let_def)
      have "ks = filter is_signer_key (map gs_key ss) \<and> gt_cache st2 = gt_cache st1"
        by (rule "2.IH"(2) [OF _ b [symmetric] Some r]) (use True "2.prems"(2) eq in simp_all)
      then show ?thesis using eq B True by simp
    qed
  qed (use 2 in auto)
qed simp

lemma enqueue_signers_sets:
  "enqueue_signers depth level keys queue visited = (queue', visited') \<Longrightarrow> level < depth \<Longrightarrow>
    \<exists>added. queue' = queue @ map (\<lambda>k. (k, level + 1)) added \<and> distinct added
      \<and> set added = set keys - set visited \<and> set visited' = set visited \<union> set keys"
proof (induction keys arbitrary: queue visited)
  case (Cons k keys)
  show ?case
  proof (cases "k \<in> set visited")
    case True
    then show ?thesis using Cons by fastforce
  next
    case False
    then have "enqueue_signers depth level keys (queue @ [(k, level + 1)]) (visited @ [k]) = (queue', visited')"
      using Cons.prems by simp
    from Cons.IH [OF this Cons.prems(2)] obtain added where
      "queue' = (queue @ [(k, level + 1)]) @ map (\<lambda>k. (k, level + 1)) added" "distinct added"
      "set added = set keys - set (visited @ [k])" "set visited' = set (visited @ [k]) \<union> set keys"
      by blast
    then show ?thesis using False by (intro exI [of _ "k # added"]) auto
  qed
qed simp

lemma co_signers_relationship: "e \<in> set (co_signers pk keys) \<Longrightarrow> ge_relationship e = Co_signer"
  by (induction keys) auto

text \<open>One turn that hits no limit.\<close>

lemma signers_turn_complete:
  assumes "signers_turn ctx depth pk level queue visited st = (Some (queue', visited'), st')"
    and "\<not> exhausted st'" "honest_cache ctx st"
  shows "honest_cache ctx st' \<and>
    (\<exists>added S. S = (if level < depth then set (signer_keys ctx pk) else {})
      \<and> queue' = queue @ map (\<lambda>k. (k, level + 1)) added \<and> distinct added \<and> set added = S - set visited
      \<and> set visited' = set visited \<union> S \<and> node_ids st' = insert pk (node_ids st) \<union> S
      \<and> signs st' = signs st \<union> S \<times> {pk})"
proof -
  obtain a st1 where l: "loadAccount ctx pk st = (a, st1)" by fastforce
  obtain node st2 where b: "buildNode ctx pk a st1 = (node, st2)" by fastforce
  note L = loadAccount_effect [OF l] and B = buildNode_effect [OF b]
  have node: "node \<noteq> None"
  proof
    assume "node = None"
    then show False using assms(1) l b by (simp add: signers_turn_def)
  qed
  have ids2: "node_ids st2 = insert pk (node_ids st)" using L B node by (simp add: node_ids_def)
  have edges2: "gt_edges st2 = gt_edges st" using L B by simp
  have ex1: "exhausted st1 \<longrightarrow> exhausted st2" using B by simp
  consider "a = None" "queue' = queue" "visited' = visited" "st' = st2"
    | acc where "a = Some acc" "level \<ge> depth \<or> ga_signers acc = []" "queue' = queue" "visited' = visited" "st' = st2"
    | acc keys st3 where "a = Some acc" "level < depth" "add_signers ctx (ga_signers acc) st2 = (keys, st3)"
        "enqueue_signers depth level keys queue visited = (queue', visited')"
        "st' = st3\<lparr>gt_edges := gt_edges st3 @ map (signs_for acc pk) keys @ co_signers pk keys\<rparr>"
    using assms(1) l b node
    by (auto simp: signers_turn_def Let_def not_le split: option.splits if_splits prod.splits)
  then show ?thesis
  proof cases
    case 1
    have "\<not> exhausted st1" using assms(2) ex1 1 by auto
    from load_honest [OF l assms(3) this] have H: "gx_account ctx pk = None" "honest_cache ctx st2"
      using 1 B by (auto simp: honest_cache_def)
    have "signs st2 = signs st" by (simp add: signs_def edges2)
    then show ?thesis using 1 H ids2 by (intro conjI exI [of _ "[]"] exI [of _ "{}"]) (auto simp: signer_keys_def)
  next
    case (2 acc)
    have "\<not> exhausted st1" using assms(2) ex1 2 by auto
    from load_honest [OF l assms(3) this] have H: "gx_account ctx pk = Some acc" "honest_cache ctx st2"
      using 2 B by (auto simp: honest_cache_def)
    have "signs st2 = signs st" by (simp add: signs_def edges2)
    then show ?thesis using 2 H ids2 by (intro conjI exI [of _ "[]"] exI [of _ "{}"]) (auto simp: signer_keys_def)
  next
    case (3 acc keys st3)
    note K = add_signers_effect [OF 3(3)]
    have e3: "\<not> exhausted st3" using assms(2) 3(5) by (simp add: exhausted_def)
    then have "\<not> exhausted st1" using K ex1 by (auto simp: extends_def)
    from load_honest [OF l assms(3) this] have H: "gx_account ctx pk = Some acc" "honest_cache ctx st2"
      using 3(1) B by (auto simp: honest_cache_def)
    note A = add_signers_all [OF 3(3) e3]
    have keys: "keys = signer_keys ctx pk" using A H by (simp add: signer_keys_def)
    obtain added where q: "queue' = queue @ map (\<lambda>k. (k, level + 1)) added" "distinct added"
        "set added = set keys - set visited" "set visited' = set visited \<union> set keys"
      using enqueue_signers_sets [OF 3(4,2)] by blast
    have "{e \<in> set (gt_edges st'). ge_relationship e = Signs_for}
        = {e \<in> set (gt_edges st3). ge_relationship e = Signs_for} \<union> signs_for acc pk ` set keys"
      unfolding 3(5) by (auto simp: signs_for_def dest: co_signers_relationship)
    then have "signs st' = signs st3 \<union> set keys \<times> {pk}"
      by (auto simp: signs_def image_Un image_image signs_for_def)
    moreover have "signs st3 = signs st" using K edges2 by (simp add: signs_def)
    moreover have "node_ids st' = insert pk (node_ids st) \<union> set keys" using K ids2 3(5) by (simp add: node_ids_def)
    moreover have "honest_cache ctx st'" using H A 3(5) by (simp add: honest_cache_def)
    ultimately show ?thesis using 3(2) q unfolding keys
      by (intro conjI exI [of _ added] exI [of _ "set (signer_keys ctx pk)"]) simp_all
  qed
qed

text \<open>
  The queue holds the accounts \<open>A\<close> that are \<open>k\<close> steps from the root and wait for their turn, then the
  accounts \<open>B\<close> that their predecessors have found.
\<close>

definition inside :: "graph_context \<Rightarrow> string \<Rightarrow> nat \<Rightarrow> string set" where
  "inside ctx rootAccount n = (case n of 0 \<Rightarrow> {} | Suc m \<Rightarrow> ball ctx rootAccount m)"

definition bfs_levels ::
  "graph_context \<Rightarrow> string \<Rightarrow> nat \<Rightarrow> nat \<Rightarrow> string list \<Rightarrow> string list \<Rightarrow> (string \<times> nat) list \<Rightarrow> string list
    \<Rightarrow> (string \<times> string) set \<Rightarrow> bool" where
  "bfs_levels ctx r depth k A B queue visited sg \<longleftrightarrow>
     queue = map (\<lambda>v. (v, k)) A @ map (\<lambda>v. (v, k + 1)) B \<and> k \<le> depth \<and> distinct A \<and> distinct B
     \<and> set A \<subseteq> ball ctx r k \<and> set B \<inter> ball ctx r k = {} \<and> set B \<subseteq> ball ctx r (k + 1) \<and> (k = depth \<longrightarrow> B = [])
     \<and> set visited = ball ctx r k \<union> set B
     \<and> (k < depth \<longrightarrow> (\<forall>v \<in> ball ctx r k - set A. set (signer_keys ctx v) \<subseteq> set visited))
     \<and> sg = {(s, t). t \<in> (if k < depth then ball ctx r k - set A else inside ctx r depth) \<and> s \<in> set (signer_keys ctx t)}"

definition bfs_inv ::
  "graph_context \<Rightarrow> string \<Rightarrow> nat \<Rightarrow> (string \<times> nat) list \<Rightarrow> string list \<Rightarrow> graph_state \<Rightarrow> bool" where
  "bfs_inv ctx r depth queue visited st \<longleftrightarrow>
     (\<exists>k A B. bfs_levels ctx r depth k A B queue visited (signs st))
     \<and> insert r (node_ids st) = set visited \<and> honest_cache ctx st"

lemma bfs_expanded:
  "bfs_levels ctx r depth k A B queue visited sg \<Longrightarrow> k < depth \<Longrightarrow> v \<in> ball ctx r k - set A \<Longrightarrow>
    set (signer_keys ctx v) \<subseteq> ball ctx r k \<union> set B"
  unfolding bfs_levels_def by metis

lemma bfs_next_level:
  assumes "bfs_levels ctx r depth k [] B queue visited sg" "B \<noteq> []"
  shows "bfs_levels ctx r depth (k + 1) B [] queue visited sg"
proof -
  have k: "k < depth" using assms by (auto simp: bfs_levels_def)
  have closed: "(\<Union>v \<in> ball ctx r k. set (signer_keys ctx v)) \<subseteq> ball ctx r k \<union> set B"
    using bfs_expanded [OF assms(1) k] by (intro UN_least) simp
  have ball: "ball ctx r (k + 1) = ball ctx r k \<union> set B" using closed assms(1) by (auto simp: bfs_levels_def)
  have sg: "sg = {(s, t). t \<in> ball ctx r k \<and> s \<in> set (signer_keys ctx t)}" "set visited = ball ctx r k \<union> set B"
    using assms(1) k by (simp_all add: bfs_levels_def)
  have "ball ctx r (k + 1) - set B = ball ctx r k" using ball assms(1) by (auto simp: bfs_levels_def)
  moreover have "inside ctx r depth = ball ctx r k" if "\<not> k + 1 < depth"
    using that k by (cases "depth = Suc k") (simp_all add: inside_def)
  ultimately show ?thesis
    using assms(1) k closed unfolding bfs_levels_def sg ball by auto
qed

lemma bfs_head:
  assumes "bfs_levels ctx r depth k A B ((pk, level) # queue) visited sg"
  obtains k' A' B' where "bfs_levels ctx r depth k' (pk # A') B' ((pk, level) # queue) visited sg" "level = k'"
proof (cases A)
  case Nil
  then have "B \<noteq> []" using assms by (auto simp: bfs_levels_def)
  then have n: "bfs_levels ctx r depth (k + 1) B [] ((pk, level) # queue) visited sg"
    using bfs_next_level assms Nil by blast
  then obtain B' where "B = pk # B'" "level = k + 1" by (auto simp: bfs_levels_def Cons_eq_map_conv)
  then show ?thesis using that n by blast
next
  case (Cons a A')
  then have "a = pk" "level = k" using assms by (auto simp: bfs_levels_def)
  then show ?thesis using that assms Cons by blast
qed

lemma bfs_turn:
  assumes inv: "bfs_inv ctx r depth ((pk, level) # queue) visited st"
    and turn: "signers_turn ctx depth pk level queue visited st = (Some (queue', visited'), st')"
    and "\<not> exhausted st'"
  shows "bfs_inv ctx r depth queue' visited' st'"
proof -
  obtain A B where lev: "bfs_levels ctx r depth level (pk # A) B ((pk, level) # queue) visited (signs st)"
    using inv bfs_head unfolding bfs_inv_def by metis
  have ids: "insert r (node_ids st) = set visited" "honest_cache ctx st" using inv by (simp_all add: bfs_inv_def)
  obtain added S where S: "S = (if level < depth then set (signer_keys ctx pk) else {})"
      and q: "queue' = queue @ map (\<lambda>k. (k, level + 1)) added" "distinct added" "set added = S - set visited"
        "set visited' = set visited \<union> S"
      and n: "node_ids st' = insert pk (node_ids st) \<union> S" "signs st' = signs st \<union> S \<times> {pk}" "honest_cache ctx st'"
    using signers_turn_complete [OF turn assms(3) ids(2)] by blast
  have pk: "pk \<in> ball ctx r level" "pk \<notin> set A" "level \<le> depth" using lev by (auto simp: bfs_levels_def)
  have "S \<subseteq> ball ctx r (level + 1)" using pk(1) S by auto
  then have B': "set (B @ added) \<subseteq> ball ctx r (level + 1)" "set (B @ added) \<inter> ball ctx r level = {}" "distinct (B @ added)"
    using lev q by (auto simp: bfs_levels_def)
  have vis: "set visited' = ball ctx r level \<union> set (B @ added)" using lev q by (auto simp: bfs_levels_def)
  have done_: "set (signer_keys ctx v) \<subseteq> set visited'" if "level < depth" "v \<in> ball ctx r level - set A" for v
  proof (cases "v = pk")
    case True
    then show ?thesis using q(4) S that(1) by simp
  next
    case False
    then have "set (signer_keys ctx v) \<subseteq> ball ctx r level \<union> set B" using bfs_expanded [OF lev that(1)] that(2) by simp
    then show ?thesis using lev q(4) by (auto simp: bfs_levels_def)
  qed
  have sg: "signs st' = {(s, t). t \<in> (if level < depth then ball ctx r level - set A else inside ctx r depth)
      \<and> s \<in> set (signer_keys ctx t)}"
    using lev pk unfolding n(2) S bfs_levels_def by auto
  have "bfs_levels ctx r depth level A (B @ added) queue' visited' (signs st')"
    unfolding bfs_levels_def
  proof (intro conjI impI)
    show "queue' = map (\<lambda>v. (v, level)) A @ map (\<lambda>v. (v, level + 1)) (B @ added)" "distinct A" "set A \<subseteq> ball ctx r level"
      using lev q(1) by (auto simp: bfs_levels_def)
    show "B @ added = []" if "level = depth" using lev q(3) S that by (simp add: bfs_levels_def)
    show "\<forall>v \<in> ball ctx r level - set A. set (signer_keys ctx v) \<subseteq> set visited'" if "level < depth"
      using done_ [OF that] by (rule ballI)
  qed (rule B' vis sg pk(3))+
  moreover have "insert r (node_ids st') = set visited'" using ids n(1) q(4) lev pk(1) by (auto simp: bfs_levels_def)
  ultimately show ?thesis using n(3) unfolding bfs_inv_def by blast
qed

lemma bfs_closed:
  assumes "\<forall>v \<in> ball ctx r k. set (signer_keys ctx v) \<subseteq> ball ctx r k" "k \<le> n"
  shows "ball ctx r n = ball ctx r k"
  using assms(2) by (induction n rule: dec_induct) (use assms(1) in auto)

lemma bfs_end:
  assumes "bfs_inv ctx r depth [] visited st"
  shows "insert r (node_ids st) = ball ctx r depth
    \<and> signs st = {(s, t). t \<in> inside ctx r depth \<and> s \<in> set (signer_keys ctx t)}"
proof -
  obtain k where lev: "bfs_levels ctx r depth k [] [] [] visited (signs st)"
    using assms by (auto simp: bfs_inv_def bfs_levels_def)
  have ids: "insert r (node_ids st) = ball ctx r k" using assms lev by (simp add: bfs_inv_def bfs_levels_def)
  have sg: "signs st = {(s, t). t \<in> (if k < depth then ball ctx r k else inside ctx r depth) \<and> s \<in> set (signer_keys ctx t)}"
    using lev by (simp add: bfs_levels_def)
  show ?thesis
  proof (cases "k < depth")
    case True
    then obtain m where m: "depth = Suc m" "k \<le> m" by (cases depth) auto
    have "\<forall>v \<in> ball ctx r k. set (signer_keys ctx v) \<subseteq> ball ctx r k"
      using bfs_expanded [OF lev True] by simp
    note closed = bfs_closed [OF this]
    have outer: "ball ctx r depth = ball ctx r k" by (rule closed) (use True in simp)
    have "inside ctx r depth = ball ctx r m" by (simp only: m(1) inside_def nat.case)
    then have inner: "inside ctx r depth = ball ctx r k" by (rule trans) (rule closed [OF m(2)])
    show ?thesis unfolding outer inner using ids sg by (simp only: True if_True)
  next
    case False
    then have "k = depth" using lev by (simp add: bfs_levels_def)
    then show ?thesis using ids sg by simp
  qed
qed

lemma signers_loop_complete:
  "bfs_inv ctx r depth queue visited st \<Longrightarrow> \<not> exhausted (signers_loop ctx depth queue visited st) \<Longrightarrow>
    insert r (node_ids (signers_loop ctx depth queue visited st)) = ball ctx r depth
    \<and> signs (signers_loop ctx depth queue visited st) = {(s, t). t \<in> inside ctx r depth \<and> s \<in> set (signer_keys ctx t)}"
proof (induction ctx depth queue visited st rule: signers_loop.induct)
  case (1 ctx depth visited st)
  then show ?case using bfs_end by simp
next
  case (2 ctx depth pk level queue visited st)
  have fresh: "\<not> exhausted st" using "2.prems"(2) by (auto simp: signers_loop.simps(2))
  obtain res st1 where t: "signers_turn ctx depth pk level queue visited st = (res, st1)" by fastforce
  show ?case
  proof (cases res)
    case None
    then have "exhausted st1" using signers_turn_effect [OF t] by simp
    then show ?thesis using "2.prems"(2) t fresh None by (simp add: signers_loop.simps(2))
  next
    case (Some qv)
    obtain q' v' where qv: "qv = (q', v')" by fastforce
    have eq: "signers_loop ctx depth ((pk, level) # queue) visited st = signers_loop ctx depth q' v' st1"
      using t fresh Some qv by (simp add: signers_loop.simps(2))
    have more: "\<not> exhausted (signers_loop ctx depth q' v' st1)" using "2.prems"(2) unfolding eq .
    then have "\<not> exhausted st1" using signers_loop_effect [of ctx st1 depth q' v'] unfolding extends_def by blast
    then have "bfs_inv ctx r depth q' v' st1" using bfs_turn [OF "2.prems"(1)] t Some qv by simp
    then show ?thesis unfolding eq using "2.IH" [OF fresh t [symmetric] Some [unfolded qv] refl] more by blast
  qed
qed

text \<open>
  C16. The signer graph is the neighbourhood of the account. When no limit cut it short, the nodes
  are exactly the accounts that some chain of at most \<open>depth\<close> signers connects with the root, and the
  \<open>signs_for\<close> edges are exactly the pairs of a signer and an account fewer than \<open>depth\<close> steps away.
\<close>

theorem signers_graph_complete:
  assumes "buildGraph ctx rootAccount depth Mode_signers network = Inr g" "\<not> gr_truncated g"
    "0 < gl_maxNodes (gx_limits ctx)"
  shows "gn_id ` set (gr_nodes g) = ball ctx rootAccount depth
    \<and> (\<lambda>e. (ge_source e, ge_target e)) ` {e \<in> set (gr_edges g). ge_relationship e = Signs_for}
        = {(s, t). t \<in> inside ctx rootAccount depth \<and> s \<in> set (signer_keys ctx t)}"
proof -
  obtain a st where l: "loadAccount ctx rootAccount new_graph = (Some a, st)"
    using assms(1) by (auto simp: buildGraph_def split: prod.splits option.splits)
  have start: "gt_nodes st = []" "gt_edges st = []" "\<not> exhausted st" "within_limits ctx st"
    using loadAccount_effect [OF l] l
    by (auto simp: new_graph_def within_limits_def loadAccount_def takeRequest_def exhausted_def Let_def split: if_splits)
  have "honest_cache ctx new_graph" by (simp add: honest_cache_def new_graph_def)
  from load_honest [OF l this start(3)] have cache: "honest_cache ctx st" by simp
  define st' where "st' = graph_modes ctx rootAccount depth Mode_signers st"
  have eq: "st' = signers_loop ctx depth [(rootAccount, 0)] [rootAccount] st"
    by (simp add: st'_def graph_modes_def buildSignersGraph_def)
  have g: "gr_nodes g = map snd (gt_nodes st')" "gr_edges g = gt_edges st'" "gr_truncated g = exhausted st'"
    using assms(1) l by (auto simp: buildGraph_def Let_def st'_def)
  have root: "within_limits ctx st'" "rootAccount \<in> node_ids st'"
    using modes_effect [OF _ start(4) _ start(3) st'_def] assms(3) start(1,2)
    by (simp_all add: has_root_def edges_within_def)
  have "bfs_levels ctx rootAccount depth 0 [rootAccount] [] [(rootAccount, 0)] [rootAccount] (signs st)"
    using start(2) by (auto simp: bfs_levels_def signs_def inside_def)
  then have "bfs_inv ctx rootAccount depth [(rootAccount, 0)] [rootAccount] st"
    using start(1) cache by (auto simp: bfs_inv_def node_ids_def)
  from signers_loop_complete [OF this] assms(2) root(2)
  have R: "node_ids st' = ball ctx rootAccount depth"
      "signs st' = {(s, t). t \<in> inside ctx rootAccount depth \<and> s \<in> set (signer_keys ctx t)}"
    by (simp_all add: eq [symmetric] g insert_absorb)
  have "map gn_id (map snd (gt_nodes st')) = map fst (gt_nodes st')"
    using root(1) by (auto simp: within_limits_def)
  then have "gn_id ` set (gr_nodes g) = node_ids st'"
    unfolding node_ids_def g by (metis list.set_map)
  then show ?thesis using R unfolding g signs_def by simp
qed

section \<open>Signers stay unclassified\<close>

text \<open>
  A signer becomes a node before its account is loaded, and \<open>buildNode\<close> keeps an existing node; so the
  nodes beside the root are plain accounts without signers, whatever their accounts say.
\<close>

definition plain_signers :: "string \<Rightarrow> graph_state \<Rightarrow> bool" where
  "plain_signers r st \<longleftrightarrow>
     (\<forall>p \<in> set (gt_nodes st). fst p = r \<or> gn_type (snd p) = Node_account \<and> gn_signerCount (snd p) = 0)"

lemma plain_build:
  assumes "buildNode ctx pk a st = (node, st')" "plain_signers r st"
    and "pk \<in> node_ids st \<or> pk = r \<or> a = None \<and> is_signer_key pk"
  shows "plain_signers r st'"
proof (cases "jm_get (gt_nodes st) pk")
  case (Some existing)
  then show ?thesis using assms by (simp add: buildNode_def)
next
  case None
  then have new: "pk \<notin> fst ` set (gt_nodes st)" by (simp add: jm_get_None_iff)
  show ?thesis
    using assms(1) None jm_set_fresh [OF new] assms(2,3) new
    by (auto simp: buildNode_def hasRoomFor_def Let_def plain_signers_def node_ids_def classifyNode_def is_signer_key_def
        starts_with_def split: if_splits list.splits)
qed

lemma plain_add_signers:
  "add_signers ctx ss st = (keys, st') \<Longrightarrow> plain_signers r st \<Longrightarrow> plain_signers r st'"
proof (induction ctx ss st arbitrary: keys st' rule: add_signers.induct)
  case (2 ctx s ss st)
  show ?case
  proof (cases "is_signer_key (gs_key s)")
    case True
    obtain node st1 where b: "buildNode ctx (gs_key s) None st = (node, st1)" by fastforce
    have P: "plain_signers r st1" using plain_build [OF b "2.prems"(2)] True by simp
    show ?thesis
    proof (cases node)
      case None
      then show ?thesis using "2.prems" b P True by auto
    next
      case (Some n)
      obtain ks st2 where rest: "add_signers ctx ss st1 = (ks, st2)" by fastforce
      have "st' = st2" using "2.prems"(1) b rest True Some by (auto simp: Let_def)
      moreover have "plain_signers r st2" by (rule "2.IH"(2) [OF _ b [symmetric] Some rest P]) (use True in simp)
      ultimately show ?thesis by simp
    qed
  qed (use 2 in auto)
qed simp

lemma enqueue_signers_keys:
  "enqueue_signers depth level keys queue visited = (queue', visited') \<Longrightarrow> fst ` set queue' \<subseteq> fst ` set queue \<union> set keys"
proof (induction keys arbitrary: queue visited)
  case (Cons k keys)
  show ?case
  proof (cases "k \<notin> set visited \<and> level + 1 < depth + 1")
    case True
    then have "enqueue_signers depth level keys (queue @ [(k, level + 1)]) (visited @ [k]) = (queue', visited')"
      using Cons.prems by simp
    from Cons.IH [OF this] show ?thesis by auto
  next
    case False
    then have "enqueue_signers depth level keys queue visited = (queue', visited')" using Cons.prems by auto
    from Cons.IH [OF this] show ?thesis by auto
  qed
qed simp

lemma plain_turn:
  assumes "signers_turn ctx depth pk level queue visited st = (res, st')"
    and "plain_signers r st" "pk = r \<or> pk \<in> node_ids st" "fst ` set queue \<subseteq> insert r (node_ids st)"
  shows "plain_signers r st' \<and> (\<forall>queue' visited'. res = Some (queue', visited') \<longrightarrow> fst ` set queue' \<subseteq> insert r (node_ids st'))"
proof -
  obtain a st1 where l: "loadAccount ctx pk st = (a, st1)" by fastforce
  obtain node st2 where b: "buildNode ctx pk a st1 = (node, st2)" by fastforce
  note L = loadAccount_effect [OF l] and B = buildNode_effect [OF b]
  have P: "plain_signers r st2"
    by (rule plain_build [OF b]) (use assms(2,3) L in \<open>auto simp: plain_signers_def node_ids_def\<close>)
  have Q: "fst ` set queue \<subseteq> insert r (node_ids st2)" using B L assms(4) by (auto simp: node_ids_def)
  have turn: "signers_turn ctx depth pk level queue visited st =
      (if node = None then (None, st2)
       else case a of None \<Rightarrow> (Some (queue, visited), st2)
            | Some acc \<Rightarrow> if level \<ge> depth \<or> ga_signers acc = [] then (Some (queue, visited), st2)
                else let (keys, st3) = add_signers ctx (ga_signers acc) st2
                     in (Some (enqueue_signers depth level keys queue visited),
                         st3\<lparr>gt_edges := gt_edges st3 @ map (signs_for acc pk) keys @ co_signers pk keys\<rparr>))"
    by (simp add: signers_turn_def l b)
  consider "res = None" "st' = st2" | "res = Some (queue, visited)" "st' = st2"
    | acc keys st3 where "add_signers ctx (ga_signers acc) st2 = (keys, st3)"
        "res = Some (enqueue_signers depth level keys queue visited)"
        "st' = st3\<lparr>gt_edges := gt_edges st3 @ map (signs_for acc pk) keys @ co_signers pk keys\<rparr>"
  proof (cases "node = None \<or> a = None")
    case True
    then show ?thesis using that(1,2) assms(1) unfolding turn by (cases node) auto
  next
    case False
    then obtain acc where a: "a = Some acc" "node \<noteq> None" by auto
    obtain keys st3 where k: "add_signers ctx (ga_signers acc) st2 = (keys, st3)" by fastforce
    show ?thesis using that(2) that(3) [OF k] assms(1) a unfolding turn by (simp add: k split: if_splits)
  qed
  then show ?thesis
  proof cases
    case (3 acc keys st3)
    have "plain_signers r st'" using plain_add_signers [OF 3(1) P] 3(3) by (simp add: plain_signers_def)
    moreover have "fst ` set queue' \<subseteq> fst ` set queue \<union> set keys"
      if "enqueue_signers depth level keys queue visited = (queue', visited')" for queue' visited'
      using enqueue_signers_keys [OF that] .
    moreover have "node_ids st' = node_ids st2 \<union> set keys" using add_signers_effect [OF 3(1)] 3(3) by (simp add: node_ids_def)
    ultimately show ?thesis unfolding 3(2) using Q by blast
  qed (use P Q in auto)
qed

lemma plain_loop:
  "plain_signers r st \<Longrightarrow> fst ` set queue \<subseteq> insert r (node_ids st) \<Longrightarrow>
    plain_signers r (signers_loop ctx depth queue visited st)"
proof (induction ctx depth queue visited st rule: signers_loop.induct)
  case (2 ctx depth pk level queue visited st)
  show ?case
  proof (cases "exhausted st")
    case False
    obtain res st1 where t: "signers_turn ctx depth pk level queue visited st = (res, st1)" by fastforce
    have T: "plain_signers r st1" "res = Some (queue', visited') \<Longrightarrow> fst ` set queue' \<subseteq> insert r (node_ids st1)"
      for queue' visited'
      using plain_turn [OF t "2.prems"(1)] "2.prems"(2) by auto
    show ?thesis
    proof (cases res)
      case (Some qv)
      then show ?thesis
        using t False T "2.IH" [OF False t [symmetric]] by (cases qv) (simp add: signers_loop.simps(2))
    qed (use t False T in \<open>simp add: signers_loop.simps(2)\<close>)
  qed (use "2.prems" in \<open>simp add: signers_loop.simps(2)\<close>)
qed simp

lemma signers_never_classified:
  assumes "buildGraph ctx rootAccount depth Mode_signers network = Inr g" "node \<in> set (gr_nodes g)" "gn_id node \<noteq> rootAccount"
    "0 < gl_maxNodes (gx_limits ctx)"
  shows "gn_type node = Node_account \<and> gn_signerCount node = 0"
proof -
  obtain a st where l: "loadAccount ctx rootAccount new_graph = (Some a, st)"
    using assms(1) by (auto simp: buildGraph_def split: prod.splits option.splits)
  have start: "gt_nodes st = []" "gt_edges st = []" "\<not> exhausted st" "within_limits ctx st"
    using loadAccount_effect [OF l] l
    by (auto simp: new_graph_def within_limits_def loadAccount_def takeRequest_def exhausted_def Let_def split: if_splits)
  define st' where "st' = graph_modes ctx rootAccount depth Mode_signers st"
  have eq: "st' = signers_loop ctx depth [(rootAccount, 0)] [rootAccount] st"
    by (simp add: st'_def graph_modes_def buildSignersGraph_def)
  have g: "gr_nodes g = map snd (gt_nodes st')"
    using assms(1) l by (auto simp: buildGraph_def Let_def st'_def)
  have "plain_signers rootAccount st'"
    unfolding eq by (rule plain_loop) (use start in \<open>simp_all add: plain_signers_def\<close>)
  moreover have "within_limits ctx st'"
    using modes_effect [OF _ start(4) _ start(3) st'_def] assms(4) start(1,2)
    by (simp add: has_root_def edges_within_def)
  moreover obtain k where "(k, node) \<in> set (gt_nodes st')" using assms(2) g by auto
  ultimately show ?thesis using assms(3) unfolding plain_signers_def within_limits_def by fastforce
qed

section \<open>Witnesses\<close>

text \<open>\<open>GA\<close> is signed by \<open>GB\<close> and \<open>GC\<close>, and \<open>GB\<close> by \<open>GC\<close> and \<open>GD\<close>.\<close>

definition graph_example :: graph_context where
  "graph_example =
     \<lparr>gx_account = (\<lambda>pk.
        if pk = ''GA'' then Some \<lparr>ga_signers = [\<lparr>gs_key = ''GB'', gs_weight = 1\<rparr>, \<lparr>gs_key = ''GC'', gs_weight = 2\<rparr>],
          ga_assetCodes = [None], ga_medThreshold = Some 2\<rparr>
        else if pk = ''GB'' then Some \<lparr>ga_signers = [\<lparr>gs_key = ''GC'', gs_weight = 1\<rparr>, \<lparr>gs_key = ''GD'', gs_weight = 1\<rparr>],
          ga_assetCodes = [], ga_medThreshold = None\<rparr>
        else None),
      gx_offers = (\<lambda>_. None), gx_counterOffers = (\<lambda>_ _. None), gx_payments = (\<lambda>_. None),
      gx_limits = limits (\<lambda>_. None), gx_ellipsis = ''...''\<rparr>"

lemma graph_example_result:
  "(case buildGraph graph_example ''GA'' 2 Mode_signers ''testnet'' of
      Inr g \<Rightarrow> map gn_id (gr_nodes g) = [''GA'', ''GB'', ''GC'', ''GD''] \<and> \<not> gr_truncated g | Inl _ \<Rightarrow> False)"
  by code_simp

lemma graph_example_limits: "gx_limits graph_example = limits (\<lambda>_. None)"
  by (simp add: graph_example_def)

lemma graph_example_settings: "gl_maxNodes (limits (\<lambda>_. None)) = 150" "gl_maxHorizonRequests (limits (\<lambda>_. None)) = 60"
  by (simp_all add: limits_def positive_def DEFAULT_GRAPH_MAX_NODES_def DEFAULT_GRAPH_MAX_HORIZON_REQUESTS_def)

lemma graph_within_limits_witness:
  "(case buildGraph graph_example ''GA'' 2 Mode_signers ''testnet'' of
      Inr g \<Rightarrow> gr_horizonRequests g \<le> 60 \<and> gr_nodeCount g \<le> 150 \<and> ''GA'' \<in> gn_id ` set (gr_nodes g)
    | Inl _ \<Rightarrow> False)"
proof (cases "buildGraph graph_example ''GA'' 2 Mode_signers ''testnet''")
  case (Inl e)
  then show ?thesis using graph_example_result by simp
next
  case (Inr g)
  then show ?thesis
    using graph_within_limits [OF Inr graph_example_limits] by (simp add: graph_example_settings)
qed

lemma signers_graph_complete_witness:
  "(case buildGraph graph_example ''GA'' 2 Mode_signers ''testnet'' of
      Inr g \<Rightarrow> gn_id ` set (gr_nodes g) = ball graph_example ''GA'' 2 \<and> ''GD'' \<in> ball graph_example ''GA'' 2
    | Inl _ \<Rightarrow> False)"
proof (cases "buildGraph graph_example ''GA'' 2 Mode_signers ''testnet''")
  case (Inl e)
  then show ?thesis using graph_example_result by simp
next
  case (Inr g)
  have "\<not> gr_truncated g" "''GD'' \<in> set (map gn_id (gr_nodes g))" using graph_example_result Inr by simp_all
  moreover have "0 < gl_maxNodes (gx_limits graph_example)" by (simp add: graph_example_limits graph_example_settings)
  ultimately show ?thesis using signers_graph_complete [OF Inr] Inr by auto
qed

end
