(* ===== verification/WorkspaceSanitizer.thy ===== *)
theory WorkspaceSanitizer
  imports JsNumber
begin

text \<open>
  What a workspace loses when it leaves the system: the sanitizer of \<open>apps/api/src/modules/workspace\<close>
  (\<open>workspace-sanitizer.ts\<close>) and the export format of \<open>apps/web/src/lib/workspace-format.ts\<close>. Workspaces
  are parsed JSON values, so no value inside is \<open>undefined\<close>; \<open>None\<close> is the \<open>undefined\<close> that drops a
  value. The number of signatures of a base64 envelope, which the Stellar SDK decodes, is a
  parameter.
\<close>

section \<open>Patterns\<close>

definition is_base32 :: "char \<Rightarrow> bool" where
  "is_base32 c \<longleftrightarrow> (let n = (of_char c :: nat) in 65 \<le> n \<and> n \<le> 90 \<or> 50 \<le> n \<and> n \<le> 55)"

definition is_word_dash :: "char \<Rightarrow> bool" where
  "is_word_dash c \<longleftrightarrow>
     (let n = (of_char c :: nat) in 65 \<le> n \<and> n \<le> 90 \<or> 97 \<le> n \<and> n \<le> 122) \<or> is_digit c \<or> c = CHR ''_'' \<or> c = CHR ''-''"

text \<open>\<open>S[A-Z2-7]{55}\<close> at the front of a text; the expression is \<open>^S[A-Z2-7]{55}$\<close> when nothing follows.\<close>

definition seed_at :: "string \<Rightarrow> bool" where
  "seed_at s \<longleftrightarrow> length s \<ge> 56 \<and> hd s = CHR ''S'' \<and> list_all is_base32 (take 55 (tl s))"

definition STELLAR_SECRET_SEED_REGEX :: "string \<Rightarrow> bool" where
  "STELLAR_SECRET_SEED_REGEX s \<longleftrightarrow> seed_at s \<and> length s = 56"

fun has_seed :: "string \<Rightarrow> bool" where
  "has_seed [] = False"
| "has_seed (c # s) = (seed_at (c # s) \<or> has_seed s)"

text \<open>\<open>^[A-Za-z0-9_-]+\.[A-Za-z0-9_-]+\.[A-Za-z0-9_-]+$\<close>, and \<open>^Bearer\s+[A-Za-z0-9_.-]+\<close> in any case.\<close>

definition JWT_REGEX :: "string \<Rightarrow> bool" where
  "JWT_REGEX s \<longleftrightarrow>
     (let parts = split_on (CHR ''.'') s
      in length parts = 3 \<and> list_all (\<lambda>p. p \<noteq> [] \<and> list_all is_word_dash p) parts)"

definition starts :: "(char \<Rightarrow> bool) \<Rightarrow> string \<Rightarrow> bool" where
  "starts P s \<longleftrightarrow> (case s of [] \<Rightarrow> False | c # _ \<Rightarrow> P c)"

definition BEARER_REGEX :: "string \<Rightarrow> bool" where
  "BEARER_REGEX s \<longleftrightarrow>
     to_lower (take 6 s) = ''bearer'' \<and> starts is_space (drop 6 s)
     \<and> starts (\<lambda>c. is_word_dash c \<or> c = CHR ''.'') (dropWhile is_space (drop 6 s))"

text \<open>\<open>replace(/S[A-Z2-7]{55}/g, '[REDACTED]')\<close>.\<close>

function redact :: "string \<Rightarrow> string" where
  "redact [] = []"
| "redact (c # s) = (if seed_at (c # s) then ''[REDACTED]'' @ redact (drop 55 s) else c # redact s)"
  by pat_completeness auto
termination by (relation "measure length") auto

fun has_sub :: "string \<Rightarrow> string \<Rightarrow> bool" where
  "has_sub [] sub = (sub = [])"
| "has_sub (c # s) sub = (take (length sub) (c # s) = sub \<or> has_sub s sub)"

definition SENSITIVE_KEY_SUBSTRINGS :: "string list" where
  "SENSITIVE_KEY_SUBSTRINGS =
     [''secret'', ''private'', ''seed'', ''password'', ''token'', ''jwt'', ''authorization'', ''credential'', ''cookie'',
      ''apikey'', ''api_key'', ''signingkey'', ''signing_key'', ''privatekey'', ''private_key'', ''secretkey'', ''secret_key'']"

definition SIGNATURE_KEY_SUBSTRINGS :: "string list" where
  "SIGNATURE_KEY_SUBSTRINGS =
     [''signedtransaction'', ''signed_transaction'', ''signedxdr'', ''signed_xdr'', ''signedenvelope'', ''signed_envelope'',
      ''signatures'', ''signature'']"

definition isSensitiveKey :: "string \<Rightarrow> bool" where
  "isSensitiveKey key = list_ex (has_sub (to_lower key)) SENSITIVE_KEY_SUBSTRINGS"

definition isSignatureKey :: "string \<Rightarrow> bool" where
  "isSignatureKey key \<longleftrightarrow>
     \<not> has_sub (to_lower key) ''unsigned'' \<and> list_ex (has_sub (to_lower key)) SIGNATURE_KEY_SUBSTRINGS"

definition isSignedTransactionEnvelope :: "(string \<Rightarrow> nat option) \<Rightarrow> string \<Rightarrow> bool" where
  "isSignedTransactionEnvelope signatures v \<longleftrightarrow>
     length v \<ge> 20 \<and> (case signatures v of Some n \<Rightarrow> n > 0 | None \<Rightarrow> False)"

definition isSecretString :: "string \<Rightarrow> bool" where
  "isSecretString v \<longleftrightarrow>
     (let trimmed = trim v in STELLAR_SECRET_SEED_REGEX trimmed \<or> JWT_REGEX trimmed \<or> BEARER_REGEX trimmed)"

section \<open>The sanitizer of the service\<close>

definition stripped_key :: "string \<Rightarrow> bool" where
  "stripped_key k \<longleftrightarrow> isSensitiveKey k \<or> isSignatureKey k"

definition stripped_name :: "string option \<Rightarrow> bool" where
  "stripped_name keyName \<longleftrightarrow> (case keyName of Some k \<Rightarrow> k \<noteq> [] \<and> stripped_key k | None \<Rightarrow> False)"

text \<open>The second component is what the call adds to \<open>redactedCount\<close>.\<close>

fun deepClean :: "(string \<Rightarrow> nat option) \<Rightarrow> string option \<Rightarrow> json \<Rightarrow> json option \<times> nat"
  and clean_items :: "(string \<Rightarrow> nat option) \<Rightarrow> json list \<Rightarrow> json list \<times> nat"
  and clean_entries :: "(string \<Rightarrow> nat option) \<Rightarrow> (string \<times> json) list \<Rightarrow> (string \<times> json) list \<times> nat"
where
  "deepClean sg keyName J_null = (Some J_null, 0)"
| "deepClean sg keyName (J_bool b) = (if stripped_name keyName then (None, 1) else (Some (J_bool b), 0))"
| "deepClean sg keyName (J_num x) = (if stripped_name keyName then (None, 1) else (Some (J_num x), 0))"
| "deepClean sg keyName (J_str s) =
     (if stripped_name keyName then (None, 1)
      else if isSecretString s \<or> isSignedTransactionEnvelope sg s then (None, 1)
      else if has_seed s then (Some (J_str (redact s)), 1)
      else (Some (J_str s), 0))"
| "deepClean sg keyName (J_arr xs) =
     (if stripped_name keyName then (None, 1)
      else let (ys, n) = clean_items sg xs in (Some (J_arr ys), n))"
| "deepClean sg keyName (J_obj kvs) =
     (if stripped_name keyName then (None, 1)
      else let (es, n) = clean_entries sg kvs in (Some (J_obj es), n))"
| "clean_items sg [] = ([], 0)"
| "clean_items sg (x # xs) =
     (let (y, n) = deepClean sg None x; (ys, m) = clean_items sg xs
      in (if y = None \<or> y = Some (J_obj []) then ys else the y # ys, n + m))"
| "clean_entries sg [] = ([], 0)"
| "clean_entries sg ((k, v) # kvs) =
     (if stripped_key k then let (es, m) = clean_entries sg kvs in (es, m + 1)
      else let (y, n) = deepClean sg (Some k) v; (es, m) = clean_entries sg kvs
           in (case y of None \<Rightarrow> es | Some z \<Rightarrow> (k, z) # es, n + m))"

definition sanitizeWorkspaceData :: "(string \<Rightarrow> nat option) \<Rightarrow> json \<Rightarrow> json \<times> nat" where
  "sanitizeWorkspaceData sg data =
     (let (cleaned, redactedCount) = deepClean sg None data
      in (case cleaned of Some v \<Rightarrow> if truthy v then v else J_obj [] | None \<Rightarrow> J_obj [], redactedCount))"

section \<open>The sanitizer of the client\<close>

fun sanitizeWorkspacePayload :: "string option \<Rightarrow> json \<Rightarrow> json option"
  and payload_items :: "json list \<Rightarrow> json list"
  and payload_entries :: "(string \<times> json) list \<Rightarrow> (string \<times> json) list"
where
  "sanitizeWorkspacePayload keyName J_null = Some J_null"
| "sanitizeWorkspacePayload keyName (J_bool b) = (if stripped_name keyName then None else Some (J_bool b))"
| "sanitizeWorkspacePayload keyName (J_num x) = (if stripped_name keyName then None else Some (J_num x))"
| "sanitizeWorkspacePayload keyName (J_str s) =
     (if stripped_name keyName \<or> isSecretString s then None
      else if has_seed s then Some (J_str (redact s))
      else Some (J_str s))"
| "sanitizeWorkspacePayload keyName (J_arr xs) = (if stripped_name keyName then None else Some (J_arr (payload_items xs)))"
| "sanitizeWorkspacePayload keyName (J_obj kvs) = (if stripped_name keyName then None else Some (J_obj (payload_entries kvs)))"
| "payload_items [] = []"
| "payload_items (x # xs) =
     (case sanitizeWorkspacePayload None x of None \<Rightarrow> payload_items xs | Some y \<Rightarrow> y # payload_items xs)"
| "payload_entries [] = []"
| "payload_entries ((k, v) # kvs) =
     (if stripped_key k then payload_entries kvs
      else case sanitizeWorkspacePayload (Some k) v of None \<Rightarrow> payload_entries kvs | Some y \<Rightarrow> (k, y) # payload_entries kvs)"

section \<open>Texts\<close>

lemma seed_chars: "seed_at s \<Longrightarrow> CHR ''['' \<notin> set (take 56 s)"
  by (cases s) (auto simp: seed_at_def list_all_iff is_base32_def Let_def)

text \<open>Up to the first bracket, \<open>redact\<close> copies.\<close>

lemma redact_prefix:
  "CHR ''['' \<notin> set (take n (redact s)) \<Longrightarrow> take n (redact s) = take n s \<and> drop n (redact s) = redact (drop n s)"
proof (induction n arbitrary: s)
  case (Suc n)
  show ?case
  proof (cases s)
    case (Cons c s')
    then have "\<not> seed_at (c # s')" using Suc.prems by auto
    then show ?thesis using Suc Cons by simp
  qed simp
qed simp

lemma redact_no_seed_front: "\<not> seed_at (redact s)"
proof
  assume seed: "seed_at (redact s)"
  have same: "take 56 (redact s) = take 56 s" using redact_prefix [OF seed_chars [OF seed]] by simp
  then have "length (take 56 s) = 56" using seed by (simp add: seed_at_def flip: same)
  then have "seed_at s" using seed same
    by (cases s; cases "redact s") (auto simp: seed_at_def)
  then show False using seed by (cases s) (auto simp: seed_at_def)
qed

lemma redact_no_seed [simp]: "\<not> has_seed (redact s)"
proof (induction s rule: redact.induct)
  case (2 c s)
  show ?case
  proof (cases "seed_at (c # s)")
    case True
    then show ?thesis using 2 by (simp add: seed_at_def)
  next
    case False
    then show ?thesis using 2 redact_no_seed_front [of "c # s"] by simp
  qed
qed simp

lemma redact_bracket: "has_seed s \<Longrightarrow> CHR ''['' \<in> set (redact s)"
  by (induction s rule: redact.induct) auto

lemma set_dropWhile_keep: "c \<in> set s \<Longrightarrow> \<not> P c \<Longrightarrow> c \<in> set (dropWhile P s)"
  by (induction s) auto

lemma set_trim: "c \<in> set s \<Longrightarrow> \<not> is_space c \<Longrightarrow> c \<in> set (trim s)"
  unfolding trim_def set_rev by (intro set_dropWhile_keep) (simp_all add: set_dropWhile_keep)

lemma bracket_plain [simp]: "\<not> is_space (CHR ''['')" "\<not> is_word_dash (CHR ''['')" "\<not> is_space (CHR ''S'')"
  by code_simp+

lemma seed_at_Cons: "seed_at (c # s) \<Longrightarrow> c = CHR ''S''"
  by (simp add: seed_at_def)

lemma starts_simps [simp]: "\<not> starts P []" "starts P (c # s) = P c"
  by (simp_all add: starts_def)

lemma redact_first: "starts P (redact t) \<Longrightarrow> \<not> P (CHR ''['') \<Longrightarrow> starts P t"
  by (cases t) (auto split: if_splits)

lemma starts_append: "starts P t \<Longrightarrow> starts P (t @ u)" "starts P (dropWhile Q t) \<Longrightarrow> starts P (dropWhile Q (t @ u))"
  by (cases t; simp) (induction t; simp split: if_splits)

lemma starts_append_rev:
  "starts P (dropWhile Q (t @ u)) \<Longrightarrow> list_all Q u \<Longrightarrow> starts P (dropWhile Q t)"
proof (induction t)
  case Nil
  then have none: "dropWhile Q u = []" by (simp add: list_all_iff dropWhile_eq_Nil_conv)
  have "starts P (dropWhile Q u)" using Nil(1) by simp
  then show ?case unfolding none by simp
qed (simp split: if_splits)

lemma lower_space: "is_space c \<Longrightarrow> lower_char c = c \<and> c \<notin> set ''bearer''"
  by (auto simp: lower_char_def is_space_def Let_def)

lemma redact_spaces: "dropWhile is_space (redact s) = redact (dropWhile is_space s)"
proof (induction s rule: redact.induct)
  case (2 c s)
  then show ?case using seed_at_Cons [of c s] by auto
qed simp

lemma redact_bearer:
  assumes "BEARER_REGEX (redact s)"
  shows "BEARER_REGEX s"
proof -
  have "CHR ''['' \<notin> set (take 6 (redact s))"
  proof
    assume "CHR ''['' \<in> set (take 6 (redact s))"
    then have "lower_char (CHR ''['') \<in> set (to_lower (take 6 (redact s)))" unfolding to_lower_def by simp
    then have "lower_char (CHR ''['') \<in> set ''bearer''" using assms by (simp only: BEARER_REGEX_def)
    then show False by (simp add: lower_char_def)
  qed
  from redact_prefix [OF this] have R: "take 6 (redact s) = take 6 s" "drop 6 (redact s) = redact (drop 6 s)" by simp_all
  have "starts is_space (drop 6 s)"
    by (rule redact_first) (use assms in \<open>simp_all add: BEARER_REGEX_def R\<close>)
  moreover have "starts (\<lambda>c. is_word_dash c \<or> c = CHR ''.'') (dropWhile is_space (drop 6 s))"
    by (rule redact_first) (use assms in \<open>simp_all add: BEARER_REGEX_def R redact_spaces\<close>)
  ultimately show ?thesis using assms unfolding BEARER_REGEX_def R by simp
qed

lemma bearer_append:
  assumes "BEARER_REGEX t"
  shows "BEARER_REGEX (t @ u)"
proof -
  have "length (to_lower (take 6 t)) = 6" using assms by (simp add: BEARER_REGEX_def)
  then have d: "take 6 (t @ u) = take 6 t" "drop 6 (t @ u) = drop 6 t @ u" by (simp_all add: to_lower_def)
  show ?thesis using assms unfolding BEARER_REGEX_def d by (intro conjI) (simp_all add: starts_append)
qed

lemma bearer_spaces:
  assumes "BEARER_REGEX (t @ u)" "list_all is_space u"
  shows "BEARER_REGEX t"
proof -
  have six: "length t \<ge> 6"
  proof (rule ccontr)
    assume less: "\<not> length t \<ge> 6"
    have "length (to_lower (take 6 (t @ u))) = 6" using assms(1) by (simp add: BEARER_REGEX_def)
    then have "u \<noteq> []" using less by (cases u) (simp_all add: to_lower_def)
    then obtain c v where u: "u = c # v" by (cases u) auto
    then have sp: "is_space c" using assms(2) by simp
    have "c \<in> set (take 6 (t @ u))" using less u by (simp add: take_Cons')
    then have "lower_char c \<in> set (to_lower (take 6 (t @ u)))" unfolding to_lower_def set_map by (rule imageI)
    then have "lower_char c \<in> set ''bearer''" using assms(1) by (simp only: BEARER_REGEX_def)
    then show False using lower_space [OF sp] by simp
  qed
  have d: "drop 6 (t @ u) = drop 6 t @ u" "take 6 (t @ u) = take 6 t" using six by simp_all
  have after: "starts (\<lambda>c. is_word_dash c \<or> c = CHR ''.'') (dropWhile is_space (drop 6 t))"
    by (rule starts_append_rev [of _ _ _ u]) (use assms in \<open>simp_all only: BEARER_REGEX_def d\<close>)
  then have "starts is_space (drop 6 t)"
    using assms(1) unfolding BEARER_REGEX_def d by (cases "drop 6 t") simp_all
  then show ?thesis using assms(1) after unfolding BEARER_REGEX_def d by simp
qed

lemma bearer_trim: "BEARER_REGEX (trim s) = BEARER_REGEX (dropWhile is_space s)"
proof -
  let ?t = "dropWhile is_space s"
  have "?t = trim s @ rev (takeWhile is_space (rev ?t))"
    unfolding trim_def by (metis rev_append rev_rev_ident takeWhile_dropWhile_id)
  moreover have "list_all is_space (rev (takeWhile is_space (rev ?t)))"
    by (auto simp: list_all_iff dest: set_takeWhileD)
  ultimately show ?thesis using bearer_append bearer_spaces by metis
qed

lemma jwt_chars: "JWT_REGEX s \<Longrightarrow> c \<in> set s \<Longrightarrow> is_word_dash c \<or> c = CHR ''.''"
proof -
  assume jwt: "JWT_REGEX s" and c: "c \<in> set s"
  have parts: "\<forall>p \<in> set (split_on (CHR ''.'') s). list_all is_word_dash p" using jwt by (simp add: JWT_REGEX_def Let_def list_all_iff)
  have "set (join_with [d] ps) \<subseteq> insert d (\<Union>p \<in> set ps. set p)" for d :: char and ps
    by (induction "[d]" ps rule: join_with.induct) auto
  then have "set s \<subseteq> insert (CHR ''.'') (\<Union>p \<in> set (split_on (CHR ''.'') s). set p)" using join_split by metis
  then show ?thesis using parts c by (auto simp: list_all_iff)
qed

text \<open>A redacted text is no secret any more.\<close>

lemma redact_no_secret:
  assumes "\<not> isSecretString s" "has_seed s"
  shows "\<not> isSecretString (redact s)"
proof -
  have bracket: "CHR ''['' \<in> set (trim (redact s))" using set_trim [OF redact_bracket [OF assms(2)]] by simp
  have "\<not> STELLAR_SECRET_SEED_REGEX (trim (redact s))"
    using bracket seed_chars [of "trim (redact s)"] by (auto simp: STELLAR_SECRET_SEED_REGEX_def)
  moreover have "\<not> JWT_REGEX (trim (redact s))" using bracket jwt_chars by fastforce
  moreover have "\<not> BEARER_REGEX (trim (redact s))"
    using assms(1) redact_bearer by (auto simp: isSecretString_def bearer_trim redact_spaces)
  ultimately show ?thesis by (simp add: isSecretString_def)
qed

section \<open>What is left of a workspace\<close>

text \<open>
  Values without secrets. \<open>ok\<close> is what holds of the texts; the names of all properties are harmless.
\<close>

fun texts_and_names :: "(string \<Rightarrow> bool) \<Rightarrow> json \<Rightarrow> bool"
  and texts_and_names_items :: "(string \<Rightarrow> bool) \<Rightarrow> json list \<Rightarrow> bool"
  and texts_and_names_entries :: "(string \<Rightarrow> bool) \<Rightarrow> (string \<times> json) list \<Rightarrow> bool"
where
  "texts_and_names ok (J_str s) = ok s"
| "texts_and_names ok (J_arr xs) = texts_and_names_items ok xs"
| "texts_and_names ok (J_obj kvs) = texts_and_names_entries ok kvs"
| "texts_and_names ok v = True"
| "texts_and_names_items ok [] = True"
| "texts_and_names_items ok (x # xs) = (texts_and_names ok x \<and> texts_and_names_items ok xs)"
| "texts_and_names_entries ok [] = True"
| "texts_and_names_entries ok ((k, v) # kvs) =
     (\<not> stripped_key k \<and> texts_and_names ok v \<and> texts_and_names_entries ok kvs)"

definition plain_text :: "(string \<Rightarrow> nat option) \<Rightarrow> string \<Rightarrow> bool" where
  "plain_text sg s \<longleftrightarrow> \<not> isSecretString s \<and> \<not> has_seed s \<and> \<not> isSignedTransactionEnvelope sg s"

text \<open>A text that was redacted has a bracket; whether the decoder still makes an envelope of it is its affair.\<close>

definition released_text :: "(string \<Rightarrow> nat option) \<Rightarrow> string \<Rightarrow> bool" where
  "released_text sg s \<longleftrightarrow>
     \<not> isSecretString s \<and> \<not> has_seed s \<and> (isSignedTransactionEnvelope sg s \<longrightarrow> CHR ''['' \<in> set s)"

lemma deepClean_released:
  "deepClean sg keyName v = (Some w, n) \<Longrightarrow> texts_and_names (released_text sg) w"
  "clean_items sg xs = (ys, n) \<Longrightarrow> texts_and_names_items (released_text sg) ys"
  "clean_entries sg kvs = (es, n) \<Longrightarrow> texts_and_names_entries (released_text sg) es"
proof (induction sg keyName v and sg xs and sg kvs arbitrary: w n and ys n and es n
    rule: deepClean_clean_items_clean_entries.induct)
  case (4 sg keyName s)
  then show ?case
    using redact_no_secret [of s] redact_bracket [of s]
    by (auto simp: released_text_def split: if_splits)
next
  case (8 sg x xs)
  obtain y m where y: "deepClean sg None x = (y, m)" by fastforce
  obtain zs l where z: "clean_items sg xs = (zs, l)" by fastforce
  show ?case using 8 y z by (cases y) (auto split: if_splits)
next
  case (10 sg k v kvs)
  obtain y m where y: "deepClean sg (Some k) v = (y, m)" by fastforce
  obtain zs l where z: "clean_entries sg kvs = (zs, l)" by fastforce
  show ?case using 10 y z by (cases y) (auto split: if_splits)
qed (auto split: if_splits prod.splits)

lemma sanitize_released:
  "texts_and_names (released_text sg) (fst (sanitizeWorkspaceData sg data))"
proof -
  obtain cleaned n where c: "deepClean sg None data = (cleaned, n)" by fastforce
  show ?thesis
    using c deepClean_released(1) [of sg None data _ n]
    by (cases cleaned) (auto simp: sanitizeWorkspaceData_def)
qed

text \<open>
  C17. Nothing secret leaves the service. Whatever a workspace holds, at any depth its sanitized form
  has no property whose name speaks of credentials or signatures, and no text that is a seed, a
  JWT or a bearer token, contains a seed, or is an untouched envelope with signatures.
\<close>

theorem sanitized_has_no_secrets:
  "texts_and_names (released_text sg) (fst (sanitizeWorkspaceData sg data))"
  by (rule sanitize_released)

subsection \<open>Harmless workspaces\<close>

text \<open>The sanitizer leaves empty objects out of lists, whether it emptied them or not.\<close>

fun drop_empty :: "json \<Rightarrow> json"
  and drop_empty_items :: "json list \<Rightarrow> json list"
  and drop_empty_entries :: "(string \<times> json) list \<Rightarrow> (string \<times> json) list"
where
  "drop_empty (J_arr xs) = J_arr (drop_empty_items xs)"
| "drop_empty (J_obj kvs) = J_obj (drop_empty_entries kvs)"
| "drop_empty v = v"
| "drop_empty_items [] = []"
| "drop_empty_items (x # xs) =
     (if drop_empty x = J_obj [] then drop_empty_items xs else drop_empty x # drop_empty_items xs)"
| "drop_empty_entries [] = []"
| "drop_empty_entries ((k, v) # kvs) = (k, drop_empty v) # drop_empty_entries kvs"

lemma deepClean_harmless:
  "texts_and_names (plain_text sg) v \<Longrightarrow> \<not> stripped_name keyName \<Longrightarrow> deepClean sg keyName v = (Some (drop_empty v), 0)"
  "texts_and_names_items (plain_text sg) xs \<Longrightarrow> clean_items sg xs = (drop_empty_items xs, 0)"
  "texts_and_names_entries (plain_text sg) kvs \<Longrightarrow> clean_entries sg kvs = (drop_empty_entries kvs, 0)"
  by (induction sg keyName v and sg xs and sg kvs rule: deepClean_clean_items_clean_entries.induct)
    (auto simp: plain_text_def stripped_name_def)

lemma deepClean_count:
  "deepClean sg keyName v = (y, 0) \<Longrightarrow> texts_and_names (plain_text sg) v"
  "clean_items sg xs = (ys, 0) \<Longrightarrow> texts_and_names_items (plain_text sg) xs"
  "clean_entries sg kvs = (es, 0) \<Longrightarrow> texts_and_names_entries (plain_text sg) kvs"
proof (induction sg keyName v and sg xs and sg kvs arbitrary: y and ys and es
    rule: deepClean_clean_items_clean_entries.induct)
  case (8 sg x xs)
  obtain y m where y: "deepClean sg None x = (y, m)" by fastforce
  obtain zs l where z: "clean_items sg xs = (zs, l)" by fastforce
  show ?case using 8 y z by (auto split: if_splits)
next
  case (10 sg k v kvs)
  obtain y m where y: "deepClean sg (Some k) v = (y, m)" by fastforce
  obtain zs l where z: "clean_entries sg kvs = (zs, l)" by fastforce
  show ?case using 10 y z by (auto split: if_splits)
qed (auto simp: plain_text_def split: if_splits prod.splits)

lemma sanitize_count_zero:
  "snd (sanitizeWorkspaceData sg data) = 0 \<longleftrightarrow> texts_and_names (plain_text sg) data"
proof -
  obtain y n where y: "deepClean sg None data = (y, n)" by fastforce
  have n: "snd (sanitizeWorkspaceData sg data) = n" by (simp add: sanitizeWorkspaceData_def y)
  show ?thesis
  proof
    assume "snd (sanitizeWorkspaceData sg data) = 0"
    then show "texts_and_names (plain_text sg) data" using y n deepClean_count(1) by simp
  next
    assume "texts_and_names (plain_text sg) data"
    from deepClean_harmless(1) [OF this, of None] show "snd (sanitizeWorkspaceData sg data) = 0"
      using y n by (simp add: stripped_name_def)
  qed
qed

text \<open>
  A reported redaction is a redaction, and only secrets are taken. \<open>redactedCount\<close> is zero
  exactly for the workspaces that hold no secret anywhere, and such a workspace keeps all its
  values: only the empty objects of its lists are gone.
\<close>

theorem sanitizer_spares_harmless:
  "(snd (sanitizeWorkspaceData sg (J_obj m)) = 0) = texts_and_names (plain_text sg) (J_obj m)
   \<and> (texts_and_names (plain_text sg) (J_obj m) \<longrightarrow>
        sanitizeWorkspaceData sg (J_obj m) = (drop_empty (J_obj m), 0))"
proof
  show "texts_and_names (plain_text sg) (J_obj m) \<longrightarrow> sanitizeWorkspaceData sg (J_obj m) = (drop_empty (J_obj m), 0)"
  proof
    assume "texts_and_names (plain_text sg) (J_obj m)"
    from deepClean_harmless(1) [OF this, of None] show "sanitizeWorkspaceData sg (J_obj m) = (drop_empty (J_obj m), 0)"
      unfolding sanitizeWorkspaceData_def by (simp add: stripped_name_def)
  qed
qed (rule sanitize_count_zero)

section \<open>The client\<close>

lemma payload_released:
  "sanitizeWorkspacePayload keyName v = Some w \<Longrightarrow> texts_and_names (\<lambda>s. \<not> isSecretString s \<and> \<not> has_seed s) w"
  "texts_and_names_items (\<lambda>s. \<not> isSecretString s \<and> \<not> has_seed s) (payload_items xs)"
  "texts_and_names_entries (\<lambda>s. \<not> isSecretString s \<and> \<not> has_seed s) (payload_entries kvs)"
proof (induction keyName v and xs and kvs arbitrary: w
    rule: sanitizeWorkspacePayload_payload_items_payload_entries.induct)
  case (4 keyName s)
  then show ?case using redact_no_secret [of s] by (auto split: if_splits)
qed (auto split: if_splits option.splits)

lemma payload_harmless:
  "texts_and_names (\<lambda>s. \<not> isSecretString s \<and> \<not> has_seed s) v \<Longrightarrow> \<not> stripped_name keyName \<Longrightarrow>
    sanitizeWorkspacePayload keyName v = Some v"
  "texts_and_names_items (\<lambda>s. \<not> isSecretString s \<and> \<not> has_seed s) xs \<Longrightarrow> payload_items xs = xs"
  "texts_and_names_entries (\<lambda>s. \<not> isSecretString s \<and> \<not> has_seed s) kvs \<Longrightarrow> payload_entries kvs = kvs"
  by (induction keyName v and xs and kvs rule: sanitizeWorkspacePayload_payload_items_payload_entries.induct)
    (auto simp: stripped_name_def)

lemma payload_idempotent: "payload_items (payload_items xs) = payload_items xs" "payload_entries (payload_entries kvs) = payload_entries kvs"
  by (intro payload_harmless payload_released)+

section \<open>The export format\<close>

definition WORKSPACE_FORMAT_VERSION :: js_num where "WORKSPACE_FORMAT_VERSION = 2"
definition MIN_SUPPORTED_WORKSPACE_VERSION :: js_num where "MIN_SUPPORTED_WORKSPACE_VERSION = 1"

text \<open>\<open>WorkspaceFormatError\<close>; the message of an unsupported version is built from the version.\<close>

datatype format_error = Invalid_workspace string | Version_no_integer | Unsupported_version js_num

record workspace_file =
  wf_formatVersion :: js_num
  wf_id :: "string option"
  wf_ownerId :: "string option"
  wf_name :: "string option"
  wf_composerState :: "(string \<times> json) list"
  wf_operations :: "json list"
  wf_createdAt :: "string option"
  wf_updatedAt :: "string option"

definition readFormatVersion :: "json \<Rightarrow> format_error + js_num" where
  "readFormatVersion v =
     (case field v ''formatVersion'' of
        None \<Rightarrow> Inr MIN_SUPPORTED_WORKSPACE_VERSION
      | Some (J_num x) \<Rightarrow> if x \<in> \<int> then Inr x else Inl Version_no_integer
      | Some _ \<Rightarrow> Inl Version_no_integer)"

definition string_field :: "json \<Rightarrow> string \<Rightarrow> string option" where
  "string_field v k = (case field v k of Some (J_str s) \<Rightarrow> Some s | _ \<Rightarrow> None)"

definition array_field :: "json \<Rightarrow> string \<Rightarrow> json list option" where
  "array_field v k = (case field v k of Some (J_arr xs) \<Rightarrow> Some xs | _ \<Rightarrow> None)"

definition migrateWorkspaceFile :: "json \<Rightarrow> format_error + workspace_file" where
  "migrateWorkspaceFile parsed =
     (case parsed of
        J_obj _ \<Rightarrow>
          (case readFormatVersion parsed of
             Inl e \<Rightarrow> Inl e
           | Inr version \<Rightarrow>
               if version < MIN_SUPPORTED_WORKSPACE_VERSION \<or> version > WORKSPACE_FORMAT_VERSION
               then Inl (Unsupported_version version)
               else case field parsed ''composerState'' of
                      Some (J_obj composerState) \<Rightarrow>
                        (case (case array_field parsed ''operations'' of
                                 Some xs \<Rightarrow> Some xs | None \<Rightarrow> array_field (J_obj composerState) ''operations'') of
                           None \<Rightarrow> Inl (Invalid_workspace ''Missing or invalid \"operations\" array.'')
                         | Some operations \<Rightarrow>
                             Inr \<lparr>wf_formatVersion = WORKSPACE_FORMAT_VERSION,
                                  wf_id = string_field parsed ''id'', wf_ownerId = string_field parsed ''ownerId'',
                                  wf_name = string_field parsed ''name'',
                                  wf_composerState = jm_set composerState ''operations'' (J_arr operations),
                                  wf_operations = operations,
                                  wf_createdAt = string_field parsed ''createdAt'',
                                  wf_updatedAt = string_field parsed ''updatedAt''\<rparr>)
                    | _ \<Rightarrow> Inl (Invalid_workspace ''Missing or invalid \"composerState\".''))
      | _ \<Rightarrow> Inl (Invalid_workspace ''Workspace JSON must be an object.''))"

definition optional_entry :: "string \<Rightarrow> string option \<Rightarrow> (string \<times> json) list" where
  "optional_entry k v = (case v of Some s \<Rightarrow> [(k, J_str s)] | None \<Rightarrow> [])"

text \<open>The value that \<open>serializeWorkspaceFile\<close> hands to \<open>JSON.stringify\<close>.\<close>

definition serializeWorkspaceFile :: "workspace_file \<Rightarrow> json" where
  "serializeWorkspaceFile doc =
     (let composerState = (case sanitizeWorkspacePayload None (J_obj (wf_composerState doc)) of Some v \<Rightarrow> v | None \<Rightarrow> J_obj []);
          operations = (case sanitizeWorkspacePayload None (J_arr (wf_operations doc)) of Some v \<Rightarrow> v | None \<Rightarrow> J_arr [])
      in J_obj ([(''formatVersion'', J_num WORKSPACE_FORMAT_VERSION), (''composerState'', composerState), (''operations'', operations)]
           @ optional_entry ''id'' (wf_id doc) @ optional_entry ''ownerId'' (wf_ownerId doc)
           @ optional_entry ''name'' (wf_name doc) @ optional_entry ''createdAt'' (wf_createdAt doc)
           @ optional_entry ''updatedAt'' (wf_updatedAt doc)))"

text \<open>What an import makes of an exported workspace.\<close>

definition sanitized_file :: "workspace_file \<Rightarrow> workspace_file" where
  "sanitized_file doc =
     doc\<lparr>wf_formatVersion := WORKSPACE_FORMAT_VERSION,
          wf_composerState := jm_set (payload_entries (wf_composerState doc)) ''operations'' (J_arr (payload_items (wf_operations doc))),
          wf_operations := payload_items (wf_operations doc)\<rparr>"

lemma field_optional:
  "field (J_obj (m @ optional_entry k' v)) k =
     (if k = k' then (case v of Some s \<Rightarrow> Some (J_str s) | None \<Rightarrow> field (J_obj m) k) else field (J_obj m) k)"
  by (simp add: optional_entry_def split: option.split)

lemma serialize_fields:
  "field (serializeWorkspaceFile doc) ''formatVersion'' = Some (J_num WORKSPACE_FORMAT_VERSION)"
  "field (serializeWorkspaceFile doc) ''composerState'' = Some (J_obj (payload_entries (wf_composerState doc)))"
  "field (serializeWorkspaceFile doc) ''operations'' = Some (J_arr (payload_items (wf_operations doc)))"
  "string_field (serializeWorkspaceFile doc) ''id'' = wf_id doc"
  "string_field (serializeWorkspaceFile doc) ''ownerId'' = wf_ownerId doc"
  "string_field (serializeWorkspaceFile doc) ''name'' = wf_name doc"
  "string_field (serializeWorkspaceFile doc) ''createdAt'' = wf_createdAt doc"
  "string_field (serializeWorkspaceFile doc) ''updatedAt'' = wf_updatedAt doc"
  "\<exists>m. serializeWorkspaceFile doc = J_obj m"
  unfolding serializeWorkspaceFile_def Let_def string_field_def append_assoc [symmetric] field_optional
  by (simp_all add: stripped_name_def split: option.split)

lemma migrate_serialized: "migrateWorkspaceFile (serializeWorkspaceFile doc) = Inr (sanitized_file doc)"
proof -
  obtain m where m: "serializeWorkspaceFile doc = J_obj m" using serialize_fields(9) by blast
  note F = serialize_fields(1-8) [of doc, unfolded m]
  have "readFormatVersion (J_obj m) = Inr WORKSPACE_FORMAT_VERSION"
    unfolding readFormatVersion_def F by (simp add: WORKSPACE_FORMAT_VERSION_def)
  then show ?thesis
    unfolding m migrateWorkspaceFile_def array_field_def
    by (simp add: F sanitized_file_def WORKSPACE_FORMAT_VERSION_def MIN_SUPPORTED_WORKSPACE_VERSION_def del: field.simps)
qed

lemma operations_plain: "\<not> stripped_key ''operations''"
  by code_simp

lemma entries_set:
  "texts_and_names_entries ok m \<Longrightarrow> texts_and_names ok v \<Longrightarrow> \<not> stripped_key k \<Longrightarrow> texts_and_names_entries ok (jm_set m k v)"
  by (induction m k v rule: jm_set.induct) auto

lemma jm_set_twice: "jm_set (jm_set m k v) k v = jm_set m k v"
  by (induction m k v rule: jm_set.induct) auto

lemma sanitized_state:
  "texts_and_names_entries (\<lambda>s. \<not> isSecretString s \<and> \<not> has_seed s) (wf_composerState (sanitized_file doc))"
  unfolding sanitized_file_def
  by (simp add: entries_set payload_released operations_plain)


section \<open>What the patterns miss and hit\<close>

text \<open>The names of properties are not searched for seeds.\<close>

lemma has_sub_set: "has_sub s sub \<Longrightarrow> set sub \<subseteq> set s"
proof (induction s)
  case (Cons c s)
  then show ?case using set_take_subset [of "length sub" "c # s"] by auto
qed simp

lemma seed_as_name_survives:
  fixes seed
  defines "seed \<equiv> CHR ''S'' # replicate 55 (CHR ''A'')"
  shows "STELLAR_SECRET_SEED_REGEX seed \<and> sanitizeWorkspaceData sg (J_obj [(seed, J_bool True)]) = (J_obj [(seed, J_bool True)], 0)"
proof -
  have "lower_char (CHR ''S'') = CHR ''s''" "lower_char (CHR ''A'') = CHR ''a''" by code_simp+
  then have letters: "set (to_lower seed) = {CHR ''s'', CHR ''a''}" by (simp add: seed_def to_lower_def)
  have "\<not> has_sub (to_lower seed) sub" if "sub \<in> set (SENSITIVE_KEY_SUBSTRINGS @ SIGNATURE_KEY_SUBSTRINGS)" for sub
  proof
    assume "has_sub (to_lower seed) sub"
    then have "set sub \<subseteq> {CHR ''s'', CHR ''a''}" using has_sub_set letters by blast
    moreover have "list_all (\<lambda>sub. \<not> set sub \<subseteq> {CHR ''s'', CHR ''a''}) (SENSITIVE_KEY_SUBSTRINGS @ SIGNATURE_KEY_SUBSTRINGS)"
      by code_simp
    ultimately show False using that by (auto simp only: list_all_iff)
  qed
  then have "\<not> stripped_key seed" by (auto simp: stripped_key_def isSensitiveKey_def isSignatureKey_def list_ex_iff)
  moreover have "is_base32 (CHR ''A'')" by code_simp
  then have "STELLAR_SECRET_SEED_REGEX seed"
    by (simp add: seed_def STELLAR_SECRET_SEED_REGEX_def seed_at_def list_all_iff)
  ultimately show ?thesis by (simp add: sanitizeWorkspaceData_def stripped_name_def)
qed

text \<open>A host name of three labels has the form of a JWT.\<close>

lemma home_domain_stripped:
  "sanitizeWorkspaceData sg (J_obj [(''homeDomain'', J_str ''www.stellar.org'')]) = (J_obj [], 1)
   \<and> sanitizeWorkspacePayload None (J_obj [(''homeDomain'', J_str ''www.stellar.org'')]) = Some (J_obj [])"
  by code_simp

text \<open>The client does not look into texts for signed envelopes.\<close>

lemma signed_envelope_exported:
  assumes "\<not> isSecretString s" "\<not> has_seed s" "isSignedTransactionEnvelope sg s"
  shows "sanitizeWorkspacePayload None (J_obj [(''memo'', J_str s)]) = Some (J_obj [(''memo'', J_str s)])
    \<and> sanitizeWorkspaceData sg (J_obj [(''memo'', J_str s)]) = (J_obj [], 1)"
proof -
  have "\<not> stripped_key ''memo''" by code_simp
  then show ?thesis using assms by (simp add: sanitizeWorkspaceData_def stripped_name_def)
qed

text \<open>Empty objects go from lists although nothing was stripped from them.\<close>

lemma empty_item_dropped:
  "sanitizeWorkspaceData sg (J_obj [(''items'', J_arr [J_obj [], J_num 1])]) = (J_obj [(''items'', J_arr [J_num 1])], 0)"
  by code_simp

lemma sanitizer_spares_harmless_witness:
  "sanitizeWorkspaceData (\<lambda>_. None) (J_obj [(''memo'', J_str ''hello''), (''amounts'', J_arr [J_str ''10'', J_obj []])])
    = (J_obj [(''memo'', J_str ''hello''), (''amounts'', J_arr [J_str ''10''])], 0)"
proof -
  let ?m = "[(''memo'', J_str ''hello''), (''amounts'', J_arr [J_str ''10'', J_obj []])]"
  have plain: "texts_and_names (plain_text (\<lambda>_. None)) (J_obj ?m)" by code_simp
  have "drop_empty (J_obj ?m) = J_obj [(''memo'', J_str ''hello''), (''amounts'', J_arr [J_str ''10''])]" by simp
  then show ?thesis using sanitizer_spares_harmless [of "\<lambda>_. None" ?m] plain by simp
qed

end
