(* ===== verification/WorkspaceStore.thy ===== *)
theory WorkspaceStore
  imports WorkspaceSanitizer
begin

text \<open>
  The saved workspaces of \<open>workspace.service.ts\<close> (\<open>apps/api/src/modules/workspace\<close>). A request is cut
  at its repository calls: between two of them other requests may run, and what a request has read
  may be stale when it saves. The table has the unique indexes of \<open>workspace.entity.ts\<close>; \<open>save\<close>
  updates the row with the id of the given one to what is given, and inserts it when there is none.
  The dates of a row are left out; ids and share tokens come from outside.
\<close>

section \<open>The table\<close>

datatype workspace_tool = Tool_sandbox | Tool_inspector | Tool_webhooks | Tool_composer

record workspace_row =
  wr_id :: string
  wr_userId :: string
  wr_tool :: workspace_tool
  wr_name :: "string option"
  wr_data :: json
  wr_shareToken :: "string option"
  wr_shareExpiresAt :: "int option"

datatype workspace_error =
    Workspace_not_found
  | Shared_not_found
  | Shared_expired
  | Name_exists string
  | Invalid_composer_data string
  | Unique_violation

text \<open>
  \<open>(user_id, tool, name)\<close> is unique, also for the unnamed rows by the partial index, and so is a
  share token.
\<close>

definition conflicting :: "workspace_row \<Rightarrow> workspace_row \<Rightarrow> bool" where
  "conflicting r s \<longleftrightarrow>
     wr_userId r = wr_userId s \<and> wr_tool r = wr_tool s \<and> wr_name r = wr_name s
     \<or> wr_shareToken r \<noteq> None \<and> wr_shareToken r = wr_shareToken s"

definition violates :: "workspace_row \<Rightarrow> workspace_row list \<Rightarrow> bool" where
  "violates row table = list_ex (\<lambda>r. wr_id r \<noteq> wr_id row \<and> conflicting r row) table"

definition save_row :: "workspace_row \<Rightarrow> workspace_row list \<Rightarrow> workspace_error + workspace_row list" where
  "save_row row table =
     (if violates row table then Inl Unique_violation
      else if list_ex (\<lambda>r. wr_id r = wr_id row) table
           then Inr (map (\<lambda>r. if wr_id r = wr_id row then row else r) table)
           else Inr (table @ [row]))"

definition remove_row :: "workspace_row \<Rightarrow> workspace_row list \<Rightarrow> workspace_row list" where
  "remove_row row table = filter (\<lambda>r. wr_id r \<noteq> wr_id row) table"

definition findWorkspaceForUser :: "string \<Rightarrow> string \<Rightarrow> workspace_row list \<Rightarrow> workspace_error + workspace_row" where
  "findWorkspaceForUser userId i table =
     (case find (\<lambda>r. wr_id r = i \<and> wr_userId r = userId) table of
        None \<Rightarrow> Inl Workspace_not_found | Some r \<Rightarrow> Inr r)"

definition findDefaultWorkspace :: "string \<Rightarrow> workspace_tool \<Rightarrow> workspace_row list \<Rightarrow> workspace_row option" where
  "findDefaultWorkspace userId tool table =
     find (\<lambda>r. wr_userId r = userId \<and> wr_tool r = tool \<and> wr_name r = None) table"

definition assertWorkspaceNameAvailable ::
  "string \<Rightarrow> workspace_tool \<Rightarrow> string \<Rightarrow> string option \<Rightarrow> workspace_row list \<Rightarrow> workspace_error + unit" where
  "assertWorkspaceNameAvailable userId tool n excludeId table =
     (case find (\<lambda>r. wr_userId r = userId \<and> wr_tool r = tool \<and> wr_name r = Some n) table of
        Some existing \<Rightarrow> throw_if (Some (wr_id existing) \<noteq> excludeId) (Name_exists n)
      | None \<Rightarrow> Inr ())"

section \<open>Reading\<close>

definition getWorkspace :: "string \<Rightarrow> workspace_tool \<Rightarrow> workspace_row list \<Rightarrow> json" where
  "getWorkspace userId tool table =
     (case findDefaultWorkspace userId tool table of
        Some r \<Rightarrow> if wr_data r = J_null then J_obj [] else wr_data r | None \<Rightarrow> J_obj [])"

definition exportWorkspace ::
  "(string \<Rightarrow> nat option) \<Rightarrow> string \<Rightarrow> string \<Rightarrow> workspace_row list \<Rightarrow> workspace_error + string \<times> string option \<times> workspace_tool \<times> json" where
  "exportWorkspace sg userId i table =
     and_then (findWorkspaceForUser userId i table)
       (\<lambda>r. Inr (wr_id r, wr_name r, wr_tool r, fst (sanitizeWorkspaceData sg (wr_data r))))"

definition getSharedWorkspace ::
  "(string \<Rightarrow> nat option) \<Rightarrow> int \<Rightarrow> string \<Rightarrow> workspace_row list \<Rightarrow> workspace_error + workspace_row" where
  "getSharedWorkspace sg now token table =
     (case find (\<lambda>r. wr_shareToken r = Some token) table of
        None \<Rightarrow> Inl Shared_not_found
      | Some r \<Rightarrow>
          if (case wr_shareExpiresAt r of Some t \<Rightarrow> t < now | None \<Rightarrow> False) then Inl Shared_expired
          else Inr (r\<lparr>wr_data := fst (sanitizeWorkspaceData sg (wr_data r))\<rparr>))"

section \<open>The state of the composer\<close>

definition operation_error :: "nat \<Rightarrow> json \<Rightarrow> string option" where
  "operation_error index op =
     (let path = ''operations['' @ digits_of_nat index @ '']'' in
      case op of
        J_obj _ \<Rightarrow>
          (case field op ''type'' of
             Some (J_str (c # t)) \<Rightarrow>
               (case field op ''fields'' of
                  None \<Rightarrow> None | Some (J_obj _) \<Rightarrow> None
                | Some _ \<Rightarrow> Some (path @ ''.fields must be an object''))
           | _ \<Rightarrow> Some (path @ ''.type must be a non-empty string''))
      | _ \<Rightarrow> Some (path @ '' must be an object''))"

fun operations_error :: "nat \<Rightarrow> json list \<Rightarrow> string option" where
  "operations_error index [] = None"
| "operations_error index (op # ops) =
     (case operation_error index op of Some e \<Rightarrow> Some e | None \<Rightarrow> operations_error (index + 1) ops)"

definition is_text :: "json option \<Rightarrow> bool" where
  "is_text v \<longleftrightarrow> (case v of None \<Rightarrow> True | Some (J_str _) \<Rightarrow> True | Some _ \<Rightarrow> False)"

definition validate :: "json \<Rightarrow> string option" where
  "validate data =
     (case data of
        J_obj _ \<Rightarrow>
          if \<not> is_text (field data ''sourceAccount'') then Some ''sourceAccount must be a string''
          else if \<not> is_text (field data ''memo'') then Some ''memo must be a string''
          else (case field data ''operations'' of
                  None \<Rightarrow> None
                | Some (J_arr ops) \<Rightarrow> operations_error 0 ops
                | Some _ \<Rightarrow> Some ''operations must be an array'')
      | _ \<Rightarrow> Some ''composer state must be an object'')"

section \<open>Requests\<close>

datatype workspace_call =
    Upsert workspace_tool json
  | Create string json
  | Update string json
  | Rename string string
  | Delete string
  | Duplicate string
  | Import_composer string json
  | Share string string int   \<comment> \<open>id, token, expiry\<close>
  | Unshare string

text \<open>What a request is about to ask of the repository.\<close>

datatype pending_call =
    Save workspace_row
  | Insert string workspace_tool "string option" json
  | Upsert_insert string workspace_tool json
  | Find_winner string workspace_tool json
  | Check_name workspace_row string
  | Check_new_name string string json
  | Remove workspace_row

datatype progress = Failed workspace_error | Finished "workspace_row option" | Awaiting pending_call

definition new_row :: "string \<Rightarrow> string \<Rightarrow> workspace_tool \<Rightarrow> string option \<Rightarrow> json \<Rightarrow> workspace_row" where
  "new_row i userId tool n data =
     \<lparr>wr_id = i, wr_userId = userId, wr_tool = tool, wr_name = n, wr_data = data, wr_shareToken = None, wr_shareExpiresAt = None\<rparr>"

definition createWorkspace :: "string \<Rightarrow> string \<Rightarrow> json \<Rightarrow> progress" where
  "createWorkspace userId n data = Awaiting (Check_new_name userId (trim n) data)"

definition upsertWorkspace :: "string \<Rightarrow> workspace_tool \<Rightarrow> json \<Rightarrow> workspace_row list \<Rightarrow> progress" where
  "upsertWorkspace userId tool data table =
     (case findDefaultWorkspace userId tool table of
        Some workspace \<Rightarrow> Awaiting (Save (workspace\<lparr>wr_data := data\<rparr>))
      | None \<Rightarrow> Awaiting (Upsert_insert userId tool data))"

definition with_workspace ::
  "string \<Rightarrow> string \<Rightarrow> workspace_row list \<Rightarrow> (workspace_row \<Rightarrow> progress) \<Rightarrow> progress" where
  "with_workspace userId i table k =
     (case findWorkspaceForUser userId i table of Inl e \<Rightarrow> Failed e | Inr workspace \<Rightarrow> k workspace)"

definition renameWorkspace :: "string \<Rightarrow> workspace_row \<Rightarrow> progress" where
  "renameWorkspace n workspace =
     (let newName = trim n
      in if wr_name workspace = Some newName then Finished (Some workspace) else Awaiting (Check_name workspace newName))"

definition duplicateWorkspace :: "string \<Rightarrow> workspace_row \<Rightarrow> progress" where
  "duplicateWorkspace userId source =
     createWorkspace userId ((case wr_name source of Some n \<Rightarrow> n | None \<Rightarrow> ''Untitled'') @ '' (copy)'') (wr_data source)"

definition importWorkspace :: "string \<Rightarrow> string \<Rightarrow> json \<Rightarrow> progress" where
  "importWorkspace userId n data =
     (case validate data of Some e \<Rightarrow> Failed (Invalid_composer_data e) | None \<Rightarrow> createWorkspace userId n data)"

text \<open>A request up to its second repository call.\<close>

definition begin_call :: "string \<Rightarrow> workspace_call \<Rightarrow> workspace_row list \<Rightarrow> progress" where
  "begin_call userId c table =
     (case c of
        Upsert tool data \<Rightarrow> upsertWorkspace userId tool data table
      | Create n data \<Rightarrow> createWorkspace userId n data
      | Update i data \<Rightarrow> with_workspace userId i table (\<lambda>w. Awaiting (Save (w\<lparr>wr_data := data\<rparr>)))
      | Rename i n \<Rightarrow> with_workspace userId i table (renameWorkspace n)
      | Delete i \<Rightarrow> with_workspace userId i table (\<lambda>w. Awaiting (Remove w))
      | Duplicate i \<Rightarrow> with_workspace userId i table (duplicateWorkspace userId)
      | Import_composer n data \<Rightarrow> importWorkspace userId n data
      | Share i token expiresAt \<Rightarrow> with_workspace userId i table
          (\<lambda>w. Awaiting (Save (w\<lparr>wr_shareToken := Some token, wr_shareExpiresAt := Some expiresAt\<rparr>)))
      | Unshare i \<Rightarrow> with_workspace userId i table
          (\<lambda>w. Awaiting (Save (w\<lparr>wr_shareToken := None, wr_shareExpiresAt := None\<rparr>))))"

text \<open>One repository call and the code up to the following one. \<open>i\<close> is the id that an insertion gets.\<close>

definition saved :: "workspace_row \<Rightarrow> workspace_row list \<Rightarrow> progress \<times> workspace_row list" where
  "saved row table =
     (case save_row row table of Inl e \<Rightarrow> (Failed e, table) | Inr table' \<Rightarrow> (Finished (Some row), table'))"

definition resume :: "string \<Rightarrow> pending_call \<Rightarrow> workspace_row list \<Rightarrow> progress \<times> workspace_row list" where
  "resume i p table =
     (case p of
        Save row \<Rightarrow> saved row table
      | Insert userId tool n data \<Rightarrow> saved (new_row i userId tool n data) table
      | Upsert_insert userId tool data \<Rightarrow>
          (case save_row (new_row i userId tool None data) table of
             Inl _ \<Rightarrow> (Awaiting (Find_winner userId tool data), table)
           | Inr table' \<Rightarrow> (Finished (Some (new_row i userId tool None data)), table'))
      | Find_winner userId tool data \<Rightarrow>
          (case findDefaultWorkspace userId tool table of
             None \<Rightarrow> (Failed Unique_violation, table)
           | Some winner \<Rightarrow> (Awaiting (Save (winner\<lparr>wr_data := data\<rparr>)), table))
      | Check_name workspace newName \<Rightarrow>
          (case assertWorkspaceNameAvailable (wr_userId workspace) (wr_tool workspace) newName (Some (wr_id workspace)) table of
             Inl e \<Rightarrow> (Failed e, table)
           | Inr _ \<Rightarrow> (Awaiting (Save (workspace\<lparr>wr_name := Some newName\<rparr>)), table))
      | Check_new_name userId n data \<Rightarrow>
          (case assertWorkspaceNameAvailable userId Tool_composer n None table of
             Inl e \<Rightarrow> (Failed e, table)
           | Inr _ \<Rightarrow> (Awaiting (Insert userId Tool_composer (Some n) data), table))
      | Remove row \<Rightarrow> (Finished None, remove_row row table))"

section \<open>Any interleaving of requests\<close>

text \<open>
  The table, the requests that wait for a repository call with their users, and the ids that were
  ever issued with the users that they were issued for.
\<close>

record workspace_system =
  ss_table :: "workspace_row list"
  ss_running :: "(string \<times> pending_call) list"
  ss_issued :: "(string \<times> string) list"

definition still_running :: "string \<Rightarrow> progress \<Rightarrow> (string \<times> pending_call) list" where
  "still_running userId pr = (case pr of Awaiting p \<Rightarrow> [(userId, p)] | _ \<Rightarrow> [])"

text \<open>A request begins, one of the waiting ones goes on, or one is lost with its process.\<close>

inductive ws_step :: "string \<Rightarrow> workspace_system \<Rightarrow> workspace_system \<Rightarrow> bool" where
  begins: "ws_step u s (s\<lparr>ss_running := ss_running s @ still_running u (begin_call u c (ss_table s))\<rparr>)"
| resumes: "ss_running s = xs @ (u, p) # ys \<Longrightarrow> i \<notin> fst ` set (ss_issued s) \<Longrightarrow> resume i p (ss_table s) = (pr, table') \<Longrightarrow>
    ws_step u s \<lparr>ss_table = table', ss_running = xs @ still_running u pr @ ys, ss_issued = (i, u) # ss_issued s\<rparr>"
| lost: "ss_running s = xs @ (u, p) # ys \<Longrightarrow> ws_step u s (s\<lparr>ss_running := xs @ ys\<rparr>)"

inductive ws_reachable :: "workspace_system \<Rightarrow> bool" where
  ws_start: "ws_reachable \<lparr>ss_table = [], ss_running = [], ss_issued = []\<rparr>"
| ws_next: "ws_reachable s \<Longrightarrow> ws_step u s s' \<Longrightarrow> ws_reachable s'"

definition rows_of :: "string \<Rightarrow> workspace_row list \<Rightarrow> workspace_row list" where
  "rows_of userId table = filter (\<lambda>r. wr_userId r = userId) table"

definition table_ok :: "workspace_row list \<Rightarrow> bool" where
  "table_ok table \<longleftrightarrow>
     distinct (map wr_id table) \<and> (\<forall>r \<in> set table. \<forall>s \<in> set table. wr_id r \<noteq> wr_id s \<longrightarrow> \<not> conflicting r s)"

fun held_row :: "pending_call \<Rightarrow> workspace_row option" where
  "held_row (Save row) = Some row"
| "held_row (Check_name row n) = Some row"
| "held_row (Remove row) = Some row"
| "held_row _ = None"

fun for_user :: "pending_call \<Rightarrow> string" where
  "for_user (Save row) = wr_userId row"
| "for_user (Insert u tool n data) = u"
| "for_user (Upsert_insert u tool data) = u"
| "for_user (Find_winner u tool data) = u"
| "for_user (Check_name row n) = wr_userId row"
| "for_user (Check_new_name u n data) = u"
| "for_user (Remove row) = wr_userId row"

definition pending_ok :: "(string \<times> string) list \<Rightarrow> string \<Rightarrow> pending_call \<Rightarrow> bool" where
  "pending_ok issued u p \<longleftrightarrow>
     for_user p = u \<and> (case held_row p of Some row \<Rightarrow> (wr_id row, u) \<in> set issued | None \<Rightarrow> True)"

definition ws_inv :: "workspace_system \<Rightarrow> bool" where
  "ws_inv s \<longleftrightarrow>
     table_ok (ss_table s) \<and> distinct (map fst (ss_issued s))
     \<and> (\<forall>r \<in> set (ss_table s). (wr_id r, wr_userId r) \<in> set (ss_issued s))
     \<and> (\<forall>(u, p) \<in> set (ss_running s). pending_ok (ss_issued s) u p)"

lemma conflicting_sym: "conflicting r s = conflicting s r"
  by (auto simp: conflicting_def)

lemma save_row_effect:
  assumes "save_row row table = Inr table'" "table_ok table" "\<forall>r \<in> set table. wr_id r = wr_id row \<longrightarrow> wr_userId r = wr_userId row"
  shows "table_ok table' \<and> set table' \<subseteq> insert row (set table) \<and> row \<in> set table'
    \<and> (\<forall>v. v \<noteq> wr_userId row \<longrightarrow> rows_of v table' = rows_of v table)"
proof -
  have free: "\<forall>r \<in> set table. wr_id r \<noteq> wr_id row \<longrightarrow> \<not> conflicting r row"
    using assms(1) by (auto simp: save_row_def violates_def list_ex_iff split: if_splits)
  consider "table' = map (\<lambda>r. if wr_id r = wr_id row then row else r) table" "wr_id row \<in> wr_id ` set table"
    | "table' = table @ [row]" "wr_id row \<notin> wr_id ` set table"
  proof -
    have "list_ex (\<lambda>r. wr_id r = wr_id row) table = (wr_id row \<in> wr_id ` set table)" by (auto simp: list_ex_iff intro: rev_image_eqI)
    then show ?thesis using that assms(1) by (simp add: save_row_def split: if_splits)
  qed
  then show ?thesis
  proof cases
    case 1
    have "map wr_id table' = map wr_id table" unfolding 1(1) by simp
    moreover have "rows_of v table' = rows_of v table" if "v \<noteq> wr_userId row" for v
      using assms(3) that unfolding 1(1) rows_of_def by (induction table) auto
    moreover have "set table' \<subseteq> insert row (set table)" "row \<in> set table'" using 1 by auto
    moreover have "\<not> conflicting r s" if "r \<in> set table'" "s \<in> set table'" "wr_id r \<noteq> wr_id s" for r s
    proof -
      have "r = row \<or> r \<in> set table" "s = row \<or> s \<in> set table" using that(1,2) 1(1) by auto
      then show ?thesis using free assms(2) that(3) conflicting_sym by (metis table_ok_def)
    qed
    ultimately show ?thesis using assms(2) unfolding table_ok_def by metis
  next
    case 2
    have "table_ok table'" using assms(2) 2 free conflicting_sym by (auto simp: table_ok_def)
    then show ?thesis using 2 by (auto simp: rows_of_def)
  qed
qed

lemma remove_row_effect:
  assumes "table_ok table" "\<forall>r \<in> set table. wr_id r = wr_id row \<longrightarrow> wr_userId r = wr_userId row"
  shows "table_ok (remove_row row table) \<and> set (remove_row row table) \<subseteq> set table
    \<and> (\<forall>v. v \<noteq> wr_userId row \<longrightarrow> rows_of v (remove_row row table) = rows_of v table)"
proof -
  have "rows_of v (remove_row row table) = rows_of v table" if "v \<noteq> wr_userId row" for v
    unfolding rows_of_def remove_row_def filter_filter
    by (rule filter_cong [OF refl]) (use assms(2) that in blast)
  then show ?thesis using assms(1) by (auto simp: table_ok_def remove_row_def distinct_map_filter)
qed

lemma find_mem: "find P xs = Some x \<Longrightarrow> x \<in> set xs \<and> P x"
  by (auto simp: find_Some_iff)

lemma findWorkspaceForUser_row:
  "findWorkspaceForUser u i table = Inr r \<Longrightarrow> r \<in> set table \<and> wr_id r = i \<and> wr_userId r = u"
  by (auto simp: findWorkspaceForUser_def dest!: find_mem split: option.splits)

lemma findDefault_row:
  "findDefaultWorkspace u tool table = Some r \<Longrightarrow> r \<in> set table \<and> wr_userId r = u \<and> wr_tool r = tool \<and> wr_name r = None"
  unfolding findDefaultWorkspace_def by (drule find_mem) simp

lemma begin_call_ok:
  assumes "begin_call u c table = Awaiting p" "\<forall>r \<in> set table. (wr_id r, wr_userId r) \<in> set issued"
  shows "pending_ok issued u p"
proof -
  have new: "pending_ok issued u q" if "createWorkspace u n data = Awaiting q" for n data q
    using that by (auto simp: createWorkspace_def pending_ok_def)
  show ?thesis
  proof (cases c)
    case (Upsert tool data)
    then show ?thesis using assms findDefault_row [of u tool table]
      by (fastforce simp: begin_call_def upsertWorkspace_def pending_ok_def split: option.splits)
  next
    case (Duplicate i)
    then show ?thesis using assms new
      by (auto simp: begin_call_def with_workspace_def duplicateWorkspace_def split: sum.splits)
  qed (use assms new findWorkspaceForUser_row [of u _ table] in
      \<open>fastforce simp: begin_call_def with_workspace_def renameWorkspace_def importWorkspace_def pending_ok_def Let_def
        split: sum.splits option.splits if_splits\<close>)+
qed

lemma resume_effect:
  assumes "resume i p table = (pr, table')" "pending_ok issued u p"
    and ok: "table_ok table" "distinct (map fst issued)" "\<forall>r \<in> set table. (wr_id r, wr_userId r) \<in> set issued"
    and fresh: "i \<notin> fst ` set issued"
  shows "table_ok table' \<and> (\<forall>r \<in> set table'. r \<in> set table \<or> (wr_id r, wr_userId r) \<in> set ((i, u) # issued))
    \<and> (\<forall>v. v \<noteq> u \<longrightarrow> rows_of v table' = rows_of v table)
    \<and> (\<forall>q. pr = Awaiting q \<longrightarrow> pending_ok ((i, u) # issued) u q)"
proof -
  have held: "wr_userId r = u" if "r \<in> set table" "wr_id r = wr_id row" "(wr_id row, u) \<in> set issued" for r row
    using ok(2,3) that by (metis eq_key_imp_eq_value)
  have unborn: "\<forall>r \<in> set table. wr_id r \<noteq> i" using ok(3) fresh by force
  have save: ?thesis if "saved row table = (pr, table')" "wr_userId row = u" "(wr_id row, u) \<in> set ((i, u) # issued)" for row
  proof (cases "save_row row table")
    case (Inl e)
    then have "pr = Failed e" "table' = table" using that(1) by (simp_all add: saved_def)
    then show ?thesis using ok(1) by simp
  next
    case (Inr t)
    have "\<forall>r \<in> set table. wr_id r = wr_id row \<longrightarrow> wr_userId r = wr_userId row"
      using held [of _ row] unborn that(2,3) by auto
    from save_row_effect [OF Inr ok(1) this] show ?thesis using that Inr by (auto simp: saved_def)
  qed
  show ?thesis
  proof (cases p)
    case (Save row)
    show ?thesis by (rule save [of row]) (use assms(1,2) Save in \<open>simp_all add: resume_def pending_ok_def\<close>)
  next
    case (Insert u' tool n data)
    show ?thesis
      by (rule save [of "new_row i u tool n data"]) (use assms(1,2) Insert in \<open>simp_all add: resume_def pending_ok_def new_row_def\<close>)
  next
    case (Upsert_insert u' tool data)
    then have u: "u' = u" using assms(2) by (simp add: pending_ok_def)
    show ?thesis
    proof (cases "save_row (new_row i u tool None data) table")
      case (Inl e)
      then show ?thesis using assms(1) Upsert_insert u ok(1) by (auto simp: resume_def pending_ok_def)
    next
      case (Inr t)
      show ?thesis
        by (rule save [of "new_row i u tool None data"])
          (use assms(1) Upsert_insert u Inr in \<open>simp_all add: resume_def saved_def new_row_def\<close>)
    qed
  next
    case (Find_winner u' tool data)
    then have u: "u' = u" using assms(2) by (simp add: pending_ok_def)
    show ?thesis using assms(1) Find_winner u ok findDefault_row [of u tool table]
      by (fastforce simp: resume_def pending_ok_def split: option.splits)
  next
    case (Check_name row n)
    then show ?thesis using assms(1,2) ok(1) by (auto simp: resume_def pending_ok_def split: sum.splits)
  next
    case (Check_new_name u' n data)
    then show ?thesis using assms(1,2) ok(1) by (auto simp: resume_def pending_ok_def split: sum.splits)
  next
    case (Remove row)
    then have "wr_userId row = u" "(wr_id row, u) \<in> set issued" using assms(2) by (simp_all add: pending_ok_def)
    then show ?thesis using remove_row_effect [OF ok(1), of row] held [of _ row] assms(1) Remove by (auto simp: resume_def)
  qed
qed

lemma pending_ok_mono: "pending_ok issued u p \<Longrightarrow> pending_ok (e # issued) u p"
  by (auto simp: pending_ok_def split: option.splits)

lemma still_running_cases: "(u', q) \<in> set (still_running u pr) \<Longrightarrow> u' = u \<and> pr = Awaiting q"
  by (auto simp: still_running_def split: progress.splits)

lemma ws_step_effect:
  assumes "ws_step u s s'" "ws_inv s"
  shows "ws_inv s' \<and> (\<forall>v. v \<noteq> u \<longrightarrow> rows_of v (ss_table s') = rows_of v (ss_table s))"
  using assms
proof cases
  case (begins c)
  have "pending_ok (ss_issued s) u' q" if "(u', q) \<in> set (still_running u (begin_call u c (ss_table s)))" for u' q
    using still_running_cases [OF that] begin_call_ok [of u c "ss_table s" q "ss_issued s"] assms(2) by (auto simp: ws_inv_def)
  then show ?thesis using begins assms(2) by (auto simp: ws_inv_def)
next
  case (resumes xs p ys i pr table')
  have "pending_ok (ss_issued s) u p" using assms(2) resumes by (auto simp: ws_inv_def)
  note R = resume_effect [OF resumes(4) this _ _ _ resumes(3)]
  have E: "table_ok table'" "\<forall>r \<in> set table'. r \<in> set (ss_table s) \<or> (wr_id r, wr_userId r) \<in> set ((i, u) # ss_issued s)"
      "\<forall>v. v \<noteq> u \<longrightarrow> rows_of v table' = rows_of v (ss_table s)"
      "\<forall>q. pr = Awaiting q \<longrightarrow> pending_ok ((i, u) # ss_issued s) u q"
    using R assms(2) unfolding ws_inv_def by blast+
  have "pending_ok ((i, u) # ss_issued s) u' q" if "(u', q) \<in> set (xs @ still_running u pr @ ys)" for u' q
  proof -
    have "(u', q) \<in> set (ss_running s) \<or> u' = u \<and> pr = Awaiting q"
      using that still_running_cases [of u' q u pr] resumes(2) by auto
    then show ?thesis using E(4) assms(2) pending_ok_mono unfolding ws_inv_def by blast
  qed
  moreover have "\<forall>r \<in> set table'. (wr_id r, wr_userId r) \<in> set ((i, u) # ss_issued s)"
    using E(2) assms(2) unfolding ws_inv_def by auto
  moreover have "distinct (map fst ((i, u) # ss_issued s))" using assms(2) resumes(3) by (simp add: ws_inv_def)
  ultimately show ?thesis using E(1,3) unfolding resumes(1) ws_inv_def by auto
next
  case (lost xs p ys)
  then show ?thesis using assms(2) by (auto simp: ws_inv_def)
qed

lemma reachable_inv: "ws_reachable s \<Longrightarrow> ws_inv s"
proof (induction rule: ws_reachable.induct)
  case ws_start
  show ?case by (simp add: ws_inv_def table_ok_def)
next
  case (ws_next s u s')
  then show ?case using ws_step_effect by blast
qed

text \<open>
  C9. Requests of one user never touch another's workspaces. However the requests of any users
  interleave at their repository calls, with stale rows in hand, lost races and lost processes, a
  step for one user leaves the rows of all others as they are, and the table keeps distinct ids, at
  most one workspace of a name (or without one) per user and tool, and distinct share tokens.
\<close>

theorem workspaces_isolated:
  assumes "ws_reachable s" "ws_step u s s'"
  shows "(\<forall>v. v \<noteq> u \<longrightarrow> rows_of v (ss_table s') = rows_of v (ss_table s)) \<and> table_ok (ss_table s')"
  using ws_step_effect [OF assms(2) reachable_inv [OF assms(1)]] by (auto simp: ws_inv_def)

section \<open>Upserts\<close>

text \<open>A request that runs on without others in between.\<close>

fun run_on :: "string \<Rightarrow> nat \<Rightarrow> progress \<Rightarrow> workspace_row list \<Rightarrow> progress \<times> workspace_row list" where
  "run_on i (Suc n) (Awaiting p) table = (let (pr, table') = resume i p table in run_on i n pr table')"
| "run_on i n pr table = (pr, table)"

definition is_default :: "string \<Rightarrow> workspace_tool \<Rightarrow> workspace_row \<Rightarrow> bool" where
  "is_default u tool r \<longleftrightarrow> wr_userId r = u \<and> wr_tool r = tool \<and> wr_name r = None"

lemma findDefault_None: "findDefaultWorkspace u tool table = None \<longleftrightarrow> (\<forall>r \<in> set table. \<not> is_default u tool r)"
  by (auto simp: findDefaultWorkspace_def find_None_iff is_default_def)

lemma findDefault_unique:
  assumes "table_ok table" "r \<in> set table" "is_default u tool r"
  shows "findDefaultWorkspace u tool table = Some r"
proof (cases "findDefaultWorkspace u tool table")
  case None
  then show ?thesis using assms findDefault_None by blast
next
  case (Some w)
  note w = findDefault_row [OF Some]
  have "conflicting w r" using w assms(3) by (simp add: conflicting_def is_default_def)
  then have "wr_id w = wr_id r" using assms(1,2) w unfolding table_ok_def by blast
  then have "w = r" using assms(1,2) w by (metis eq_key_imp_eq_value map_of_eq_Some_iff table_ok_def distinct_map inj_onD)
  then show ?thesis using Some by simp
qed

lemma save_new_data:
  assumes "table_ok table" "w \<in> set table"
  shows "save_row (w\<lparr>wr_data := data\<rparr>) table = Inr (map (\<lambda>r. if wr_id r = wr_id w then w\<lparr>wr_data := data\<rparr> else r) table)"
proof -
  have "conflicting r (w\<lparr>wr_data := data\<rparr>) = conflicting r w" for r by (simp add: conflicting_def)
  then have "\<not> violates (w\<lparr>wr_data := data\<rparr>) table"
    using assms by (auto simp: violates_def list_ex_iff table_ok_def)
  moreover have "list_ex (\<lambda>r. wr_id r = wr_id w) table" using assms(2) by (auto simp: list_ex_iff)
  ultimately show ?thesis by (simp add: save_row_def)
qed

definition upsert_done :: "string \<Rightarrow> workspace_tool \<Rightarrow> json \<Rightarrow> workspace_row list \<Rightarrow> progress \<times> workspace_row list \<Rightarrow> bool" where
  "upsert_done u tool data table res \<longleftrightarrow>
     (case res of
        (Finished (Some row), table') \<Rightarrow>
          wr_data row = data \<and> getWorkspace u tool table' = data \<and> table_ok table'
          \<and> filter (\<lambda>r. \<not> is_default u tool r) table' = filter (\<lambda>r. \<not> is_default u tool r) table
      | _ \<Rightarrow> False)"

lemma upsert_doneI:
  assumes "save_row row table = Inr table'" "table_ok table" "is_default u tool row" "wr_data row = J_obj m"
    "\<forall>r \<in> set table. wr_id r = wr_id row \<longrightarrow> is_default u tool r"
  shows "upsert_done u tool (J_obj m) table (Finished (Some row), table')"
proof -
  have owner: "\<forall>r \<in> set table. wr_id r = wr_id row \<longrightarrow> wr_userId r = wr_userId row"
    using assms(3,5) by (simp add: is_default_def)
  note E = save_row_effect [OF assms(1,2) owner]
  have "findDefaultWorkspace u tool table' = Some row" using findDefault_unique E assms(3) by blast
  then have "getWorkspace u tool table' = J_obj m" using assms(4) by (simp add: getWorkspace_def)
  moreover have "filter (\<lambda>r. \<not> is_default u tool r) table' = filter (\<lambda>r. \<not> is_default u tool r) table"
  proof (cases "list_ex (\<lambda>r. wr_id r = wr_id row) table")
    case True
    then have "table' = map (\<lambda>r. if wr_id r = wr_id row then row else r) table"
      using assms(1) by (simp add: save_row_def split: if_splits)
    then show ?thesis using assms(3,5) by (induction table arbitrary: table') auto
  next
    case False
    then have "table' = table @ [row]" using assms(1) by (simp add: save_row_def split: if_splits)
    then show ?thesis using assms(3) by simp
  qed
  ultimately show ?thesis using E assms(4) by (simp add: upsert_done_def)
qed

lemma upsert_saves_winner:
  assumes "table_ok table" "findDefaultWorkspace u tool table = Some w"
  shows "upsert_done u tool (J_obj m) table (resume i (Save (w\<lparr>wr_data := J_obj m\<rparr>)) table)"
proof -
  note w = findDefault_row [OF assms(2)]
  have own: "r = w" if "r \<in> set table" "wr_id r = wr_id w" for r
    using assms(1) w that by (metis distinct_map inj_onD table_ok_def)
  obtain t where t: "save_row (w\<lparr>wr_data := J_obj m\<rparr>) table = Inr t" using save_new_data [OF assms(1)] w by blast
  have "upsert_done u tool (J_obj m) table (Finished (Some (w\<lparr>wr_data := J_obj m\<rparr>)), t)"
    by (rule upsert_doneI [OF t assms(1)]) (use w own in \<open>auto simp: is_default_def\<close>)
  then show ?thesis by (simp add: resume_def saved_def t)
qed

text \<open>
  C33. The last upsert wins, also after losing the race to insert. Whether it has found the default
  workspace, has found none, or has found none before another request inserted it, an upsert that
  goes on without further interference succeeds; the tool's workspace is then the one just sent, and
  nothing else in the table has changed.
\<close>

theorem upsert_last_write_wins:
  assumes "table_ok table" "\<forall>r \<in> set table. wr_id r \<noteq> i"
    and "pr = begin_call u (Upsert tool (J_obj m)) table \<or> pr = Awaiting (Upsert_insert u tool (J_obj m))"
  shows "upsert_done u tool (J_obj m) table (run_on i 3 pr table)"
proof (cases "findDefaultWorkspace u tool table")
  case None
  then have none: "\<forall>r \<in> set table. \<not> is_default u tool r" by (simp add: findDefault_None)
  have pr: "pr = Awaiting (Upsert_insert u tool (J_obj m))"
    using assms(3) None by (auto simp: begin_call_def upsertWorkspace_def)
  let ?row = "new_row i u tool None (J_obj m)"
  have "\<not> violates ?row table"
    using none by (auto simp: violates_def list_ex_iff conflicting_def new_row_def is_default_def)
  moreover have "\<not> list_ex (\<lambda>r. wr_id r = i) table" using assms(2) by (simp add: list_ex_iff)
  ultimately have s: "save_row ?row table = Inr (table @ [?row])" by (simp add: save_row_def new_row_def)
  have "upsert_done u tool (J_obj m) table (Finished (Some ?row), table @ [?row])"
    by (rule upsert_doneI [OF s assms(1)]) (use assms(2) in \<open>auto simp: new_row_def is_default_def\<close>)
  then show ?thesis by (simp add: pr numeral_3_eq_3 resume_def s)
next
  case (Some w)
  note w = findDefault_row [OF Some]
  have "conflicting w (new_row i u tool None (J_obj m))" using w by (simp add: conflicting_def new_row_def)
  then have "violates (new_row i u tool None (J_obj m)) table"
    using w assms(2) by (auto simp: violates_def list_ex_iff new_row_def)
  then have lost: "resume i (Upsert_insert u tool (J_obj m)) table = (Awaiting (Find_winner u tool (J_obj m)), table)"
    by (simp add: resume_def save_row_def)
  have found: "resume i (Find_winner u tool (J_obj m)) table = (Awaiting (Save (w\<lparr>wr_data := J_obj m\<rparr>)), table)"
    by (simp add: resume_def Some)
  obtain row t where R: "resume i (Save (w\<lparr>wr_data := J_obj m\<rparr>)) table = (Finished (Some row), t)"
    using upsert_saves_winner [OF assms(1) Some, of m i]
    by (auto simp: upsert_done_def split: prod.splits progress.splits option.splits)
  have D: "upsert_done u tool (J_obj m) table (Finished (Some row), t)"
    using upsert_saves_winner [OF assms(1) Some, of m i] R by simp
  have "pr = Awaiting (Save (w\<lparr>wr_data := J_obj m\<rparr>)) \<or> pr = Awaiting (Upsert_insert u tool (J_obj m))"
    using assms(3) Some by (auto simp: begin_call_def upsertWorkspace_def)
  then show ?thesis using D R lost found by (auto simp: numeral_3_eq_3)
qed

section \<open>Share links\<close>


section \<open>A stale save\<close>

definition shared_row :: workspace_row where
  "shared_row = \<lparr>wr_id = ''w'', wr_userId = ''u'', wr_tool = Tool_composer, wr_name = Some ''flow'', wr_data = J_obj [],
     wr_shareToken = Some ''t'', wr_shareExpiresAt = Some 10\<rparr>"

text \<open>An update that has read the row before it was unshared saves the share token back.\<close>

lemma stale_save_restores_share:
  "let update = begin_call ''u'' (Update ''w'' (J_obj [])) [shared_row];
       unshared = snd (run_on ''x'' 1 (begin_call ''u'' (Unshare ''w'') [shared_row]) [shared_row]);
       updated = snd (run_on ''x'' 1 update unshared)
   in getSharedWorkspace (\<lambda>_. None) 5 ''t'' unshared = Inl Shared_not_found
      \<and> getSharedWorkspace (\<lambda>_. None) 5 ''t'' updated = Inr shared_row"
  by code_simp

section \<open>Witnesses\<close>

lemma workspaces_isolated_witness:
  "table_ok [new_row ''1'' ''u'' Tool_inspector None (J_obj [])]
   \<and> rows_of ''v'' [new_row ''1'' ''u'' Tool_inspector None (J_obj [])] = rows_of ''v'' []"
proof -
  let ?s = "\<lparr>ss_table = [], ss_running = [(''u'', Upsert_insert ''u'' Tool_inspector (J_obj []))], ss_issued = []\<rparr>"
  have b: "still_running ''u'' (begin_call ''u'' (Upsert Tool_inspector (J_obj [])) []) = [(''u'', Upsert_insert ''u'' Tool_inspector (J_obj []))]"
    by (simp add: still_running_def begin_call_def upsertWorkspace_def findDefaultWorkspace_def)
  have "ws_reachable ?s"
    using ws_next [OF ws_start begins [of "''u''" _ "Upsert Tool_inspector (J_obj [])"]] b by simp
  moreover have "ws_step ''u'' ?s \<lparr>ss_table = [new_row ''1'' ''u'' Tool_inspector None (J_obj [])], ss_running = [] @ still_running ''u''
      (Finished (Some (new_row ''1'' ''u'' Tool_inspector None (J_obj [])))) @ [], ss_issued = (''1'', ''u'') # ss_issued ?s\<rparr>"
    by (rule resumes [where p = "Upsert_insert ''u'' Tool_inspector (J_obj [])"])
      (simp_all add: resume_def save_row_def violates_def)
  ultimately show ?thesis using workspaces_isolated [of ?s "''u''"] by fastforce
qed

lemma upsert_last_write_wins_witness:
  "upsert_done ''u'' Tool_inspector (J_obj [(''a'', J_null)]) [new_row ''1'' ''u'' Tool_inspector None (J_obj [])]
     (run_on ''2'' 3 (Awaiting (Upsert_insert ''u'' Tool_inspector (J_obj [(''a'', J_null)])))
        [new_row ''1'' ''u'' Tool_inspector None (J_obj [])])"
  by (rule upsert_last_write_wins) (simp_all add: table_ok_def new_row_def)


end
