(* ===== verification/AuthSessions.thy ===== *)
theory AuthSessions
  imports Prelude
begin

text \<open>
  Sessions of \<open>apps/api/src/modules/auth/auth.service.ts\<close>: login, email verification, password
  reset, the rotation of refresh tokens and their revocation. A request is cut at its repository
  calls, as in \<open>WorkspaceStore\<close>; the arguments of a call are computed with the code before it. SHA-256 and
  the verification of argon2 are parameters, and random values come in as nonces. Access tokens are
  signed and checked by the JWT library and leave no state; they are left out, as is the mail.
\<close>

section \<open>Rows\<close>

record auth_user =
  au_id :: string
  au_email :: string
  au_passwordHash :: "string option"
  au_emailVerified :: bool
  au_emailVerificationToken :: "string option"
  au_emailVerificationExpiresAt :: "int option"
  au_passwordResetToken :: "string option"
  au_passwordResetExpiresAt :: "int option"

record refresh_row =
  rt_id :: string
  rt_tokenHash :: string
  rt_userId :: string
  rt_familyId :: string
  rt_revokedAt :: "int option"
  rt_expiresAt :: int
  rt_ipAddress :: "string option"
  rt_userAgent :: "string option"

record issue_context =
  ic_ipAddress :: "string option"
  ic_userAgent :: "string option"

record auth_env =
  ae_sha256 :: "string \<Rightarrow> string"
  ae_verify :: "string \<Rightarrow> string \<Rightarrow> bool"

text \<open>A random token, a random uuid, and the id that the database gives to an inserted row.\<close>

record auth_nonce =
  an_token :: string
  an_uuid :: string
  an_id :: string

record auth_state =
  as_users :: "auth_user list"
  as_tokens :: "refresh_row list"
  as_buckets :: "(string, int list) jmap"

definition REFRESH_TOKEN_TTL_SECONDS :: int where "REFRESH_TOKEN_TTL_SECONDS = 30 * 24 * 60 * 60"
definition REFRESH_TOKEN_REUSE_GRACE_MS :: int where "REFRESH_TOKEN_REUSE_GRACE_MS = 10 * 1000"
definition PASSWORD_RESET_TTL_SECONDS :: int where "PASSWORD_RESET_TTL_SECONDS = 30 * 60"
definition PASSWORD_RESET_MAX_PER_EMAIL :: nat where "PASSWORD_RESET_MAX_PER_EMAIL = 5"
definition PASSWORD_RESET_MAX_PER_IP :: nat where "PASSWORD_RESET_MAX_PER_IP = 20"
definition PASSWORD_RESET_WINDOW_MS :: int where "PASSWORD_RESET_WINDOW_MS = 15 * 60 * 1000"

datatype auth_error =
    Invalid_credentials
  | Invalid_refresh_token
  | Token_invalid string
  | Token_expired string
  | Session_not_found
  | No_user   \<comment> \<open>a token whose user is gone\<close>

section \<open>The rate limiter\<close>

definition isRateLimited ::
  "string \<Rightarrow> nat \<Rightarrow> int \<Rightarrow> int \<Rightarrow> (string, int list) jmap \<Rightarrow> bool \<times> (string, int list) jmap" where
  "isRateLimited key limit windowMs now buckets =
     (let hits = filter (\<lambda>timestamp. now - timestamp < windowMs)
            (case jm_get buckets key of Some ts \<Rightarrow> ts | None \<Rightarrow> [])
      in if length hits \<ge> limit then (True, jm_set buckets key hits)
         else let buckets' = jm_set buckets key (hits @ [now])
              in (False, if length buckets' > 10000
                         then filter (\<lambda>(k, timestamps). \<not> list_all (\<lambda>timestamp. now - timestamp \<ge> windowMs) timestamps) buckets'
                         else buckets'))"

section \<open>Requests\<close>

datatype auth_call =
    Login string string issue_context
  | Verify_email string
  | Forgot_password string "string option"   \<comment> \<open>email, address\<close>
  | Reset_password string string   \<comment> \<open>token, hash of the new password\<close>
  | Refresh string issue_context
  | Logout "string option"
  | Revoke_session string string

text \<open>What a request is about to ask of a repository.\<close>

datatype auth_pending =
    Claim refresh_row "auth_user option" issue_context int
  | Look_up refresh_row
  | Revoke_family string int
  | Insert_token refresh_row auth_user
  | Save_reset auth_user
  | Revoke_user string int
  | Save_verified auth_user
  | Save_requested auth_user
  | Delete_hash string
  | Delete_session string

datatype auth_progress = Refused auth_error | Completed | Session auth_user | Waits auth_pending

definition find_user :: "(auth_user \<Rightarrow> bool) \<Rightarrow> auth_state \<Rightarrow> auth_user option" where
  "find_user P st = find P (as_users st)"

definition save_user :: "auth_user \<Rightarrow> auth_state \<Rightarrow> auth_state" where
  "save_user u st =
     st\<lparr>as_users := (if list_ex (\<lambda>v. au_id v = au_id u) (as_users st)
                     then map (\<lambda>v. if au_id v = au_id u then u else v) (as_users st) else as_users st @ [u])\<rparr>"

definition update_tokens :: "(refresh_row \<Rightarrow> bool) \<Rightarrow> int \<Rightarrow> auth_state \<Rightarrow> auth_state" where
  "update_tokens P revokedAt st =
     st\<lparr>as_tokens := map (\<lambda>r. if P r then r\<lparr>rt_revokedAt := Some revokedAt\<rparr> else r) (as_tokens st)\<rparr>"

definition issueSession :: "auth_env \<Rightarrow> auth_nonce \<Rightarrow> int \<Rightarrow> auth_user \<Rightarrow> issue_context \<Rightarrow> string option \<Rightarrow> auth_progress" where
  "issueSession env nonce now user ctx familyId =
     Waits (Insert_token
       \<lparr>rt_id = [], rt_tokenHash = ae_sha256 env (an_token nonce), rt_userId = au_id user,
        rt_familyId = (case familyId of Some f \<Rightarrow> f | None \<Rightarrow> an_uuid nonce), rt_revokedAt = None,
        rt_expiresAt = now + REFRESH_TOKEN_TTL_SECONDS * 1000,
        rt_ipAddress = ic_ipAddress ctx, rt_userAgent = ic_userAgent ctx\<rparr> user)"

definition login :: "auth_env \<Rightarrow> auth_nonce \<Rightarrow> int \<Rightarrow> string \<Rightarrow> string \<Rightarrow> issue_context \<Rightarrow> auth_state \<Rightarrow> auth_progress" where
  "login env nonce now email password ctx st =
     (case find_user (\<lambda>u. au_email u = to_lower email) st of
        None \<Rightarrow> Refused Invalid_credentials
      | Some user \<Rightarrow>
          (case au_passwordHash user of
             None \<Rightarrow> Refused Invalid_credentials
           | Some h \<Rightarrow> if h = [] \<or> \<not> ae_verify env h password then Refused Invalid_credentials
                       else issueSession env nonce now user ctx None))"

definition verifyEmail :: "auth_env \<Rightarrow> int \<Rightarrow> string \<Rightarrow> auth_state \<Rightarrow> auth_progress" where
  "verifyEmail env now token st =
     (case find_user (\<lambda>u. au_emailVerificationToken u = Some (ae_sha256 env token)) st of
        None \<Rightarrow> Refused (Token_invalid ''Verification token is invalid'')
      | Some user \<Rightarrow>
          if (case au_emailVerificationExpiresAt user of None \<Rightarrow> True | Some t \<Rightarrow> t < now) then Refused (Token_expired ''TOKEN_EXPIRED'')
          else Waits (Save_verified (user\<lparr>au_emailVerified := True, au_emailVerificationToken := None,
                 au_emailVerificationExpiresAt := None\<rparr>)))"

definition requestPasswordReset ::
  "auth_env \<Rightarrow> auth_nonce \<Rightarrow> int \<Rightarrow> string \<Rightarrow> string option \<Rightarrow> auth_state \<Rightarrow> auth_progress \<times> auth_state" where
  "requestPasswordReset env nonce now email ipAddress st =
     (let normalized = to_lower (trim email);
          (byIp, b1) = isRateLimited (''pwreset:ip:'' @ (case ipAddress of Some a \<Rightarrow> a | None \<Rightarrow> ''unknown''))
             PASSWORD_RESET_MAX_PER_IP PASSWORD_RESET_WINDOW_MS now (as_buckets st);
          (limited, b2) = (if byIp then (True, b1)
             else isRateLimited (''pwreset:email:'' @ normalized) PASSWORD_RESET_MAX_PER_EMAIL PASSWORD_RESET_WINDOW_MS now b1);
          st' = st\<lparr>as_buckets := b2\<rparr>
      in if limited then (Completed, st')
         else case find_user (\<lambda>u. au_email u = normalized) st' of
                None \<Rightarrow> (Completed, st')
              | Some user \<Rightarrow>
                  if au_passwordHash user = None \<or> au_passwordHash user = Some [] then (Completed, st')
                  else (Waits (Save_requested (user\<lparr>au_passwordResetToken := Some (ae_sha256 env (an_token nonce)),
                          au_passwordResetExpiresAt := Some (now + PASSWORD_RESET_TTL_SECONDS * 1000)\<rparr>)), st'))"

definition resetPassword :: "auth_env \<Rightarrow> int \<Rightarrow> string \<Rightarrow> string \<Rightarrow> auth_state \<Rightarrow> auth_progress" where
  "resetPassword env now token newHash st =
     (case find_user (\<lambda>u. au_passwordResetToken u = Some (ae_sha256 env token)) st of
        None \<Rightarrow> Refused (Token_invalid ''Reset token is invalid'')
      | Some user \<Rightarrow>
          if (case au_passwordResetExpiresAt user of None \<Rightarrow> True | Some t \<Rightarrow> t \<le> now) then Refused (Token_expired ''RESET_TOKEN_EXPIRED'')
          else Waits (Save_reset (user\<lparr>au_passwordResetToken := None, au_passwordResetExpiresAt := None,
                 au_passwordHash := Some newHash\<rparr>)))"

definition refresh :: "auth_env \<Rightarrow> int \<Rightarrow> string \<Rightarrow> issue_context \<Rightarrow> auth_state \<Rightarrow> auth_progress" where
  "refresh env now rawRefreshToken ctx st =
     (case find (\<lambda>r. rt_tokenHash r = ae_sha256 env rawRefreshToken) (as_tokens st) of
        None \<Rightarrow> Refused Invalid_refresh_token
      | Some stored \<Rightarrow>
          if rt_expiresAt stored \<le> now then Refused Invalid_refresh_token
          else Waits (Claim stored (find_user (\<lambda>u. au_id u = rt_userId stored) st) ctx now))"

definition withinGrace :: "int \<Rightarrow> refresh_row option \<Rightarrow> bool" where
  "withinGrace now latest \<longleftrightarrow>
     (case latest of
        None \<Rightarrow> False
      | Some r \<Rightarrow> (case rt_revokedAt r of None \<Rightarrow> False
                  | Some consumedAt \<Rightarrow> consumedAt \<le> now \<and> now - consumedAt \<le> REFRESH_TOKEN_REUSE_GRACE_MS))"

text \<open>A request up to its second repository call.\<close>

definition begin_auth :: "auth_env \<Rightarrow> auth_nonce \<Rightarrow> int \<Rightarrow> auth_call \<Rightarrow> auth_state \<Rightarrow> auth_progress \<times> auth_state" where
  "begin_auth env nonce now c st =
     (case c of
        Login email password ctx \<Rightarrow> (login env nonce now email password ctx st, st)
      | Verify_email token \<Rightarrow> (verifyEmail env now token st, st)
      | Forgot_password email ipAddress \<Rightarrow> requestPasswordReset env nonce now email ipAddress st
      | Reset_password token newHash \<Rightarrow> (resetPassword env now token newHash st, st)
      | Refresh raw ctx \<Rightarrow> (refresh env now raw ctx st, st)
      | Logout raw \<Rightarrow> (case raw of Some t \<Rightarrow> if t = [] then Completed else Waits (Delete_hash (ae_sha256 env t)) | None \<Rightarrow> Completed, st)
      | Revoke_session sessionId userId \<Rightarrow>
          (if list_ex (\<lambda>r. rt_id r = sessionId \<and> rt_userId r = userId) (as_tokens st) then Waits (Delete_session sessionId)
           else Refused Session_not_found, st))"

text \<open>One repository call and the code up to the following one.\<close>

definition resume_auth :: "auth_env \<Rightarrow> auth_nonce \<Rightarrow> int \<Rightarrow> auth_pending \<Rightarrow> auth_state \<Rightarrow> auth_progress \<times> auth_state" where
  "resume_auth env nonce now p st =
     (case p of
        Claim stored user ctx revokedAt \<Rightarrow>
          (let claimed = (\<lambda>r. rt_id r = rt_id stored \<and> rt_revokedAt r = None)
           in if list_ex claimed (as_tokens st)
              then (case user of
                      None \<Rightarrow> Refused No_user
                    | Some u \<Rightarrow> issueSession env nonce now u ctx (Some (rt_familyId stored)), update_tokens claimed revokedAt st)
              else (Waits (Look_up stored), st))
      | Look_up stored \<Rightarrow>
          (if withinGrace now (find (\<lambda>r. rt_id r = rt_id stored) (as_tokens st)) then (Refused Invalid_refresh_token, st)
           else (Waits (Revoke_family (rt_familyId stored) now), st))
      | Revoke_family familyId revokedAt \<Rightarrow>
          (Refused Invalid_refresh_token, update_tokens (\<lambda>r. rt_familyId r = familyId) revokedAt st)
      | Insert_token row user \<Rightarrow> (Session user, st\<lparr>as_tokens := as_tokens st @ [row\<lparr>rt_id := an_id nonce\<rparr>]\<rparr>)
      | Save_reset user \<Rightarrow> (Waits (Revoke_user (au_id user) now), save_user user st)
      | Revoke_user userId revokedAt \<Rightarrow>
          (Completed, update_tokens (\<lambda>r. rt_userId r = userId \<and> rt_revokedAt r = None) revokedAt st)
      | Save_verified user \<Rightarrow>
          (issueSession env nonce now user \<lparr>ic_ipAddress = None, ic_userAgent = None\<rparr> None, save_user user st)
      | Save_requested user \<Rightarrow> (Completed, save_user user st)
      | Delete_hash tokenHash \<Rightarrow> (Completed, st\<lparr>as_tokens := filter (\<lambda>r. rt_tokenHash r \<noteq> tokenHash) (as_tokens st)\<rparr>)
      | Delete_session sessionId \<Rightarrow> (Completed, st\<lparr>as_tokens := filter (\<lambda>r. rt_id r \<noteq> sessionId) (as_tokens st)\<rparr>))"

definition listSessions :: "string \<Rightarrow> auth_state \<Rightarrow> refresh_row list" where
  "listSessions userId st = filter (\<lambda>r. rt_userId r = userId \<and> rt_revokedAt r = None) (as_tokens st)"

section \<open>Any interleaving of requests\<close>

text \<open>
  The waiting requests, the ids given to rows with the families of their tokens, and all families
  ever begun. Every segment of code reads the clock anew; nothing is assumed of the clock.
\<close>

record auth_system =
  ay_state :: auth_state
  ay_running :: "auth_pending list"
  ay_issued :: "(string \<times> string) list"
  ay_families :: "string list"

definition waiting :: "auth_progress \<Rightarrow> auth_pending list" where
  "waiting pr = (case pr of Waits p \<Rightarrow> [p] | _ \<Rightarrow> [])"

fun inserts :: "auth_pending \<Rightarrow> string option" where
  "inserts (Insert_token row u) = Some (rt_familyId row)"
| "inserts _ = None"

fun stored_row :: "auth_pending \<Rightarrow> refresh_row option" where
  "stored_row (Claim stored u ctx t) = Some stored"
| "stored_row (Look_up stored) = Some stored"
| "stored_row _ = None"

inductive auth_step :: "auth_env \<Rightarrow> auth_system \<Rightarrow> auth_system \<Rightarrow> bool" for env where
  auth_begins: "an_uuid nonce \<notin> set (ay_families s) \<Longrightarrow> begin_auth env nonce now c (ay_state s) = (pr, st') \<Longrightarrow>
    auth_step env s \<lparr>ay_state = st', ay_running = ay_running s @ waiting pr, ay_issued = ay_issued s,
      ay_families = an_uuid nonce # ay_families s\<rparr>"
| auth_resumes: "ay_running s = xs @ p # ys \<Longrightarrow> an_uuid nonce \<notin> set (ay_families s) \<Longrightarrow>
    an_id nonce \<notin> fst ` set (ay_issued s) \<Longrightarrow> resume_auth env nonce now p (ay_state s) = (pr, st') \<Longrightarrow>
    auth_step env s \<lparr>ay_state = st', ay_running = xs @ waiting pr @ ys,
      ay_issued = (case inserts p of Some f \<Rightarrow> (an_id nonce, f) # ay_issued s | None \<Rightarrow> ay_issued s),
      ay_families = an_uuid nonce # ay_families s\<rparr>"
| auth_lost: "ay_running s = xs @ p # ys \<Longrightarrow> auth_step env s (s\<lparr>ay_running := xs @ ys\<rparr>)"

inductive auth_reachable :: "auth_env \<Rightarrow> auth_system \<Rightarrow> bool" for env where
  auth_start: "as_tokens st = [] \<Longrightarrow> auth_reachable env \<lparr>ay_state = st, ay_running = [], ay_issued = [], ay_families = []\<rparr>"
| auth_next: "auth_reachable env s \<Longrightarrow> auth_step env s s' \<Longrightarrow> auth_reachable env s'"

text \<open>The tokens of a family that still work, and those about to be inserted.\<close>

definition live_rows :: "string \<Rightarrow> refresh_row list \<Rightarrow> nat" where
  "live_rows f rows = length (filter (\<lambda>r. rt_familyId r = f \<and> rt_revokedAt r = None) rows)"

abbreviation live :: "string \<Rightarrow> auth_state \<Rightarrow> nat" where
  "live f st \<equiv> live_rows f (as_tokens st)"

definition due :: "string \<Rightarrow> auth_pending list \<Rightarrow> nat" where
  "due f ps = length (filter (\<lambda>p. inserts p = Some f) ps)"

definition rows_ok :: "(string \<times> string) list \<Rightarrow> auth_state \<Rightarrow> bool" where
  "rows_ok issued st \<longleftrightarrow>
     distinct (map rt_id (as_tokens st)) \<and> (\<lambda>r. (rt_id r, rt_familyId r)) ` set (as_tokens st) \<subseteq> set issued"

definition pending_auth_ok :: "(string \<times> string) list \<Rightarrow> string list \<Rightarrow> auth_pending \<Rightarrow> bool" where
  "pending_auth_ok issued families p \<longleftrightarrow>
     (\<forall>f. inserts p = Some f \<longrightarrow> f \<in> set families)
     \<and> (\<forall>r. stored_row p = Some r \<longrightarrow> (rt_id r, rt_familyId r) \<in> set issued)"

definition auth_inv :: "auth_system \<Rightarrow> bool" where
  "auth_inv s \<longleftrightarrow>
     (\<forall>f. live f (ay_state s) + due f (ay_running s) \<le> 1) \<and> rows_ok (ay_issued s) (ay_state s)
     \<and> distinct (map fst (ay_issued s)) \<and> snd ` set (ay_issued s) \<subseteq> set (ay_families s)
     \<and> (\<forall>p \<in> set (ay_running s). pending_auth_ok (ay_issued s) (ay_families s) p)"

lemma due_simps [simp]: "due f [] = 0" "due f (p # ps) = (if inserts p = Some f then 1 else 0) + due f ps"
    "due f (ps @ qs) = due f ps + due f qs"
  by (simp_all add: due_def)

lemma save_user_tokens [simp]: "as_tokens (save_user u st) = as_tokens st"
  by (simp add: save_user_def)

lemma live_rows_simps [simp]:
  "live_rows f [] = 0" "live_rows f (rows @ rows') = live_rows f rows + live_rows f rows'"
  "live_rows f (r # rows) = (if rt_familyId r = f \<and> rt_revokedAt r = None then 1 else 0) + live_rows f rows"
  by (simp_all add: live_rows_def)

lemma live_filter: "live_rows f (filter P rows) \<le> live_rows f rows"
  by (induction rows) auto

lemma live_update: "live_rows f (as_tokens (update_tokens P t st)) \<le> live f st"
proof -
  have "live_rows f (map (\<lambda>r. if P r then r\<lparr>rt_revokedAt := Some t\<rparr> else r) rows) \<le> live_rows f rows" for rows
    by (induction rows) auto
  then show ?thesis by (simp add: update_tokens_def)
qed

lemma live_claim:
  assumes "\<exists>r \<in> set (as_tokens st). P r \<and> rt_familyId r = f \<and> rt_revokedAt r = None"
  shows "live_rows f (as_tokens (update_tokens P t st)) < live f st"
proof -
  have le: "live_rows f (map (\<lambda>r. if P r then r\<lparr>rt_revokedAt := Some t\<rparr> else r) rows) \<le> live_rows f rows" for rows
    by (induction rows) auto
  have "\<exists>r \<in> set rows. P r \<and> rt_familyId r = f \<and> rt_revokedAt r = None \<Longrightarrow>
      live_rows f (map (\<lambda>r. if P r then r\<lparr>rt_revokedAt := Some t\<rparr> else r) rows) < live_rows f rows" for rows
  proof (induction rows)
    case (Cons r rows)
    then show ?case using le [of rows] by (cases "P r \<and> rt_familyId r = f \<and> rt_revokedAt r = None") auto
  qed simp
  then show ?thesis using assms by (simp add: update_tokens_def)
qed

lemma update_tokens_keys:
  "map rt_id (as_tokens (update_tokens P t st)) = map rt_id (as_tokens st)"
  "(\<lambda>r. (rt_id r, rt_familyId r)) ` set (as_tokens (update_tokens P t st)) = (\<lambda>r. (rt_id r, rt_familyId r)) ` set (as_tokens st)"
proof -
  have "map (\<lambda>r. (rt_id r, rt_familyId r)) (as_tokens (update_tokens P t st)) = map (\<lambda>r. (rt_id r, rt_familyId r)) (as_tokens st)"
    by (simp add: update_tokens_def)
  then show "(\<lambda>r. (rt_id r, rt_familyId r)) ` set (as_tokens (update_tokens P t st)) = (\<lambda>r. (rt_id r, rt_familyId r)) ` set (as_tokens st)"
    by (metis list.set_map)
qed (simp add: update_tokens_def)

lemma rows_ok_update [simp]: "rows_ok issued (update_tokens P t st) = rows_ok issued st"
  unfolding rows_ok_def update_tokens_keys ..

lemma rows_ok_save [simp]: "rows_ok issued (save_user u st) = rows_ok issued st"
  by (simp add: rows_ok_def)

lemma rows_ok_filter: "rows_ok issued st \<Longrightarrow> rows_ok issued (st\<lparr>as_tokens := filter P (as_tokens st)\<rparr>)"
  by (auto simp: rows_ok_def distinct_map_filter)

lemma issueSession_waits:
  "issueSession env nonce now user ctx fam = Waits p \<Longrightarrow>
    inserts p = Some (case fam of Some f \<Rightarrow> f | None \<Rightarrow> an_uuid nonce) \<and> stored_row p = None"
  by (auto simp: issueSession_def)

lemma waiting_simps [simp]:
  "waiting (Waits p) = [p]" "waiting (Refused e) = []" "waiting Completed = []" "waiting (Session u) = []"
  by (simp_all add: waiting_def)

lemma waiting_mem: "p \<in> set (waiting pr) \<longleftrightarrow> pr = Waits p"
  by (cases pr) auto

text \<open>Beginning a request leaves the tokens; it inserts one at most into the family that it begins.\<close>

lemma begin_auth_effect:
  assumes "begin_auth env nonce now c st = (pr, st')"
  shows "as_tokens st' = as_tokens st
    \<and> (\<forall>p. pr = Waits p \<longrightarrow> (inserts p = None \<or> inserts p = Some (an_uuid nonce))
        \<and> (\<forall>r. stored_row p = Some r \<longrightarrow> r \<in> set (as_tokens st)))"
proof (cases c)
  case (Refresh raw ctx)
  then show ?thesis using assms
    by (auto simp: begin_auth_def refresh_def find_Some_iff split: option.splits if_splits)
next
  case (Login email password ctx)
  then show ?thesis using assms
    by (auto simp: begin_auth_def login_def dest!: issueSession_waits split: option.splits if_splits)
next
  case (Forgot_password email ip)
  then show ?thesis using assms
    by (auto simp: begin_auth_def requestPasswordReset_def Let_def split: prod.splits option.splits if_splits)
qed (use assms in \<open>auto simp: begin_auth_def verifyEmail_def resetPassword_def split: option.splits if_splits\<close>)

definition issued_by :: "auth_nonce \<Rightarrow> auth_pending \<Rightarrow> (string \<times> string) list \<Rightarrow> (string \<times> string) list" where
  "issued_by nonce p issued = (case inserts p of Some f \<Rightarrow> (an_id nonce, f) # issued | None \<Rightarrow> issued)"

lemma resume_auth_effect:
  assumes res: "resume_auth env nonce now p st = (pr, st')"
    and ok: "rows_ok issued st" "distinct (map fst issued)" "\<forall>r. stored_row p = Some r \<longrightarrow> (rt_id r, rt_familyId r) \<in> set issued"
    and fresh: "an_id nonce \<notin> fst ` set issued"
  shows "(\<forall>f. live f st' + due f (waiting pr) \<le> live f st + due f [p] + (if f = an_uuid nonce then 1 else 0))
    \<and> rows_ok (issued_by nonce p issued) st'
    \<and> (\<forall>q. pr = Waits q \<longrightarrow>
         (inserts q = None \<or> inserts q = Some (an_uuid nonce) \<or> (\<exists>r. stored_row p = Some r \<and> inserts q = Some (rt_familyId r)))
         \<and> (\<forall>r. stored_row q = Some r \<longrightarrow> stored_row p = Some r))"
proof (cases p)
  case (Claim stored user ctx t)
  let ?P = "\<lambda>r. rt_id r = rt_id stored \<and> rt_revokedAt r = None"
  show ?thesis
  proof (cases "list_ex ?P (as_tokens st)")
    case True
    then obtain r where r: "r \<in> set (as_tokens st)" "?P r" by (auto simp: list_ex_iff)
    have "(rt_id r, rt_familyId r) \<in> set issued" "(rt_id stored, rt_familyId stored) \<in> set issued"
      using ok(1,3) r(1) Claim by (auto simp: rows_ok_def)
    then have fam: "rt_familyId r = rt_familyId stored" using ok(2) r(2) by (metis eq_key_imp_eq_value)
    have less: "live_rows (rt_familyId stored) (as_tokens (update_tokens ?P t st)) < live (rt_familyId stored) st"
      by (rule live_claim) (use r fam in blast)
    have st': "st' = update_tokens ?P t st"
      and pr: "pr = (case user of None \<Rightarrow> Refused No_user | Some u \<Rightarrow> issueSession env nonce now u ctx (Some (rt_familyId stored)))"
      using res Claim True by (simp_all add: resume_auth_def Let_def)
    have due: "due f (waiting pr) \<le> (if f = rt_familyId stored then 1 else 0)" for f
      unfolding pr by (cases user) (auto simp: issueSession_def)
    have "live f st' + due f (waiting pr) \<le> live f st" for f
      using less due [of f] live_update [of f ?P t st] unfolding st' by (cases "f = rt_familyId stored") auto
    then show ?thesis
      using ok(1) Claim pr st' by (auto simp: issued_by_def trans_le_add1 dest!: issueSession_waits split: option.splits)
  next
    case False
    then have "pr = Waits (Look_up stored)" "st' = st" using res Claim by (simp_all add: resume_auth_def Let_def)
    then show ?thesis using ok(1) Claim by (simp add: issued_by_def)
  qed
next
  case (Look_up stored)
  then have "st' = st" "pr = Refused Invalid_refresh_token \<or> pr = Waits (Revoke_family (rt_familyId stored) now)"
    using res by (auto simp: resume_auth_def split: if_splits)
  then show ?thesis using ok(1) Look_up by (auto simp: issued_by_def)
next
  case (Insert_token row user)
  then have "pr = Session user" "st' = st\<lparr>as_tokens := as_tokens st @ [row\<lparr>rt_id := an_id nonce\<rparr>]\<rparr>"
    using res by (simp_all add: resume_auth_def)
  moreover have "an_id nonce \<notin> rt_id ` set (as_tokens st)" using fresh ok(1) by (force simp: rows_ok_def)
  ultimately show ?thesis using ok(1) Insert_token by (auto simp: rows_ok_def issued_by_def)
next
  case (Save_verified user)
  then have "st' = save_user user st" "pr = issueSession env nonce now user \<lparr>ic_ipAddress = None, ic_userAgent = None\<rparr> None"
    using res by (simp_all add: resume_auth_def)
  then show ?thesis using ok(1) Save_verified by (simp add: issued_by_def issueSession_def)
next
  case (Delete_hash h)
  then show ?thesis using res rows_ok_filter [OF ok(1)] live_filter live_filter [THEN le_SucI] by (auto simp: resume_auth_def issued_by_def trans_le_add1)
next
  case (Delete_session i)
  then show ?thesis using res rows_ok_filter [OF ok(1)] live_filter live_filter [THEN le_SucI] by (auto simp: resume_auth_def issued_by_def trans_le_add1)
qed (use res ok(1) live_update live_update [THEN le_SucI] in \<open>auto simp: resume_auth_def issued_by_def trans_le_add1\<close>)

lemma fresh_family:
  assumes "auth_inv s" "f \<notin> set (ay_families s)"
  shows "live f (ay_state s) = 0" "due f (ay_running s) = 0"
proof -
  have "rt_familyId r \<noteq> f" if "r \<in> set (as_tokens (ay_state s))" for r
    using assms that by (fastforce simp: auth_inv_def rows_ok_def)
  then show "live f (ay_state s) = 0" by (auto simp: live_rows_def filter_empty_conv)
  have "inserts q \<noteq> Some f" if "q \<in> set (ay_running s)" for q
    using assms that by (auto simp: auth_inv_def pending_auth_ok_def)
  then show "due f (ay_running s) = 0" by (auto simp: due_def filter_empty_conv)
qed

lemma auth_step_inv:
  assumes "auth_step env s s'" "auth_inv s"
  shows "auth_inv s'"
  using assms(1)
proof cases
  case (auth_begins nonce now c pr st')
  note B = begin_auth_effect [OF auth_begins(3)]
  note none = fresh_family [OF assms(2) auth_begins(2)]
  have "due f (waiting pr) \<le> (if f = an_uuid nonce then 1 else 0)" for f
    using B by (cases pr) auto
  note new_due = this
  have "live f st' + due f (ay_running s @ waiting pr) \<le> 1" for f
  proof (cases "f = an_uuid nonce")
    case True
    have "live f st' = 0" using B none(1) True by simp
    then show ?thesis using none(2) new_due [of f] True by simp
  next
    case False
    have "live f st' + due f (ay_running s) \<le> 1" using B assms(2) by (simp add: auth_inv_def)
    then show ?thesis using new_due [of f] False by simp
  qed
  moreover have "pending_auth_ok (ay_issued s) (an_uuid nonce # ay_families s) p"
    if "p \<in> set (ay_running s @ waiting pr)" for p
  proof (cases "p \<in> set (ay_running s)")
    case True
    then show ?thesis using assms(2) by (auto simp: auth_inv_def pending_auth_ok_def)
  next
    case False
    then have "pr = Waits p" using that by (simp add: waiting_mem)
    then show ?thesis using B assms(2) by (auto simp: auth_inv_def pending_auth_ok_def rows_ok_def)
  qed
  ultimately show ?thesis using assms(2) B unfolding auth_begins(1) by (auto simp: auth_inv_def rows_ok_def)
next
  case (auth_resumes xs p ys nonce now pr st')
  have p: "pending_auth_ok (ay_issued s) (ay_families s) p" using assms(2) auth_resumes(2) by (auto simp: auth_inv_def)
  have ok: "rows_ok (ay_issued s) (ay_state s)" "distinct (map fst (ay_issued s))" using assms(2) by (simp_all add: auth_inv_def)
  have stored: "\<forall>r. stored_row p = Some r \<longrightarrow> (rt_id r, rt_familyId r) \<in> set (ay_issued s)"
    using p by (simp add: pending_auth_ok_def)
  note R = resume_auth_effect [OF auth_resumes(5) ok stored auth_resumes(4)]
  note none = fresh_family [OF assms(2) auth_resumes(3)]
  have R1: "live f st' + due f (waiting pr) \<le> live f (ay_state s) + due f [p] + (if f = an_uuid nonce then 1 else 0)" for f
    using R by blast
  have count: "live f (ay_state s) + due f xs + due f [p] + due f ys \<le> 1" for f
  proof -
    have "live f (ay_state s) + due f (ay_running s) \<le> 1" using assms(2) by (simp only: auth_inv_def)
    then show ?thesis unfolding auth_resumes(2) due_simps by linarith
  qed
  have "live f st' + due f (xs @ waiting pr @ ys) \<le> 1" for f
  proof (cases "f = an_uuid nonce")
    case True
    then have "due f xs + due f [p] + due f ys = 0" "live f (ay_state s) = 0" using none auth_resumes(2) by simp_all
    moreover have "live f st' + due f (waiting pr) \<le> live f (ay_state s) + due f [p] + 1" using R1 [of f] True by simp
    ultimately show ?thesis by simp
  next
    case False
    then have "live f st' + due f (waiting pr) \<le> live f (ay_state s) + due f [p]" using R1 [of f] by simp
    then show ?thesis using count [of f] by simp
  qed
  moreover have "pending_auth_ok (issued_by nonce p (ay_issued s)) (an_uuid nonce # ay_families s) q"
    if "q \<in> set (xs @ waiting pr @ ys)" for q
  proof (cases "q \<in> set (ay_running s)")
    case True
    then show ?thesis using assms(2) by (auto simp: auth_inv_def pending_auth_ok_def issued_by_def split: option.split)
  next
    case False
    then have "pr = Waits q" using that auth_resumes(2) by (auto simp: waiting_mem)
    then have Q: "inserts q = None \<or> inserts q = Some (an_uuid nonce) \<or> (\<exists>r. stored_row p = Some r \<and> inserts q = Some (rt_familyId r))"
        "\<forall>r. stored_row q = Some r \<longrightarrow> stored_row p = Some r"
      using R by blast+
    have "snd ` set (ay_issued s) \<subseteq> set (ay_families s)" using assms(2) by (simp add: auth_inv_def)
    then have "rt_familyId r \<in> set (ay_families s)" if "stored_row p = Some r" for r using stored that by force
    then show ?thesis using Q stored by (auto simp: pending_auth_ok_def issued_by_def split: option.split)
  qed
  moreover have "distinct (map fst (issued_by nonce p (ay_issued s)))"
      "snd ` set (issued_by nonce p (ay_issued s)) \<subseteq> set (an_uuid nonce # ay_families s)"
    using assms(2) auth_resumes(4) p by (auto simp: auth_inv_def issued_by_def pending_auth_ok_def split: option.split)
  ultimately show ?thesis using R unfolding auth_resumes(1) auth_inv_def by (simp add: issued_by_def)
next
  case (auth_lost xs p ys)
  have "live f (ay_state s) + due f (xs @ ys) \<le> 1" for f
  proof -
    have "live f (ay_state s) + due f (ay_running s) \<le> 1" using assms(2) by (simp only: auth_inv_def)
    then show ?thesis unfolding auth_lost(2) due_simps by linarith
  qed
  then show ?thesis using assms(2) auth_lost by (auto simp: auth_inv_def)
qed

lemma auth_reachable_inv: "auth_reachable env s \<Longrightarrow> auth_inv s"
proof (induction rule: auth_reachable.induct)
  case (auth_start st)
  then show ?case by (simp add: auth_inv_def rows_ok_def)
next
  case (auth_next s s')
  then show ?case using auth_step_inv by blast
qed

text \<open>
  C2. A refresh token is a single-use token. However refreshes, logins, resets and logouts of any
  users interleave at their repository calls, in every family of tokens at most one token is not
  revoked, even counting the one that a refresh is about to insert: no token is ever exchanged for
  two successors.
\<close>

theorem one_live_token_per_family:
  assumes "auth_reachable env s"
  shows "length (filter (\<lambda>r. rt_familyId r = f \<and> rt_revokedAt r = None) (as_tokens (ay_state s)))
    + length (filter (\<lambda>p. inserts p = Some f) (ay_running s)) \<le> 1"
  using auth_reachable_inv [OF assms] by (simp add: auth_inv_def live_rows_def due_def)

section \<open>Requests that run alone\<close>

fun run_auth :: "auth_env \<Rightarrow> auth_nonce \<Rightarrow> int \<Rightarrow> nat \<Rightarrow> auth_progress \<times> auth_state \<Rightarrow> auth_progress \<times> auth_state" where
  "run_auth env nonce now (Suc n) (Waits p, st) = run_auth env nonce now n (resume_auth env nonce now p st)"
| "run_auth env nonce now n (pr, st) = (pr, st)"

lemma run_auth_stopped [simp]:
  "run_auth env nonce now n (Refused e, st) = (Refused e, st)" "run_auth env nonce now n (Completed, st) = (Completed, st)"
  "run_auth env nonce now n (Session u, st) = (Session u, st)"
  by (cases n; simp)+

lemma find_id:
  assumes "distinct (map rt_id rows)" "stored \<in> set rows"
  shows "find (\<lambda>r. rt_id r = rt_id stored) rows = Some stored"
  using assms by (induction rows) auto

text \<open>
  C3. Reusing a consumed refresh token kills its family. When a token that has been consumed, and
  not within the last ten seconds, is presented once more before it expires, the request is refused
  and every token of its family is revoked, the newest one included; no other row changes.
\<close>

theorem reuse_revokes_family:
  assumes "find (\<lambda>r. rt_tokenHash r = ae_sha256 env raw) (as_tokens st) = Some stored"
    and "rt_revokedAt stored = Some consumedAt" "now < rt_expiresAt stored" "consumedAt + 10000 < now"
    and "distinct (map rt_id (as_tokens st))"
  shows "run_auth env nonce now 3 (begin_auth env nonce now (Refresh raw ctx) st)
    = (Refused Invalid_refresh_token,
       st\<lparr>as_tokens := map (\<lambda>r. if rt_familyId r = rt_familyId stored then r\<lparr>rt_revokedAt := Some now\<rparr> else r) (as_tokens st)\<rparr>)"
proof -
  let ?user = "find_user (\<lambda>u. au_id u = rt_userId stored) st"
  have mem: "stored \<in> set (as_tokens st)" using assms(1) by (auto simp: find_Some_iff)
  have b: "begin_auth env nonce now (Refresh raw ctx) st = (Waits (Claim stored ?user ctx now), st)"
    using assms(1,3) by (simp add: begin_auth_def refresh_def)
  have "\<not> list_ex (\<lambda>r. rt_id r = rt_id stored \<and> rt_revokedAt r = None) (as_tokens st)"
    using mem assms(2,5) by (auto simp: list_ex_iff distinct_map dest: inj_onD)
  then have c: "resume_auth env nonce now (Claim stored ?user ctx now) st = (Waits (Look_up stored), st)"
    by (simp add: resume_auth_def)
  have "\<not> withinGrace now (find (\<lambda>r. rt_id r = rt_id stored) (as_tokens st))"
    using find_id [OF assms(5) mem] assms(2,4) by (simp add: withinGrace_def REFRESH_TOKEN_REUSE_GRACE_MS_def)
  then have l: "resume_auth env nonce now (Look_up stored) st = (Waits (Revoke_family (rt_familyId stored) now), st)"
    by (simp add: resume_auth_def)
  show ?thesis unfolding numeral_3_eq_3 b by (simp add: c l) (simp add: resume_auth_def update_tokens_def)
qed

subsection \<open>Password reset\<close>

lemma refresh_of_revoked:
  assumes "\<forall>r \<in> set (as_tokens st). rt_userId r = u \<longrightarrow> rt_revokedAt r \<noteq> None" "distinct (map rt_id (as_tokens st))"
    and "find (\<lambda>r. rt_tokenHash r = ae_sha256 env raw) (as_tokens st) = Some stored" "rt_userId stored = u"
  shows "fst (run_auth env nonce now n (begin_auth env nonce now (Refresh raw ctx) st)) \<noteq> Session v"
proof (cases "rt_expiresAt stored \<le> now")
  case True
  then show ?thesis using assms(3) by (cases n) (simp_all add: begin_auth_def refresh_def)
next
  case False
  let ?user = "find_user (\<lambda>u. au_id u = rt_userId stored) st"
  have mem: "stored \<in> set (as_tokens st)" using assms(3) by (auto simp: find_Some_iff)
  have b: "begin_auth env nonce now (Refresh raw ctx) st = (Waits (Claim stored ?user ctx now), st)"
    using assms(3) False by (simp add: begin_auth_def refresh_def)
  have "\<not> list_ex (\<lambda>r. rt_id r = rt_id stored \<and> rt_revokedAt r = None) (as_tokens st)"
    using mem assms(1,2,4) by (auto simp: list_ex_iff distinct_map dest: inj_onD)
  then have c: "resume_auth env nonce now (Claim stored ?user ctx now) st = (Waits (Look_up stored), st)"
    by (simp add: resume_auth_def)
  have l: "\<exists>pr. resume_auth env nonce now (Look_up stored) st = (pr, st) \<and>
      (pr = Refused Invalid_refresh_token \<or> pr = Waits (Revoke_family (rt_familyId stored) now))"
    by (simp add: resume_auth_def)
  have f: "\<exists>s. resume_auth env nonce now (Revoke_family (rt_familyId stored) now) st = (Refused Invalid_refresh_token, s)"
    by (simp add: resume_auth_def)
  show ?thesis
  proof (cases n)
    case (Suc m)
    show ?thesis
    proof (cases m)
      case (Suc k)
      then show ?thesis using \<open>n = Suc m\<close> l f by (cases k) (auto simp: b c)
    qed (simp add: \<open>n = Suc m\<close> b c)
  qed (simp add: b)
qed


section \<open>What the rate limiter admits\<close>

text \<open>The calls that pass, in order; a key has its own limit.\<close>

fun admitted :: "(string \<Rightarrow> nat) \<Rightarrow> int \<Rightarrow> (string \<times> int) list \<Rightarrow> (string, int list) jmap \<Rightarrow> (string \<times> int) list" where
  "admitted limit w [] buckets = []"
| "admitted limit w ((key, now) # calls) buckets =
     (let (limited, buckets') = isRateLimited key (limit key) w now buckets
      in if limited then admitted limit w calls buckets' else (key, now) # admitted limit w calls buckets')"

definition times_of :: "string \<Rightarrow> (string \<times> int) list \<Rightarrow> int list" where
  "times_of key calls = map snd (filter (\<lambda>c. fst c = key) calls)"

definition bucket :: "(string, int list) jmap \<Rightarrow> string \<Rightarrow> int list" where
  "bucket buckets key = (case jm_get buckets key of Some ts \<Rightarrow> ts | None \<Rightarrow> [])"

text \<open>The buckets know what was admitted within the window before any later time.\<close>

definition remembers :: "int \<Rightarrow> int \<Rightarrow> (string \<times> int) list \<Rightarrow> (string, int list) jmap \<Rightarrow> bool" where
  "remembers w now earlier buckets \<longleftrightarrow>
     jm_ok buckets \<and> (\<forall>key t. now \<le> t \<longrightarrow>
       filter (\<lambda>s. t - s < w) (bucket buckets key) = filter (\<lambda>s. t - s < w) (times_of key earlier))"

lemma times_of_append: "times_of key (xs @ [(k, t)]) = times_of key xs @ (if k = key then [t] else [])"
  by (simp add: times_of_def)

lemma bucket_set: "bucket (jm_set m k v) key = (if key = k then v else bucket m key)"
  by (simp add: bucket_def)

lemma bucket_filter:
  assumes "jm_ok m" "\<forall>p \<in> set m. \<not> P p \<longrightarrow> filter Q (snd p) = []"
  shows "filter Q (bucket (filter P m) key) = filter Q (bucket m key)"
proof (cases "jm_get m key")
  case None
  then have "jm_get (filter P m) key = None" by (auto simp: jm_get_None_iff)
  then show ?thesis using None by (simp add: bucket_def)
next
  case (Some ts)
  note mem = jm_get_Some_in [OF Some]
  show ?thesis
  proof (cases "P (key, ts)")
    case True
    then have "jm_get (filter P m) key = Some ts" using mem assms(1) by (intro jm_get_in) auto
    then show ?thesis using Some by (simp add: bucket_def)
  next
    case False
    then have "(key, us) \<notin> set (filter P m)" for us
      using jm_get_in [OF assms(1), of key us] Some by auto
    then have "jm_get (filter P m) key = None" by (force simp: jm_get_None_iff)
    then show ?thesis using assms(2) mem False Some by (auto simp: bucket_def)
  qed
qed

lemma isRateLimited_remembers:
  assumes r: "remembers w prev earlier buckets" and "prev \<le> now"
    and "isRateLimited key limit w now buckets = (limited, buckets')"
  shows "if limited then remembers w now earlier buckets'
    else remembers w now (earlier @ [(key, now)]) buckets' \<and> length (filter (\<lambda>s. now - s < w) (times_of key earlier)) < limit"
proof -
  let ?hits = "filter (\<lambda>s. now - s < w) (bucket buckets key)"
  have hits: "?hits = filter (\<lambda>s. now - s < w) (times_of key earlier)" using r assms(2) by (simp add: remembers_def)
  have later: "filter (\<lambda>s. t - s < w) ?hits = filter (\<lambda>s. t - s < w) (times_of key earlier)" if "now \<le> t" for t
    unfolding hits filter_filter by (rule filter_cong [OF refl]) (use that in auto)
  have ok: "jm_ok buckets" using r by (simp add: remembers_def)
  show ?thesis
  proof (cases "length ?hits \<ge> limit")
    case True
    then have "limited" "buckets' = jm_set buckets key ?hits" using assms(3) by (simp_all add: isRateLimited_def bucket_def Let_def)
    then show ?thesis using r later assms(2) ok by (auto simp: remembers_def bucket_set)
  next
    case False
    let ?b = "jm_set buckets key (?hits @ [now])"
    let ?P = "\<lambda>(k, timestamps). \<not> list_all (\<lambda>timestamp. now - timestamp \<ge> w) timestamps"
    have eq: "isRateLimited key limit w now buckets = (False, if length ?b > 10000 then filter ?P ?b else ?b)"
      using False by (simp add: isRateLimited_def bucket_def Let_def)
    have res: "\<not> limited" "buckets' = (if length ?b > 10000 then filter ?P ?b else ?b)"
      using assms(3) unfolding eq prod.inject by blast+
    have kept: "remembers w now (earlier @ [(key, now)]) ?b"
      using r later assms(2) ok by (auto simp: remembers_def bucket_set times_of_append)
    have stale: "filter (\<lambda>s. t - s < w) (snd p) = []" if "now \<le> t" "\<not> ?P p" for t p
      using that by (auto simp: filter_empty_conv list_all_iff split: prod.splits)
    have "filter (\<lambda>s. t - s < w) (bucket (filter ?P ?b) k) = filter (\<lambda>s. t - s < w) (bucket ?b k)" if "now \<le> t" for t k
      by (rule bucket_filter) (use ok stale [OF that] in auto)
    then have "remembers w now (earlier @ [(key, now)]) buckets'"
      using kept unfolding res(2) by (auto simp: remembers_def)
    then show ?thesis using res(1) False hits by simp
  qed
qed

definition within :: "int \<Rightarrow> int \<Rightarrow> int list \<Rightarrow> int list" where
  "within w t ts = filter (\<lambda>s. t - w < s \<and> s \<le> t) ts"

lemma length_filter_mono: "\<forall>x \<in> set xs. P x \<longrightarrow> Q x \<Longrightarrow> length (filter P xs) \<le> length (filter Q xs)"
  by (induction xs) auto

lemma admitted_bounded:
  "remembers w prev earlier buckets \<Longrightarrow> sorted (prev # map snd calls) \<Longrightarrow> (\<forall>c \<in> set earlier. snd c \<le> prev) \<Longrightarrow>
    (\<forall>key t. length (within w t (times_of key earlier)) \<le> limit key) \<Longrightarrow>
    length (within w t (times_of key (earlier @ admitted limit w calls buckets))) \<le> limit key"
proof (induction calls arbitrary: prev earlier buckets)
  case (Cons c calls)
  obtain k now where c: "c = (k, now)" by fastforce
  obtain limited buckets' where l: "isRateLimited k (limit k) w now buckets = (limited, buckets')" by fastforce
  have now: "prev \<le> now" "sorted (now # map snd calls)" using Cons.prems(2) by (auto simp: c)
  note R = isRateLimited_remembers [OF Cons.prems(1) now(1) l]
  have old: "\<forall>c \<in> set earlier. snd c \<le> now" using Cons.prems(3) now(1) by auto
  show ?case
  proof (cases limited)
    case True
    then show ?thesis using Cons.IH [OF _ now(2) old Cons.prems(4)] R l by (simp add: c)
  next
    case False
    have past: "\<forall>s \<in> set (times_of key' earlier). s \<le> now" for key' using old by (auto simp: times_of_def)
    have "length (within w t (times_of key' (earlier @ [(k, now)]))) \<le> limit key'" for key' t
    proof (cases "key' = k \<and> t - w < now \<and> now \<le> t")
      case True
      have "length (within w t (times_of k earlier)) \<le> length (filter (\<lambda>s. now - s < w) (times_of k earlier))"
        unfolding within_def using True past [of k] by (intro length_filter_mono) auto
      then show ?thesis using R False True by (auto simp: times_of_append within_def)
    next
      case False
      then show ?thesis using Cons.prems(4) by (auto simp: times_of_append within_def)
    qed
    then show ?thesis using Cons.IH [of now "earlier @ [(k, now)]" buckets'] R False l now(2) old by (auto simp: c)
  qed
qed simp

text \<open>
  C36. The limiter of password resets holds its limit. Of any calls in the order of their times, for
  any keys and through all clean-ups of the table, it lets at most \<open>limit key\<close> calls of a key pass
  within any window of the given length.
\<close>

theorem rate_limit_holds:
  assumes "sorted (map snd calls)"
  shows "length (filter (\<lambda>s. t - w < s \<and> s \<le> t) (times_of key (admitted limit w calls []))) \<le> limit key"
proof (cases calls)
  case Nil
  then show ?thesis by (simp add: times_of_def)
next
  case (Cons c rest)
  have "remembers w (snd c) [] []" by (simp add: remembers_def times_of_def bucket_def)
  from admitted_bounded [OF this, of calls limit t key] show ?thesis
    using assms Cons by (simp add: within_def times_of_def)
qed

section \<open>Races\<close>

definition plain_env :: auth_env where
  "plain_env = \<lparr>ae_sha256 = (\<lambda>x. x), ae_verify = (\<lambda>h p. h = p)\<rparr>"

definition no_context :: issue_context where
  "no_context = \<lparr>ic_ipAddress = None, ic_userAgent = None\<rparr>"

definition sample_user :: auth_user where
  "sample_user = \<lparr>au_id = ''u'', au_email = ''a@b'', au_passwordHash = Some ''old'', au_emailVerified = True,
     au_emailVerificationToken = None, au_emailVerificationExpiresAt = None,
     au_passwordResetToken = Some ''k'', au_passwordResetExpiresAt = Some 50000\<rparr>"

definition sample_row :: "string \<Rightarrow> string \<Rightarrow> int option \<Rightarrow> refresh_row" where
  "sample_row i h revoked = \<lparr>rt_id = i, rt_tokenHash = h, rt_userId = ''u'', rt_familyId = ''f'', rt_revokedAt = revoked,
     rt_expiresAt = 100000, rt_ipAddress = None, rt_userAgent = None\<rparr>"

definition sample_state :: "refresh_row list \<Rightarrow> auth_state" where
  "sample_state rows = \<lparr>as_users = [sample_user], as_tokens = rows, as_buckets = []\<rparr>"

definition nonce_of :: "string \<Rightarrow> auth_nonce" where
  "nonce_of x = \<lparr>an_token = ''t'' @ x, an_uuid = ''f'' @ x, an_id = ''i'' @ x\<rparr>"

text \<open>A refresh that has claimed its token inserts the new one after a password reset has revoked all.\<close>

lemma refresh_survives_reset:
  "let (pr1, s1) = run_auth plain_env (nonce_of ''1'') 10 1
         (begin_auth plain_env (nonce_of ''1'') 10 (Refresh ''r'' no_context) (sample_state [sample_row ''i'' ''r'' None]));
       (pr2, s2) = run_auth plain_env (nonce_of ''2'') 20 2 (begin_auth plain_env (nonce_of ''2'') 20 (Reset_password ''k'' ''new'') s1);
       (pr3, s3) = run_auth plain_env (nonce_of ''3'') 30 1 (pr1, s2)
   in pr2 = Completed \<and> listSessions ''u'' s2 = [] \<and> length (listSessions ''u'' s3) = 1"
  by code_simp

text \<open>Two resets that have both found the user before either saves use the same token.\<close>

lemma reset_token_used_twice:
  "let (pr1, s1) = begin_auth plain_env (nonce_of ''1'') 10 (Reset_password ''k'' ''first'') (sample_state []);
       (pr2, s2) = begin_auth plain_env (nonce_of ''2'') 10 (Reset_password ''k'' ''second'') s1;
       (pr3, s3) = run_auth plain_env (nonce_of ''1'') 10 2 (pr1, s2);
       (pr4, s4) = run_auth plain_env (nonce_of ''2'') 10 2 (pr2, s3)
   in pr3 = Completed \<and> pr4 = Completed \<and> map au_passwordHash (as_users s4) = [Some ''second'']"
  by code_simp

text \<open>The successor that a refresh is about to insert escapes the revocation of its family.\<close>

lemma family_survives_revocation:
  "let (pr1, s1) = run_auth plain_env (nonce_of ''1'') 20000 1
         (begin_auth plain_env (nonce_of ''1'') 20000 (Refresh ''new'' no_context)
            (sample_state [sample_row ''i'' ''old'' (Some 0), sample_row ''j'' ''new'' None]));
       (pr2, s2) = run_auth plain_env (nonce_of ''2'') 20000 3 (begin_auth plain_env (nonce_of ''2'') 20000 (Refresh ''old'' no_context) s1);
       (pr3, s3) = run_auth plain_env (nonce_of ''3'') 20000 1 (pr1, s2)
   in pr2 = Refused Invalid_refresh_token \<and> length (listSessions ''u'' s2) = 0 \<and> map rt_familyId (listSessions ''u'' s3) = [''f'']"
  by code_simp

section \<open>Witnesses\<close>

lemma reuse_revokes_family_witness:
  "run_auth plain_env (nonce_of ''1'') 20000 3 (begin_auth plain_env (nonce_of ''1'') 20000 (Refresh ''old'' no_context)
      (sample_state [sample_row ''i'' ''old'' (Some 0), sample_row ''j'' ''new'' None]))
    = (Refused Invalid_refresh_token, sample_state [sample_row ''i'' ''old'' (Some 20000), sample_row ''j'' ''new'' (Some 20000)])"
proof -
  let ?st = "sample_state [sample_row ''i'' ''old'' (Some 0), sample_row ''j'' ''new'' None]"
  have "find (\<lambda>r. rt_tokenHash r = ae_sha256 plain_env ''old'') (as_tokens ?st) = Some (sample_row ''i'' ''old'' (Some 0))"
    by (simp add: sample_state_def sample_row_def plain_env_def)
  from reuse_revokes_family [OF this, of 0 20000 "nonce_of ''1''" no_context] show ?thesis
    by (simp add: sample_state_def sample_row_def)
qed


lemma rate_limit_holds_witness:
  "length (filter (\<lambda>s. 2 - 10 < s \<and> s \<le> 2) (times_of ''a'' (admitted (\<lambda>_. 2) 10 [(''a'', 0), (''a'', 1), (''b'', 1), (''a'', 2)] []))) \<le> 2"
  using rate_limit_holds [of "[(''a'', 0), (''a'', 1), (''b'', 1), (''a'', 2)]" 2 10 "''a''" "\<lambda>_. 2"] by simp

lemma one_live_token_per_family_witness:
  "length (filter (\<lambda>r. rt_familyId r = ''f1'' \<and> rt_revokedAt r = None)
     (as_tokens (snd (run_auth plain_env (nonce_of ''2'') 20 1 (begin_auth plain_env (nonce_of ''1'') 10 (Login ''a@b'' ''old'' no_context) (sample_state [])))))) \<le> 1"
proof -
  let ?b = "begin_auth plain_env (nonce_of ''1'') 10 (Login ''a@b'' ''old'' no_context) (sample_state [])"
  obtain row where b: "?b = (Waits (Insert_token row sample_user), sample_state [])"
    by (simp add: begin_auth_def login_def find_user_def sample_state_def sample_user_def plain_env_def issueSession_def to_lower_def lower_char_def)
  let ?s0 = "\<lparr>ay_state = sample_state [], ay_running = [], ay_issued = [], ay_families = []\<rparr>"
  let ?s1 = "\<lparr>ay_state = sample_state [], ay_running = ay_running ?s0 @ waiting (Waits (Insert_token row sample_user)),
      ay_issued = ay_issued ?s0, ay_families = an_uuid (nonce_of ''1'') # ay_families ?s0\<rparr>"
  have "auth_reachable plain_env ?s0" by (rule auth_start) (simp add: sample_state_def)
  moreover have "auth_step plain_env ?s0 ?s1" 
    by (rule auth_begins [where now = 10 and c = "Login ''a@b'' ''old'' no_context"]) (simp_all add: b)
  ultimately have r1: "auth_reachable plain_env ?s1" by (rule auth_next)
  obtain pr st' where res: "resume_auth plain_env (nonce_of ''2'') 20 (Insert_token row sample_user) (sample_state []) = (pr, st')" by fastforce
  have "auth_step plain_env ?s1 \<lparr>ay_state = st', ay_running = [] @ waiting pr @ [],
      ay_issued = (case inserts (Insert_token row sample_user) of Some f \<Rightarrow> (an_id (nonce_of ''2''), f) # ay_issued ?s1 | None \<Rightarrow> ay_issued ?s1),
      ay_families = an_uuid (nonce_of ''2'') # ay_families ?s1\<rparr>"
    by (rule auth_resumes) (use res in \<open>simp_all add: nonce_of_def\<close>)
  from one_live_token_per_family [OF auth_next [OF r1 this], of "''f1''"] show ?thesis
    using res by (simp add: b)
qed

end
