(* ===== verification/TransactionSequence.thy ===== *)
theory TransactionSequence
  imports JsNumber
begin

text \<open>
  Sequences of transactions that depend on one another: \<open>transaction-sequence.service.ts\<close> of
  \<open>apps/api/src/modules/composer\<close>. What the sequence number of an account is at the time of a step, and
  what the Stellar SDK builds or why it throws, are parameters; the run, its references between
  steps and its sequence numbers are the code's.
\<close>

section \<open>Inputs and results\<close>

text \<open>An operation with its type, its destination if that is a text, and the rest.\<close>

record seq_operation =
  qo_type :: string
  qo_destination :: "string option"
  qo_fields :: json

text \<open>A source is a text, a reference to a step (whose number may be none) and a field, or something else.\<close>

datatype step_source = Account_text string | Step_ref "js_num option" "string option" | No_source

record step_input =
  si_source :: step_source
  si_operations :: "seq_operation list"
  si_memo :: "string option"

datatype step_result =
    Step_success nat string string js_num js_num string   \<comment> \<open>index, source, hash, next, sequence, XDR\<close>
  | Step_failed nat string

record run_state =
  rs_results :: "step_result list"
  rs_destinations :: "(nat, string) jmap"
  rs_sequences :: "(string, string) jmap"

text \<open>
  The account that Horizon reports at a step, and the transaction that the builder gives for a
  source, its sequence, a memo, a timeout and the operations: hash and XDR (\<open>mapOperation\<close> of the composer
  service, which hands the operations to the SDK, belongs to it).
\<close>

record sequence_env =
  qe_fetch :: "nat \<Rightarrow> string \<Rightarrow> js_error + string"
  qe_build :: "string \<Rightarrow> string \<Rightarrow> string option \<Rightarrow> nat option \<Rightarrow> seq_operation list \<Rightarrow> js_error + string \<times> string"

datatype run_status = Run_succeeded | Run_partial | Run_failed

record run_result =
  rr_id :: string
  rr_status :: run_status
  rr_results :: "step_result list"

definition MAX_HISTORY :: nat where "MAX_HISTORY = 100"

fun succeeded :: "step_result \<Rightarrow> bool" where
  "succeeded (Step_success i source h nxt s x) = True"
| "succeeded (Step_failed i e) = False"

fun result_source :: "step_result \<Rightarrow> string" where
  "result_source (Step_success i source h nxt s x) = source"
| "result_source (Step_failed i e) = []"

section \<open>References\<close>

text \<open>The message of an invalid reference also prints it.\<close>

definition invalid_reference :: "nat \<Rightarrow> step_source \<Rightarrow> bool" where
  "invalid_reference index source \<longleftrightarrow>
     (case source of
        Step_ref k f \<Rightarrow> (case k of None \<Rightarrow> True | Some x \<Rightarrow> of_int \<lfloor>x\<rfloor> \<noteq> x \<or> x < 0 \<or> x \<ge> of_nat index)
      | _ \<Rightarrow> False)"

fun validateStepOrder :: "nat \<Rightarrow> step_input list \<Rightarrow> js_error + unit" where
  "validateStepOrder index [] = Inr ()"
| "validateStepOrder index (step # steps) =
     (if invalid_reference index (si_source step)
      then Inl (BadRequest (''Step '' @ digits_of_nat index @ '' has invalid source reference''))
      else validateStepOrder (index + 1) steps)"

text \<open>The step that a validated reference names.\<close>

definition ref_index :: "js_num option \<Rightarrow> nat" where
  "ref_index k = (case k of Some x \<Rightarrow> nat \<lfloor>x\<rfloor> | None \<Rightarrow> 0)"

definition not_succeeded :: "nat \<Rightarrow> nat \<Rightarrow> js_error" where
  "not_succeeded i k =
     BadRequest (''Step '' @ digits_of_nat i @ '' references step '' @ digits_of_nat k @ '' which has not succeeded'')"

definition resolveStep :: "step_source \<Rightarrow> nat \<Rightarrow> step_result list \<Rightarrow> (nat, string) jmap \<Rightarrow> js_error + step_source" where
  "resolveStep source i results destinations =
     (case source of
        Step_ref ref f \<Rightarrow>
          (let k = ref_index ref
           in if length results \<le> k \<or> \<not> succeeded (results ! k) then Inl (not_succeeded i k)
              else Inr (Account_text (if f = Some ''destination''
                     then (case jm_get destinations k of Some d \<Rightarrow> d | None \<Rightarrow> result_source (results ! k))
                     else result_source (results ! k))))
      | _ \<Rightarrow> Inr source)"

definition resolveSourceAccount :: "step_source \<Rightarrow> nat \<Rightarrow> step_result list \<Rightarrow> js_error + string" where
  "resolveSourceAccount source i results =
     (case source of
        Account_text s \<Rightarrow>
          if s \<noteq> [] then Inr s else Inl (BadRequest (''Step '' @ digits_of_nat i @ '' is missing a source account''))
      | Step_ref ref f \<Rightarrow>
          (let k = ref_index ref
           in if length results \<le> k \<or> \<not> succeeded (results ! k) then Inl (not_succeeded i k)
              else Inr (result_source (results ! k)))
      | No_source \<Rightarrow> Inl (BadRequest (''Step '' @ digits_of_nat i @ '' is missing a source account'')))"

section \<open>A step\<close>

definition moves_funds :: "seq_operation \<Rightarrow> bool" where
  "moves_funds op \<longleftrightarrow>
     qo_type op \<in> {''payment'', ''create_account'', ''account_merge'', ''path_payment_strict_send'', ''path_payment_strict_receive''}"

definition step_destination :: "seq_operation list \<Rightarrow> string \<Rightarrow> string" where
  "step_destination ops source =
     (case find moves_funds ops of
        Some op \<Rightarrow> (case qo_destination op of Some d \<Rightarrow> d | None \<Rightarrow> source)
      | None \<Rightarrow> source)"

text \<open>A memo goes in place of the timeout.\<close>

definition build_step :: "sequence_env \<Rightarrow> string \<Rightarrow> string \<Rightarrow> step_input \<Rightarrow> js_error + string \<times> string" where
  "build_step env source sequence step =
     (if si_memo step = None \<or> si_memo step = Some []
      then qe_build env source sequence None (Some 30) (si_operations step)
      else qe_build env source sequence (si_memo step) None (si_operations step))"

text \<open>
  The body of the loop inside the \<open>try\<close>: what it throws or the source, the sequence as a number and
  the transaction; and the sequences of the sources, which it may have advanced before it throws.
\<close>

definition attempt ::
  "sequence_env \<Rightarrow> nat \<Rightarrow> step_input \<Rightarrow> run_state \<Rightarrow> (js_error + string \<times> int \<times> string \<times> string) \<times> (string, string) jmap" where
  "attempt env i step st =
     (let resolved = and_then (resolveStep (si_source step) i (rs_results st) (rs_destinations st))
            (\<lambda>source. resolveSourceAccount source i (rs_results st))
      in case resolved of
           Inl e \<Rightarrow> (Inl e, rs_sequences st)
         | Inr source \<Rightarrow>
             (case (case jm_get (rs_sequences st) source of Some s \<Rightarrow> Inr s | None \<Rightarrow> qe_fetch env i source) of
                Inl e \<Rightarrow> (Inl e, rs_sequences st)
              | Inr sequence \<Rightarrow>
                  (case bigint_of_string sequence of
                     Inl e \<Rightarrow> (Inl e, rs_sequences st)
                   | Inr n \<Rightarrow>
                       (and_then (build_step env source sequence step) (\<lambda>(h, xdr). Inr (source, n, h, xdr)),
                        jm_set (rs_sequences st) source (int_to_string (n + 1))))))"

definition run_step :: "sequence_env \<Rightarrow> nat \<Rightarrow> step_input \<Rightarrow> run_state \<Rightarrow> run_state" where
  "run_step env i step st =
     (case attempt env i step st of
        (Inl e, sequences) \<Rightarrow>
          st\<lparr>rs_sequences := sequences, rs_results := rs_results st @ [Step_failed i (error_text e)]\<rparr>
      | (Inr (source, n, h, xdr), sequences) \<Rightarrow>
          \<lparr>rs_results = rs_results st @ [Step_success i source h (js_number (n + 1)) (js_number n) xdr],
           rs_destinations = jm_set (rs_destinations st) i (step_destination (si_operations step) source),
           rs_sequences = sequences\<rparr>)"

fun run_steps :: "sequence_env \<Rightarrow> bool \<Rightarrow> nat \<Rightarrow> step_input list \<Rightarrow> run_state \<Rightarrow> run_state" where
  "run_steps env stopOnFailure i [] st = st"
| "run_steps env stopOnFailure i (step # steps) st =
     (let st' = run_step env i step st
      in if stopOnFailure \<and> \<not> succeeded (last (rs_results st')) then st'
         else run_steps env stopOnFailure (i + 1) steps st')"

section \<open>A run\<close>

definition run_status_of :: "step_result list \<Rightarrow> run_status" where
  "run_status_of results =
     (if list_all succeeded results then Run_succeeded
      else if list_ex succeeded results then Run_partial else Run_failed)"

definition remember_run :: "run_result \<Rightarrow> run_result list \<Rightarrow> run_result list" where
  "remember_run r history =
     (let history' = r # history in if length history' > MAX_HISTORY then butlast history' else history')"

definition run :: "sequence_env \<Rightarrow> string \<Rightarrow> bool \<Rightarrow> step_input list \<Rightarrow> run_result list \<Rightarrow> js_error + run_result \<times> run_result list" where
  "run env runId stopOnFailure steps history =
     (if steps = [] then Inl (BadRequest ''Transaction sequence must contain at least one step'')
      else and_then (validateStepOrder 0 steps) (\<lambda>_.
        let st = run_steps env stopOnFailure 0 steps \<lparr>rs_results = [], rs_destinations = [], rs_sequences = []\<rparr>;
            r = \<lparr>rr_id = runId, rr_status = run_status_of (rs_results st), rr_results = rs_results st\<rparr>
        in Inr (r, remember_run r history)))"

section \<open>Sequence numbers\<close>

lemma bigint_int_to_string [simp]: "bigint_of_string (int_to_string z) = Inr z"
proof (cases "z < 0")
  case False
  then show ?thesis by (simp add: int_to_string_def bigint_of_digits)
next
  case True
  let ?ds = "digits_of_nat (nat \<bar>z\<bar>)"
  have ds: "list_all is_digit ?ds" by simp
  have trim: "trim (CHR ''-'' # ?ds) = CHR ''-'' # ?ds"
  proof -
    have "\<not> is_space (last ?ds)" if "?ds \<noteq> []" using ds last_in_set [OF that] is_digit_not_space by (auto simp: list_all_iff)
    then show ?thesis by (intro trim_id) (auto simp: is_space_def)
  qed
  have "decimal_numeral ?ds = Some (int (nat \<bar>z\<bar>))" by (simp add: decimal_numeral_def)
  then show ?thesis using True trim by (simp add: bigint_of_string_def int_to_string_def)
qed

definition built :: "string \<Rightarrow> step_result list \<Rightarrow> nat" where
  "built source results = length (filter (\<lambda>q. succeeded q \<and> result_source q = source) results)"

definition numbered :: "sequence_env \<Rightarrow> (string \<Rightarrow> int) \<Rightarrow> step_input list \<Rightarrow> step_result list \<Rightarrow> nat \<Rightarrow> bool" where
  "numbered env base steps results i \<longleftrightarrow>
     (case results ! i of
        Step_failed j e \<Rightarrow> True
      | Step_success j source h nxt s xdr \<Rightarrow>
          j = i \<and> s = js_number (base source + int (built source (take i results)))
          \<and> nxt = js_number (base source + int (built source (take i results)) + 1)
          \<and> (\<exists>tx. bigint_of_string tx = Inr (base source + int (built source (take i results)))
               \<and> build_step env source tx (steps ! i) = Inr (h, xdr)
               \<and> (built source (take i results) = 0 \<longrightarrow> (\<exists>k. qe_fetch env k source = Inr tx))))"

definition seq_inv :: "sequence_env \<Rightarrow> (string \<Rightarrow> int) \<Rightarrow> step_input list \<Rightarrow> run_state \<Rightarrow> bool" where
  "seq_inv env base steps st \<longleftrightarrow>
     list_all succeeded (rs_results st) \<and> (\<forall>i < length (rs_results st). numbered env base steps (rs_results st) i)
     \<and> (\<forall>source. case jm_get (rs_sequences st) source of
           None \<Rightarrow> built source (rs_results st) = 0
         | Some t \<Rightarrow> 0 < built source (rs_results st) \<and> bigint_of_string t = Inr (base source + int (built source (rs_results st))))"

lemma built_append: "built source (xs @ [q]) = built source xs + (if succeeded q \<and> result_source q = source then 1 else 0)"
  by (simp add: built_def)

lemma built_zero_take: "built source xs = 0 \<Longrightarrow> built source (take i xs) = 0"
  by (auto simp: built_def filter_empty_conv dest: in_set_takeD)

lemma numbered_append:
  "i < length results \<Longrightarrow> numbered env base steps (results @ rest) i = numbered env base steps results i"
proof -
  assume i: "i < length results"
  then have "(results @ rest) ! i = results ! i" "take i (results @ rest) = take i results" by (simp_all add: nth_append)
  then show ?thesis by (simp only: numbered_def)
qed

lemma attempt_success:
  assumes "attempt env i step st = (Inr (source, n, h, xdr), sequences)"
  shows "\<exists>tx. (jm_get (rs_sequences st) source = Some tx \<or> jm_get (rs_sequences st) source = None \<and> qe_fetch env i source = Inr tx)
    \<and> bigint_of_string tx = Inr n \<and> build_step env source tx step = Inr (h, xdr)
    \<and> sequences = jm_set (rs_sequences st) source (int_to_string (n + 1))"
  using assms by (auto simp: attempt_def Let_def and_then_Inr_iff split: sum.splits option.splits)

lemma run_step_cases:
  obtains e sequences where "run_step env i step st = st\<lparr>rs_sequences := sequences, rs_results := rs_results st @ [Step_failed i e]\<rparr>"
  | source n h xdr sequences where "attempt env i step st = (Inr (source, n, h, xdr), sequences)"
      and "run_step env i step st = \<lparr>rs_results = rs_results st @ [Step_success i source h (js_number (n + 1)) (js_number n) xdr],
         rs_destinations = jm_set (rs_destinations st) i (step_destination (si_operations step) source), rs_sequences = sequences\<rparr>"
proof (cases "attempt env i step st")
  case (Pair a sequences)
  show ?thesis
  proof (cases a)
    case (Inl e)
    then show ?thesis using that(1) Pair by (simp add: run_step_def)
  next
    case (Inr b)
    obtain source n h xdr where "b = (source, n, h, xdr)" by (cases b) auto
    then show ?thesis using that(2) Pair Inr by (simp add: run_step_def)
  qed
qed

lemma success_inv:
  assumes inv: "seq_inv env base steps st" and i: "i = length (rs_results st)" "i < length steps"
    and a: "attempt env i (steps ! i) st = (Inr (source, n, h, xdr), sequences)"
  shows "\<exists>base'. seq_inv env base' steps
    \<lparr>rs_results = rs_results st @ [Step_success i source h (js_number (n + 1)) (js_number n) xdr],
     rs_destinations = d, rs_sequences = sequences\<rparr>"
proof -
  obtain tx where t: "jm_get (rs_sequences st) source = Some tx \<or> jm_get (rs_sequences st) source = None \<and> qe_fetch env i source = Inr tx"
      "bigint_of_string tx = Inr n" "build_step env source tx (steps ! i) = Inr (h, xdr)"
      "sequences = jm_set (rs_sequences st) source (int_to_string (n + 1))"
    using attempt_success [OF a] by blast
  let ?rs = "rs_results st" and ?q = "Step_success i source h (js_number (n + 1)) (js_number n) xdr"
  define base' where "base' = (if jm_get (rs_sequences st) source = None then base(source := n) else base)"
  have S: "case jm_get (rs_sequences st) x of None \<Rightarrow> built x ?rs = 0
      | Some t \<Rightarrow> 0 < built x ?rs \<and> bigint_of_string t = Inr (base x + int (built x ?rs))" for x
    using inv by (simp only: seq_inv_def)
  have n: "n = base' source + int (built source ?rs)"
    using S [of source] t(1,2) by (cases "jm_get (rs_sequences st) source") (auto simp: base'_def)
  have same: "base' x = base x" if "built x ?rs \<noteq> 0" for x
    using S [of source] that by (cases "jm_get (rs_sequences st) source") (auto simp: base'_def)
  have old: "numbered env base' steps ?rs j" if "j < length ?rs" for j
  proof -
    have "numbered env base steps ?rs j" using inv that by (simp add: seq_inv_def)
    moreover have "base' (result_source (?rs ! j)) = base (result_source (?rs ! j))"
    proof (rule same)
      have "succeeded (?rs ! j)" using inv that by (simp add: seq_inv_def list_all_length)
      then show "built (result_source (?rs ! j)) ?rs \<noteq> 0" using that by (auto simp: built_def filter_empty_conv)
    qed
    ultimately show ?thesis by (simp add: numbered_def split: step_result.splits)
  qed
  have new: "numbered env base' steps (?rs @ [?q]) i"
    using n t i(1) S [of source] by (auto simp: numbered_def nth_append intro!: exI [of _ tx] split: option.splits)
  have seqs: "case jm_get sequences x of None \<Rightarrow> built x (?rs @ [?q]) = 0
      | Some t \<Rightarrow> 0 < built x (?rs @ [?q]) \<and> bigint_of_string t = Inr (base' x + int (built x (?rs @ [?q])))" for x
  proof (cases "x = source")
    case True
    then show ?thesis using n by (simp add: t(4) built_append)
  next
    case False
    then have "base' x = base x" by (simp add: base'_def)
    then show ?thesis using S [of x] False by (simp add: t(4) built_append split: option.splits)
  qed
  have all: "numbered env base' steps (?rs @ [?q]) j" if "j < length (?rs @ [?q])" for j
    using that old [of j] new i(1) by (cases "j = i") (simp_all add: numbered_append)
  have "list_all succeeded (?rs @ [?q])" using inv by (simp add: seq_inv_def)
  then have "seq_inv env base' steps \<lparr>rs_results = ?rs @ [?q], rs_destinations = d, rs_sequences = sequences\<rparr>"
    unfolding seq_inv_def run_state.select_convs using seqs all by blast
  then show ?thesis by blast
qed

lemma run_steps_numbered:
  "seq_inv env base steps st \<Longrightarrow> i = length (rs_results st) \<Longrightarrow> rest = drop i steps \<Longrightarrow>
    \<exists>base'. \<forall>j < length (rs_results (run_steps env True i rest st)). numbered env base' steps (rs_results (run_steps env True i rest st)) j"
proof (induction rest arbitrary: base st i)
  case Nil
  then show ?case by (auto simp: seq_inv_def)
next
  case (Cons step rest)
  have "i < length steps" by (rule ccontr) (use Cons.prems(3) in simp)
  moreover from this have "step # rest = steps ! i # drop (i + 1) steps" using Cons.prems(3) by (simp add: Cons_nth_drop_Suc)
  ultimately have i: "i < length steps" "step = steps ! i" "rest = drop (i + 1) steps" by simp_all
  show ?case
  proof (rule run_step_cases [of env i step st])
    fix e sequences
    assume s: "run_step env i step st = st\<lparr>rs_sequences := sequences, rs_results := rs_results st @ [Step_failed i e]\<rparr>"
    then have r: "rs_results (run_steps env True i (step # rest) st) = rs_results st @ [Step_failed i e]" by simp
    have "numbered env base steps (rs_results st @ [Step_failed i e]) j" if "j < length (rs_results st @ [Step_failed i e])" for j
    proof (cases "j = i")
      case True
      then show ?thesis using Cons.prems(2) by (simp add: numbered_def)
    next
      case False
      then have "j < length (rs_results st)" using that Cons.prems(2) by simp
      then show ?thesis using Cons.prems(1) by (simp add: numbered_append seq_inv_def)
    qed
    then show ?thesis unfolding r by blast
  next
    fix source n h xdr sequences
    assume a: "attempt env i step st = (Inr (source, n, h, xdr), sequences)"
      and s: "run_step env i step st = \<lparr>rs_results = rs_results st @ [Step_success i source h (js_number (n + 1)) (js_number n) xdr],
         rs_destinations = jm_set (rs_destinations st) i (step_destination (si_operations step) source), rs_sequences = sequences\<rparr>"
    obtain base' where "seq_inv env base' steps (run_step env i step st)"
      using success_inv [OF Cons.prems(1,2) i(1) a [unfolded i(2)]] unfolding s by blast
    from Cons.IH [OF this _ i(3)] show ?thesis using Cons.prems(2) s by simp
  qed
qed

lemma run_numbered:
  assumes "run env runId True steps history = Inr (r, history')"
  shows "\<exists>base. \<forall>i < length (rr_results r). numbered env base steps (rr_results r) i"
proof -
  have "seq_inv env (\<lambda>_. 0) steps \<lparr>rs_results = [], rs_destinations = [], rs_sequences = []\<rparr>"
    by (simp add: seq_inv_def built_def)
  moreover have "rr_results r = rs_results (run_steps env True 0 steps \<lparr>rs_results = [], rs_destinations = [], rs_sequences = []\<rparr>)"
    using assms by (auto simp: run_def and_then_Inr_iff Let_def split: if_splits)
  ultimately show ?thesis using run_steps_numbered [of env "\<lambda>_. 0" steps _ 0 steps] by simp
qed


definition sample_sequence_env :: sequence_env where
  "sample_sequence_env =
     \<lparr>qe_fetch = \<lambda>i source. if source = ''A'' then Inr ''41'' else Inl (PlainError ''not found''),
      qe_build = \<lambda>source sequence memo timeout ops.
        if timeout = None then Inl (PlainError ''TimeBounds has to be set'') else Inr (source @ sequence, ''xdr'')\<rparr>"

definition sample_steps :: "step_input list" where
  "sample_steps =
     [\<lparr>si_source = Account_text ''A'', si_operations = [], si_memo = None\<rparr>,
      \<lparr>si_source = Step_ref (Some 0) None, si_operations = [], si_memo = None\<rparr>]"


section \<open>Steps that fail\<close>

text \<open>A step whose transaction is not built has advanced the sequence of its account all the same.\<close>

lemma failed_step_burns_sequence:
  assumes "si_source step = Account_text source" "source \<noteq> []" "jm_get (rs_sequences st) source = None"
    and "qe_fetch env i source = Inr tx" "bigint_of_string tx = Inr n" "build_step env source tx step = Inl e"
  shows "\<not> succeeded (last (rs_results (run_step env i step st)))"
    and "jm_get (rs_sequences (run_step env i step st)) source = Some (int_to_string (n + 1))"
  using assms by (simp_all add: run_step_def attempt_def resolveStep_def resolveSourceAccount_def)

text \<open>A builder that demands a timeout refuses every step with a memo.\<close>

lemma memo_step_never_built:
  assumes "si_memo step = Some m" "m \<noteq> []" "\<And>source tx memo ops. \<exists>e. qe_build env source tx memo None ops = Inl e"
  shows "\<not> succeeded (last (rs_results (run_step env i step st)))"
proof (rule run_step_cases [of env i step st])
  fix e sequences
  assume "run_step env i step st = st\<lparr>rs_sequences := sequences, rs_results := rs_results st @ [Step_failed i e]\<rparr>"
  then show ?thesis by simp
next
  fix source n h xdr sequences
  assume "attempt env i step st = (Inr (source, n, h, xdr), sequences)"
  from attempt_success [OF this] obtain tx where "build_step env source tx step = Inr (h, xdr)" by blast
  moreover obtain e where "qe_build env source tx (Some m) None (si_operations step) = Inl e" using assms(3) by blast
  ultimately show ?thesis using assms(1,2) by (simp add: build_step_def)
qed

end
