(* ===== verification/Pagination.thy ===== *)
theory Pagination
  imports JsNumber
begin

text \<open>
  The page and limit contract of the list endpoints: \<open>pagination-query.dto.ts\<close> and
  \<open>paginated-response.ts\<close> of \<open>apps/api/src/common/dto\<close>.
\<close>

definition DEFAULT_PAGE :: js_num where "DEFAULT_PAGE = 1"
definition DEFAULT_PAGE_LIMIT :: js_num where "DEFAULT_PAGE_LIMIT = 25"
definition MAX_PAGE :: js_num where "MAX_PAGE = 10000"
definition MAX_PAGE_LIMIT :: js_num where "MAX_PAGE_LIMIT = 100"

definition in_bounds :: "js_num \<Rightarrow> js_num \<Rightarrow> bool" where
  "in_bounds x most \<longleftrightarrow> of_int \<lfloor>x\<rfloor> = x \<and> 1 \<le> x \<and> x \<le> most"

definition normalizePagination :: "js_num option \<Rightarrow> js_num option \<Rightarrow> js_error + nat \<times> nat" where
  "normalizePagination qpage qlimit =
     (let page = (case qpage of Some p \<Rightarrow> p | None \<Rightarrow> DEFAULT_PAGE);
          limit = (case qlimit of Some l \<Rightarrow> l | None \<Rightarrow> DEFAULT_PAGE_LIMIT)
      in if \<not> in_bounds page MAX_PAGE then Inl (BadRequest ''page must be an integer between 1 and 10000'')
         else if \<not> in_bounds limit MAX_PAGE_LIMIT then Inl (BadRequest ''limit must be an integer between 1 and 100'')
         else Inr (nat \<lfloor>page\<rfloor>, nat \<lfloor>limit\<rfloor>))"

record 'a page_result =
  pr_items :: "'a list"
  pr_page :: nat
  pr_limit :: nat
  pr_total :: nat
  pr_totalPages :: nat
  pr_hasNextPage :: bool
  pr_hasPreviousPage :: bool
  pr_nextPage :: "nat option"
  pr_previousPage :: "nat option"

text \<open>\<open>Math.ceil(total / limit)\<close> on whole numbers.\<close>

definition buildPaginatedResult :: "'a list \<Rightarrow> nat \<Rightarrow> nat \<Rightarrow> nat \<Rightarrow> 'a page_result" where
  "buildPaginatedResult items rows page limit =
     (let totalPages = (if rows = 0 then 0 else (rows + limit - 1) div limit);
          hasNext = page < totalPages; hasPrevious = page > 1 \<and> totalPages > 0
      in \<lparr>pr_items = items, pr_page = page, pr_limit = limit, pr_total = rows, pr_totalPages = totalPages,
          pr_hasNextPage = hasNext, pr_hasPreviousPage = hasPrevious,
          pr_nextPage = (if hasNext then Some (page + 1) else None),
          pr_previousPage = (if hasPrevious then Some (page - 1) else None)\<rparr>)"

text \<open>The page of an ordered list, as the services cut it.\<close>

definition page_of :: "'a list \<Rightarrow> nat \<Rightarrow> nat \<Rightarrow> 'a page_result" where
  "page_of ordered page limit = buildPaginatedResult (take limit (drop ((page - 1) * limit) ordered)) (length ordered) page limit"

text \<open>Reading on from a page as long as \<open>nextPage\<close> names one gives the rest of the list, nothing twice.\<close>

lemma pages_cut: "concat (map (\<lambda>p. take limit (drop (p * limit) xs)) [0..<n]) = take (n * limit) xs"
  by (induction n) (simp_all add: take_add [symmetric] add.commute)

lemma enough_pages:
  assumes "0 < (limit :: nat)"
  shows "rows \<le> (rows + limit - 1) div limit * limit"
proof -
  have "rows + limit - 1 < ((rows + limit - 1) div limit + 1) * limit"
    using assms by (metis dividend_less_div_times add.commute mult.commute mult_Suc_right plus_1_eq_Suc)
  then show ?thesis by simp
qed

lemma pages_complete:
  assumes "0 < limit"
  shows "concat (map (\<lambda>p. pr_items (page_of xs p limit)) [1..<Suc (pr_totalPages (page_of xs 1 limit))]) = xs"
proof -
  let ?n = "pr_totalPages (page_of xs 1 limit)"
  have "length xs \<le> ?n * limit" using enough_pages [OF assms, of "length xs"] by (simp add: page_of_def buildPaginatedResult_def Let_def)
  moreover have "map (\<lambda>p. pr_items (page_of xs p limit)) [1..<Suc ?n] = map (\<lambda>p. take limit (drop (p * limit) xs)) [0..<?n]"
    by (simp add: page_of_def buildPaginatedResult_def Let_def map_Suc_upt [symmetric] del: upt_Suc)
  ultimately show ?thesis by (simp add: pages_cut)
qed

end
