(* ===== verification/WebhookSignature.thy ===== *)
theory WebhookSignature
  imports JsNumber
begin

text \<open>
  The signature of outbound webhooks: \<open>signature.ts\<close> of \<open>apps/api/src/modules/webhook\<close> and its mirror
  \<open>webhook-signature.ts\<close> of the web client. HMAC-SHA256 is a parameter, the lower-case hex digest of a
  secret and a message; the clock is an argument in milliseconds.
\<close>

section \<open>Signing\<close>

definition SIGNATURE_HEADER :: string where "SIGNATURE_HEADER = ''X-SaviTools-Signature''"
definition TIMESTAMP_HEADER :: string where "TIMESTAMP_HEADER = ''X-SaviTools-Timestamp''"
definition LEGACY_SIGNATURE_HEADER :: string where "LEGACY_SIGNATURE_HEADER = ''X-Webhook-Signature''"
definition LEGACY_ISO_TIMESTAMP_HEADER :: string where "LEGACY_ISO_TIMESTAMP_HEADER = ''X-Timestamp''"

definition DEFAULT_MAX_AGE_SECONDS :: js_num where "DEFAULT_MAX_AGE_SECONDS = 300"
definition DEFAULT_MAX_SKEW_SECONDS :: js_num where "DEFAULT_MAX_SKEW_SECONDS = 60"

type_synonym mac = "string \<Rightarrow> string \<Rightarrow> string"

record signed_headers =
  sh_signature :: string
  sh_timestamp :: string

definition nowSeconds :: "js_num \<Rightarrow> js_num" where
  "nowSeconds ms = of_int \<lfloor>js_div ms 1000\<rfloor>"

text \<open>A number of seconds as a text; the digits are those of JavaScript below \<open>2 ^ 53\<close>.\<close>

definition seconds_text :: "js_num \<Rightarrow> string" where
  "seconds_text x = int_to_string \<lfloor>x\<rfloor>"

definition signBody :: "mac \<Rightarrow> js_num \<Rightarrow> string \<Rightarrow> string \<Rightarrow> js_num option \<Rightarrow> signed_headers" where
  "signBody hmac ms secret body timestamp =
     (let t = (case timestamp of Some t \<Rightarrow> t | None \<Rightarrow> nowSeconds ms)
      in \<lparr>sh_signature = ''sha256='' @ hmac secret (seconds_text t @ ''.'' @ body), sh_timestamp = seconds_text t\<rparr>)"

definition signatureHeaders :: "mac \<Rightarrow> js_num \<Rightarrow> string \<Rightarrow> string \<Rightarrow> js_num option \<Rightarrow> (string, string) jmap" where
  "signatureHeaders hmac ms secret body timestamp =
     (let signed = signBody hmac ms secret body timestamp
      in [(SIGNATURE_HEADER, sh_signature signed), (TIMESTAMP_HEADER, sh_timestamp signed)])"

definition isLegacySignedRequest :: "(string, string) jmap \<Rightarrow> bool" where
  "isLegacySignedRequest headers \<longleftrightarrow>
     (let lowered = map (to_lower \<circ> fst) headers
      in to_lower LEGACY_SIGNATURE_HEADER \<in> set lowered \<or> to_lower LEGACY_ISO_TIMESTAMP_HEADER \<in> set lowered)"

record signing_status =
  ss_enabled :: bool
  ss_replayWindowSeconds :: js_num
  ss_maxSkewSeconds :: js_num

definition signingStatus :: "bool \<Rightarrow> js_num option \<Rightarrow> js_num option \<Rightarrow> signing_status" where
  "signingStatus enabled window skew =
     \<lparr>ss_enabled = enabled,
      ss_replayWindowSeconds = (case window of Some w \<Rightarrow> w | None \<Rightarrow> DEFAULT_MAX_AGE_SECONDS),
      ss_maxSkewSeconds = (case skew of Some s \<Rightarrow> s | None \<Rightarrow> DEFAULT_MAX_SKEW_SECONDS)\<rparr>"

section \<open>Verifying\<close>

record verify_options =
  vo_secret :: string
  vo_body :: string
  vo_signature :: "string option"
  vo_timestamp :: "string option"
  vo_maxAgeSeconds :: "js_num option"
  vo_maxSkewSeconds :: "js_num option"
  vo_now :: "js_num option"

datatype verification_reason =
    Missing_signature | Missing_timestamp | Malformed_timestamp | Signature_expired | Signature_future | Invalid_signature

definition is_lower_hex :: "char \<Rightarrow> bool" where
  "is_lower_hex c \<longleftrightarrow> is_digit c \<or> 97 \<le> (of_char c :: nat) \<and> (of_char c :: nat) \<le> 102"

text \<open>The group of \<open>/^sha256=([0-9a-f]{64})$/\<close>, and \<open>Buffer.from(hex, 'hex')\<close> of such digits.\<close>

definition signature_digits :: "string \<Rightarrow> string option" where
  "signature_digits s =
     (if take 7 s = ''sha256='' \<and> length (drop 7 s) = 64 \<and> list_all is_lower_hex (drop 7 s) then Some (drop 7 s) else None)"

definition nibble :: "char \<Rightarrow> nat" where
  "nibble c = (if is_digit c then digit_val c else of_char c - 87)"

fun bytes_of_hex :: "string \<Rightarrow> nat list" where
  "bytes_of_hex (a # b # s) = (if is_lower_hex a \<and> is_lower_hex b then (16 * nibble a + nibble b) # bytes_of_hex s else [])"
| "bytes_of_hex _ = []"

definition timingSafeEqual :: "nat list \<Rightarrow> nat list \<Rightarrow> js_error + bool" where
  "timingSafeEqual a b =
     (if length a \<noteq> length b then Inl (RangeError ''Input buffers must have the same byte length'') else Inr (a = b))"

text \<open>Valid is \<open>None\<close>.\<close>

definition verifySignature :: "mac \<Rightarrow> js_num \<Rightarrow> verify_options \<Rightarrow> js_error + verification_reason option" where
  "verifySignature hmac ms q =
     (case vo_signature q of
        None \<Rightarrow> Inr (Some Missing_signature)
      | Some signature \<Rightarrow>
     if signature = [] then Inr (Some Missing_signature)
     else case vo_timestamp q of
        None \<Rightarrow> Inr (Some Missing_timestamp)
      | Some timestamp \<Rightarrow>
     if timestamp = [] then Inr (Some Missing_timestamp)
     else if \<not> list_all is_digit timestamp then Inr (Some Malformed_timestamp)
     else
       (let now = (case vo_now q of Some t \<Rightarrow> t | None \<Rightarrow> nowSeconds ms);
            maxAge = (case vo_maxAgeSeconds q of Some a \<Rightarrow> a | None \<Rightarrow> DEFAULT_MAX_AGE_SECONDS);
            maxSkew = (case vo_maxSkewSeconds q of Some a \<Rightarrow> a | None \<Rightarrow> DEFAULT_MAX_SKEW_SECONDS);
            sentAt = js_number (int (nat_of_digits timestamp))
        in if js_sub now sentAt > maxAge then Inr (Some Signature_expired)
           else if js_sub sentAt now > maxSkew then Inr (Some Signature_future)
           else case signature_digits signature of
                  None \<Rightarrow> Inr (Some Invalid_signature)
                | Some digits \<Rightarrow>
                    (let expected = drop 7 (sh_signature (signBody hmac ms (vo_secret q) (vo_body q) (Some sentAt)))
                     in and_then (timingSafeEqual (bytes_of_hex digits) (bytes_of_hex expected))
                          (\<lambda>equal. Inr (if equal then None else Some Invalid_signature)))))"

section \<open>The client\<close>

definition canonicalRequestBody :: "(json \<Rightarrow> string) \<Rightarrow> json \<Rightarrow> string" where
  "canonicalRequestBody stringify payload = stringify payload"

definition signedPayload :: "string \<Rightarrow> string \<Rightarrow> string" where
  "signedPayload timestamp body = timestamp @ ''.'' @ body"

definition hex_digit :: "nat \<Rightarrow> char" where
  "hex_digit n = (if n < 10 then digit_char n else char_of (87 + n))"

definition bytes_toHex :: "nat list \<Rightarrow> string" where
  "bytes_toHex bytes = concat (map (\<lambda>b. [hex_digit (b div 16), hex_digit (b mod 16)]) bytes)"

text \<open>WebCrypto may be absent (\<open>None\<close>) or reject; otherwise it gives the bytes of the HMAC.\<close>

definition signPayload :: "(string \<Rightarrow> string \<Rightarrow> js_error + nat list) option \<Rightarrow> string \<Rightarrow> string \<Rightarrow> string \<Rightarrow> string option" where
  "signPayload subtle secret timestamp body =
     (case subtle of
        None \<Rightarrow> None
      | Some sign \<Rightarrow>
          (case sign secret (signedPayload timestamp body) of
             Inl e \<Rightarrow> None
           | Inr bytes \<Rightarrow> Some (''sha256='' @ bytes_toHex bytes)))"

section \<open>Digits\<close>

definition hex_digest :: "mac \<Rightarrow> bool" where
  "hex_digest hmac \<longleftrightarrow> (\<forall>secret m. length (hmac secret m) = 64 \<and> list_all is_lower_hex (hmac secret m))"

lemma nibble_less: "is_lower_hex c \<Longrightarrow> nibble c < 16"
  by (auto simp: is_lower_hex_def nibble_def is_digit_def digit_val_def)

lemma nibble_inj:
  assumes "is_lower_hex a" "is_lower_hex b" "nibble a = nibble b"
  shows "a = b"
proof -
  define x y :: nat where xy: "x = of_char a" "y = of_char b"
  have "x = y" using assms
    unfolding is_lower_hex_def nibble_def is_digit_def digit_val_def xy [symmetric] by (auto split: if_splits)
  then show ?thesis by (simp add: xy)
qed

lemma length_bytes_of_hex: "list_all is_lower_hex s \<Longrightarrow> even (length s) \<Longrightarrow> 2 * length (bytes_of_hex s) = length s"
  by (induction s rule: bytes_of_hex.induct) auto

lemma two_digits:
  assumes "16 * x + y = 16 * x' + (y' :: nat)" "y < 16" "y' < 16"
  shows "x = x'" "y = y'"
proof -
  have "x = (16 * x + y) div 16" "x' = (16 * x' + y') div 16" using assms(2,3) by simp_all
  then show "x = x'" using assms(1) by simp
  then show "y = y'" using assms(1) by simp
qed

lemma bytes_of_hex_inj:
  "length s = length t \<Longrightarrow> even (length s) \<Longrightarrow> list_all is_lower_hex s \<Longrightarrow> list_all is_lower_hex t \<Longrightarrow>
    bytes_of_hex s = bytes_of_hex t \<Longrightarrow> s = t"
proof (induction s arbitrary: t rule: bytes_of_hex.induct)
  case (1 a b s)
  then obtain c d t' where t: "t = c # d # t'" using 1(2) by (cases t; cases "tl t") auto
  have "16 * nibble a + nibble b = 16 * nibble c + nibble d" using 1(4-6) by (simp add: t)
  moreover have "nibble b < 16" "nibble d < 16" using 1(4,5) by (simp_all add: t nibble_less)
  ultimately have v: "nibble a = nibble c" "nibble b = nibble d" by (rule two_digits)+
  have "a = c" by (rule nibble_inj) (use 1(4,5) v in \<open>simp_all add: t\<close>)
  moreover have "b = d" by (rule nibble_inj) (use 1(4,5) v in \<open>simp_all add: t\<close>)
  moreover have "s = t'" by (rule 1(1)) (use 1(2-6) in \<open>simp_all add: t\<close>)
  ultimately show ?case by (simp add: t)
qed auto

lemma hex_digit_lower: "n < 16 \<Longrightarrow> is_lower_hex (hex_digit n)"
proof -
  assume "n < 16"
  then have "n \<in> set [0..<16]" by simp
  then show ?thesis by (auto simp: upt_conv_Cons hex_digit_def is_lower_hex_def is_digit_def digit_char_def)
qed

lemma bytes_toHex_digest: "list_all (\<lambda>b. b < 256) bytes \<Longrightarrow> length (bytes_toHex bytes) = 2 * length bytes \<and> list_all is_lower_hex (bytes_toHex bytes)"
  by (induction bytes) (auto simp: bytes_toHex_def intro!: hex_digit_lower)

lemma signature_digits_iff:
  "signature_digits s = Some d \<longleftrightarrow> s = ''sha256='' @ d \<and> length d = 64 \<and> list_all is_lower_hex d"
proof -
  have "take 7 s = ''sha256='' \<longleftrightarrow> s = ''sha256='' @ drop 7 s"
    using append_take_drop_id [of 7 s] by (metis append_same_eq)
  then show ?thesis by (auto simp: signature_digits_def)
qed

lemma seconds_text_digits:
  assumes "0 \<le> x"
  shows "list_all is_digit (seconds_text x)" "seconds_text x \<noteq> []" "int (nat_of_digits (seconds_text x)) = \<lfloor>x\<rfloor>"
  using assms by (simp_all add: seconds_text_def int_to_string_def)

section \<open>What is accepted\<close>

definition sent_at :: "string \<Rightarrow> js_num" where
  "sent_at timestamp = js_number (int (nat_of_digits timestamp))"

definition accepted :: "mac \<Rightarrow> js_num \<Rightarrow> verify_options \<Rightarrow> bool" where
  "accepted hmac ms q \<longleftrightarrow>
     (case (vo_timestamp q, vo_signature q) of
        (Some t, Some s) \<Rightarrow>
          (let now = (case vo_now q of Some n \<Rightarrow> n | None \<Rightarrow> nowSeconds ms)
           in t \<noteq> [] \<and> list_all is_digit t
              \<and> js_sub now (sent_at t) \<le> (case vo_maxAgeSeconds q of Some a \<Rightarrow> a | None \<Rightarrow> 300)
              \<and> js_sub (sent_at t) now \<le> (case vo_maxSkewSeconds q of Some a \<Rightarrow> a | None \<Rightarrow> 60)
              \<and> s = ''sha256='' @ hmac (vo_secret q) (seconds_text (sent_at t) @ ''.'' @ vo_body q))
      | _ \<Rightarrow> False)"

lemma verify_iff:
  assumes "hex_digest hmac"
  shows "\<exists>r. verifySignature hmac ms q = Inr r \<and> (r = None \<longleftrightarrow> accepted hmac ms q)"
proof (cases "vo_signature q")
  case None
  then show ?thesis by (simp add: verifySignature_def accepted_def split: option.splits)
next
  case s: (Some s)
  show ?thesis
  proof (cases "vo_timestamp q")
    case None
    then show ?thesis using s by (simp add: verifySignature_def accepted_def)
  next
    case t: (Some t)
    define expected where "expected = hmac (vo_secret q) (seconds_text (sent_at t) @ ''.'' @ vo_body q)"
    have e: "length expected = 64" "list_all is_lower_hex expected" using assms by (simp_all add: expected_def hex_digest_def)
    have equal: "timingSafeEqual (bytes_of_hex d) (bytes_of_hex expected) = Inr (d = expected)"
      if d: "signature_digits s = Some d" for d
    proof -
      have "length d = 64" "list_all is_lower_hex d" using d by (simp_all add: signature_digits_iff)
      with e show ?thesis
        using length_bytes_of_hex [of d] length_bytes_of_hex [of expected] bytes_of_hex_inj [of d expected]
        by (auto simp: timingSafeEqual_def)
    qed
    have s_eq: "s = ''sha256='' @ expected \<longleftrightarrow> signature_digits s = Some expected" using e by (simp add: signature_digits_iff)
    show ?thesis
    proof (cases "signature_digits s")
      case None
      then have "s \<noteq> ''sha256='' @ expected" using s_eq by simp
      then have "\<not> accepted hmac ms q" by (simp add: accepted_def s t expected_def Let_def)
      then show ?thesis by (simp add: verifySignature_def s t Let_def None)
    next
      case (Some d)
      have nonempty: "s \<noteq> []" using Some by (auto simp: signature_digits_iff)
      have drop_expected: "drop 7 (sh_signature (signBody hmac ms (vo_secret q) (vo_body q) (Some (sent_at t)))) = expected"
        by (simp add: signBody_def expected_def Let_def)
      have v: "verifySignature hmac ms q =
        (if t = [] then Inr (Some Missing_timestamp) else if \<not> list_all is_digit t then Inr (Some Malformed_timestamp)
         else if js_sub (case vo_now q of Some n \<Rightarrow> n | None \<Rightarrow> nowSeconds ms) (sent_at t)
             > (case vo_maxAgeSeconds q of Some a \<Rightarrow> a | None \<Rightarrow> 300) then Inr (Some Signature_expired)
         else if js_sub (sent_at t) (case vo_now q of Some n \<Rightarrow> n | None \<Rightarrow> nowSeconds ms)
             > (case vo_maxSkewSeconds q of Some a \<Rightarrow> a | None \<Rightarrow> 60) then Inr (Some Signature_future)
         else Inr (if d = expected then None else Some Invalid_signature))"
        using equal [OF Some] Some nonempty
        unfolding verifySignature_def s t Let_def sent_at_def [symmetric] DEFAULT_MAX_AGE_SECONDS_def DEFAULT_MAX_SKEW_SECONDS_def
        by (simp add: drop_expected)
      have "accepted hmac ms q \<longleftrightarrow> t \<noteq> [] \<and> list_all is_digit t
          \<and> js_sub (case vo_now q of Some n \<Rightarrow> n | None \<Rightarrow> nowSeconds ms) (sent_at t) \<le> (case vo_maxAgeSeconds q of Some a \<Rightarrow> a | None \<Rightarrow> 300)
          \<and> js_sub (sent_at t) (case vo_now q of Some n \<Rightarrow> n | None \<Rightarrow> nowSeconds ms) \<le> (case vo_maxSkewSeconds q of Some a \<Rightarrow> a | None \<Rightarrow> 60)
          \<and> d = expected"
        using s_eq Some by (simp add: accepted_def s t Let_def expected_def)
      then show ?thesis unfolding v by (simp add: not_less)
    qed
  qed
qed

lemma accepted_signed:
  assumes "0 \<le> n" "n \<le> 2 ^ 53" "n - 60 \<le> m" "m \<le> n + 300"
  shows "accepted hmac ms
    \<lparr>vo_secret = key, vo_body = body, vo_signature = Some (''sha256='' @ hmac key (seconds_text (of_int n) @ ''.'' @ body)),
     vo_timestamp = Some (seconds_text (of_int n)), vo_maxAgeSeconds = None, vo_maxSkewSeconds = None, vo_now = Some (of_int m)\<rparr>"
proof -
  have t: "sent_at (seconds_text (of_int n)) = of_int n"
    using assms seconds_text_digits(3) [of "of_int n"] by (simp add: sent_at_def js_number_exact)
  have "fl (of_int (m - n)) = of_int (m - n)" by (rule fl_of_int) (use assms in simp)
  moreover have "fl (of_int (n - m)) = of_int (n - m)" by (rule fl_of_int) (use assms in simp)
  ultimately have "js_sub (of_int m) (of_int n) = of_int (m - n)" "js_sub (of_int n) (of_int m) = of_int (n - m)" by (simp_all add: js_sub_def)
  moreover have "(of_int (m - n) :: js_num) \<le> of_int 300" "(of_int (n - m) :: js_num) \<le> of_int 60"
    unfolding of_int_le_iff using assms by simp_all
  ultimately show ?thesis
    using assms seconds_text_digits [of "of_int n"] by (simp add: accepted_def t Let_def)
qed

text \<open>
  C6. The verifier throws nothing and accepts exactly the requests whose timestamp is a decimal
  number of seconds at most the replay window behind its clock and at most the skew ahead, and
  whose signature is the HMAC of that timestamp, a dot and the body under the secret (\<open>accepted\<close>).
\<close>

theorem verification_exact:
  assumes "hex_digest hmac"
  shows "\<exists>r. verifySignature hmac ms q = Inr r \<and> (r = None \<longleftrightarrow> accepted hmac ms q)"
  by (rule verify_iff [OF assms])

text \<open>A digest that depends on the message, and a request signed at second 1000 and verified at second 1300.\<close>

definition sample_mac :: mac where
  "sample_mac secret m = (if m = ''1000.{}'' then replicate 64 (CHR ''a'') else replicate 64 (CHR ''0''))"

definition sample_delivery :: verify_options where
  "sample_delivery =
     \<lparr>vo_secret = ''k'', vo_body = ''{}'', vo_signature = Some (''sha256='' @ sample_mac ''k'' (seconds_text (of_int 1000) @ ''.'' @ ''{}'')),
      vo_timestamp = Some (seconds_text (of_int 1000)), vo_maxAgeSeconds = None, vo_maxSkewSeconds = None, vo_now = Some (of_int 1300)\<rparr>"

lemma sample_mac_digest: "hex_digest sample_mac"
  by (simp add: hex_digest_def sample_mac_def is_lower_hex_def is_digit_def list_all_iff)

theorem verification_exact_witness: "verifySignature sample_mac 0 sample_delivery = Inr None"
proof -
  have "accepted sample_mac 0 sample_delivery" unfolding sample_delivery_def by (rule accepted_signed) simp_all
  then show ?thesis using verification_exact [OF sample_mac_digest, of 0 sample_delivery] by auto
qed

text \<open>The client signs as the API does when WebCrypto gives the bytes that the digest prints.\<close>

lemma client_signs_alike:
  assumes "sign secret (seconds_text t @ ''.'' @ body) = Inr bytes" "hmac secret (seconds_text t @ ''.'' @ body) = bytes_toHex bytes"
  shows "signPayload (Some sign) secret (seconds_text t) body = Some (sh_signature (signBody hmac ms secret body (Some t)))"
  using assms by (simp add: signPayload_def signedPayload_def signBody_def)

end
