(* ===== verification/WebhookTester.thy ===== *)
theory WebhookTester
  imports WebhookSignature Pagination SsrfGuard WorkspaceSanitizer
begin

text \<open>
  The webhook tester: \<open>webhook.service.ts\<close> of \<open>apps/api/src/modules/webhook\<close> with \<open>redactHeaders\<close> of
  \<open>common/redaction.ts\<close>. A header object is a map in insertion order. The network, the clock, the
  random ids, the HMAC, \<open>JSON.stringify\<close> and the text decoder are fields of an environment.
\<close>

section \<open>Headers\<close>

definition REDACTED :: string where "REDACTED = ''[REDACTED]''"

definition SENSITIVE_KEY_PATTERNS :: "string list" where
  "SENSITIVE_KEY_PATTERNS =
     [''key'', ''jwt'', ''token'', ''secret'', ''signature'', ''signing_key'', ''private'', ''password'', ''authorization'',
      ''credential'', ''cookie'']"

definition isSensitiveHeader :: "string \<Rightarrow> bool" where
  "isSensitiveHeader key = list_ex (has_sub (to_lower key)) SENSITIVE_KEY_PATTERNS"

type_synonym headers = "(string, string) jmap"

definition redactHeaders :: "headers \<Rightarrow> headers" where
  "redactHeaders headers =
     fold (\<lambda>(k, v) redacted. jm_set redacted k (if isSensitiveHeader k then REDACTED else v)) headers []"

definition RECORDED_SIGNATURE_HEADER_NAMES :: "string list" where
  "RECORDED_SIGNATURE_HEADER_NAMES =
     map to_lower [LEGACY_SIGNATURE_HEADER, LEGACY_ISO_TIMESTAMP_HEADER, SIGNATURE_HEADER, TIMESTAMP_HEADER]"

definition stripRecordedSignatureHeaders :: "headers \<Rightarrow> headers" where
  "stripRecordedSignatureHeaders headers =
     filter (\<lambda>(name, _). to_lower name \<notin> set RECORDED_SIGNATURE_HEADER_NAMES) headers"

definition assign_headers :: "headers \<Rightarrow> headers \<Rightarrow> headers" where
  "assign_headers target source = fold (\<lambda>(k, v) m. jm_set m k v) source target"

section \<open>Errors\<close>

datatype tester_error =
    Tester_bad_gateway string | Tester_bad_request string | Tester_not_found string
  | Tester_abort | Tester_error string | Tester_no_error

fun from_guard :: "guard_error \<Rightarrow> tester_error" where
  "from_guard (Guard_bad_request m) = Tester_bad_request m"
| "from_guard (Guard_bad_gateway m) = Tester_bad_gateway m"
| "from_guard (Guard_type_error m) = Tester_error m"
| "from_guard (Guard_error m) = Tester_error m"

fun is_http_error :: "tester_error \<Rightarrow> bool" where
  "is_http_error (Tester_bad_gateway m) = True"
| "is_http_error (Tester_bad_request m) = True"
| "is_http_error e = False"

section \<open>The request\<close>

definition OUTBOUND_TIMEOUT_MS :: nat where "OUTBOUND_TIMEOUT_MS = 10000"
definition MAX_REQUEST_BODY_BYTES :: nat where "MAX_REQUEST_BODY_BYTES = 64 * 1024"
definition MAX_RESPONSE_BODY_BYTES :: nat where "MAX_RESPONSE_BODY_BYTES = 64 * 1024"
definition MAX_HISTORY_PER_USER :: nat where "MAX_HISTORY_PER_USER = 50"
definition MAX_HISTORY_USERS :: nat where "MAX_HISTORY_USERS = 1000"

text \<open>A response with the chunks of its body, of which one may reject.\<close>

record web_response =
  wr_status :: nat
  wr_headers :: headers
  wr_body :: "(tester_error + nat list) list option"

record web_request =
  wq_url :: url
  wq_method :: string
  wq_headers :: headers
  wq_body :: "string option"

text \<open>The world of one attempt: its hops, times and id.\<close>

record attempt_env =
  ae_dns :: "nat \<Rightarrow> string \<Rightarrow> string list option"
  ae_fetch :: "nat \<Rightarrow> web_request \<Rightarrow> tester_error + web_response"
  ae_start :: js_num
  ae_sign :: js_num
  ae_finish :: js_num
  ae_stamp :: js_num
  ae_id :: string

record tester_env =
  te_hmac :: mac
  te_stringify :: "json \<Rightarrow> string"
  te_url :: "string \<Rightarrow> url option \<Rightarrow> url option"
  te_decode :: "nat list \<Rightarrow> bool \<Rightarrow> string"
  te_secret :: "string option"
  te_dns :: "string \<Rightarrow> string list option"
  te_iso_now :: string
  te_attempt :: "nat \<Rightarrow> attempt_env"

fun read_chunks :: "nat \<Rightarrow> nat \<Rightarrow> (tester_error + nat list) list \<Rightarrow> tester_error + nat list \<times> bool" where
  "read_chunks limit received [] = Inr ([], False)"
| "read_chunks limit received (Inl e # chunks) = Inl e"
| "read_chunks limit received (Inr c # chunks) =
     (if received + length c > limit then Inr ([], True)
      else and_then (read_chunks limit (received + length c) chunks) (\<lambda>(bytes, truncated). Inr (c @ bytes, truncated)))"

text \<open>The text of the bytes read, with the decoder's last call unless the body was cut.\<close>

definition readBodyWithLimit ::
  "(nat list \<Rightarrow> bool \<Rightarrow> string) \<Rightarrow> (tester_error + nat list) list option \<Rightarrow> nat \<Rightarrow> tester_error + string \<times> bool" where
  "readBodyWithLimit decode stream limit =
     (case stream of
        None \<Rightarrow> Inr ([], False)
      | Some chunks \<Rightarrow>
          and_then (read_chunks limit 0 chunks) (\<lambda>(bytes, truncated). Inr (decode bytes (\<not> truncated), truncated)))"

definition read_response ::
  "tester_env \<Rightarrow> web_response \<Rightarrow> tester_error + nat \<times> headers \<times> string \<times> bool" where
  "read_response env r =
     and_then (readBodyWithLimit (te_decode env) (wr_body r) MAX_RESPONSE_BODY_BYTES)
       (\<lambda>(t, truncated). Inr (wr_status r, assign_headers [] (wr_headers r), t, truncated))"

function request_loop ::
  "tester_env \<Rightarrow> attempt_env \<Rightarrow> string \<Rightarrow> headers \<Rightarrow> string option \<Rightarrow> nat \<Rightarrow> url \<Rightarrow> web_request list \<Rightarrow>
    (tester_error + nat \<times> headers \<times> string \<times> bool) \<times> web_request list" where
  "request_loop env a verb headers body redirects currentUrl sent =
     (let rq = \<lparr>wq_url = currentUrl, wq_method = verb, wq_headers = headers,
                wq_body = (if verb \<noteq> ''GET'' then body else None)\<rparr>;
          sent' = sent @ [rq]
      in case ae_fetch a redirects rq of
           Inl e \<Rightarrow> (Inl e, sent')
         | Inr r \<Rightarrow>
             if 300 \<le> wr_status r \<and> wr_status r < 400
             then let location = jm_get (wr_headers r) ''location''
                  in if location = None \<or> location = Some [] \<or> redirects \<ge> MAX_SAFE_REDIRECTS
                     then (read_response env r, sent')
                     else case te_url env (the location) (Some currentUrl) of
                            None \<Rightarrow> (Inl (Tester_error ''Invalid URL''), sent')
                          | Some u \<Rightarrow>
                              (case assertSafeWebhookDestination (ae_dns a (redirects + 1)) u of
                                 Inl e \<Rightarrow> (Inl (from_guard e), sent')
                               | Inr _ \<Rightarrow> request_loop env a verb headers body (redirects + 1) u sent')
             else (read_response env r, sent'))"
  by pat_completeness auto
termination by (relation "measure (\<lambda>(env, a, m, h, b, redirects, u, s). MAX_SAFE_REDIRECTS - redirects)") auto

declare request_loop.simps [simp del]

definition performRequest ::
  "tester_env \<Rightarrow> attempt_env \<Rightarrow> string \<Rightarrow> string \<Rightarrow> headers \<Rightarrow> string option \<Rightarrow>
    (tester_error + nat \<times> headers \<times> string \<times> bool) \<times> web_request list" where
  "performRequest env a verb initialUrl headers body =
     (case te_url env initialUrl None of
        None \<Rightarrow> (Inl (Tester_error ''Invalid URL''), [])
      | Some u \<Rightarrow>
          (case assertSafeWebhookDestination (ae_dns a 0) u of
             Inl e \<Rightarrow> (Inl (from_guard e), [])
           | Inr _ \<Rightarrow> request_loop env a verb headers body 0 u []))"

section \<open>Differences between payloads\<close>

text \<open>
  The own members of a value, and what \<open>in\<close> and \<open>[]\<close> find: a member or, for the names of
  \<open>Object.prototype\<close>, a function (\<open>None\<close>), which equals no JSON value.
\<close>

fun own_members :: "json \<Rightarrow> (string \<times> json) list" where
  "own_members (J_obj m) = m"
| "own_members (J_arr xs) = map (\<lambda>(i, x). (digits_of_nat i, x)) (List.enumerate 0 xs)"
| "own_members v = []"

definition member_value :: "json \<Rightarrow> string \<Rightarrow> json option" where
  "member_value v k =
     (case v of
        J_arr xs \<Rightarrow> (if k = ''length'' then Some (J_num (of_nat (length xs))) else jm_get (own_members v) k)
      | _ \<Rightarrow> jm_get (own_members v) k)"

definition OBJECT_PROTOTYPE_NAMES :: "string list" where
  "OBJECT_PROTOTYPE_NAMES =
     [''constructor'', ''hasOwnProperty'', ''isPrototypeOf'', ''propertyIsEnumerable'', ''toLocaleString'', ''toString'',
      ''valueOf'', ''__defineGetter__'', ''__defineSetter__'', ''__lookupGetter__'', ''__lookupSetter__'', ''__proto__'']"

definition has_member :: "(string \<times> json) list \<Rightarrow> string \<Rightarrow> bool" where
  "has_member m k \<longleftrightarrow> jm_has m k \<or> k \<in> set OBJECT_PROTOTYPE_NAMES"

text \<open>\<open>===\<close> of values that are not containers; containers are compared by their members.\<close>

fun is_container :: "json \<Rightarrow> bool" where
  "is_container (J_obj m) = True"
| "is_container (J_arr xs) = True"
| "is_container v = False"

lemma size_member: "(k, v) \<in> set m \<Longrightarrow> size v < Suc (size_list (size_prod (\<lambda>_. 0) size) m)"
  by (induction m) auto

lemma size_element: "(i, v) \<in> set (List.enumerate n xs) \<Longrightarrow> size v < Suc (size_list size xs)"
  by (induction xs arbitrary: n) (auto simp: less_Suc_eq_le intro: le_SucI trans_le_add2 dest: Suc_leI)

function deepEqual :: "json \<Rightarrow> json option \<Rightarrow> bool" where
  "deepEqual (J_obj m) b =
     (case b of
        None \<Rightarrow> False
      | Some w \<Rightarrow> is_container w \<and> length m = length (own_members w)
          \<and> list_all (\<lambda>(k, v). deepEqual v (member_value w k)) m)"
| "deepEqual (J_arr xs) b =
     (case b of
        None \<Rightarrow> False
      | Some w \<Rightarrow> is_container w \<and> length xs = length (own_members w)
          \<and> list_all (\<lambda>(i, v). deepEqual v (member_value w (digits_of_nat i))) (List.enumerate 0 xs))"
| "deepEqual J_null b = (b = Some J_null)"
| "deepEqual (J_bool x) b = (b = Some (J_bool x))"
| "deepEqual (J_num x) b = (b = Some (J_num x))"
| "deepEqual (J_str x) b = (b = Some (J_str x))"
  by pat_completeness auto
termination
  by (relation "measure (size \<circ> fst)") (auto dest: size_member size_element)

record payload_diff =
  pd_added :: "(string \<times> json) list"
  pd_modified :: "(string \<times> json option \<times> json) list"
  pd_removed :: "(string \<times> json) list"

definition computePayloadDiff :: "(string \<times> json) list \<Rightarrow> (string \<times> json) list \<Rightarrow> payload_diff option" where
  "computePayloadDiff previous current =
     (let added = filter (\<lambda>(k, v). \<not> has_member previous k) current;
          changed = filter (\<lambda>(k, v). has_member previous k \<and> \<not> (case jm_get previous k of Some p \<Rightarrow> deepEqual p (Some v) | None \<Rightarrow> False)) current;
          modified = map (\<lambda>(k, v). (k, jm_get previous k, v)) changed;
          removed = filter (\<lambda>(k, v). \<not> has_member current k) previous
      in if added = [] \<and> modified = [] \<and> removed = [] then None
         else Some \<lparr>pd_added = added, pd_modified = modified, pd_removed = removed\<rparr>)"

section \<open>Templates\<close>

record webhook_template =
  wt_provider :: string
  wt_eventType :: string
  wt_description :: string
  wt_schema :: "(string \<times> string) list"
  wt_samplePayload :: "(string \<times> json) list"

definition WEBHOOK_TEMPLATES :: "webhook_template list" where
  "WEBHOOK_TEMPLATES =
     [\<lparr>wt_provider = ''crowdpay'', wt_eventType = ''campaign.funded'',
       wt_description = ''Fired when a CrowdPay campaign reaches its funding goal'',
       wt_schema =
        [(''campaignId'', ''Unique campaign identifier''),
         (''title'', ''Campaign title''),
         (''goalAmount'', ''Funding goal in stroops''),
         (''fundedAmount'', ''Total amount funded in stroops''),
         (''fundedAt'', ''ISO 8601 timestamp of funding completion'')],
       wt_samplePayload =
        [(''event'', J_str ''campaign.funded''),
         (''timestamp'', J_str ''2026-01-15T14:32:00Z''),
         (''data'', J_obj [(''campaignId'', J_str ''cp_campaign_a1b2c3d4''),
           (''title'', J_str ''Stellar Community Fund Grant''),
           (''goalAmount'', J_str ''10000000000''),
           (''fundedAmount'', J_str ''10000000000''),
           (''asset'', J_obj [(''code'', J_str ''XLM''),
             (''issuer'', J_null)]),
           (''fundedAt'', J_str ''2026-01-15T14:32:00Z''),
           (''creatorAddress'', J_str ''GAKSG...EXAMPLE'')])]\<rparr>,
      \<lparr>wt_provider = ''crowdpay'', wt_eventType = ''campaign.contribution_received'',
       wt_description = ''Fired when a contribution is confirmed on a campaign'',
       wt_schema =
        [(''campaignId'', ''Unique campaign identifier''),
         (''contributionId'', ''Unique contribution identifier''),
         (''amount'', ''Contribution amount in stroops''),
         (''contributorAddress'', ''Stellar address of the contributor''),
         (''receivedAt'', ''ISO 8601 timestamp'')],
       wt_samplePayload =
        [(''event'', J_str ''campaign.contribution_received''),
         (''timestamp'', J_str ''2026-01-15T12:10:00Z''),
         (''data'', J_obj [(''campaignId'', J_str ''cp_campaign_a1b2c3d4''),
           (''contributionId'', J_str ''cp_contrib_x9y8z7''),
           (''amount'', J_str ''5000000000''),
           (''asset'', J_obj [(''code'', J_str ''XLM''),
             (''issuer'', J_null)]),
           (''contributorAddress'', J_str ''GB6N...EXAMPLE''),
           (''memo'', J_str ''Happy to support!''),
           (''receivedAt'', J_str ''2026-01-15T12:10:00Z'')])]\<rparr>,
      \<lparr>wt_provider = ''crowdpay'', wt_eventType = ''campaign.withdrawn'',
       wt_description = ''Fired when the campaign creator withdraws funded assets'',
       wt_schema =
        [(''campaignId'', ''Unique campaign identifier''),
         (''withdrawalId'', ''Unique withdrawal identifier''),
         (''amount'', ''Withdrawal amount in stroops''),
         (''destinationAddress'', ''Stellar address receiving the withdrawal''),
         (''withdrawnAt'', ''ISO 8601 timestamp'')],
       wt_samplePayload =
        [(''event'', J_str ''campaign.withdrawn''),
         (''timestamp'', J_str ''2026-01-20T09:00:00Z''),
         (''data'', J_obj [(''campaignId'', J_str ''cp_campaign_a1b2c3d4''),
           (''withdrawalId'', J_str ''cp_wd_m3n4o5''),
           (''amount'', J_str ''10000000000''),
           (''asset'', J_obj [(''code'', J_str ''XLM''),
             (''issuer'', J_null)]),
           (''destinationAddress'', J_str ''GAKSG...EXAMPLE''),
           (''withdrawnAt'', J_str ''2026-01-20T09:00:00Z'')])]\<rparr>,
      \<lparr>wt_provider = ''crowdpay'', wt_eventType = ''campaign.expired'',
       wt_description = ''Fired when a campaign reaches its deadline without meeting the goal'',
       wt_schema =
        [(''campaignId'', ''Unique campaign identifier''),
         (''title'', ''Campaign title''),
         (''goalAmount'', ''Funding goal in stroops''),
         (''raisedAmount'', ''Total raised in stroops''),
         (''expiredAt'', ''ISO 8601 timestamp of expiration'')],
       wt_samplePayload =
        [(''event'', J_str ''campaign.expired''),
         (''timestamp'', J_str ''2026-02-01T00:00:00Z''),
         (''data'', J_obj [(''campaignId'', J_str ''cp_campaign_e6f7g8''),
           (''title'', J_str ''Experimental Stellar DEX Tool''),
           (''goalAmount'', J_str ''50000000000''),
           (''raisedAmount'', J_str ''12000000000''),
           (''asset'', J_obj [(''code'', J_str ''XLM''),
             (''issuer'', J_null)]),
           (''expiredAt'', J_str ''2026-02-01T00:00:00Z'')])]\<rparr>,
      \<lparr>wt_provider = ''fluxa'', wt_eventType = ''swap.completed'',
       wt_description = ''Fired when a swap execution completes successfully'',
       wt_schema =
        [(''swapId'', ''Unique swap identifier''),
         (''sourceAsset'', ''Asset being sold''),
         (''destAsset'', ''Asset being bought''),
         (''sourceAmount'', ''Amount of source asset''),
         (''destAmount'', ''Amount of destination asset''),
         (''completedAt'', ''ISO 8601 timestamp'')],
       wt_samplePayload =
        [(''event'', J_str ''swap.completed''),
         (''timestamp'', J_str ''2026-01-15T16:45:00Z''),
         (''data'', J_obj [(''swapId'', J_str ''fx_swap_h9i0j1''),
           (''sourceAsset'', J_obj [(''type'', J_str ''native''),
             (''code'', J_str ''XLM'')]),
           (''destAsset'', J_obj [(''type'', J_str ''credit_alphanum4''),
             (''code'', J_str ''USDC''),
             (''issuer'', J_str ''GA5Z...EXAMPLE'')]),
           (''sourceAmount'', J_str ''2500000000''),
           (''destAmount'', J_str ''32000000''),
           (''priceImpact'', J_str ''0.12''),
           (''fee'', J_str ''125000''),
           (''completedAt'', J_str ''2026-01-15T16:45:00Z''),
           (''userAddress'', J_str ''GDFK...EXAMPLE'')])]\<rparr>,
      \<lparr>wt_provider = ''fluxa'', wt_eventType = ''swap.failed'',
       wt_description = ''Fired when a swap execution fails'',
       wt_schema =
        [(''swapId'', ''Unique swap identifier''),
         (''sourceAsset'', ''Asset being sold''),
         (''destAsset'', ''Asset being bought''),
         (''errorCode'', ''Machine-readable error code''),
         (''errorMessage'', ''Human-readable error description''),
         (''failedAt'', ''ISO 8601 timestamp'')],
       wt_samplePayload =
        [(''event'', J_str ''swap.failed''),
         (''timestamp'', J_str ''2026-01-15T16:46:00Z''),
         (''data'', J_obj [(''swapId'', J_str ''fx_swap_k2l3m4''),
           (''sourceAsset'', J_obj [(''type'', J_str ''native''),
             (''code'', J_str ''XLM'')]),
           (''destAsset'', J_obj [(''type'', J_str ''credit_alphanum4''),
             (''code'', J_str ''USDC''),
             (''issuer'', J_str ''GA5Z...EXAMPLE'')]),
           (''sourceAmount'', J_str ''999999999999999''),
           (''errorCode'', J_str ''INSUFFICIENT_LIQUIDITY''),
           (''errorMessage'', J_str ''No path found with sufficient liquidity for the requested amount''),
           (''failedAt'', J_str ''2026-01-15T16:46:00Z''),
           (''userAddress'', J_str ''GDFK...EXAMPLE'')])]\<rparr>,
      \<lparr>wt_provider = ''fluxa'', wt_eventType = ''liquidity.added'',
       wt_description = ''Fired when liquidity is deposited into a pool'',
       wt_schema =
        [(''poolId'', ''Unique pool identifier''),
         (''providerAddress'', ''Stellar address of the liquidity provider''),
         (''assetA'', ''First asset in the pair''),
         (''assetB'', ''Second asset in the pair''),
         (''amountA'', ''Amount of asset A deposited''),
         (''amountB'', ''Amount of asset B deposited''),
         (''addedAt'', ''ISO 8601 timestamp'')],
       wt_samplePayload =
        [(''event'', J_str ''liquidity.added''),
         (''timestamp'', J_str ''2026-01-16T10:20:00Z''),
         (''data'', J_obj [(''poolId'', J_str ''fx_pool_n5o6p7''),
           (''providerAddress'', J_str ''GCFD...EXAMPLE''),
           (''assetA'', J_obj [(''type'', J_str ''native''),
             (''code'', J_str ''XLM'')]),
           (''assetB'', J_obj [(''type'', J_str ''credit_alphanum4''),
             (''code'', J_str ''USDC''),
             (''issuer'', J_str ''GA5Z...EXAMPLE'')]),
           (''amountA'', J_str ''50000000000''),
           (''amountB'', J_str ''640000000''),
           (''sharesReceived'', J_str ''5656854249''),
           (''addedAt'', J_str ''2026-01-16T10:20:00Z'')])]\<rparr>,
      \<lparr>wt_provider = ''fluxa'', wt_eventType = ''liquidity.removed'',
       wt_description = ''Fired when liquidity is withdrawn from a pool'',
       wt_schema =
        [(''poolId'', ''Unique pool identifier''),
         (''providerAddress'', ''Stellar address of the liquidity provider''),
         (''assetA'', ''First asset in the pair''),
         (''assetB'', ''Second asset in the pair''),
         (''shares'', ''Number of pool shares burned''),
         (''removedAt'', ''ISO 8601 timestamp'')],
       wt_samplePayload =
        [(''event'', J_str ''liquidity.removed''),
         (''timestamp'', J_str ''2026-01-17T14:00:00Z''),
         (''data'', J_obj [(''poolId'', J_str ''fx_pool_n5o6p7''),
           (''providerAddress'', J_str ''GCFD...EXAMPLE''),
           (''assetA'', J_obj [(''type'', J_str ''native''),
             (''code'', J_str ''XLM'')]),
           (''assetB'', J_obj [(''type'', J_str ''credit_alphanum4''),
             (''code'', J_str ''USDC''),
             (''issuer'', J_str ''GA5Z...EXAMPLE'')]),
           (''shares'', J_str ''2828427124''),
           (''amountA'', J_str ''25000000000''),
           (''amountB'', J_str ''320000000''),
           (''removedAt'', J_str ''2026-01-17T14:00:00Z'')])]\<rparr>]"

record tester_signature =
  tg_timestamp :: string
  tg_body :: string
  tg_signature :: string

record history_entry =
  he_id :: string
  he_timestamp :: js_num
  he_endpointUrl :: string
  he_eventType :: string
  he_method :: string
  he_requestHeaders :: headers
  he_payload :: "(string \<times> json) list"
  he_responseStatus :: "nat option"
  he_responseHeaders :: headers
  he_responseBody :: string
  he_latencyMs :: js_num
  he_error :: "string option"
  he_repeatIndex :: "nat option"
  he_signature :: "tester_signature option"
  he_payloadDiff :: "(payload_diff \<times> string) option"
  he_legacySignature :: bool

record tester_state =
  ts_history :: "(string, history_entry list) jmap"
  ts_templatesByUser :: "(string, webhook_template list) jmap"
  ts_templates :: "webhook_template list"

definition getTemplates :: "string \<Rightarrow> tester_state \<Rightarrow> webhook_template list \<times> tester_state" where
  "getTemplates userId st =
     (if userId = [] then (ts_templates st, st)
      else case jm_get (ts_templatesByUser st) userId of
             Some ts \<Rightarrow> (ts, st)
           | None \<Rightarrow> (WEBHOOK_TEMPLATES, st\<lparr>ts_templatesByUser := jm_set (ts_templatesByUser st) userId WEBHOOK_TEMPLATES\<rparr>))"

fun put_template :: "webhook_template \<Rightarrow> webhook_template list \<Rightarrow> webhook_template list" where
  "put_template template [] = [template]"
| "put_template template (t # ts) =
     (if wt_provider t = wt_provider template \<and> wt_eventType t = wt_eventType template then template # ts
      else t # put_template template ts)"

definition saveTemplate :: "webhook_template \<Rightarrow> string \<Rightarrow> tester_state \<Rightarrow> tester_state" where
  "saveTemplate template userId st =
     (let (ts, st') = getTemplates userId st
      in if userId = [] then st'\<lparr>ts_templates := put_template template ts\<rparr>
         else st'\<lparr>ts_templatesByUser := jm_set (ts_templatesByUser st') userId (put_template template ts)\<rparr>)"

section \<open>History\<close>

definition recordHistory :: "string \<Rightarrow> history_entry \<Rightarrow> tester_state \<Rightarrow> tester_state" where
  "recordHistory userId entry st =
     (let entries = entry # (case jm_get (ts_history st) userId of Some es \<Rightarrow> es | None \<Rightarrow> []);
          kept = (if length entries > MAX_HISTORY_PER_USER then butlast entries else entries);
          history = jm_set (ts_history st) userId kept
      in st\<lparr>ts_history := (if length history > MAX_HISTORY_USERS then jm_delete history (fst (hd history)) else history)\<rparr>)"

section \<open>Sending\<close>

record send_dto =
  sd_endpointUrl :: string
  sd_eventType :: string
  sd_payload :: "(string \<times> json) list option"
  sd_secret :: "string option"
  sd_method :: "string option"
  sd_headers :: "headers option"
  sd_repeatCount :: "nat option"

text \<open>\<open>a || b || undefined\<close> on texts.\<close>

definition non_empty :: "string option \<Rightarrow> string option" where
  "non_empty s = (if s = Some [] then None else s)"

definition resolveSecret :: "tester_env \<Rightarrow> string option \<Rightarrow> string option" where
  "resolveSecret env requestSecret =
     (case non_empty requestSecret of Some s \<Rightarrow> Some s | None \<Rightarrow> non_empty (te_secret env))"

definition byteLength :: "string \<Rightarrow> nat" where
  "byteLength s = sum_list (map (\<lambda>c. if (of_char c :: nat) < 128 then 1 else 2) s)"

definition base_headers :: "send_dto \<Rightarrow> headers" where
  "base_headers dto =
     assign_headers [(''Content-Type'', ''application/json''), (''X-Webhook-Event'', sd_eventType dto)]
       (stripRecordedSignatureHeaders (case sd_headers dto of Some h \<Rightarrow> h | None \<Rightarrow> []))"

definition sign_request :: "tester_env \<Rightarrow> attempt_env \<Rightarrow> string option \<Rightarrow> string option \<Rightarrow> headers \<Rightarrow> headers \<times> tester_signature option" where
  "sign_request env a secret sentBody headers =
     (case secret of
        None \<Rightarrow> (headers, None)
      | Some key \<Rightarrow>
          (let signedBody = (case sentBody of Some b \<Rightarrow> b | None \<Rightarrow> []);
               signed = signatureHeaders (te_hmac env) (ae_sign a) key signedBody None
           in (assign_headers headers signed,
               Some \<lparr>tg_timestamp = the (jm_get signed TIMESTAMP_HEADER), tg_body = signedBody,
                     tg_signature = the (jm_get signed SIGNATURE_HEADER)\<rparr>)))"

definition failure_text :: "tester_error \<Rightarrow> string" where
  "failure_text e =
     (case e of
        Tester_abort \<Rightarrow> ''Request timed out after '' @ digits_of_nat OUTBOUND_TIMEOUT_MS @ ''ms''
      | Tester_no_error \<Rightarrow> ''Network error''
      | Tester_error m \<Rightarrow> m
      | Tester_not_found m \<Rightarrow> m
      | Tester_bad_gateway m \<Rightarrow> m
      | Tester_bad_request m \<Rightarrow> m)"

text \<open>What an entry holds of a response: status, headers, body and error.\<close>

definition outcome_of :: "tester_env \<Rightarrow> tester_error + nat \<times> headers \<times> string \<times> bool \<Rightarrow> nat option \<times> headers \<times> string \<times> string option" where
  "outcome_of env r =
     (case r of
        Inl e \<Rightarrow> (None, [], te_stringify env (J_obj [(''error'', J_str (failure_text e))]), Some (failure_text e))
      | Inr (status, h, t, truncated) \<Rightarrow>
          (Some status, assign_headers [] h, t,
           if truncated
           then Some (''Response body exceeded the '' @ digits_of_nat MAX_RESPONSE_BODY_BYTES @ ''-byte limit and was truncated'')
           else None))"

definition diff_of :: "((string \<times> json) list \<times> string) option \<Rightarrow> (string \<times> json) list \<Rightarrow> (payload_diff \<times> string) option" where
  "diff_of previous payload =
     (case previous of
        None \<Rightarrow> None
      | Some (p, previousId) \<Rightarrow> map_option (\<lambda>d. (d, previousId)) (computePayloadDiff p payload))"

text \<open>
  One turn of the loop of \<open>sendWebhook\<close>: the entry it records or the HTTP error it throws, the
  state and the requests made. \<open>previous\<close> is the payload and id of the turn before.
\<close>

definition attempt_request ::
  "tester_env \<Rightarrow> send_dto \<Rightarrow> string option \<Rightarrow> string \<Rightarrow> nat \<Rightarrow>
    (tester_error + nat \<times> headers \<times> string \<times> bool) \<times> web_request list \<times> headers \<times> tester_signature option" where
  "attempt_request env dto secret body i =
     (let a = te_attempt env i;
          verb = (case sd_method dto of Some m \<Rightarrow> m | None \<Rightarrow> ''POST'');
          sentBody = (if verb \<noteq> ''GET'' then Some body else None);
          (headers, signature) = sign_request env a secret sentBody (base_headers dto);
          (r, sent) = performRequest env a verb (sd_endpointUrl dto) headers sentBody
      in (r, sent, headers, signature))"

definition attempt_entry ::
  "tester_env \<Rightarrow> send_dto \<Rightarrow> (string \<times> json) list \<Rightarrow> nat \<Rightarrow> nat \<Rightarrow> ((string \<times> json) list \<times> string) option \<Rightarrow>
    (tester_error + nat \<times> headers \<times> string \<times> bool) \<Rightarrow> headers \<Rightarrow> tester_signature option \<Rightarrow> history_entry" where
  "attempt_entry env dto payload repeatCount i previous r headers signature =
     (let a = te_attempt env i; (status, rh, t, err) = outcome_of env r
      in \<lparr>he_id = ae_id a, he_timestamp = ae_stamp a, he_endpointUrl = sd_endpointUrl dto, he_eventType = sd_eventType dto,
          he_method = (case sd_method dto of Some m \<Rightarrow> m | None \<Rightarrow> ''POST''),
          he_requestHeaders = redactHeaders headers, he_payload = payload, he_responseStatus = status,
          he_responseHeaders = redactHeaders rh, he_responseBody = t, he_latencyMs = js_sub (ae_finish a) (ae_start a),
          he_error = err, he_repeatIndex = (if repeatCount > 1 then Some (i + 1) else None), he_signature = signature,
          he_payloadDiff = (if i > 0 then diff_of previous payload else None), he_legacySignature = False\<rparr>)"

definition run_attempt ::
  "tester_env \<Rightarrow> string \<Rightarrow> send_dto \<Rightarrow> (string \<times> json) list \<Rightarrow> string option \<Rightarrow> string \<Rightarrow> nat \<Rightarrow> nat \<Rightarrow>
    ((string \<times> json) list \<times> string) option \<Rightarrow> tester_state \<Rightarrow> (tester_error + history_entry) \<times> tester_state \<times> web_request list" where
  "run_attempt env userId dto payload secret body repeatCount i previous st =
     (let (r, sent, headers, signature) = attempt_request env dto secret body i
      in case r of
           Inl e \<Rightarrow>
             if is_http_error e then (Inl e, st, sent)
             else (let entry = attempt_entry env dto payload repeatCount i previous r headers signature
                   in (Inr entry, recordHistory userId entry st, sent))
         | Inr _ \<Rightarrow>
             (let entry = attempt_entry env dto payload repeatCount i previous r headers signature
              in (Inr entry, recordHistory userId entry st, sent)))"

fun attempts ::
  "tester_env \<Rightarrow> string \<Rightarrow> send_dto \<Rightarrow> (string \<times> json) list \<Rightarrow> string option \<Rightarrow> string \<Rightarrow> nat \<Rightarrow> nat list \<Rightarrow>
    ((string \<times> json) list \<times> string) option \<Rightarrow> tester_state \<Rightarrow>
    (tester_error + history_entry list) \<times> tester_state \<times> web_request list" where
  "attempts env userId dto payload secret body repeatCount [] previous st = (Inr [], st, [])"
| "attempts env userId dto payload secret body repeatCount (i # is) previous st =
     (case run_attempt env userId dto payload secret body repeatCount i previous st of
        (Inl e, st', sent) \<Rightarrow> (Inl e, st', sent)
      | (Inr entry, st', sent) \<Rightarrow>
          (case attempts env userId dto payload secret body repeatCount is (Some (payload, he_id entry)) st' of
             (Inl e, st'', sent') \<Rightarrow> (Inl e, st'', sent @ sent')
           | (Inr es, st'', sent') \<Rightarrow> (Inr (entry # es), st'', sent @ sent')))"

definition send_payload :: "tester_env \<Rightarrow> string \<Rightarrow> send_dto \<Rightarrow> tester_state \<Rightarrow> (string \<times> json) list \<times> tester_state" where
  "send_payload env userId dto st =
     (case sd_payload dto of
        Some p \<Rightarrow> (p, st)
      | None \<Rightarrow>
          (let (ts, st') = getTemplates userId st
           in (case find (\<lambda>t. wt_eventType t = sd_eventType dto) ts of
                 Some t \<Rightarrow> wt_samplePayload t
               | None \<Rightarrow> [(''event'', J_str (sd_eventType dto)), (''timestamp'', J_str (te_iso_now env))], st')))"

definition send_webhook ::
  "tester_env \<Rightarrow> string \<Rightarrow> send_dto \<Rightarrow> tester_state \<Rightarrow>
    (tester_error + history_entry list) \<times> tester_state \<times> web_request list" where
  "send_webhook env userId dto st =
     (let repeatCount = (case sd_repeatCount dto of Some n \<Rightarrow> if n > 0 then n else 1 | None \<Rightarrow> 1);
          (payload, st') = send_payload env userId dto st;
          body = te_stringify env (J_obj payload)
      in if byteLength body > MAX_REQUEST_BODY_BYTES
         then (Inl (Tester_bad_gateway (''Request payload exceeds the '' @ digits_of_nat MAX_REQUEST_BODY_BYTES @ ''-byte limit'')), st', [])
         else case te_url env (sd_endpointUrl dto) None of
                None \<Rightarrow> (Inl (Tester_error ''Invalid URL''), st', [])
              | Some u \<Rightarrow>
                  (case assertSafeWebhookDestination (te_dns env) u of
                     Inl e \<Rightarrow> (Inl (from_guard e), st', [])
                   | Inr _ \<Rightarrow>
                       attempts env userId dto payload (resolveSecret env (sd_secret dto)) body repeatCount [0..<repeatCount] None st'))"

section \<open>Replaying and reading\<close>

definition replay_dto :: "tester_env \<Rightarrow> history_entry \<Rightarrow> send_dto" where
  "replay_dto env entry =
     \<lparr>sd_endpointUrl = he_endpointUrl entry, sd_eventType = he_eventType entry, sd_payload = Some (he_payload entry),
      sd_secret = resolveSecret env None, sd_method = Some (he_method entry),
      sd_headers = Some (stripRecordedSignatureHeaders (filter (\<lambda>(_, v). v \<noteq> REDACTED) (he_requestHeaders entry))),
      sd_repeatCount = None\<rparr>"

definition replayWebhook ::
  "tester_env \<Rightarrow> string \<Rightarrow> string \<Rightarrow> tester_state \<Rightarrow>
    (tester_error + history_entry list) \<times> tester_state \<times> web_request list" where
  "replayWebhook env userId k st =
     (case find (\<lambda>h. he_id h = k) (case jm_get (ts_history st) userId of Some es \<Rightarrow> es | None \<Rightarrow> []) of
        None \<Rightarrow> (Inl (Tester_not_found ''Webhook history entry not found''), st, [])
      | Some entry \<Rightarrow> send_webhook env userId (replay_dto env entry) st)"

definition annotateLegacyEntries :: "history_entry list \<Rightarrow> history_entry list" where
  "annotateLegacyEntries entries =
     map (\<lambda>e. if \<not> he_legacySignature e \<and> isLegacySignedRequest (he_requestHeaders e) then e\<lparr>he_legacySignature := True\<rparr> else e) entries"

definition newest_first :: "(string \<Rightarrow> string \<Rightarrow> int) \<Rightarrow> history_entry \<Rightarrow> history_entry \<Rightarrow> int" where
  "newest_first localeCompare a b =
     (let d = js_sub (he_timestamp b) (he_timestamp a)
      in if d < 0 then -1 else if d > 0 then 1 else localeCompare (he_id b) (he_id a))"

text \<open>The history of a user is read and annotated in place.\<close>

definition getHistory :: "string \<Rightarrow> tester_state \<Rightarrow> history_entry list \<times> tester_state" where
  "getHistory userId st =
     (case jm_get (ts_history st) userId of
        None \<Rightarrow> ([], st)
      | Some es \<Rightarrow> (annotateLegacyEntries es, st\<lparr>ts_history := jm_set (ts_history st) userId (annotateLegacyEntries es)\<rparr>))"

definition getHistoryPage ::
  "(string \<Rightarrow> string \<Rightarrow> int) \<Rightarrow> string \<Rightarrow> js_num option \<Rightarrow> js_num option \<Rightarrow> tester_state \<Rightarrow>
    (js_error + history_entry page_result) \<times> tester_state" where
  "getHistoryPage localeCompare userId qpage qlimit st =
     (let (entries, st') = getHistory userId st
      in (and_then (normalizePagination qpage qlimit)
            (\<lambda>(page, limit). Inr (page_of (sort_cmp (newest_first localeCompare) entries) page limit)), st'))"

section \<open>What is sent\<close>

abbreviation signing_headers :: "headers \<Rightarrow> headers" where
  "signing_headers h \<equiv> filter (\<lambda>(k, _). to_lower k \<in> set RECORDED_SIGNATURE_HEADER_NAMES) h"

lemma filter_jm_set: "\<not> P k \<Longrightarrow> filter (\<lambda>(k, _). P k) (jm_set m k v) = filter (\<lambda>(k, _). P k) m"
  by (induction m) auto

lemma assign_headers_filter:
  "(\<forall>(k, v) \<in> set source. \<not> P k) \<Longrightarrow> filter (\<lambda>(k, _). P k) (assign_headers target source) = filter (\<lambda>(k, _). P k) target"
proof (induction source arbitrary: target)
  case (Cons kv source)
  then have "\<not> P (fst kv)" "\<forall>(k, v) \<in> set source. \<not> P k" by auto
  then show ?case using Cons.IH [of "jm_set target (fst kv) (snd kv)"]
    by (simp add: assign_headers_def case_prod_unfold filter_jm_set [of P, simplified case_prod_unfold])
qed (simp add: assign_headers_def)

lemma signing_names:
  "to_lower ''Content-Type'' \<notin> set RECORDED_SIGNATURE_HEADER_NAMES" "to_lower ''X-Webhook-Event'' \<notin> set RECORDED_SIGNATURE_HEADER_NAMES"
  "to_lower SIGNATURE_HEADER \<in> set RECORDED_SIGNATURE_HEADER_NAMES" "to_lower TIMESTAMP_HEADER \<in> set RECORDED_SIGNATURE_HEADER_NAMES"
  "SIGNATURE_HEADER \<noteq> TIMESTAMP_HEADER"
  by code_simp+

lemma base_headers_unsigned: "signing_headers (base_headers dto) = []"
proof -
  have "\<forall>(k, v) \<in> set (stripRecordedSignatureHeaders h). to_lower k \<notin> set RECORDED_SIGNATURE_HEADER_NAMES" for h
    by (auto simp: stripRecordedSignatureHeaders_def)
  from assign_headers_filter [of _ "\<lambda>k. to_lower k \<in> set RECORDED_SIGNATURE_HEADER_NAMES", OF this]
  show ?thesis by (simp add: base_headers_def signing_names)
qed

lemma signing_headers_absent: "signing_headers h = [] \<Longrightarrow> to_lower k \<in> set RECORDED_SIGNATURE_HEADER_NAMES \<Longrightarrow> \<not> jm_has h k"
  by (auto simp: jm_has_def jm_get_None_iff filter_empty_conv)

lemma jm_set_new: "\<not> jm_has m k \<Longrightarrow> jm_set m k v = m @ [(k, v)]"
  by (induction m) (auto simp: jm_has_def split: if_splits)

lemma signed_headers_exact:
  assumes "signing_headers h = []"
  shows "signing_headers (assign_headers h [(SIGNATURE_HEADER, s), (TIMESTAMP_HEADER, t)]) = [(SIGNATURE_HEADER, s), (TIMESTAMP_HEADER, t)]"
proof -
  have "\<not> jm_has h SIGNATURE_HEADER" "\<not> jm_has h TIMESTAMP_HEADER"
    using signing_headers_absent [OF assms] signing_names by simp_all
  then have "assign_headers h [(SIGNATURE_HEADER, s), (TIMESTAMP_HEADER, t)] = h @ [(SIGNATURE_HEADER, s), (TIMESTAMP_HEADER, t)]"
    using signing_names(5) by (simp add: assign_headers_def jm_set_new)
  then show ?thesis using assms signing_names by simp
qed

text \<open>A turn of the redirect loop ends it or goes on with a checked destination.\<close>

lemma request_loop_step:
  assumes "rq = \<lparr>wq_url = u, wq_method = verb, wq_headers = headers, wq_body = (if verb \<noteq> ''GET'' then body else None)\<rparr>"
  shows "snd (request_loop env a verb headers body redirects u sent) = sent @ [rq]
    \<or> (\<exists>u'. redirects < MAX_SAFE_REDIRECTS \<and> assertSafeWebhookDestination (ae_dns a (redirects + 1)) u' = Inr ()
        \<and> request_loop env a verb headers body redirects u sent = request_loop env a verb headers body (redirects + 1) u' (sent @ [rq]))"
    (is "_ \<or> ?more")
proof (cases "ae_fetch a redirects rq")
  case (Inl e)
  then show ?thesis using assms by (simp add: request_loop.simps [of env a verb headers body redirects u sent])
next
  case r: (Inr r)
  let ?l = "jm_get (wr_headers r) ''location''"
  show ?thesis
  proof (cases "300 \<le> wr_status r \<and> wr_status r < 400 \<and> \<not> (?l = None \<or> ?l = Some [] \<or> redirects \<ge> MAX_SAFE_REDIRECTS)")
    case False
    then show ?thesis using r assms by (auto simp: request_loop.simps [of env a verb headers body redirects u sent] Let_def)
  next
    case True
    then obtain l where l: "?l = Some l" by (cases ?l) auto
    show ?thesis
    proof (cases "te_url env l (Some u)")
      case None
      then show ?thesis using r True l assms by (simp add: request_loop.simps [of env a verb headers body redirects u sent])
    next
      case (Some u')
      then show ?thesis
        using r True l assms
        by (cases "assertSafeWebhookDestination (ae_dns a (redirects + 1)) u'")
          (auto simp: request_loop.simps [of env a verb headers body redirects u sent])
    qed
  qed
qed

text \<open>Every request of an attempt, redirects included, carries the headers and the body of the attempt.\<close>

lemma request_loop_sent:
  "q \<in> set (snd (request_loop env a verb headers body redirects u sent)) \<Longrightarrow>
    q \<in> set sent \<or> wq_headers q = headers \<and> wq_method q = verb \<and> wq_body q = (if verb \<noteq> ''GET'' then body else None)"
proof (induction "MAX_SAFE_REDIRECTS - redirects" arbitrary: redirects u sent rule: less_induct)
  case less
  define rq where "rq = \<lparr>wq_url = u, wq_method = verb, wq_headers = headers, wq_body = (if verb \<noteq> ''GET'' then body else None)\<rparr>"
  from request_loop_step [OF rq_def, of env a redirects sent] show ?case
  proof (elim disjE exE conjE)
    assume "snd (request_loop env a verb headers body redirects u sent) = sent @ [rq]"
    then show ?case using less.prems by (auto simp: rq_def)
  next
    fix u'
    assume u': "redirects < MAX_SAFE_REDIRECTS"
      "request_loop env a verb headers body redirects u sent = request_loop env a verb headers body (redirects + 1) u' (sent @ [rq])"
    then have "q \<in> set (sent @ [rq]) \<or> wq_headers q = headers \<and> wq_method q = verb \<and> wq_body q = (if verb \<noteq> ''GET'' then body else None)"
      using less.hyps [of "redirects + 1" u' "sent @ [rq]"] less.prems by simp
    then show ?case by (auto simp: rq_def)
  qed
qed

lemma performRequest_sent:
  "q \<in> set (snd (performRequest env a verb initialUrl headers body)) \<Longrightarrow>
    wq_headers q = headers \<and> wq_method q = verb \<and> wq_body q = (if verb \<noteq> ''GET'' then body else None)"
  using request_loop_sent [of q env a verb headers body 0 _ "[]"]
  by (auto simp: performRequest_def split: option.splits sum.splits)

definition carries :: "tester_env \<Rightarrow> send_dto \<Rightarrow> string option \<Rightarrow> web_request \<Rightarrow> bool" where
  "carries env dto secret q \<longleftrightarrow>
     (\<exists>i. wq_headers q = fst (sign_request env (te_attempt env i) secret (wq_body q) (base_headers dto)))"

lemma attempt_request_sent:
  assumes "attempt_request env dto secret body i = (r, sent, headers, signature)" "q \<in> set sent"
  shows "carries env dto secret q"
proof -
  define m where "m = (case sd_method dto of Some m \<Rightarrow> m | None \<Rightarrow> ''POST'')"
  define b where "b = (if m \<noteq> ''GET'' then Some body else None)"
  have h: "headers = fst (sign_request env (te_attempt env i) secret b (base_headers dto))"
    and s: "sent = snd (performRequest env (te_attempt env i) m (sd_endpointUrl dto) headers b)"
    using assms(1) unfolding attempt_request_def Let_def m_def [symmetric] b_def [symmetric] by (auto split: prod.splits)
  have "wq_headers q = headers" "wq_body q = b" using performRequest_sent [of q] assms(2) unfolding s by (auto simp: b_def)
  then show ?thesis using h by (auto simp: carries_def)
qed

lemma run_attempt_sent:
  "q \<in> set (snd (snd (run_attempt env userId dto payload secret body repeatCount i previous st))) \<Longrightarrow> carries env dto secret q"
  using attempt_request_sent [of env dto secret body i _ _ _ _ q]
  by (cases "attempt_request env dto secret body i") (auto simp: run_attempt_def Let_def split: sum.splits if_splits)

lemma attempts_sent:
  "q \<in> set (snd (snd (attempts env userId dto payload secret body repeatCount is previous st))) \<Longrightarrow> carries env dto secret q"
proof (induction "is" arbitrary: previous st)
  case (Cons i "is")
  obtain o1 st1 sent1 where 1: "run_attempt env userId dto payload secret body repeatCount i previous st = (o1, st1, sent1)"
    by (cases "run_attempt env userId dto payload secret body repeatCount i previous st")
  have here: "q \<in> set sent1 \<Longrightarrow> carries env dto secret q" using run_attempt_sent [of q env userId dto payload secret body repeatCount i previous st] 1 by simp
  show ?case
  proof (cases o1)
    case (Inl e)
    then show ?thesis using Cons.prems here 1 by simp
  next
    case (Inr entry)
    have "q \<in> set sent1 \<or> q \<in> set (snd (snd (attempts env userId dto payload secret body repeatCount is (Some (payload, he_id entry)) st1)))"
      using Cons.prems 1 Inr by (auto split: prod.splits sum.splits)
    then show ?thesis using here Cons.IH by blast
  qed
qed simp

lemma send_webhook_sent:
  "q \<in> set (snd (snd (send_webhook env userId dto st))) \<Longrightarrow> carries env dto (resolveSecret env (sd_secret dto)) q"
  using attempts_sent by (auto simp: send_webhook_def Let_def simp del: attempts.simps split: prod.splits option.splits sum.splits if_splits)

section \<open>The contract with a receiver\<close>

text \<open>The request as a receiver verifies it, at second \<open>m\<close> of its clock.\<close>

definition as_received :: "string \<Rightarrow> web_request \<Rightarrow> int \<Rightarrow> verify_options" where
  "as_received key q m =
     \<lparr>vo_secret = key, vo_body = (case wq_body q of Some b \<Rightarrow> b | None \<Rightarrow> []),
      vo_signature = jm_get (wq_headers q) SIGNATURE_HEADER, vo_timestamp = jm_get (wq_headers q) TIMESTAMP_HEADER,
      vo_maxAgeSeconds = None, vo_maxSkewSeconds = None, vo_now = Some (of_int m)\<rparr>"

lemma jm_get_filter_key: "P k \<Longrightarrow> jm_get (filter (\<lambda>(k, _). P k) m) k = jm_get m k"
  by (induction m) auto

lemma nowSeconds_range:
  assumes "0 \<le> ms" "ms \<le> 2 ^ 53"
  shows "\<exists>n. nowSeconds ms = of_int n \<and> 0 \<le> n \<and> n \<le> 2 ^ 53"
proof -
  have "0 \<le> fl (ms / 1000)" using assms fl_mono_nonneg [of 0 "ms / 1000"] by simp
  moreover have "fl (ms / 1000) \<le> fl (of_int (2 ^ 53))" using assms by (intro fl_mono_nonneg) simp_all
  then have "fl (ms / 1000) \<le> of_int (2 ^ 53)" by (simp only: fl_of_int abs_power2 abs_numeral power_abs order_refl)
  ultimately have "0 \<le> \<lfloor>fl (ms / 1000)\<rfloor>" "\<lfloor>fl (ms / 1000)\<rfloor> \<le> 2 ^ 53" by (simp_all add: floor_le_iff)
  then show ?thesis by (auto simp: nowSeconds_def js_div_def)
qed

lemma carried_signature:
  assumes "carries env dto (Some key) q" "\<forall>i. 0 \<le> ae_sign (te_attempt env i) \<and> ae_sign (te_attempt env i) \<le> 2 ^ 53"
  shows "\<exists>n s. 0 \<le> n \<and> n \<le> 2 ^ 53 \<and> s = ''sha256='' @ te_hmac env key (seconds_text (of_int n) @ ''.'' @ (case wq_body q of Some b \<Rightarrow> b | None \<Rightarrow> []))
    \<and> signing_headers (wq_headers q) = [(SIGNATURE_HEADER, s), (TIMESTAMP_HEADER, seconds_text (of_int n))]"
proof -
  obtain i where i: "wq_headers q = fst (sign_request env (te_attempt env i) (Some key) (wq_body q) (base_headers dto))"
    using assms(1) by (auto simp: carries_def)
  obtain n where n: "nowSeconds (ae_sign (te_attempt env i)) = of_int n" "0 \<le> n" "n \<le> 2 ^ 53"
    using nowSeconds_range [of "ae_sign (te_attempt env i)"] assms(2) by blast
  show ?thesis
    using signed_headers_exact [OF base_headers_unsigned [of dto]] n i
    by (auto simp: sign_request_def signatureHeaders_def signBody_def Let_def)
qed


text \<open>A delivery to a receiver that redirects it once, sent at second 1000 and verified at second 1300.\<close>

definition sample_url :: url where
  "sample_url = \<lparr>url_protocol = ''https:'', url_hostname = ''1.1.1.1'', url_origin = ''https://1.1.1.1''\<rparr>"

definition sample_attempt :: attempt_env where
  "sample_attempt =
     \<lparr>ae_dns = \<lambda>hop name. None,
      ae_fetch = \<lambda>hop q. Inr \<lparr>wr_status = (if hop = 0 then 302 else 200), wr_headers = [(''location'', ''/hook'')], wr_body = None\<rparr>,
      ae_start = 0, ae_sign = 1000000, ae_finish = 0, ae_stamp = 0, ae_id = ''1''\<rparr>"

definition tester_sample_env :: tester_env where
  "tester_sample_env =
     \<lparr>te_hmac = sample_mac, te_stringify = \<lambda>v. ''{}'', te_url = \<lambda>t base. Some sample_url, te_decode = \<lambda>bytes flush. [],
      te_secret = Some ''k'', te_dns = \<lambda>name. None, te_iso_now = [], te_attempt = \<lambda>i. sample_attempt\<rparr>"

definition sample_dto :: send_dto where
  "sample_dto =
     \<lparr>sd_endpointUrl = ''https://1.1.1.1/'', sd_eventType = ''ping'', sd_payload = Some [], sd_secret = None, sd_method = None,
      sd_headers = Some [(''x-savitools-signature'', ''sha256=00''), (''X-Custom'', ''1'')], sd_repeatCount = None\<rparr>"

definition sample_redirected :: web_request where
  "sample_redirected =
     \<lparr>wq_url = sample_url, wq_method = ''POST'',
      wq_headers = [(''Content-Type'', ''application/json''), (''X-Webhook-Event'', ''ping''), (''X-Custom'', ''1''),
        (SIGNATURE_HEADER, ''sha256='' @ sample_mac ''k'' ''1000.{}''), (TIMESTAMP_HEADER, ''1000'')],
      wq_body = Some ''{}''\<rparr>"

lemma sample_public: "assertSafeWebhookDestination dns sample_url = Inr ()"
proof -
  have "isIP ''1.1.1.1'' = 4" "\<not> isForbiddenIp ''1.1.1.1''" by code_simp+
  then show ?thesis
    by (simp add: assertSafeWebhookDestination_def assertHttpDestination_def assertPublicHostname_def sample_url_def throw_if_def)
qed

lemma sample_seconds: "nowSeconds 1000000 = 1000" "seconds_text 1000 = ''1000''"
proof -
  have "fl (of_int 1000) = of_int 1000" by (rule fl_of_int) simp
  then show "nowSeconds 1000000 = 1000" by (simp add: nowSeconds_def js_div_def)
  have "seconds_text 1000 = int_to_string 1000" by (simp add: seconds_text_def)
  also have "\<dots> = ''1000''" by code_simp
  finally show "seconds_text 1000 = ''1000''" .
qed

lemma sample_request:
  "performRequest tester_sample_env sample_attempt ''POST'' u headers (Some b) =
     (Inr (200, [(''location'', ''/hook'')], [], False),
      replicate 2 \<lparr>wq_url = sample_url, wq_method = ''POST'', wq_headers = headers, wq_body = Some b\<rparr>)"
proof -
  have "te_url tester_sample_env t base = Some sample_url" for t base by (simp add: tester_sample_env_def)
  then show ?thesis
    by (simp add: performRequest_def sample_public request_loop.simps sample_attempt_def MAX_SAFE_REDIRECTS_def read_response_def
        readBodyWithLimit_def assign_headers_def numeral_2_eq_2)
qed

lemma sample_headers:
  "sign_request tester_sample_env sample_attempt (Some ''k'') (Some ''{}'') (base_headers sample_dto) =
     (wq_headers sample_redirected, Some \<lparr>tg_timestamp = ''1000'', tg_body = ''{}'', tg_signature = ''sha256='' @ sample_mac ''k'' ''1000.{}''\<rparr>)"
proof -
  have "base_headers sample_dto = [(''Content-Type'', ''application/json''), (''X-Webhook-Event'', ''ping''), (''X-Custom'', ''1'')]"
    by code_simp
  then show ?thesis
    using sample_seconds
    by (simp add: sign_request_def signatureHeaders_def signBody_def Let_def tester_sample_env_def sample_attempt_def
        sample_redirected_def assign_headers_def SIGNATURE_HEADER_def TIMESTAMP_HEADER_def)
qed

lemma sample_sent: "sample_redirected \<in> set (snd (snd (send_webhook tester_sample_env ''u'' sample_dto st)))"
proof -
  have b: "\<not> MAX_REQUEST_BODY_BYTES < byteLength ''{}''" by code_simp
  have d: "sd_endpointUrl sample_dto = ''https://1.1.1.1/''" "sd_payload sample_dto = Some []" "sd_repeatCount sample_dto = None"
    "sd_method sample_dto = None" "resolveSecret tester_sample_env (sd_secret sample_dto) = Some ''k''"
    by (simp_all add: sample_dto_def resolveSecret_def non_empty_def tester_sample_env_def)
  have e: "te_stringify tester_sample_env v = ''{}''" "te_attempt tester_sample_env i = sample_attempt" "te_url tester_sample_env t base = Some sample_url" for v i t base
    by (simp_all add: tester_sample_env_def)
  have "attempt_request tester_sample_env sample_dto (Some ''k'') ''{}'' 0 =
    (Inr (200, [(''location'', ''/hook'')], [], False), replicate 2 sample_redirected, wq_headers sample_redirected,
     Some \<lparr>tg_timestamp = ''1000'', tg_body = ''{}'', tg_signature = ''sha256='' @ sample_mac ''k'' ''1000.{}''\<rparr>)"
    by (simp add: attempt_request_def d e sample_headers sample_request Let_def) (simp add: sample_redirected_def)
  then show ?thesis
    by (simp add: send_webhook_def send_payload_def d e b sample_public Let_def run_attempt_def split: prod.splits sum.splits)
qed


section \<open>The history\<close>

text \<open>
  What the requests of any users do to the state between two \<open>await\<close>s: a turn of a delivery or
  of a replay, the choice of a payload, reading the history, saving a template.
\<close>

inductive tester_reachable :: "tester_state \<Rightarrow> bool" where
  start: "tester_reachable \<lparr>ts_history = [], ts_templatesByUser = [], ts_templates = WEBHOOK_TEMPLATES\<rparr>"
| turn: "tester_reachable st \<Longrightarrow>
    tester_reachable (fst (snd (run_attempt env userId dto payload secret body repeatCount i previous st)))"
| choose: "tester_reachable st \<Longrightarrow> tester_reachable (snd (send_payload env userId dto st))"
| list_templates: "tester_reachable st \<Longrightarrow> tester_reachable (snd (getTemplates userId st))"
| save: "tester_reachable st \<Longrightarrow> tester_reachable (saveTemplate template userId st)"
| list_history: "tester_reachable st \<Longrightarrow> tester_reachable (snd (getHistory userId st))"

definition no_secret_header :: "headers \<Rightarrow> bool" where
  "no_secret_header h \<longleftrightarrow> list_all (\<lambda>(k, v). isSensitiveHeader k \<longrightarrow> v = REDACTED) h"

definition entries_ok :: "history_entry list \<Rightarrow> bool" where
  "entries_ok es \<longleftrightarrow> length es \<le> MAX_HISTORY_PER_USER
     \<and> list_all (\<lambda>e. no_secret_header (he_requestHeaders e) \<and> no_secret_header (he_responseHeaders e)) es"

definition tester_inv :: "tester_state \<Rightarrow> bool" where
  "tester_inv st \<longleftrightarrow> jm_ok (ts_history st) \<and> length (ts_history st) \<le> MAX_HISTORY_USERS
     \<and> list_all (\<lambda>(_, es). entries_ok es) (ts_history st)"

lemma list_all_jm_set: "list_all P m \<Longrightarrow> P (k, v) \<Longrightarrow> list_all P (jm_set m k v)"
  by (induction m) auto

lemma redactHeaders_safe: "no_secret_header (redactHeaders h)"
proof -
  let ?P = "\<lambda>(k, v). isSensitiveHeader k \<longrightarrow> v = REDACTED"
  let ?f = "\<lambda>(k, v) redacted. jm_set redacted k (if isSensitiveHeader k then REDACTED else v)"
  have "list_all ?P m \<Longrightarrow> list_all ?P (fold ?f h m)" for m
  proof (induction h arbitrary: m)
    case (Cons kv h)
    obtain k v where kv: "kv = (k, v)" by (cases kv)
    have "list_all ?P (jm_set m k (if isSensitiveHeader k then REDACTED else v))"
      by (rule list_all_jm_set [OF Cons.prems]) simp
    from Cons.IH [OF this] show ?case by (simp add: kv)
  qed simp
  from this [of "[]"] show ?thesis by (simp add: no_secret_header_def redactHeaders_def)
qed

lemma length_jm_set: "length (jm_set m k v) \<le> Suc (length m)"
  by (induction m) auto

lemma recordHistory_inv:
  assumes "tester_inv st" "no_secret_header (he_requestHeaders e)" "no_secret_header (he_responseHeaders e)"
  shows "tester_inv (recordHistory userId e st)"
proof -
  define old where "old = (case jm_get (ts_history st) userId of Some es \<Rightarrow> es | None \<Rightarrow> [])"
  define kept where "kept = (if length (e # old) > MAX_HISTORY_PER_USER then butlast (e # old) else e # old)"
  define history where "history = jm_set (ts_history st) userId kept"
  have old: "entries_ok old"
    using assms(1) by (auto simp: tester_inv_def old_def entries_ok_def list_all_iff dest!: jm_get_Some_in split: option.splits)
  then have "entries_ok kept"
    using assms(2,3) by (auto simp: entries_ok_def kept_def list_all_iff dest: in_set_butlastD)
  then have all: "list_all (\<lambda>(_, es). entries_ok es) history" and len: "length history \<le> Suc MAX_HISTORY_USERS" and ok: "jm_ok history"
    using assms(1) length_jm_set [of "ts_history st" userId kept]
    by (auto simp: tester_inv_def history_def intro: list_all_jm_set)
  have "history \<noteq> [] \<Longrightarrow> length (jm_delete history (fst (hd history))) < length history"
    by (cases history) (auto simp: jm_delete_def le_imp_less_Suc)
  then have del: "length (jm_delete history (fst (hd history))) \<le> MAX_HISTORY_USERS" if "MAX_HISTORY_USERS < length history"
    using that len by (cases history) auto
  have "list_all (\<lambda>(_, es). entries_ok es) (jm_delete history k)" for k using all by (auto simp: jm_delete_def list_all_iff)
  then have "tester_inv (st\<lparr>ts_history := (if length history > MAX_HISTORY_USERS then jm_delete history (fst (hd history)) else history)\<rparr>)"
    using all del ok by (simp add: tester_inv_def)
  moreover have "recordHistory userId e st = st\<lparr>ts_history := (if length history > MAX_HISTORY_USERS then jm_delete history (fst (hd history)) else history)\<rparr>"
    by (simp add: recordHistory_def Let_def history_def kept_def old_def)
  ultimately show ?thesis by simp
qed

lemma run_attempt_inv:
  assumes "tester_inv st"
  shows "tester_inv (fst (snd (run_attempt env userId dto payload secret body repeatCount i previous st)))"
proof -
  have "tester_inv (recordHistory userId (attempt_entry env dto payload repeatCount i previous r headers signature) st)" for r headers signature
    by (rule recordHistory_inv [OF assms]) (simp_all add: attempt_entry_def Let_def redactHeaders_safe split: prod.splits)
  then show ?thesis using assms by (auto simp: run_attempt_def Let_def split: prod.splits sum.splits)
qed

lemma templates_keep_history:
  "ts_history (snd (getTemplates userId st)) = ts_history st" "ts_history (saveTemplate template userId st) = ts_history st"
  "ts_history (snd (send_payload env userId dto st)) = ts_history st"
  by (auto simp: getTemplates_def saveTemplate_def send_payload_def Let_def split: option.splits prod.splits)

lemma length_jm_set_present: "jm_get m k \<noteq> None \<Longrightarrow> length (jm_set m k v) = length m"
  by (induction m) (auto split: if_splits)

lemma getHistory_inv:
  assumes inv: "tester_inv st"
  shows "tester_inv (snd (getHistory userId st))"
proof (cases "jm_get (ts_history st) userId")
  case None
  then show ?thesis using inv by (simp add: getHistory_def)
next
  case (Some es)
  have "entries_ok es" using inv jm_get_Some_in [OF Some] by (auto simp: tester_inv_def list_all_iff)
  then have "entries_ok (annotateLegacyEntries es)"
    by (auto simp: entries_ok_def annotateLegacyEntries_def list_all_iff)
  then have "list_all (\<lambda>(_, es). entries_ok es) (jm_set (ts_history st) userId (annotateLegacyEntries es))"
    using inv by (intro list_all_jm_set) (simp_all add: tester_inv_def)
  then show ?thesis
    using inv Some by (simp add: getHistory_def tester_inv_def length_jm_set_present)
qed

lemma tester_reachable_inv: "tester_reachable st \<Longrightarrow> tester_inv st"
proof (induction rule: tester_reachable.induct)
  case start
  then show ?case by (simp add: tester_inv_def jm_ok_def)
next
  case (turn st env userId dto payload secret body repeatCount i previous)
  show ?case by (rule run_attempt_inv [OF turn.IH])
next
  case (list_history st userId)
  show ?case by (rule getHistory_inv [OF list_history.IH])
qed (simp_all add: tester_inv_def templates_keep_history)

text \<open>
  C19. However the requests of any users interleave, the tester remembers at most 1000 users and 50
  deliveries of each, and no remembered request or response header with a sensitive name shows its
  value, the signature included.
\<close>

theorem webhook_history_bounded:
  assumes "tester_reachable st"
  shows "length (ts_history st) \<le> 1000 \<and> distinct (map fst (ts_history st))
    \<and> (\<forall>(u, es) \<in> set (ts_history st). length es \<le> 50
        \<and> (\<forall>e \<in> set es. \<forall>(k, v) \<in> set (he_requestHeaders e) \<union> set (he_responseHeaders e). isSensitiveHeader k \<longrightarrow> v = ''[REDACTED]''))"
proof -
  have "tester_inv st" by (rule tester_reachable_inv [OF assms])
  then show ?thesis
    by (simp add: tester_inv_def entries_ok_def no_secret_header_def list_all_iff jm_ok_def case_prod_unfold
        MAX_HISTORY_USERS_def MAX_HISTORY_PER_USER_def REDACTED_def ball_Un)
qed

text \<open>The state after the turn of the sample delivery.\<close>

theorem webhook_history_bounded_witness:
  "length (ts_history (fst (snd (run_attempt tester_sample_env ''u'' sample_dto [] (Some ''k'') ''{}'' 1 0 None
     \<lparr>ts_history = [], ts_templatesByUser = [], ts_templates = WEBHOOK_TEMPLATES\<rparr>)))) \<le> 1000"
  using webhook_history_bounded [OF tester_reachable.turn [OF tester_reachable.start]] by blast

section \<open>Differences that never show\<close>

function json_distinct :: "json \<Rightarrow> bool" where
  "json_distinct (J_obj m) \<longleftrightarrow> jm_ok m \<and> list_all (\<lambda>(k, v). json_distinct v) m"
| "json_distinct (J_arr xs) \<longleftrightarrow> list_all json_distinct xs"
| "json_distinct J_null \<longleftrightarrow> True"
| "json_distinct (J_bool b) \<longleftrightarrow> True"
| "json_distinct (J_num x) \<longleftrightarrow> True"
| "json_distinct (J_str t) \<longleftrightarrow> True"
  by pat_completeness auto
termination
  by (relation "measure size") (auto dest: size_member simp: less_Suc_eq_le intro: size_list_estimation')

lemma array_member:
  assumes "(i, x) \<in> set (List.enumerate 0 xs)"
  shows "member_value (J_arr xs) (digits_of_nat i) = Some x"
proof -
  let ?m = "map (\<lambda>(i, x). (digits_of_nat i, x)) (List.enumerate 0 xs)"
  have no_length: "digits_of_nat i \<noteq> ''length''"
  proof
    assume "digits_of_nat i = ''length''"
    moreover have "list_all is_digit (digits_of_nat i)" by simp
    ultimately show False by (simp add: is_digit_def)
  qed
  have "inj digits_of_nat" by (rule inj_on_inverseI [of _ nat_of_digits]) simp
  then have "distinct (map digits_of_nat (map fst (List.enumerate 0 xs)))" by (simp add: distinct_map inj_on_subset [OF _ subset_UNIV])
  moreover have "map fst ?m = map digits_of_nat (map fst (List.enumerate 0 xs))" unfolding map_map by (rule map_cong) auto
  ultimately have "jm_ok ?m" by (simp only: jm_ok_def)
  then have "jm_get ?m (digits_of_nat i) = Some x" by (rule jm_get_in) (use assms in force)
  then show ?thesis using no_length by (simp add: member_value_def)
qed

lemma deepEqual_refl: "json_distinct v \<Longrightarrow> deepEqual v (Some v)"
proof (induction v rule: json_distinct.induct)
  case (1 m)
  have "deepEqual v (member_value (J_obj m) k)" if "(k, v) \<in> set m" for k v
    using 1 that by (auto simp: member_value_def jm_get_in list_all_iff)
  then show ?case by (auto simp: list_all_iff)
next
  case (2 xs)
  have "deepEqual x (member_value (J_arr xs) (digits_of_nat i))" if "(i, x) \<in> set (List.enumerate 0 xs)" for i x
  proof -
    have "x \<in> set xs" using that by (auto simp: in_set_enumerate_eq)
    then show ?thesis using 2 array_member [OF that] by (simp add: list_all_iff)
  qed
  then show ?case by (auto simp: list_all_iff)
qed simp_all

lemma no_difference:
  assumes "json_distinct (J_obj p)"
  shows "computePayloadDiff p p = None"
proof -
  have ok: "jm_ok p" using assms by simp
  have same: "\<not> (\<not> (case jm_get p k of Some w \<Rightarrow> deepEqual w (Some v) | None \<Rightarrow> False))" "has_member p k"
    if "(k, v) \<in> set p" for k v
  proof -
    have "deepEqual v (Some v)" by (rule deepEqual_refl) (use assms that in \<open>auto simp: list_all_iff\<close>)
    then show "\<not> (\<not> (case jm_get p k of Some w \<Rightarrow> deepEqual w (Some v) | None \<Rightarrow> False))" "has_member p k"
      using jm_get_in [OF ok that] imageI [OF that, of fst] by (simp_all add: has_member_def jm_has_def)
  qed
  have "filter (\<lambda>(k, v). \<not> has_member p k) p = []"
    "filter (\<lambda>(k, v). has_member p k \<and> \<not> (case jm_get p k of Some w \<Rightarrow> deepEqual w (Some v) | None \<Rightarrow> False)) p = []"
    unfolding filter_empty_conv using same by blast+
  then show ?thesis by (simp only: computePayloadDiff_def Let_def list.map simp_thms if_True)
qed

lemma attempts_show_no_difference:
  assumes "json_distinct (J_obj payload)" "\<forall>p k. previous = Some (p, k) \<longrightarrow> p = payload"
    and "fst (attempts env userId dto payload secret body repeatCount is previous st) = Inr es" "e \<in> set es"
  shows "he_payloadDiff e = None"
  using assms
proof (induction "is" arbitrary: previous st es)
  case (Cons i "is")
  obtain out st1 sent1 where 1: "run_attempt env userId dto payload secret body repeatCount i previous st = (out, st1, sent1)"
    by (cases "run_attempt env userId dto payload secret body repeatCount i previous st")
  obtain entry es' where es: "out = Inr entry" "es = entry # es'"
    and rest: "fst (attempts env userId dto payload secret body repeatCount is (Some (payload, he_id entry)) st1) = Inr es'"
    using Cons.prems(3) 1 by (auto split: sum.splits prod.splits)
  have "diff_of previous payload = None"
    using Cons.prems(1,2) no_difference by (auto simp: diff_of_def split: option.splits)
  then have "he_payloadDiff entry = None"
    using 1 es by (auto simp: run_attempt_def attempt_entry_def Let_def split: prod.splits sum.splits if_splits)
  then show ?case using Cons.IH [OF Cons.prems(1) _ rest] Cons.prems(4) es by auto
qed simp

text \<open>All turns of a delivery send the same payload, so the field meant for its changes is never set.\<close>

lemma payload_diff_never:
  assumes "fst (send_webhook env userId dto st) = Inr es" "e \<in> set es"
    and "json_distinct (J_obj (fst (send_payload env userId dto st)))"
  shows "he_payloadDiff e = None"
  using assms attempts_show_no_difference [where previous = None]
  by (auto simp: send_webhook_def Let_def simp del: attempts.simps json_distinct.simps split: prod.splits option.splits sum.splits if_splits)

text \<open>A header given in another case goes out beside the tester's own.\<close>

lemma content_type_twice:
  "base_headers \<lparr>sd_endpointUrl = u, sd_eventType = ''ping'', sd_payload = p, sd_secret = s, sd_method = m,
      sd_headers = Some [(''content-type'', ''text/plain'')], sd_repeatCount = n\<rparr>
    = [(''Content-Type'', ''application/json''), (''X-Webhook-Event'', ''ping''), (''content-type'', ''text/plain'')]"
proof -
  have "stripRecordedSignatureHeaders [(''content-type'', ''text/plain'')] = [(''content-type'', ''text/plain'')]" by code_simp
  then show ?thesis by (simp add: base_headers_def assign_headers_def)
qed

end
