(* ===== verification/Strkey.thy ===== *)
theory Strkey
  imports Prelude "HOL-Library.Word"
begin

unbundle bit_operations_syntax

text \<open>
  The StrKey codec of \<open>apps/web/src/lib/strkey.ts\<close>: base32 without padding, the CRC16-XModem
  checksum, hex, decoding and encoding of keys and their masking. Bytes are \<open>8 word\<close>; the
  shift registers of the base32 loops are the 32-bit integers of JavaScript's bit operators; the
  checksum register is kept at its 16 bits. \<open>Buffer\<close>'s base64 is a parameter.
\<close>

type_synonym byte = "8 word"

section \<open>Base32\<close>

definition BASE32_ALPHABET :: string where
  "BASE32_ALPHABET = ''ABCDEFGHIJKLMNOPQRSTUVWXYZ234567''"

fun index_of :: "'a \<Rightarrow> 'a list \<Rightarrow> nat option" where
  "index_of x [] = None"
| "index_of x (y # ys) = (if y = x then Some 0 else map_option Suc (index_of x ys))"

definition BASE32_LOOKUP :: "char \<Rightarrow> nat option" where
  "BASE32_LOOKUP c = index_of c BASE32_ALPHABET"

text \<open>The inner loop: emit while five bits are pending.\<close>

function emit_digits :: "nat \<Rightarrow> 32 word \<Rightarrow> string \<Rightarrow> nat \<times> string" where
  "emit_digits bits value output =
     (if bits \<ge> 5
      then emit_digits (bits - 5) value
             (output @ [BASE32_ALPHABET ! unat (drop_bit (bits - 5) value AND 0x1f)])
      else (bits, output))"
  by pat_completeness auto
termination by (relation "measure (\<lambda>(bits, value, output). bits)") auto

declare emit_digits.simps [simp del]

fun encode_loop :: "byte list \<Rightarrow> nat \<Rightarrow> 32 word \<Rightarrow> string \<Rightarrow> nat \<times> 32 word \<times> string" where
  "encode_loop [] bits value output = (bits, value, output)"
| "encode_loop (byte # data) bits value output =
     (let value' = push_bit 8 value OR ucast byte;
          (bits', output') = emit_digits (bits + 8) value' output
      in encode_loop data bits' value' output')"

definition base32Encode :: "byte list \<Rightarrow> string" where
  "base32Encode data =
     (if length data = 0 then []
      else let (bits, value, output) = encode_loop data 0 0 []
           in if bits > 0
              then output @ [BASE32_ALPHABET ! unat (push_bit (5 - bits) value AND 0x1f)]
              else output)"

fun decode_loop :: "string \<Rightarrow> nat \<Rightarrow> 32 word \<Rightarrow> byte list \<Rightarrow> js_error + (nat \<times> 32 word \<times> byte list)" where
  "decode_loop [] bits value output = Inr (bits, value, output)"
| "decode_loop (c # input) bits value output =
     (case BASE32_LOOKUP c of
        None \<Rightarrow> Inl (PlainError (''Invalid base32 character: \"'' @ [c] @ ''\"''))
      | Some lookup \<Rightarrow>
          let value' = push_bit 5 value OR of_nat lookup; bits' = bits + 5
          in if bits' \<ge> 8
             then decode_loop input (bits' - 8) value' (output @ [ucast (drop_bit (bits' - 8) value' AND 0xff)])
             else decode_loop input bits' value' output)"

definition base32Decode :: "string \<Rightarrow> js_error + byte list" where
  "base32Decode input =
     (if length input = 0 then Inr []
      else and_then (decode_loop input 0 0 []) (\<lambda>(bits, value, output).
        if bits > 0 \<and> value AND (push_bit bits 1 - 1) \<noteq> 0
        then Inl (PlainError ''Invalid base32 encoding: non-zero padding bits'')
        else Inr output))"

section \<open>CRC16-XModem\<close>

definition crc_shift :: "16 word \<Rightarrow> 16 word" where
  "crc_shift crc = (if crc AND 0x8000 \<noteq> 0 then push_bit 1 crc XOR 0x1021 else push_bit 1 crc)"

definition crc_byte :: "16 word \<Rightarrow> byte \<Rightarrow> 16 word" where
  "crc_byte crc byte = (crc_shift ^^ 8) (crc XOR push_bit 8 (ucast byte))"

definition crc16XModem :: "byte list \<Rightarrow> 16 word" where
  "crc16XModem data = foldl crc_byte 0 data"

section \<open>Hex\<close>

definition HEX_DIGITS :: string where
  "HEX_DIGITS = ''0123456789abcdef''"

definition byte_hex :: "byte \<Rightarrow> string" where
  "byte_hex b = [HEX_DIGITS ! (unat b div 16), HEX_DIGITS ! (unat b mod 16)]"

definition bytesToHex :: "byte list \<Rightarrow> string" where
  "bytesToHex bytes = concat (map byte_hex bytes)"

definition hex_val :: "char \<Rightarrow> nat option" where
  "hex_val c =
     (let n = (of_char c :: nat)
      in if 48 \<le> n \<and> n \<le> 57 then Some (n - 48)
         else if 97 \<le> n \<and> n \<le> 102 then Some (n - 87)
         else if 65 \<le> n \<and> n \<le> 70 then Some (n - 55) else None)"

text \<open>\<open>replace(/\s+/g, '')\<close> and \<open>replace(/^0x/i, '')\<close>.\<close>

definition strip_hex :: "string \<Rightarrow> string" where
  "strip_hex hex =
     (let s = filter (\<lambda>c. \<not> is_space c) hex
      in case s of a # b # rest \<Rightarrow> if a = CHR ''0'' \<and> b \<in> {CHR ''x'', CHR ''X''} then rest else s | _ \<Rightarrow> s)"

fun hex_pairs :: "string \<Rightarrow> byte list" where
  "hex_pairs (a # b # cs) = of_nat (16 * the (hex_val a) + the (hex_val b)) # hex_pairs cs"
| "hex_pairs _ = []"

definition hexToBytes :: "string \<Rightarrow> js_error + byte list" where
  "hexToBytes hex =
     (let cleaned = strip_hex hex
      in if odd (length cleaned) then Inl (PlainError ''Hex payload must have an even number of characters'')
         else if \<not> list_all (\<lambda>c. hex_val c \<noteq> None) cleaned then Inl (PlainError ''Hex payload contains non-hex characters'')
         else Inr (hex_pairs cleaned))"

section \<open>Versions\<close>

datatype strkey_type =
    ED25519_PUBLIC_KEY | EDNARD_KEYS | ED25519_SECRET_SEED | PRIVATE_KEY | PRE_AUTH_TX | SHA256_HASH
  | HASH_X | MED25519_PUBLIC_KEY | MUXED_ACCOUNT | SIGNED_PAYLOAD | CONTRACT

fun STRKEY_VERSIONS :: "strkey_type \<Rightarrow> byte" where
  "STRKEY_VERSIONS ED25519_PUBLIC_KEY = 48"
| "STRKEY_VERSIONS EDNARD_KEYS = 48"
| "STRKEY_VERSIONS ED25519_SECRET_SEED = 144"
| "STRKEY_VERSIONS PRIVATE_KEY = 144"
| "STRKEY_VERSIONS PRE_AUTH_TX = 152"
| "STRKEY_VERSIONS SHA256_HASH = 184"
| "STRKEY_VERSIONS HASH_X = 184"
| "STRKEY_VERSIONS MED25519_PUBLIC_KEY = 96"
| "STRKEY_VERSIONS MUXED_ACCOUNT = 96"
| "STRKEY_VERSIONS SIGNED_PAYLOAD = 120"
| "STRKEY_VERSIONS CONTRACT = 16"

fun STRKEY_PAYLOAD_LENGTH :: "strkey_type \<Rightarrow> nat" where
  "STRKEY_PAYLOAD_LENGTH MED25519_PUBLIC_KEY = 40"
| "STRKEY_PAYLOAD_LENGTH MUXED_ACCOUNT = 40"
| "STRKEY_PAYLOAD_LENGTH SIGNED_PAYLOAD = 40"
| "STRKEY_PAYLOAD_LENGTH _ = 32"

definition VERSION_TO_TYPE :: "byte \<Rightarrow> strkey_type option" where
  "VERSION_TO_TYPE v = map_of
     [(STRKEY_VERSIONS ED25519_PUBLIC_KEY, ED25519_PUBLIC_KEY), (STRKEY_VERSIONS PRIVATE_KEY, PRIVATE_KEY),
      (STRKEY_VERSIONS PRE_AUTH_TX, PRE_AUTH_TX), (STRKEY_VERSIONS HASH_X, HASH_X),
      (STRKEY_VERSIONS MUXED_ACCOUNT, MUXED_ACCOUNT), (STRKEY_VERSIONS SIGNED_PAYLOAD, SIGNED_PAYLOAD),
      (STRKEY_VERSIONS CONTRACT, CONTRACT)] v"

section \<open>Decoding and encoding keys\<close>

text \<open>The labels of the types contain characters outside Latin-1; they are named by their type.\<close>

datatype strkey_label = Label_of strkey_type | Unsupported_version string

datatype strkey_error_kind = Invalid_characters | Invalid_length | Unknown_version | Checksum_mismatch | Payload_length

record strkey_error =
  se_kind :: strkey_error_kind
  se_message :: string

record strkey_decoded =
  sd_input :: string
  sd_type :: "strkey_type option"
  sd_label :: strkey_label
  sd_versionByte :: byte
  sd_payload :: "byte list"
  sd_payloadLength :: nat
  sd_payloadHex :: string
  sd_payloadBase64 :: string
  sd_checksum :: string
  sd_checksumValid :: bool
  sd_payloadLengthValid :: bool
  sd_valid :: bool

definition decode_raw :: "(byte list \<Rightarrow> string) \<Rightarrow> string \<Rightarrow> byte list \<Rightarrow> strkey_decoded" where
  "decode_raw to_base64 trimmed raw =
     (let versionByte = hd raw;
          payload = take (length raw - 3) (tl raw);
          checksumBytes = drop (length raw - 2) raw;
          expected = crc16XModem (take (length raw - 2) raw);
          actual = push_bit 8 (ucast (checksumBytes ! 0)) OR ucast (checksumBytes ! 1);
          checksumValid = (expected = actual);
          ty = VERSION_TO_TYPE versionByte;
          payloadLengthValid = (case ty of None \<Rightarrow> True | Some t \<Rightarrow> length payload = STRKEY_PAYLOAD_LENGTH t)
      in \<lparr>sd_input = trimmed, sd_type = ty,
          sd_label = (case ty of Some t \<Rightarrow> Label_of t | None \<Rightarrow> Unsupported_version (''0x'' @ byte_hex versionByte)),
          sd_versionByte = versionByte, sd_payload = payload, sd_payloadLength = length payload,
          sd_payloadHex = bytesToHex payload, sd_payloadBase64 = to_base64 payload,
          sd_checksum = bytesToHex checksumBytes, sd_checksumValid = checksumValid,
          sd_payloadLengthValid = payloadLengthValid,
          sd_valid = (ty \<noteq> None \<and> checksumValid \<and> payloadLengthValid)\<rparr>)"

definition decodeStrKey :: "(byte list \<Rightarrow> string) \<Rightarrow> string \<Rightarrow> strkey_error + strkey_decoded" where
  "decodeStrKey to_base64 input =
     (let trimmed = trim input in
      if length trimmed = 0
      then Inl \<lparr>se_kind = Invalid_length, se_message = ''Enter a StrKey value to decode''\<rparr>
      else case base32Decode trimmed of
             Inl e \<Rightarrow> Inl \<lparr>se_kind = Invalid_characters, se_message = error_text e\<rparr>
           | Inr raw \<Rightarrow>
               if length raw < 3
               then Inl \<lparr>se_kind = Invalid_length,
                      se_message = ''Decoded StrKey is too short to contain a version byte and checksum''\<rparr>
               else Inr (decode_raw to_base64 trimmed raw))"

definition encodeStrKey :: "strkey_type \<Rightarrow> byte list \<Rightarrow> strkey_error + string" where
  "encodeStrKey ty payload =
     (let expectedLength = STRKEY_PAYLOAD_LENGTH ty in
      if length payload \<noteq> expectedLength
      then Inl \<lparr>se_kind = Payload_length,
             se_message = ''requires a '' @ digits_of_nat expectedLength @ ''-byte payload (got ''
               @ digits_of_nat (length payload) @ '').''\<rparr>
      else let body = STRKEY_VERSIONS ty # payload;
               checksum = crc16XModem body
           in Inr (base32Encode (body @ [ucast (drop_bit 8 checksum AND 0xff), ucast (checksum AND 0xff)])))"

definition STRKEY_TYPES_IN_ORDER :: "strkey_type list" where
  "STRKEY_TYPES_IN_ORDER =
     [ED25519_PUBLIC_KEY, PRIVATE_KEY, MUXED_ACCOUNT, CONTRACT, SIGNED_PAYLOAD, PRE_AUTH_TX, HASH_X]"

definition STRKEY_SECRET_TYPES :: "strkey_type set" where
  "STRKEY_SECRET_TYPES = {PRIVATE_KEY, ED25519_SECRET_SEED}"

definition isSecretType :: "strkey_type option \<Rightarrow> bool" where
  "isSecretType ty \<longleftrightarrow> (case ty of None \<Rightarrow> False | Some t \<Rightarrow> t \<in> STRKEY_SECRET_TYPES)"

text \<open>Masking: \<open>None\<close> is the bullet; \<open>slice(-0)\<close> is the whole text, so its bullets would be negative in number.\<close>

definition maskStrKey :: "string \<Rightarrow> nat \<Rightarrow> js_error + char option list" where
  "maskStrKey key visibleTail =
     (let trimmed = trim key in
      if length trimmed \<le> visibleTail + 1 then Inr (replicate (length trimmed) None)
      else let tail = (if visibleTail = 0 then trimmed else drop (length trimmed - visibleTail) trimmed)
           in if length trimmed < 1 + length tail then Inl (RangeError ''Invalid count value: -1'')
              else Inr (map Some (take 1 trimmed) @ replicate (length trimmed - 1 - length tail) None @ map Some tail))"

section \<open>Base32 round trip\<close>

text \<open>The \<open>k\<close> low bits, most significant first.\<close>

definition to_bits :: "nat \<Rightarrow> 'a :: semiring_bits \<Rightarrow> bool list" where
  "to_bits k a = map (bit a) (rev [0..<k])"

lemma length_to_bits [simp]: "length (to_bits k a) = k"
  by (simp add: to_bits_def)

lemma to_bits_0 [simp]: "to_bits 0 a = []"
  by (simp add: to_bits_def)

lemma to_bits_Nil_iff [simp]: "to_bits k a = [] \<longleftrightarrow> k = 0"
  by (simp add: to_bits_def)

lemma nth_to_bits: "i < k \<Longrightarrow> to_bits k a ! i = bit a (k - 1 - i)"
  by (simp add: to_bits_def rev_nth)

lemma to_bits_eqI: "(\<And>i. i < k \<Longrightarrow> bit a i = bit b i) \<Longrightarrow> to_bits k a = to_bits k b"
  by (simp add: to_bits_def)

lemma to_bits_inject: "to_bits LENGTH('a) (a :: 'a :: len word) = to_bits LENGTH('a) b \<longleftrightarrow> a = b"
proof
  assume "to_bits LENGTH('a) a = to_bits LENGTH('a) b"
  then have "bit a i = bit b i" if "i < LENGTH('a)" for i
    using that by (simp add: to_bits_def)
  then show "a = b" by (rule bit_word_eqI)
qed simp

lemma to_bits_append:
  assumes "\<And>i. i < m \<Longrightarrow> bit v i = bit b i" "\<And>i. i < n \<Longrightarrow> bit v (i + m) = bit a i"
  shows "to_bits (n + m) v = to_bits n a @ to_bits m b"
proof (rule nth_equalityI)
  fix i assume "i < length (to_bits (n + m) v)"
  then have i: "i < n + m" by simp
  show "to_bits (n + m) v ! i = (to_bits n a @ to_bits m b) ! i"
  proof (cases "i < n")
    case True
    then have "n + m - 1 - i = (n - 1 - i) + m" by simp
    then show ?thesis using True i assms(2) [of "n - 1 - i"] by (simp add: nth_to_bits nth_append)
  next
    case False
    then show ?thesis using i assms(1) [of "n + m - 1 - i"]
      by (simp add: nth_to_bits nth_append add.commute)
  qed
qed simp

lemma shift_in:
  fixes v :: "32 word" and b :: "'a :: len word"
  assumes "n + k \<le> 32" "k \<le> LENGTH('a)" "\<And>i. k \<le> i \<Longrightarrow> \<not> bit b i"
  shows "to_bits (n + k) (push_bit k v OR ucast b) = to_bits n v @ to_bits k b"
  by (rule to_bits_append) (use assms in \<open>auto simp: bit_or_iff bit_push_bit_iff bit_ucast_iff\<close>)

lemma split_top:
  assumes "k \<le> n"
  shows "to_bits n (v :: 32 word) = to_bits k (drop_bit (n - k) v) @ to_bits (n - k) v"
  using to_bits_append [of "n - k" v v k "drop_bit (n - k) v"] assms
  by (simp add: bit_drop_bit_eq ac_simps)

lemma and_mask_bits: "bit (v AND 0x1f :: 32 word) i \<longleftrightarrow> i < 5 \<and> bit v i"
  "bit (v AND 0xff :: 32 word) i \<longleftrightarrow> i < 8 \<and> bit v i"
proof -
  have "(0x1f :: 32 word) = mask 5" "(0xff :: 32 word) = mask 8" by (simp_all add: mask_eq_exp_minus_1)
  then show "bit (v AND 0x1f :: 32 word) i \<longleftrightarrow> i < 5 \<and> bit v i" "bit (v AND 0xff :: 32 word) i \<longleftrightarrow> i < 8 \<and> bit v i"
    by (simp_all only: bit_and_iff bit_mask_iff) auto
qed

text \<open>The value of a digit, and the bits of a text.\<close>

definition digit_bits :: "char \<Rightarrow> bool list" where
  "digit_bits c = to_bits 5 (the (BASE32_LOOKUP c))"

definition text_bits :: "string \<Rightarrow> bool list" where
  "text_bits s = concat (map digit_bits s)"

definition data_bits :: "byte list \<Rightarrow> bool list" where
  "data_bits data = concat (map (to_bits 8) data)"

lemma length_digit_bits [simp]: "length (digit_bits c) = 5"
  by (simp add: digit_bits_def)

lemma bits_simps [simp]:
  "text_bits [] = []" "text_bits (c # s) = digit_bits c @ text_bits s" "text_bits (s @ t) = text_bits s @ text_bits t"
  "data_bits [] = []" "data_bits (b # d) = to_bits 8 b @ data_bits d" "data_bits (d @ e) = data_bits d @ data_bits e"
  by (simp_all add: text_bits_def data_bits_def)

lemma length_bits [simp]: "length (text_bits s) = 5 * length s" "length (data_bits d) = 8 * length d"
  by (induction s) (simp_all add: digit_bits_def, induction d, simp_all)

lemma data_bits_inject: "data_bits d = data_bits e \<longleftrightarrow> d = e"
proof (induction d arbitrary: e)
  case Nil
  then show ?case by (cases e) auto
next
  case (Cons b d)
  show ?case
  proof (cases e)
    case (Cons c e')
    then show ?thesis using to_bits_inject [of b c] \<open>\<And>e. (data_bits d = data_bits e) = (d = e)\<close> by simp
  qed (use length_bits(2) [of "b # d"] in auto)
qed

lemma lookup_alphabet: "n < 32 \<Longrightarrow> BASE32_LOOKUP (BASE32_ALPHABET ! n) = Some n"
proof -
  have "\<forall>n \<in> set [0..<32]. BASE32_LOOKUP (BASE32_ALPHABET ! n) = Some n" by code_simp
  then show "n < 32 \<Longrightarrow> ?thesis" by simp
qed

lemma lookup_less: "BASE32_LOOKUP c = Some n \<Longrightarrow> n < 32"
proof -
  have less: "index_of c xs = Some n \<Longrightarrow> n < length xs" for xs n
    by (induction xs arbitrary: n) (auto split: if_splits)
  show "BASE32_LOOKUP c = Some n \<Longrightarrow> n < 32"
    using less [of BASE32_ALPHABET n] by (simp add: BASE32_LOOKUP_def BASE32_ALPHABET_def)
qed

lemma digit_bits_of:
  fixes v :: "32 word"
  shows "digit_bits (BASE32_ALPHABET ! unat (v AND 0x1f)) = to_bits 5 v"
proof -
  have "v AND 0x1f \<le> 0x1f" by (rule word_and_le1)
  then have "unat (v AND 0x1f) < 32" by (simp add: word_le_nat_alt)
  then show ?thesis unfolding digit_bits_def
    by (simp add: lookup_alphabet) (rule to_bits_eqI, simp add: bit_unsigned_iff and_mask_bits)
qed

definition base32_text :: "string \<Rightarrow> bool" where
  "base32_text s \<longleftrightarrow> (\<forall>c \<in> set s. BASE32_LOOKUP c \<noteq> None)"

lemma alphabet_text: "BASE32_LOOKUP (BASE32_ALPHABET ! unat (v AND 0x1f :: 32 word)) \<noteq> None"
proof -
  have "v AND 0x1f \<le> 0x1f" by (rule word_and_le1)
  then have "unat (v AND 0x1f) < 32" by (simp add: word_le_nat_alt)
  then show ?thesis by (simp add: lookup_alphabet)
qed

lemma emit_digits_spec:
  assumes "bits \<le> 32" "emit_digits bits v outp = (bits', outp')" "base32_text outp"
  shows "bits' < 5 \<and> text_bits outp' @ to_bits bits' v = text_bits outp @ to_bits bits v \<and> base32_text outp'"
  using assms
proof (induction bits v outp rule: emit_digits.induct)
  case (1 bits v outp)
  show ?case
  proof (cases "bits \<ge> 5")
    case True
    let ?o = "outp @ [BASE32_ALPHABET ! unat (drop_bit (bits - 5) v AND 0x1f)]"
    have "emit_digits (bits - 5) v ?o = (bits', outp')" using "1.prems"(2) True by (subst (asm) emit_digits.simps) simp
    moreover have "base32_text ?o" using "1.prems"(3) alphabet_text by (auto simp: base32_text_def)
    ultimately have "bits' < 5 \<and> text_bits outp' @ to_bits bits' v = text_bits ?o @ to_bits (bits - 5) v \<and> base32_text outp'"
      using "1.IH" True "1.prems"(1) by simp
    then show ?thesis using split_top [OF True, of v] by (simp add: digit_bits_of)
  next
    case False
    then show ?thesis using "1.prems" by (subst (asm) emit_digits.simps) simp
  qed
qed

lemma encode_loop_spec:
  assumes "bits < 5" "encode_loop data bits v outp = (bits', v', outp')" "base32_text outp"
  shows "bits' < 5 \<and> text_bits outp' @ to_bits bits' v' = text_bits outp @ to_bits bits v @ data_bits data
    \<and> base32_text outp'"
  using assms
proof (induction data arbitrary: bits v outp)
  case (Cons byte data)
  let ?v = "push_bit 8 v OR ucast byte :: 32 word"
  obtain b o1 where emit: "emit_digits (bits + 8) ?v outp = (b, o1)" by (metis surj_pair)
  have "\<not> bit byte i" if "8 \<le> i" for i using that by (auto dest: bit_imp_le_length)
  then have "to_bits (bits + 8) ?v = to_bits bits v @ to_bits 8 byte"
    using Cons.prems(1) by (intro shift_in) simp_all
  moreover have "b < 5 \<and> text_bits o1 @ to_bits b ?v = text_bits outp @ to_bits (bits + 8) ?v \<and> base32_text o1"
    using emit_digits_spec [OF _ emit Cons.prems(3)] Cons.prems(1) by simp
  moreover have "encode_loop data b ?v o1 = (bits', v', outp')" using Cons.prems(2) emit by (simp add: Let_def)
  ultimately show ?case using Cons.IH [of b ?v o1] by simp
qed simp

lemma to_bits_push: "b \<le> 5 \<Longrightarrow> to_bits 5 (push_bit (5 - b) v :: 32 word) = to_bits b v @ replicate (5 - b) False"
proof (rule nth_equalityI)
  fix i assume b: "b \<le> 5" and "i < length (to_bits 5 (push_bit (5 - b) v))"
  then have i: "i < 5" by simp
  then show "to_bits 5 (push_bit (5 - b) v) ! i = (to_bits b v @ replicate (5 - b) False) ! i"
    using b by (auto simp: nth_to_bits nth_append bit_push_bit_iff intro!: arg_cong [of _ _ "bit v"])
qed simp

lemma base32Encode_bits:
  "base32_text (base32Encode data) \<and>
    (\<exists>pad < 5. text_bits (base32Encode data) = data_bits data @ replicate pad False)"
proof (cases "data = []")
  case False
  obtain b v o1 where loop: "encode_loop data 0 0 [] = (b, v, o1)" by (metis prod_cases3)
  from encode_loop_spec [OF _ loop] have o1: "b < 5" "text_bits o1 @ to_bits b v = data_bits data" "base32_text o1"
    by (auto simp: base32_text_def)
  show ?thesis
  proof (cases "b = 0")
    case True
    then show ?thesis using o1 loop False by (auto simp: base32Encode_def intro!: exI [of _ 0])
  next
    case False
    let ?c = "BASE32_ALPHABET ! unat (push_bit (5 - b) v AND 0x1f)"
    have "base32Encode data = o1 @ [?c]" using loop False \<open>data \<noteq> []\<close> by (simp add: base32Encode_def)
    moreover have "digit_bits ?c = to_bits b v @ replicate (5 - b) False"
      using o1(1) by (simp add: digit_bits_of to_bits_push)
    moreover have "base32_text [?c]" using alphabet_text by (simp add: base32_text_def)
    ultimately show ?thesis using o1 False
      by (auto simp: base32_text_def simp flip: o1(2) intro!: exI [of _ "5 - b"])
  qed
qed (auto simp: base32Encode_def base32_text_def)

lemma decode_loop_spec:
  assumes "base32_text input" "bits < 8"
  shows "\<exists>bits' v' outp'. decode_loop input bits v outp = Inr (bits', v', outp') \<and> bits' < 8
    \<and> data_bits outp' @ to_bits bits' v' = data_bits outp @ to_bits bits v @ text_bits input"
  using assms
proof (induction input arbitrary: bits v outp)
  case (Cons c input)
  obtain n where n: "BASE32_LOOKUP c = Some n" using Cons.prems(1) by (auto simp: base32_text_def)
  have n5: "n < 32" using lookup_less [OF n] .
  let ?v = "push_bit 5 v OR of_nat n :: 32 word"
  have bits_n: "bit (of_nat n :: 32 word) i = bit n i" if "i < 32" for i
    using that by (simp add: bit_of_nat_iff)
  have high: "\<not> bit n i" if "5 \<le> i" for i
  proof -
    have "n < 2 ^ i" using n5 that power_increasing [of 5 i "2::nat"] by simp
    then show ?thesis by (simp add: bit_iff_odd)
  qed
  have new: "to_bits (bits + 5) ?v = to_bits bits v @ digit_bits c"
    unfolding digit_bits_def n option.sel
    by (rule to_bits_append) (use Cons.prems(2) bits_n high in \<open>auto simp: bit_or_iff bit_push_bit_iff\<close>)
  have input: "base32_text input" using Cons.prems(1) by (simp add: base32_text_def)
  show ?case
  proof (cases "bits + 5 \<ge> 8")
    case True
    have b8: "bits + 5 - 8 < 8" using Cons.prems(2) by linarith
    define vv where "vv = ?v"
    define byte where "byte = (ucast (drop_bit (bits + 5 - 8) vv AND 0xff) :: byte)"
    have "to_bits 8 byte = to_bits 8 (drop_bit (bits + 5 - 8) vv)"
      unfolding byte_def by (rule to_bits_eqI) (simp add: bit_ucast_iff and_mask_bits)
    then have split: "to_bits 8 byte @ to_bits (bits + 5 - 8) vv = to_bits bits v @ digit_bits c"
      using split_top [OF True, of vv] new by (simp add: vv_def)
    have "decode_loop (c # input) bits v outp = decode_loop input (bits + 5 - 8) vv (outp @ [byte])"
      using n True by (simp add: Let_def byte_def vv_def)
    moreover obtain bits' v' outp' where "decode_loop input (bits + 5 - 8) vv (outp @ [byte]) = Inr (bits', v', outp')"
      "bits' < 8" "data_bits outp' @ to_bits bits' v' = data_bits (outp @ [byte]) @ to_bits (bits + 5 - 8) vv @ text_bits input"
      using Cons.IH [OF input b8, of vv "outp @ [byte]"] by auto
    moreover have "data_bits (outp @ [byte]) @ to_bits (bits + 5 - 8) vv @ text_bits input
        = data_bits outp @ (to_bits 8 byte @ to_bits (bits + 5 - 8) vv) @ text_bits input" by simp
    ultimately show ?thesis using split by simp
  next
    case False
    then show ?thesis using Cons.IH [OF input, of "bits + 5" ?v outp] new n by (simp add: Let_def)
  qed
qed simp

lemma low_bits_zero: "b \<le> 32 \<Longrightarrow> (v AND (push_bit b 1 - 1) :: 32 word) = 0 \<longleftrightarrow> to_bits b v = replicate b False"
proof -
  assume b: "b \<le> 32"
  have "(push_bit b 1 - 1 :: 32 word) = mask b" by (simp add: mask_eq_exp_minus_1 push_bit_eq_mult)
  moreover have "v AND mask b = 0 \<longleftrightarrow> (\<forall>i < b. \<not> bit v i)"
  proof
    assume z: "v AND mask b = 0"
    show "\<forall>i < b. \<not> bit v i"
    proof (intro allI impI)
      fix i assume "i < b"
      then have "bit (v AND mask b) i = bit v i" using b by (simp add: bit_and_iff bit_mask_iff)
      then show "\<not> bit v i" using z by simp
    qed
  next
    assume "\<forall>i < b. \<not> bit v i"
    then show "v AND mask b = 0" by (intro bit_word_eqI) (auto simp: bit_and_iff bit_mask_iff)
  qed
  moreover have "map f xs = replicate (length xs) False \<longleftrightarrow> (\<forall>x \<in> set xs. \<not> f x)" for f :: "nat \<Rightarrow> bool" and xs
    by (induction xs) auto
  from this [of "bit v" "rev [0..<b]"] have "to_bits b v = replicate b False \<longleftrightarrow> (\<forall>i < b. \<not> bit v i)"
    by (auto simp: to_bits_def)
  ultimately show ?thesis by simp
qed

text \<open>Decoding accepts a text exactly when what follows its last whole byte is zero.\<close>

lemma base32Decode_bits:
  assumes "base32_text input"
  shows "base32Decode input = Inr data \<longleftrightarrow> (\<exists>pad < 8. text_bits input = data_bits data @ replicate pad False)"
proof (cases "input = []")
  case False
  obtain b v o1 where loop: "decode_loop input 0 0 [] = Inr (b, v, o1)" "b < 8"
    and o1: "data_bits o1 @ to_bits b v = text_bits input"
    using decode_loop_spec [OF assms, of 0 0 "[]"] by auto
  have dec: "base32Decode input = (if to_bits b v = replicate b False then Inr o1
      else Inl (PlainError ''Invalid base32 encoding: non-zero padding bits''))"
    using loop False low_bits_zero [of b v] by (auto simp: base32Decode_def)
  have uniq: "d = o1 \<and> to_bits b v = replicate b False" if "text_bits input = data_bits d @ replicate pad False" "pad < 8" for d pad
  proof -
    have eq: "data_bits o1 @ to_bits b v = data_bits d @ replicate pad False" using o1 that(1) by simp
    from arg_cong [OF this, of length] have "8 * length o1 + b = 8 * length d + pad" by simp
    then have "length o1 = length d" "b = pad" using loop(2) that(2) by presburger+
    with eq show ?thesis by (simp add: data_bits_inject)
  qed
  show ?thesis using dec o1 loop(2) uniq by (auto split: if_splits)
qed (auto simp: base32Decode_def data_bits_inject [of "[]"] dest: arg_cong [of _ _ length])

lemma base32_roundtrip: "base32Decode (base32Encode data) = Inr data"
proof -
  obtain pad where "pad < 5" "text_bits (base32Encode data) = data_bits data @ replicate pad False"
    using base32Encode_bits by blast
  then show ?thesis using base32Decode_bits [of "base32Encode data" data] base32Encode_bits [of data]
    by (auto intro!: exI [of _ pad])
qed

section \<open>The checksum\<close>

lemma crc_shift_bit:
  "bit (crc_shift c) i \<longleftrightarrow> i < 16 \<and> ((0 < i \<and> bit c (i - 1)) \<noteq> (bit c 15 \<and> bit (0x1021 :: 16 word) i))"
proof -
  have "c AND 0x8000 \<noteq> 0 \<longleftrightarrow> bit c 15"
    using bit_iff_and_push_bit_not_eq_0 [of c 15] by (simp add: push_bit_eq_mult)
  moreover have "bit (push_bit 1 c) i \<longleftrightarrow> i < 16 \<and> 0 < i \<and> bit c (i - 1)"
    unfolding bit_push_bit_iff by auto
  moreover have "bit (0x1021 :: 16 word) i \<Longrightarrow> i < 16" by (auto dest: bit_imp_le_length)
  ultimately show ?thesis by (auto simp: crc_shift_def bit_xor_iff)
qed

lemma crc_shift_xor: "crc_shift (a XOR b) = crc_shift a XOR crc_shift b"
  by (rule bit_word_eqI) (auto simp: crc_shift_bit bit_xor_iff)

lemma crc_shift_inj: "crc_shift a = crc_shift b \<Longrightarrow> a = b"
proof -
  assume "crc_shift a = crc_shift b"
  then have eq: "bit (crc_shift a) i = bit (crc_shift b) i" for i by simp
  have one: "bit (0x1021 :: 16 word) 0" by simp
  have top: "bit a 15 = bit b 15" using eq [of 0] one by (simp add: crc_shift_bit)
  have "bit a i = bit b i" if "i < 16" for i
  proof (cases "i = 15")
    case False
    then show ?thesis using eq [of "Suc i"] that top by (auto simp: crc_shift_bit)
  qed (use top in simp)
  then show "a = b" by (intro bit_word_eqI) simp
qed

lemma crc_shifts_xor: "(crc_shift ^^ n) (a XOR b) = (crc_shift ^^ n) a XOR (crc_shift ^^ n) b"
  by (induction n) (simp_all add: crc_shift_xor)

lemma crc_shifts_inj: "(crc_shift ^^ n) a = (crc_shift ^^ n) b \<Longrightarrow> a = b"
  by (induction n) (auto dest: crc_shift_inj)

lemma crc_shifts_byte: "n \<le> 8 \<Longrightarrow> (crc_shift ^^ n) (ucast (b :: byte)) = push_bit n (ucast b)"
proof (induction n)
  case (Suc n)
  have "\<not> bit b (15 - n)" using Suc.prems bit_imp_le_length [of b "15 - n"] by auto
  then have "\<not> bit (push_bit n (ucast b) :: 16 word) 15" by (simp add: bit_push_bit_iff bit_ucast_iff)
  then have "crc_shift (push_bit n (ucast b)) = push_bit (Suc n) (ucast b)"
    by (intro bit_word_eqI) (unfold crc_shift_bit bit_push_bit_iff, auto)
  then show ?case using Suc by (simp del: push_bit_Suc)
qed simp

text \<open>Two bytes are fed as one 16-bit value.\<close>

definition word16 :: "byte \<Rightarrow> byte \<Rightarrow> 16 word" where
  "word16 a b = push_bit 8 (ucast a) XOR ucast b"

lemma word16_inject: "word16 a b = word16 c d \<longleftrightarrow> a = c \<and> b = d"
proof
  have bits: "bit (word16 a b) i \<longleftrightarrow> (if i < 8 then bit b i else i < 16 \<and> bit a (i - 8))" for a b i
    using bit_imp_le_length [of b i] bit_imp_le_length [of a "i - 8"]
    by (auto simp: word16_def bit_xor_iff bit_push_bit_iff bit_ucast_iff)
  assume eq: "word16 a b = word16 c d"
  have "bit b i = bit d i" if "i < 8" for i using arg_cong [OF eq, of "\<lambda>w. bit w i"] that by (simp add: bits)
  moreover have "bit a i = bit c i" if "i < 8" for i
    using arg_cong [OF eq, of "\<lambda>w. bit w (i + 8)"] that by (simp add: bits)
  ultimately show "a = c \<and> b = d" by (auto intro!: bit_word_eqI)
qed simp

lemma crc_two_bytes: "crc_byte (crc_byte s a) b = (crc_shift ^^ 16) (s XOR word16 a b)"
proof -
  have "push_bit 8 (ucast b) = (crc_shift ^^ 8) (ucast b)" using crc_shifts_byte [of 8 b] by simp
  then have "crc_byte (crc_byte s a) b = (crc_shift ^^ 8) ((crc_shift ^^ 8) ((s XOR push_bit 8 (ucast a)) XOR ucast b))"
    by (simp add: crc_byte_def crc_shifts_xor)
  also have "\<dots> = (crc_shift ^^ (8 + 8)) ((s XOR push_bit 8 (ucast a)) XOR ucast b)"
    by (simp only: funpow_add comp_apply)
  finally show ?thesis by (simp add: word16_def xor.assoc)
qed

lemma xor_cancel_left: "(a :: 'a :: len word) XOR b = a XOR c \<Longrightarrow> b = c"
  by (metis xor.assoc xor.left_neutral xor_self_eq)

lemma crc_byte_inj: "crc_byte s b = crc_byte t b \<Longrightarrow> s = t"
proof -
  assume "crc_byte s b = crc_byte t b"
  from crc_shifts_inj [OF this [unfolded crc_byte_def]] have "push_bit 8 (ucast b) XOR s = push_bit 8 (ucast b) XOR t"
    by (simp only: xor.commute)
  then show "s = t" by (rule xor_cancel_left)
qed

lemma crc_fold_inj: "foldl crc_byte s ys = foldl crc_byte t ys \<Longrightarrow> s = t"
  by (induction ys arbitrary: s t) (auto dest: crc_byte_inj)

lemma crc_detects_two:
  assumes "crc16XModem (xs @ a # b # ys) = crc16XModem (xs @ c # d # ys)"
  shows "a = c \<and> b = d"
proof -
  let ?s = "foldl crc_byte 0 xs"
  have "crc_byte (crc_byte ?s a) b = crc_byte (crc_byte ?s c) d"
    using assms by (auto simp: crc16XModem_def dest: crc_fold_inj)
  from crc_shifts_inj [OF this [unfolded crc_two_bytes]] have "word16 a b = word16 c d"
    by (rule xor_cancel_left)
  then show ?thesis by (simp add: word16_inject)
qed

text \<open>A text with its checksum appended has checksum zero.\<close>

lemma crc_with_checksum: "crc16XModem (xs @ [a, b]) = 0 \<longleftrightarrow> crc16XModem xs = word16 a b"
proof -
  have zero: "(crc_shift ^^ 16) 0 = 0"
  proof -
    have "crc_shift 0 = 0" by (simp add: crc_shift_def)
    then have "(crc_shift ^^ n) 0 = 0" for n by (induction n) simp_all
    then show ?thesis .
  qed
  have "crc16XModem (xs @ [a, b]) = (crc_shift ^^ 16) (crc16XModem xs XOR word16 a b)"
    by (simp add: crc16XModem_def crc_two_bytes)
  then have "crc16XModem (xs @ [a, b]) = 0 \<longleftrightarrow> crc16XModem xs XOR word16 a b = 0"
    using zero crc_shifts_inj [of 16 "crc16XModem xs XOR word16 a b" 0] by auto
  also have "\<dots> \<longleftrightarrow> crc16XModem xs = word16 a b"
    by (metis xor_self_eq xor_cancel_left)
  finally show ?thesis .
qed

section \<open>Hex round trip\<close>

lemma hex_digit: "n < 16 \<Longrightarrow> hex_val (HEX_DIGITS ! n) = Some n \<and> \<not> is_space (HEX_DIGITS ! n)
    \<and> HEX_DIGITS ! n \<noteq> CHR ''x'' \<and> HEX_DIGITS ! n \<noteq> CHR ''X''"
proof -
  have "\<forall>n \<in> set [0..<16]. hex_val (HEX_DIGITS ! n) = Some n \<and> \<not> is_space (HEX_DIGITS ! n)
    \<and> HEX_DIGITS ! n \<noteq> CHR ''x'' \<and> HEX_DIGITS ! n \<noteq> CHR ''X''" by code_simp
  then show "n < 16 \<Longrightarrow> ?thesis" by simp
qed

lemma unat_byte: "unat (b :: byte) div 16 < 16" "unat b mod 16 < 16"
proof -
  have "unat b < 2 ^ LENGTH(8)" by (rule unsigned_less)
  then show "unat b div 16 < 16" by simp
qed simp

lemma hex_roundtrip: "hexToBytes (bytesToHex bytes) = Inr bytes"
proof -
  have plain: "list_all (\<lambda>c. hex_val c \<noteq> None \<and> \<not> is_space c \<and> c \<noteq> CHR ''x'' \<and> c \<noteq> CHR ''X'') (bytesToHex bytes)"
    using hex_digit unat_byte by (induction bytes) (simp_all add: bytesToHex_def byte_hex_def)
  then have "filter (\<lambda>c. \<not> is_space c) (bytesToHex bytes) = bytesToHex bytes"
    by (auto simp: list_all_iff intro!: filter_True)
  then have strip: "strip_hex (bytesToHex bytes) = bytesToHex bytes"
    using plain by (auto simp: strip_hex_def Let_def split: list.split)
  have pairs: "hex_pairs (bytesToHex bytes) = bytes"
  proof (induction bytes)
    case (Cons b bytes)
    have "16 * (unat b div 16) + unat b mod 16 = unat b" by simp
    then show ?case using Cons hex_digit unat_byte [of b] by (simp add: bytesToHex_def byte_hex_def)
  qed (simp add: bytesToHex_def)
  have "even (length (bytesToHex bytes))"
    by (induction bytes) (simp_all add: bytesToHex_def byte_hex_def)
  then show ?thesis using strip pairs plain by (auto simp: hexToBytes_def Let_def list_all_iff)
qed

section \<open>Keys\<close>

lemma word16_or: "push_bit 8 (ucast a) OR ucast b = word16 a b"
proof (rule bit_word_eqI)
  fix i assume "i < LENGTH(16)"
  have "\<not> (8 \<le> i \<and> bit b i)" using bit_imp_le_length [of b i] by auto
  then show "bit (push_bit 8 (ucast a) OR ucast b :: 16 word) i = bit (word16 a b) i"
    unfolding word16_def bit_or_iff bit_xor_iff bit_push_bit_iff bit_ucast_iff by auto
qed

lemma mask16: "bit (c AND 0xff :: 16 word) i \<longleftrightarrow> i < 8 \<and> bit c i"
proof -
  have "(0xff :: 16 word) = mask 8" by (simp add: mask_eq_exp_minus_1)
  then show ?thesis by (simp only: bit_and_iff bit_mask_iff) auto
qed

lemma word16_split: "word16 (ucast (drop_bit 8 c AND 0xff)) (ucast (c AND 0xff)) = c"
proof (rule bit_word_eqI)
  fix i assume "i < LENGTH(16)"
  then have "i < 8 \<or> i - 8 < 8" "8 + (i - 8) = i \<or> i < 8" by auto
  then show "bit (word16 (ucast (drop_bit 8 c AND 0xff)) (ucast (c AND 0xff))) i = bit c i"
    unfolding word16_def bit_xor_iff bit_push_bit_iff bit_ucast_iff mask16 bit_drop_bit_eq comp_def
    using \<open>i < LENGTH(16)\<close> by (cases "i < 8") auto
qed

lemma take_two_last: "2 \<le> length raw \<Longrightarrow> raw = take (length raw - 2) raw @ [raw ! (length raw - 2), raw ! (length raw - 1)]"
proof -
  assume "2 \<le> length raw"
  then have "drop (length raw - 2) raw = raw ! (length raw - 2) # drop (length raw - 1) raw"
    "drop (length raw - 1) raw = raw ! (length raw - 1) # drop (length raw) raw"
    using Cons_nth_drop_Suc [of "length raw - 2" raw] Cons_nth_drop_Suc [of "length raw - 1" raw]
    by (simp_all add: Suc_diff_Suc numeral_2_eq_2)
  then have "drop (length raw - 2) raw = [raw ! (length raw - 2), raw ! (length raw - 1)]" by simp
  then show ?thesis by (metis append_take_drop_id)
qed

lemma decode_raw_checksum:
  assumes "3 \<le> length raw"
  shows "sd_checksumValid (decode_raw f t raw) \<longleftrightarrow> crc16XModem raw = 0"
proof -
  have last: "drop (length raw - 2) raw ! 0 = raw ! (length raw - 2)" "drop (length raw - 2) raw ! 1 = raw ! (length raw - 1)"
    using assms by (simp_all add: Suc_diff_Suc numeral_2_eq_2)
  have "crc16XModem raw = 0 \<longleftrightarrow> crc16XModem (take (length raw - 2) raw) = word16 (raw ! (length raw - 2)) (raw ! (length raw - 1))"
    using take_two_last [of raw] crc_with_checksum assms by (metis Suc_leD eval_nat_numeral(3))
  then show ?thesis using last by (simp add: decode_raw_def Let_def word16_or)
qed

lemma decodeStrKey_Inr:
  assumes "decodeStrKey f s = Inr d"
  obtains raw where "base32Decode (trim s) = Inr raw" "3 \<le> length raw" "d = decode_raw f (trim s) raw" "sd_input d = trim s"
  using assms by (auto simp: decodeStrKey_def decode_raw_def Let_def split: if_splits sum.splits intro: that)

lemma decode_loop_text: "decode_loop s b v out = Inr r \<Longrightarrow> base32_text s"
  by (induction s b v out rule: decode_loop.induct) (auto simp: base32_text_def Let_def split: option.splits if_splits)

lemma base32Decode_text: "base32Decode s = Inr d \<Longrightarrow> base32_text s"
proof (cases "s = []")
  case False
  assume "base32Decode s = Inr d"
  then obtain r where "decode_loop s 0 0 [] = Inr r" using False by (auto simp: base32Decode_def result_laws)
  then show ?thesis by (rule decode_loop_text)
qed (simp add: base32_text_def)

lemma alphabet_no_space: "BASE32_LOOKUP c \<noteq> None \<Longrightarrow> \<not> is_space c"
proof -
  have member: "index_of c xs \<noteq> None \<Longrightarrow> c \<in> set xs" for xs by (induction xs) (auto split: if_splits)
  have "\<forall>c \<in> set BASE32_ALPHABET. \<not> is_space c" by code_simp
  then show "BASE32_LOOKUP c \<noteq> None \<Longrightarrow> \<not> is_space c" using member by (auto simp: BASE32_LOOKUP_def)
qed

lemma trim_text: "base32_text s \<Longrightarrow> trim s = s"
  by (rule trim_id) (auto simp: base32_text_def alphabet_no_space)

lemma index_of_nth: "index_of c xs = Some n \<Longrightarrow> xs ! n = c"
  by (induction xs arbitrary: n) (auto split: if_splits)

lemma digit_bits_inject:
  assumes "BASE32_LOOKUP a \<noteq> None" "BASE32_LOOKUP b \<noteq> None" "digit_bits a = digit_bits b"
  shows "a = b"
proof -
  obtain m n where mn: "BASE32_LOOKUP a = Some m" "BASE32_LOOKUP b = Some n" using assms by auto
  then have small: "m < 2 ^ 5" "n < 2 ^ 5" using lookup_less by fastforce+
  have "bit m i = bit n i" if "i < 5" for i
    using assms(3) mn that by (simp add: digit_bits_def to_bits_def)
  then have "take_bit 5 m = take_bit 5 n" by (auto simp: bit_eq_iff bit_take_bit_iff)
  then have "m = n" using small by (simp add: take_bit_nat_eq_self)
  then show ?thesis
    using mn index_of_nth [of a BASE32_ALPHABET m] index_of_nth [of b BASE32_ALPHABET n] by (simp add: BASE32_LOOKUP_def)
qed

lemma byte_bits: "k < length raw \<Longrightarrow> to_bits 8 (raw ! k) = take 8 (drop (8 * k) (data_bits raw))"
proof (induction raw arbitrary: k)
  case (Cons b raw)
  then show ?case by (cases k) (simp_all add: drop_append)
qed simp

text \<open>Changing one character changes at most two neighbouring bytes.\<close>

lemma one_char_two_bytes:
  assumes "text_bits (xs @ a # ys) = data_bits raw @ replicate pad False" "pad < 8"
    and "text_bits (xs @ b # ys) = data_bits raw' @ replicate pad' False" "pad' < 8" "2 \<le> length raw"
  shows "\<exists>us c d c' d' vs. raw = us @ c # d # vs \<and> raw' = us @ c' # d' # vs \<and> pad = pad'"
proof -
  let ?p = "5 * length xs"
  have "5 * (length xs + Suc (length ys)) = 8 * length raw + pad"
    "5 * (length xs + Suc (length ys)) = 8 * length raw' + pad'"
    using arg_cong [OF assms(1), of length] arg_cong [OF assms(3), of length] by simp_all
  then have eq: "8 * length raw + pad = 8 * length raw' + pad'" by linarith
  have arith: "m = n \<and> p = q" if "8 * m + p = 8 * n + q" "p < 8" "q < 8" for m n p q :: nat
    using that by presburger
  have len: "length raw' = length raw" "pad' = pad" using arith [OF eq assms(2,4)] by simp_all
  have same: "raw ! k = raw' ! k" if k: "k < length raw" "8 * k + 8 \<le> ?p \<or> ?p + 5 \<le> 8 * k" for k
  proof -
    have seg: "take 8 (drop (8 * k) (text_bits (xs @ z # ys))) =
        (if 8 * k + 8 \<le> ?p then take 8 (drop (8 * k) (text_bits xs)) else take 8 (drop (8 * k - (?p + 5)) (text_bits ys)))" for z
      using k(2) by (auto simp: digit_bits_def drop_append)
    have cut: "take 8 (drop (8 * k) (data_bits r @ replicate pad False)) = take 8 (drop (8 * k) (data_bits r))" if "k < length r" for r
      using that by (simp add: drop_append)
    have "take 8 (drop (8 * k) (data_bits raw)) = take 8 (drop (8 * k) (text_bits (xs @ a # ys)))"
      unfolding assms(1) by (rule cut [symmetric]) (rule k(1))
    also have "\<dots> = take 8 (drop (8 * k) (text_bits (xs @ b # ys)))" unfolding seg ..
    also have "\<dots> = take 8 (drop (8 * k) (data_bits raw'))"
      unfolding assms(3) len(2) by (rule cut) (simp add: len k(1))
    finally have "to_bits 8 (raw ! k) = to_bits 8 (raw' ! k)"
      using byte_bits [of k raw] byte_bits [of k raw'] k(1) len by simp
    then show ?thesis using to_bits_inject [of "raw ! k" "raw' ! k"] by simp
  qed
  define j where "j = min (?p div 8) (length raw - 2)"
  have j: "Suc j < length raw" using assms(5) by (simp add: j_def)
  have outside: "raw ! k = raw' ! k" if "k < length raw" "k \<noteq> j" "k \<noteq> Suc j" for k
    by (rule same) (use that assms(5) in \<open>auto simp: j_def min_def split: if_splits\<close>)
  have split: "r = take j r @ r ! j # r ! Suc j # drop (Suc (Suc j)) r" if "length r = length raw" for r :: "byte list"
    using j that id_take_nth_drop [of j r] Cons_nth_drop_Suc [of "Suc j" r] by simp
  have "take j raw = take j raw'" using outside j len by (auto simp: list_eq_iff_nth_eq)
  moreover have "drop (Suc (Suc j)) raw = drop (Suc (Suc j)) raw'" using outside j len by (auto simp: list_eq_iff_nth_eq)
  ultimately show ?thesis using split [of raw] split [of raw'] len by metis
qed

section \<open>Properties\<close>

lemma encode_raw:
  assumes "encodeStrKey ty payload = Inr s"
  obtains raw t where "s = base32Encode raw" "length raw = STRKEY_PAYLOAD_LENGTH ty + 3"
    "\<forall>f u. sd_payload (decode_raw f u raw) = payload \<and> sd_type (decode_raw f u raw) = Some t \<and> sd_valid (decode_raw f u raw)"
    "STRKEY_VERSIONS t = STRKEY_VERSIONS ty"
proof -
  define body where "body = STRKEY_VERSIONS ty # payload"
  define hi lo where "hi = (ucast (drop_bit 8 (crc16XModem body) AND 0xff) :: byte)"
    and "lo = (ucast (crc16XModem body AND 0xff) :: byte)"
  define raw where "raw = body @ [hi, lo]"
  have len: "length payload = STRKEY_PAYLOAD_LENGTH ty" and s: "s = base32Encode raw"
    using assms by (auto simp: encodeStrKey_def Let_def raw_def body_def hi_def lo_def split: if_splits)
  have raw3: "3 \<le> length raw" by (simp add: raw_def body_def)
  have zero: "crc16XModem raw = 0"
    unfolding raw_def crc_with_checksum by (simp add: hi_def lo_def word16_split)
  obtain t where t: "VERSION_TO_TYPE (STRKEY_VERSIONS ty) = Some t" "STRKEY_VERSIONS t = STRKEY_VERSIONS ty"
    "STRKEY_PAYLOAD_LENGTH t = STRKEY_PAYLOAD_LENGTH ty"
    by (cases ty) (simp_all add: VERSION_TO_TYPE_def)
  have "sd_payload (decode_raw f u raw) = payload \<and> sd_type (decode_raw f u raw) = Some t \<and> sd_valid (decode_raw f u raw)" for f u
  proof -
    have check: "sd_checksumValid (decode_raw f u raw)" using decode_raw_checksum [OF raw3] zero by simp
    have parts: "hd raw = STRKEY_VERSIONS ty" "take (length raw - 3) (tl raw) = payload"
      by (simp_all add: raw_def body_def)
    show ?thesis using check t(1,3) len unfolding decode_raw_def Let_def parts by simp
  qed
  with s t(2) len show ?thesis by (intro that [of raw t]) (simp_all add: raw_def body_def)
qed

lemma decodeStrKey_text:
  "base32_text s \<Longrightarrow> base32Decode s = Inr raw \<Longrightarrow> 3 \<le> length raw \<Longrightarrow> decodeStrKey f s = Inr (decode_raw f s raw)"
  by (auto simp: decodeStrKey_def trim_text Let_def base32Decode_def)

section \<open>Properties\<close>

text \<open>
  C30. StrKey round trip: whatever type and payload are encoded, decoding the text gives back the
  payload and the version byte, with a valid checksum and length, so the key is reported valid.
\<close>

theorem strkey_roundtrip:
  assumes "encodeStrKey ty payload = Inr s"
  shows "\<exists>d t. decodeStrKey to_base64 s = Inr d \<and> sd_payload d = payload
    \<and> sd_type d = Some t \<and> STRKEY_VERSIONS t = STRKEY_VERSIONS ty \<and> sd_valid d"
proof -
  obtain raw t where raw: "s = base32Encode raw" "length raw = STRKEY_PAYLOAD_LENGTH ty + 3"
    "\<forall>f u. sd_payload (decode_raw f u raw) = payload \<and> sd_type (decode_raw f u raw) = Some t \<and> sd_valid (decode_raw f u raw)"
    "STRKEY_VERSIONS t = STRKEY_VERSIONS ty" by (rule encode_raw [OF assms])
  have "decodeStrKey to_base64 s = Inr (decode_raw to_base64 s raw)"
    using base32Encode_bits base32_roundtrip raw(1,2) by (intro decodeStrKey_text) simp_all
  then show ?thesis using raw(3,4) by blast
qed

theorem strkey_roundtrip_witness:
  "\<exists>s d. encodeStrKey CONTRACT (replicate 32 7) = Inr s \<and> decodeStrKey (\<lambda>_. []) s = Inr d
     \<and> sd_payload d = replicate 32 7 \<and> sd_valid d"
proof -
  obtain s where s: "encodeStrKey CONTRACT (replicate 32 7) = Inr s" by (simp add: encodeStrKey_def Let_def)
  from strkey_roundtrip [OF this, of "\<lambda>_. []"] s show ?thesis by blast
qed

text \<open>
  C31. A single mistyped character never goes unnoticed: of two decodable texts of any length that
  differ in exactly one character, at most one has a matching checksum.
\<close>

theorem strkey_detects_typo:
  assumes "decodeStrKey f s = Inr d" "decodeStrKey f s' = Inr d'"
    and "sd_input d = xs @ a # ys" "sd_input d' = xs @ b # ys" "a \<noteq> b"
  shows "\<not> (sd_checksumValid d \<and> sd_checksumValid d')"
proof
  assume valid: "sd_checksumValid d \<and> sd_checksumValid d'"
  obtain raw where r: "base32Decode (trim s) = Inr raw" "3 \<le> length raw" "d = decode_raw f (trim s) raw" "sd_input d = trim s"
    using decodeStrKey_Inr [OF assms(1)] .
  obtain raw' where r': "base32Decode (trim s') = Inr raw'" "3 \<le> length raw'" "d' = decode_raw f (trim s') raw'" "sd_input d' = trim s'"
    using decodeStrKey_Inr [OF assms(2)] .
  note b32 = base32Decode_text [OF r(1)] base32Decode_text [OF r'(1)]
  obtain pad where pad: "pad < 8" "text_bits (xs @ a # ys) = data_bits raw @ replicate pad False"
    using base32Decode_bits [OF b32(1)] r assms(3) by auto
  obtain pad' where pad': "pad' < 8" "text_bits (xs @ b # ys) = data_bits raw' @ replicate pad' False"
    using base32Decode_bits [OF b32(2)] r' assms(4) by auto
  have "2 \<le> length raw" using r(2) by simp
  from one_char_two_bytes [OF pad(2,1) pad'(2,1) this] obtain us c e c' e' vs where
    dec: "raw = us @ c # e # vs" "raw' = us @ c' # e' # vs" "pad = pad'" by blast
  have "crc16XModem raw = crc16XModem raw'"
    using valid decode_raw_checksum [OF r(2)] decode_raw_checksum [OF r'(2)] r(3) r'(3) by simp
  then have "raw = raw'" using crc_detects_two [of us c e vs c' e'] dec by simp
  then have "text_bits (xs @ a # ys) = text_bits (xs @ b # ys)" using pad(2) pad'(2) dec(3) by simp
  then have "digit_bits a = digit_bits b" by simp
  moreover have "a \<in> set (trim s)" "b \<in> set (trim s')"
    using r(4) r'(4) assms(3,4) by (metis in_set_conv_decomp)+
  then have "BASE32_LOOKUP a \<noteq> None" "BASE32_LOOKUP b \<noteq> None"
    using b32 by (auto simp: base32_text_def)
  ultimately show False using digit_bits_inject assms(5) by blast
qed

theorem strkey_detects_typo_witness:
  "\<exists>d d'. decodeStrKey (\<lambda>_. []) ''AAAAAA'' = Inr d \<and> decodeStrKey (\<lambda>_. []) ''ACAAAA'' = Inr d'
     \<and> \<not> (sd_checksumValid d \<and> sd_checksumValid d')"
proof -
  have ok: "\<exists>raw. base32Decode s = Inr raw \<and> 3 \<le> length raw \<and> base32_text s" if "s \<in> {''AAAAAA'', ''ACAAAA''}" for s
  proof -
    have "case base32Decode s of Inr raw \<Rightarrow> 3 \<le> length raw | Inl _ \<Rightarrow> False"
      using that by (elim insertE emptyE; simp only:; code_simp)
    then show ?thesis using base32Decode_text by (auto split: sum.splits)
  qed
  have trim: "trim ''AAAAAA'' = ''AAAAAA''" "trim ''ACAAAA'' = ''ACAAAA''" by code_simp+
  obtain raw raw' where "decodeStrKey (\<lambda>_. []) ''AAAAAA'' = Inr (decode_raw (\<lambda>_. []) ''AAAAAA'' raw)"
    "decodeStrKey (\<lambda>_. []) ''ACAAAA'' = Inr (decode_raw (\<lambda>_. []) ''ACAAAA'' raw')"
    using ok [of "''AAAAAA''"] ok [of "''ACAAAA''"] decodeStrKey_text by (meson insertI1 insertI2)
  note d = this
  have "sd_input (decode_raw (\<lambda>_. []) ''AAAAAA'' raw) = ''A'' @ CHR ''A'' # ''AAAA''"
    "sd_input (decode_raw (\<lambda>_. []) ''ACAAAA'' raw') = ''A'' @ CHR ''C'' # ''AAAA''"
    by (simp_all add: decode_raw_def Let_def)
  from strkey_detects_typo [OF d this] d show ?thesis by auto
qed

text \<open>
  The check of the padding bits is not enough to make decoding injective: whatever key is encoded, a
  further \<open>A\<close> adds five zero bits, and the longer text is reported valid with the same payload.
\<close>

lemma trailing_A_accepted:
  assumes "encodeStrKey ty payload = Inr s"
  shows "\<exists>d. decodeStrKey f (s @ ''A'') = Inr d \<and> sd_valid d \<and> sd_payload d = payload"
proof -
  obtain raw t where raw: "s = base32Encode raw" "length raw = STRKEY_PAYLOAD_LENGTH ty + 3"
    "\<forall>f u. sd_payload (decode_raw f u raw) = payload \<and> sd_type (decode_raw f u raw) = Some t \<and> sd_valid (decode_raw f u raw)"
    by (rule encode_raw [OF assms])
  obtain pad where pad: "pad < 5" "text_bits s = data_bits raw @ replicate pad False" "base32_text s"
    using base32Encode_bits [of raw] raw(1) by auto
  have "5 * length s = 8 * length raw + pad" using arg_cong [OF pad(2), of length] by simp
  moreover have "length raw = 35 \<or> length raw = 43" using raw(2) by (cases ty) simp_all
  ultimately have "pad + 5 < 8" using pad(1) by presburger
  moreover have A: "BASE32_LOOKUP (CHR ''A'') = Some 0" by code_simp
  then have "digit_bits (CHR ''A'') = replicate 5 False" by (simp add: digit_bits_def to_bits_def eval_nat_numeral)
  then have "text_bits (s @ ''A'') = data_bits raw @ replicate (pad + 5) False"
    using pad(2) by (simp add: replicate_add)
  moreover have b32: "base32_text (s @ ''A'')" using pad(3) A by (simp add: base32_text_def)
  ultimately have "base32Decode (s @ ''A'') = Inr raw" using base32Decode_bits by blast
  then have "decodeStrKey f (s @ ''A'') = Inr (decode_raw f (s @ ''A'') raw)"
    using b32 raw(2) by (intro decodeStrKey_text) simp_all
  then show ?thesis using raw(3) by blast
qed

end
