(* ===== verification/QrHandoff.thy ===== *)
theory QrHandoff
  imports Prelude JsNumber "HOL-Library.Word"
begin

unbundle bit_operations_syntax

text \<open>
  Offline transaction handoff by QR frames (\<open>apps/web/src/lib/qr-handoff.ts\<close>): the CRC-32, the
  splitting of a payload into frames, the validation of a scanned frame and the collector that
  reassembles them. Texts are Latin-1; \<open>JSON.parse\<close> is the parameter \<open>json_parse\<close>, \<open>None\<close>
  where it throws, and the transaction decoder of the Stellar SDK is a parameter.
\<close>

section \<open>Constants and types\<close>

definition QR_HANDOFF_VERSION :: js_num where "QR_HANDOFF_VERSION = 1"
definition QR_HANDOFF_FRAME_CHARS :: nat where "QR_HANDOFF_FRAME_CHARS = 512"
definition QR_HANDOFF_MAX_PAYLOAD_CHARS :: nat where "QR_HANDOFF_MAX_PAYLOAD_CHARS = 100000"
definition QR_HANDOFF_MAX_FRAMES :: nat where "QR_HANDOFF_MAX_FRAMES = 256"

datatype handoff_network = Handoff_testnet | Handoff_mainnet

datatype handoff_code =
    Empty_payload | Payload_too_large | Too_many_frames | Not_a_frame | Unsupported_version
  | Checksum_mismatch | Network_mismatch | Session_mismatch | Index_out_of_range | Incomplete
  | Invalid_transaction

text \<open>A \<open>QrHandoffError\<close> is its code; the message texts are left out.\<close>

type_synonym handoff_error = handoff_code

record handoff_frame =
  qf_v :: js_num
  qf_id :: string
  qf_net :: handoff_network
  qf_i :: int
  qf_n :: int
  qf_sum :: string
  qf_c :: string
  qf_d :: string

definition network_name :: "handoff_network \<Rightarrow> string" where
  "network_name n = (case n of Handoff_testnet \<Rightarrow> ''testnet'' | Handoff_mainnet \<Rightarrow> ''mainnet'')"

section \<open>CRC-32\<close>

definition crc_bit :: "32 word \<Rightarrow> 32 word" where
  "crc_bit w = (if w AND 1 = 1 then 0xedb88320 XOR drop_bit 1 w else drop_bit 1 w)"

definition CRC_TABLE :: "32 word \<Rightarrow> 32 word" where
  "CRC_TABLE index = (crc_bit ^^ 8) index"

text \<open>\<open>TextEncoder\<close> on Latin-1: two bytes from 128 on.\<close>

definition utf8_char :: "char \<Rightarrow> 32 word list" where
  "utf8_char c =
     (let n = (of_char c :: nat)
      in if n < 128 then [of_nat n] else [of_nat (192 + n div 64), of_nat (128 + n mod 64)])"

definition utf8_bytes :: "string \<Rightarrow> 32 word list" where
  "utf8_bytes s = concat (map utf8_char s)"

definition crc_step :: "32 word \<Rightarrow> 32 word \<Rightarrow> 32 word" where
  "crc_step crc byte = CRC_TABLE ((crc XOR byte) AND 0xff) XOR drop_bit 8 crc"

definition crc32 :: "string \<Rightarrow> 32 word" where
  "crc32 input = foldl crc_step 0xffffffff (utf8_bytes input) XOR 0xffffffff"

definition hex_char :: "nat \<Rightarrow> char" where
  "hex_char n = (if n < 10 then char_of (48 + n) else char_of (87 + n))"

fun hex_of_nat :: "nat \<Rightarrow> string" where
  "hex_of_nat n = (if n < 16 then [hex_char n] else hex_of_nat (n div 16) @ [hex_char (n mod 16)])"

declare hex_of_nat.simps [simp del]

definition crc32Hex :: "string \<Rightarrow> string" where
  "crc32Hex input = pad_start 8 (CHR ''0'') (hex_of_nat (unat (crc32 input)))"

section \<open>Encoding\<close>

definition sessionId :: "string \<Rightarrow> handoff_network \<Rightarrow> string" where
  "sessionId payload network =
     crc32Hex payload @ ''-'' @ digits_of_nat (length payload) @ ''-'' @ network_name network"

definition chunk_of :: "string \<Rightarrow> nat \<Rightarrow> string" where
  "chunk_of xdr index = take QR_HANDOFF_FRAME_CHARS (drop (index * QR_HANDOFF_FRAME_CHARS) xdr)"

definition frame_count :: "string \<Rightarrow> nat" where
  "frame_count xdr = nat \<lceil>(of_nat (length xdr) :: rat) / of_nat QR_HANDOFF_FRAME_CHARS\<rceil>"

definition frame_of :: "string \<Rightarrow> handoff_network \<Rightarrow> nat \<Rightarrow> handoff_frame" where
  "frame_of xdr network index =
     \<lparr>qf_v = QR_HANDOFF_VERSION, qf_id = sessionId xdr network, qf_net = network, qf_i = int index,
      qf_n = int (frame_count xdr), qf_sum = crc32Hex xdr, qf_c = crc32Hex (chunk_of xdr index),
      qf_d = chunk_of xdr index\<rparr>"

definition encodeHandoffFrames :: "string \<Rightarrow> handoff_network \<Rightarrow> handoff_error + handoff_frame list" where
  "encodeHandoffFrames xdr network =
     (if length xdr = 0 then Inl Empty_payload
      else if length xdr > QR_HANDOFF_MAX_PAYLOAD_CHARS
      then Inl Payload_too_large
      else let t = frame_count xdr
           in if t > QR_HANDOFF_MAX_FRAMES
              then Inl Too_many_frames
              else Inr (map (frame_of xdr network) [0..<t]))"

section \<open>Parsing a scanned frame\<close>

fun isRecord :: "json \<Rightarrow> bool" where
  "isRecord (J_obj _) = True"
| "isRecord _ = False"

fun num_field :: "json \<Rightarrow> string \<Rightarrow> js_num option" where
  "num_field j k = (case field j k of Some (J_num n) \<Rightarrow> Some n | _ \<Rightarrow> None)"

fun str_field :: "json \<Rightarrow> string \<Rightarrow> string option" where
  "str_field j k = (case field j k of Some (J_str s) \<Rightarrow> Some s | _ \<Rightarrow> None)"

definition is_integer :: "js_num \<Rightarrow> bool" where
  "is_integer x \<longleftrightarrow> of_int \<lfloor>x\<rfloor> = x"

definition frame_fields ::
  "json \<Rightarrow> (js_num \<times> string \<times> string \<times> js_num \<times> js_num \<times> string \<times> string \<times> string) option" where
  "frame_fields j =
     (if \<not> isRecord j then None
      else case (num_field j ''v'', str_field j ''id'', str_field j ''net'', num_field j ''i'', num_field j ''n'',
                 str_field j ''sum'', str_field j ''c'', str_field j ''d'') of
             (Some v, Some ident, Some net, Some i, Some n, Some sm, Some c, Some d) \<Rightarrow> Some (v, ident, net, i, n, sm, c, d)
           | _ \<Rightarrow> None)"

definition parseHandoffFrame :: "(string \<Rightarrow> json option) \<Rightarrow> string \<Rightarrow> handoff_error + handoff_frame" where
  "parseHandoffFrame json_parse raw =
     (case json_parse (trim raw) of
        None \<Rightarrow> Inl Not_a_frame
      | Some parsed \<Rightarrow>
          (case frame_fields parsed of
             None \<Rightarrow> Inl Not_a_frame
           | Some (v, ident, net, i, n, sm, c, d) \<Rightarrow>
               if v \<noteq> QR_HANDOFF_VERSION
               then Inl Unsupported_version
               else if net \<noteq> ''testnet'' \<and> net \<noteq> ''mainnet''
               then Inl Not_a_frame
               else if crc32Hex d \<noteq> c
               then Inl Checksum_mismatch
               else if \<not> is_integer i \<or> \<not> is_integer n \<or> n < 1
               then Inl Not_a_frame
               else Inr \<lparr>qf_v = v, qf_id = ident,
                         qf_net = (if net = ''testnet'' then Handoff_testnet else Handoff_mainnet),
                         qf_i = \<lfloor>i\<rfloor>, qf_n = \<lfloor>n\<rfloor>, qf_sum = sm, qf_c = c, qf_d = d\<rparr>))"

section \<open>The collector\<close>

record session =
  se_id :: string
  se_n :: int
  se_sum :: string

text \<open>
  \<open>chunks\<close> is an array: its length and its defined elements by index. An index below zero is a
  property beside the elements.
\<close>

record collector =
  co_length :: int
  co_chunks :: "(int, string) jmap"
  co_expected :: "session option"

record handoff_progress =
  hp_received :: nat
  hp_total :: int

datatype mismatch_reason = Reason_network | Reason_session

datatype accept_result =
    Accepted handoff_progress
  | Duplicate handoff_progress
  | Mismatched mismatch_reason handoff_progress
  | Invalid handoff_code handoff_progress
  | Complete string handoff_progress

definition new_collector :: collector where
  "new_collector = \<lparr>co_length = 0, co_chunks = [], co_expected = None\<rparr>"

definition received :: "collector \<Rightarrow> nat" where
  "received s = length (filter (\<lambda>i. jm_get (co_chunks s) i \<noteq> None) [0..co_length s - 1])"

definition progress :: "collector \<Rightarrow> handoff_progress" where
  "progress s = \<lparr>hp_received = received s, hp_total = (case co_expected s of Some e \<Rightarrow> se_n e | None \<Rightarrow> 0)\<rparr>"

definition join_chunks :: "collector \<Rightarrow> string" where
  "join_chunks s = concat (map (\<lambda>i. case jm_get (co_chunks s) i of Some d \<Rightarrow> d | None \<Rightarrow> []) [0..co_length s - 1])"

definition reset :: "collector \<Rightarrow> collector" where
  "reset s = \<lparr>co_length = 0, co_chunks = [], co_expected = None\<rparr>"

text \<open>\<open>new Array(n)\<close> throws above \<open>2 ^ 32 - 1\<close>.\<close>

definition new_array :: "int \<Rightarrow> js_error + int" where
  "new_array n = (if n > 2 ^ 32 - 1 then Inl (RangeError ''Invalid array length'') else Inr n)"

definition store_frame :: "handoff_frame \<Rightarrow> collector \<Rightarrow> js_error + accept_result \<times> collector" where
  "store_frame frame s =
     (if jm_get (co_chunks s) (qf_i frame) \<noteq> None then Inr (Duplicate (progress s), s)
      else let s1 = s\<lparr>co_chunks := jm_set (co_chunks s) (qf_i frame) (qf_d frame)\<rparr>;
               e = the (co_expected s1)
           in if int (received s1) < se_n e then Inr (Accepted (progress s1), s1)
              else let assembled = join_chunks s1
                   in if crc32Hex assembled \<noteq> se_sum e
                      then and_then (new_array (se_n e)) (\<lambda>len.
                             let s2 = s1\<lparr>co_length := len, co_chunks := []\<rparr>
                             in Inr (Invalid Checksum_mismatch (progress s2), s2))
                      else Inr (Complete assembled \<lparr>hp_received = received s1, hp_total = int (received s1)\<rparr>, reset s1))"

definition accept_frame :: "handoff_network \<Rightarrow> handoff_frame \<Rightarrow> collector \<Rightarrow> js_error + accept_result \<times> collector" where
  "accept_frame network frame s =
     (if qf_net frame \<noteq> network then Inr (Mismatched Reason_network (progress s), s)
      else if (case co_expected s of Some e \<Rightarrow> qf_id frame \<noteq> se_id e | None \<Rightarrow> False)
      then Inr (Mismatched Reason_session (progress s), s)
      else if (case co_expected s of Some e \<Rightarrow> qf_n frame \<noteq> se_n e \<or> qf_sum frame \<noteq> se_sum e | None \<Rightarrow> False)
      then Inr (Mismatched Reason_session (progress s), s)
      else if qf_i frame \<ge> qf_n frame then Inr (Invalid Index_out_of_range (progress s), s)
      else case co_expected s of
             Some e \<Rightarrow> store_frame frame s
           | None \<Rightarrow>
               and_then (new_array (qf_n frame)) (\<lambda>len.
               store_frame frame \<lparr>co_length = len, co_chunks = [],
                 co_expected = Some \<lparr>se_id = qf_id frame, se_n = qf_n frame, se_sum = qf_sum frame\<rparr>\<rparr>))"

definition accept ::
  "(string \<Rightarrow> json option) \<Rightarrow> handoff_network \<Rightarrow> string \<Rightarrow> collector \<Rightarrow> js_error + accept_result \<times> collector" where
  "accept json_parse network raw s =
     (case parseHandoffFrame json_parse raw of
        Inl e \<Rightarrow> Inr (Invalid e (progress s), s)
      | Inr frame \<Rightarrow> accept_frame network frame s)"

text \<open>Scanning a list of texts.\<close>

fun scan_all ::
  "(string \<Rightarrow> json option) \<Rightarrow> handoff_network \<Rightarrow> string list \<Rightarrow> collector \<Rightarrow> js_error + accept_result list \<times> collector" where
  "scan_all json_parse network [] s = Inr ([], s)"
| "scan_all json_parse network (raw # raws) s =
     and_then (accept json_parse network raw s) (\<lambda>(r, s1).
     and_then (scan_all json_parse network raws s1) (\<lambda>(rs, s2). Inr (r # rs, s2)))"

section \<open>Comparing two envelopes\<close>

text \<open>What the SDK decodes: the body hash and the signatures (hint, signature), as bytes.\<close>

record handoff_tx =
  ht_hash :: "8 word list"
  ht_signatures :: "(8 word list \<times> 8 word list) list"

record signature_diff =
  sg_sameBody :: bool
  sg_addedSignatures :: nat
  sg_removedSignatures :: nat
  sg_currentSignatures :: nat
  sg_incomingSignatures :: nat

definition toHex :: "8 word list \<Rightarrow> string" where
  "toHex bytes = concat (map (\<lambda>b. pad_start 2 (CHR ''0'') (hex_of_nat (unat b))) bytes)"

definition equalBytes :: "8 word list \<Rightarrow> 8 word list \<Rightarrow> bool" where
  "equalBytes left right =
     (if length left \<noteq> length right then False
      else list_all (\<lambda>i. left ! i = right ! i) [0..<length left])"

definition signatureKeys :: "handoff_tx \<Rightarrow> string list" where
  "signatureKeys tx = map (\<lambda>(hint, sg). toHex hint @ '':'' @ toHex sg) (ht_signatures tx)"

definition compareHandoffTransactions ::
  "(string \<Rightarrow> handoff_network \<Rightarrow> handoff_tx option) \<Rightarrow> string \<Rightarrow> string \<Rightarrow> handoff_network
    \<Rightarrow> handoff_error + signature_diff" where
  "compareHandoffTransactions from_xdr currentXdr incomingXdr network =
     (let decode = (\<lambda>xdr. case from_xdr xdr network of
            None \<Rightarrow> Inl Invalid_transaction
          | Some tx \<Rightarrow> Inr tx)
      in and_then (decode currentXdr) (\<lambda>current.
         and_then (decode incomingXdr) (\<lambda>incoming.
         let currentKeys = dedupe (signatureKeys current); incomingKeys = dedupe (signatureKeys incoming)
         in Inr \<lparr>sg_sameBody = equalBytes (ht_hash current) (ht_hash incoming),
                 sg_addedSignatures = length (filter (\<lambda>k. k \<notin> set currentKeys) incomingKeys),
                 sg_removedSignatures = length (filter (\<lambda>k. k \<notin> set incomingKeys) currentKeys),
                 sg_currentSignatures = length currentKeys, sg_incomingSignatures = length incomingKeys\<rparr>)))"

section \<open>The frames of a payload\<close>

lemma frame_count_bounds:
  "length xdr \<le> frame_count xdr * 512" "0 < length xdr \<Longrightarrow> 0 < frame_count xdr"
  "length xdr \<le> k * 512 \<Longrightarrow> frame_count xdr \<le> k"
proof -
  let ?q = "(of_nat (length xdr) :: rat) / 512"
  have c: "frame_count xdr = nat \<lceil>?q\<rceil>" by (simp add: frame_count_def QR_HANDOFF_FRAME_CHARS_def)
  have "?q \<le> of_nat (frame_count xdr)" unfolding c by linarith
  then have "(of_nat (length xdr) :: rat) \<le> of_nat (frame_count xdr * 512)" by simp
  then show "length xdr \<le> frame_count xdr * 512" by (simp only: of_nat_le_iff)
  then show "0 < length xdr \<Longrightarrow> 0 < frame_count xdr" by (cases "frame_count xdr") auto
  assume "length xdr \<le> k * 512"
  then have "(of_nat (length xdr) :: rat) \<le> of_nat (k * 512)" by (simp only: of_nat_le_iff)
  then have "?q \<le> of_nat k" by simp
  then have "\<lceil>?q\<rceil> \<le> int k" by (simp add: ceiling_le_iff)
  then show "frame_count xdr \<le> k" unfolding c by linarith
qed

text \<open>The frame limit is never what refuses a payload: 100000 characters need 196 frames.\<close>

lemma encodeHandoffFrames_eq:
  "encodeHandoffFrames xdr network =
     (if length xdr = 0 then Inl Empty_payload
      else if 100000 < length xdr then Inl Payload_too_large
      else Inr (map (frame_of xdr network) [0..<frame_count xdr]))"
  using frame_count_bounds(3) [of xdr 196]
  by (auto simp: encodeHandoffFrames_def Let_def QR_HANDOFF_MAX_PAYLOAD_CHARS_def QR_HANDOFF_MAX_FRAMES_def)

lemma join_chunks_of: "concat (map (chunk_of xdr) [0..<m]) = take (m * 512) xdr"
proof (induction m)
  case (Suc m)
  have "take (Suc m * 512) xdr = take (m * 512) xdr @ take 512 (drop (m * 512) xdr)"
    using take_add [of "m * 512" 512 xdr] by (simp add: add.commute)
  then show ?case using Suc by (simp add: chunk_of_def QR_HANDOFF_FRAME_CHARS_def)
qed simp

lemma all_chunks: "concat (map (chunk_of xdr) [0..<frame_count xdr]) = xdr"
  using frame_count_bounds(1) [of xdr] by (simp add: join_chunks_of)

section \<open>Reading a frame back\<close>

text \<open>The object \<open>JSON.stringify\<close> is given.\<close>

definition frame_json :: "handoff_frame \<Rightarrow> json" where
  "frame_json f = J_obj [(''v'', J_num (qf_v f)), (''id'', J_str (qf_id f)), (''net'', J_str (network_name (qf_net f))),
     (''i'', J_num (of_int (qf_i f))), (''n'', J_num (of_int (qf_n f))), (''sum'', J_str (qf_sum f)),
     (''c'', J_str (qf_c f)), (''d'', J_str (qf_d f))]"

lemma parse_rendered:
  assumes "json_parse (trim raw) = Some (frame_json f)"
    and "qf_v f = QR_HANDOFF_VERSION" "qf_c f = crc32Hex (qf_d f)" "1 \<le> qf_n f"
  shows "parseHandoffFrame json_parse raw = Inr f"
proof -
  have i: "is_integer (of_int k)" for k by (simp add: is_integer_def)
  have "frame_fields (frame_json f) = Some (qf_v f, qf_id f, network_name (qf_net f), of_int (qf_i f),
      of_int (qf_n f), qf_sum f, qf_c f, qf_d f)"
    by (simp add: frame_fields_def frame_json_def)
  moreover have "(of_int (qf_n f) :: rat) < 1 \<longleftrightarrow> False" using assms(4) by simp
  ultimately show ?thesis using assms i
    by (cases "qf_net f") (simp_all add: parseHandoffFrame_def network_name_def)
qed

lemma parse_frame_of:
  assumes "json_parse (trim raw) = Some (frame_json (frame_of xdr network k))" "0 < length xdr"
  shows "parseHandoffFrame json_parse raw = Inr (frame_of xdr network k)"
  using assms frame_count_bounds(2) [OF assms(2)] by (intro parse_rendered) (simp_all add: frame_of_def)

section \<open>The collector\<close>

text \<open>The collector holds exactly the chunks with an index in \<open>I\<close>.\<close>

definition holds_chunks :: "string \<Rightarrow> handoff_network \<Rightarrow> nat set \<Rightarrow> collector \<Rightarrow> bool" where
  "holds_chunks xdr network I s \<longleftrightarrow>
     I \<subseteq> {..<frame_count xdr} \<and> co_length s = int (frame_count xdr)
     \<and> co_expected s = Some \<lparr>se_id = sessionId xdr network, se_n = int (frame_count xdr), se_sum = crc32Hex xdr\<rparr>
     \<and> (\<forall>i. jm_get (co_chunks s) i = (if i \<in> int ` I then Some (chunk_of xdr (nat i)) else None))"

lemma received_holds: "holds_chunks xdr network I s \<Longrightarrow> received s = card I"
proof -
  assume h: "holds_chunks xdr network I s"
  then have "received s = length (filter (\<lambda>i. i \<in> int ` I) [0..int (frame_count xdr) - 1])"
    by (simp add: received_def holds_chunks_def cong: if_cong)
  also have "\<dots> = card {i \<in> set [0..int (frame_count xdr) - 1]. i \<in> int ` I}"
    by (subst distinct_length_filter) (simp_all add: Int_def conj_commute)
  also have "{i \<in> set [0..int (frame_count xdr) - 1]. i \<in> int ` I} = int ` I"
    using h by (auto simp: holds_chunks_def)
  finally show ?thesis by (simp add: card_image)
qed

lemma map_upto_int: "map f [0..int n - 1] = map (\<lambda>k. f (int k)) [0..<n]"
proof -
  have "[0..int n - 1] = map int [0..<n]"
    by (induction n) (simp_all add: upto_rec2 [of 0] algebra_simps)
  then show ?thesis by simp
qed

lemma join_holds:
  assumes "holds_chunks xdr network {..<frame_count xdr} s"
  shows "join_chunks s = xdr"
proof -
  have "join_chunks s = concat (map (\<lambda>k. chunk_of xdr k) [0..<frame_count xdr])"
    using assms by (auto simp: join_chunks_def holds_chunks_def map_upto_int intro!: arg_cong [of _ _ concat])
  then show ?thesis by (simp add: all_chunks)
qed

text \<open>One more frame: dropped as a duplicate, stored, or completing the payload.\<close>

lemma accept_frame_holds:
  assumes h: "holds_chunks xdr network I s" and k: "k < frame_count xdr"
  shows "k \<in> I \<Longrightarrow> accept_frame network (frame_of xdr network k) s = Inr (Duplicate (progress s), s)"
    and "k \<notin> I \<Longrightarrow> insert k I \<noteq> {..<frame_count xdr} \<Longrightarrow>
      \<exists>p s'. accept_frame network (frame_of xdr network k) s = Inr (Accepted p, s') \<and> holds_chunks xdr network (insert k I) s'"
    and "k \<notin> I \<Longrightarrow> insert k I = {..<frame_count xdr} \<Longrightarrow>
      accept_frame network (frame_of xdr network k) s =
        Inr (Complete xdr \<lparr>hp_received = frame_count xdr, hp_total = int (frame_count xdr)\<rparr>, new_collector)"
proof -
  let ?f = "frame_of xdr network k"
  let ?s = "s\<lparr>co_chunks := jm_set (co_chunks s) (int k) (chunk_of xdr k)\<rparr>"
  have to_store: "accept_frame network ?f s = store_frame ?f s"
    using h k by (simp add: accept_frame_def holds_chunks_def frame_of_def)
  have store: "store_frame ?f s =
      (if k \<in> I then Inr (Duplicate (progress s), s)
       else if int (received ?s) < int (frame_count xdr) then Inr (Accepted (progress ?s), ?s)
       else if crc32Hex (join_chunks ?s) \<noteq> crc32Hex xdr
       then and_then (new_array (int (frame_count xdr))) (\<lambda>len.
              let s2 = ?s\<lparr>co_length := len, co_chunks := []\<rparr> in Inr (Invalid Checksum_mismatch (progress s2), s2))
       else Inr (Complete (join_chunks ?s) \<lparr>hp_received = received ?s, hp_total = int (received ?s)\<rparr>, new_collector))"
    using h by (auto simp: store_frame_def holds_chunks_def frame_of_def Let_def reset_def new_collector_def)
  have h': "holds_chunks xdr network (insert k I) ?s"
    using h k by (auto simp: holds_chunks_def)
  have le: "insert k I \<subseteq> {..<frame_count xdr}" using h' by (simp add: holds_chunks_def)
  have r: "received ?s = card (insert k I)" by (rule received_holds [OF h'])
  show "k \<in> I \<Longrightarrow> accept_frame network ?f s = Inr (Duplicate (progress s), s)" by (simp add: to_store store)
  show "\<exists>p s'. accept_frame network ?f s = Inr (Accepted p, s') \<and> holds_chunks xdr network (insert k I) s'"
    if "k \<notin> I" "insert k I \<noteq> {..<frame_count xdr}"
  proof -
    have "card (insert k I) < frame_count xdr" using psubset_card_mono [of "{..<frame_count xdr}" "insert k I"] le that by auto
    then show ?thesis using that h' r by (simp add: to_store store)
  qed
  show "accept_frame network ?f s =
      Inr (Complete xdr \<lparr>hp_received = frame_count xdr, hp_total = int (frame_count xdr)\<rparr>, new_collector)"
    if n: "k \<notin> I" and e: "insert k I = {..<frame_count xdr}"
  proof -
    have "received ?s = frame_count xdr" using r unfolding e by simp
    moreover have "join_chunks ?s = xdr" using h' unfolding e by (rule join_holds)
    ultimately show ?thesis using n by (simp add: to_store store)
  qed
qed

lemma accept_first_frame:
  assumes "k < frame_count xdr" "frame_count xdr < 2 ^ 32"
  shows "\<exists>s. holds_chunks xdr network {} s \<and>
    accept_frame network (frame_of xdr network k) new_collector = accept_frame network (frame_of xdr network k) s"
  using assms
  by (intro exI [of _ "\<lparr>co_length = int (frame_count xdr), co_chunks = [], co_expected =
        Some \<lparr>se_id = sessionId xdr network, se_n = int (frame_count xdr), se_sum = crc32Hex xdr\<rparr>\<rparr>"])
     (simp add: holds_chunks_def accept_frame_def new_collector_def new_array_def frame_of_def)

definition pending :: "accept_result \<Rightarrow> bool" where
  "pending r \<longleftrightarrow> (case r of Accepted _ \<Rightarrow> True | Duplicate _ \<Rightarrow> True | _ \<Rightarrow> False)"

lemma scan_rest:
  assumes "holds_chunks xdr network I s" "set ks \<subseteq> {..<frame_count xdr}" "k < frame_count xdr"
    and "k \<notin> set ks" "k \<notin> I" "insert k (I \<union> set ks) = {..<frame_count xdr}" "0 < length xdr"
    and "\<forall>j < frame_count xdr. json_parse (trim (render j)) = Some (frame_json (frame_of xdr network j))"
  shows "\<exists>rs. scan_all json_parse network (map render ks @ [render k]) s =
      Inr (rs @ [Complete xdr \<lparr>hp_received = frame_count xdr, hp_total = int (frame_count xdr)\<rparr>], new_collector)
    \<and> list_all pending rs"
  using assms
proof (induction ks arbitrary: I s)
  case Nil
  then show ?case by (simp add: accept_def parse_frame_of accept_frame_holds(3))
next
  case (Cons j ks)
  have j: "j < frame_count xdr" "accept json_parse network (render j) s = accept_frame network (frame_of xdr network j) s"
    using Cons.prems by (simp_all add: accept_def parse_frame_of)
  have "\<exists>r s'. accept_frame network (frame_of xdr network j) s = Inr (r, s') \<and> pending r
      \<and> holds_chunks xdr network (insert j I) s'"
  proof (cases "j \<in> I")
    case True
    then show ?thesis using accept_frame_holds(1) [OF Cons.prems(1) j(1)] Cons.prems(1)
      by (simp add: pending_def insert_absorb)
  next
    case False
    moreover have "insert j I \<noteq> {..<frame_count xdr}" using Cons.prems(3-5) by auto
    ultimately show ?thesis using accept_frame_holds(2) [OF Cons.prems(1) j(1)] by (fastforce simp: pending_def)
  qed
  then obtain r s' where r: "accept_frame network (frame_of xdr network j) s = Inr (r, s')" "pending r"
    "holds_chunks xdr network (insert j I) s'" by blast
  from Cons.IH [OF r(3)] Cons.prems obtain rs where
    "scan_all json_parse network (map render ks @ [render k]) s' =
       Inr (rs @ [Complete xdr \<lparr>hp_received = frame_count xdr, hp_total = int (frame_count xdr)\<rparr>], new_collector)"
    "list_all pending rs" by auto
  then show ?case using r(1,2) j(2) by (intro exI [of _ "r # rs"]) simp
qed

text \<open>
  C32. The frames of a payload, scanned in any order and with any repetitions, give the payload back
  with the frame that completes them, and not before: every earlier scan is answered as accepted or
  as a duplicate, and the collector is ready for the next payload. \<open>render\<close> is any rendering of the
  frames that \<open>JSON.parse\<close> reads back.
\<close>

theorem qr_any_order:
  assumes "encodeHandoffFrames xdr network = Inr frames"
    and "\<forall>j < length frames. json_parse (trim (render j)) = Some (frame_json (frames ! j))"
    and "k < length frames" "k \<notin> set ks" "insert k (set ks) = {..<length frames}"
  shows "\<exists>rs. scan_all json_parse network (map render ks @ [render k]) new_collector =
      Inr (rs @ [Complete xdr \<lparr>hp_received = length frames, hp_total = int (length frames)\<rparr>], new_collector)
    \<and> list_all pending rs"
proof -
  have xdr: "0 < length xdr" "length xdr \<le> 100000" and frames: "frames = map (frame_of xdr network) [0..<frame_count xdr]"
    using assms(1) by (auto simp: encodeHandoffFrames_eq split: if_splits)
  have small: "frame_count xdr < 2 ^ 32" using frame_count_bounds(3) [of xdr 196] xdr by simp
  have parse: "\<forall>j < frame_count xdr. json_parse (trim (render j)) = Some (frame_json (frame_of xdr network j))"
    using assms(2) by (simp add: frames)
  define j where "j = hd (ks @ [k])"
  have j: "j < frame_count xdr" "\<And>P. P j \<Longrightarrow> P (hd (ks @ [k]))"
    using assms(3,5) by (cases ks; auto simp: j_def frames)+
  obtain s where s: "holds_chunks xdr network {} s"
    "accept_frame network (frame_of xdr network j) new_collector = accept_frame network (frame_of xdr network j) s"
    using accept_first_frame [OF j(1) small] by blast
  have "accept json_parse network (render j) new_collector = accept json_parse network (render j) s"
    using s(2) parse j(1) xdr by (simp add: accept_def parse_frame_of)
  then have "scan_all json_parse network (map render ks @ [render k]) new_collector =
      scan_all json_parse network (map render ks @ [render k]) s"
    by (cases ks) (simp_all add: j_def)
  then show ?thesis using scan_rest [OF s(1) _ _ assms(4) _ _ xdr(1) parse] assms(3,5) by (auto simp: frames)
qed

text \<open>A payload of two frames, the second scanned twice before the first.\<close>

theorem qr_any_order_witness:
  defines "xdr \<equiv> replicate 600 (CHR ''A'')"
  defines "frames \<equiv> map (frame_of xdr Handoff_testnet) [0, 1]"
  shows "encodeHandoffFrames xdr Handoff_testnet = Inr frames \<and>
    (\<exists>rs. scan_all (\<lambda>t. if t = ''a'' then Some (frame_json (frames ! 0)) else Some (frame_json (frames ! 1)))
        Handoff_testnet [''b'', ''b'', ''a''] new_collector =
      Inr (rs @ [Complete xdr \<lparr>hp_received = 2, hp_total = 2\<rparr>], new_collector) \<and> list_all pending rs)"
proof -
  have c: "frame_count xdr = 2"
    using frame_count_bounds(1) [of xdr] frame_count_bounds(3) [of xdr 2] by (simp add: xdr_def)
  have e: "encodeHandoffFrames xdr Handoff_testnet = Inr frames"
    unfolding encodeHandoffFrames_eq c by (simp add: frames_def xdr_def upt_rec)
  have t: "trim ''a'' = ''a''" "trim ''b'' = ''b''" by (simp_all add: trim_id is_space_def)
  have two: "{..<2} = {0, 1 :: nat}" by auto
  have "\<exists>rs. scan_all (\<lambda>t. if t = ''a'' then Some (frame_json (frames ! 0)) else Some (frame_json (frames ! 1)))
        Handoff_testnet (map (\<lambda>j :: nat. if j = 0 then ''a'' else ''b'') [1, 1] @ [if (0 :: nat) = 0 then ''a'' else ''b''])
        new_collector =
      Inr (rs @ [Complete xdr \<lparr>hp_received = length frames, hp_total = int (length frames)\<rparr>], new_collector)
      \<and> list_all pending rs"
    by (rule qr_any_order [OF e]) (auto simp: t frames_def two less_2_cases_iff)
  then show ?thesis using e by (simp add: frames_def numeral_2_eq_2)
qed

text \<open>
  Two frames a scanner can meet: an index below zero passes the range check and is answered as
  accepted although no chunk arrived; a count above the largest array length throws out of \<open>accept\<close>.
\<close>

lemma negative_index_accepted:
  "accept_frame Handoff_testnet \<lparr>qf_v = 1, qf_id = [], qf_net = Handoff_testnet, qf_i = - 1, qf_n = 2, qf_sum = [],
      qf_c = [], qf_d = ''x''\<rparr> new_collector =
   Inr (Accepted \<lparr>hp_received = 0, hp_total = 2\<rparr>,
      \<lparr>co_length = 2, co_chunks = [(- 1, ''x'')], co_expected = Some \<lparr>se_id = [], se_n = 2, se_sum = []\<rparr>\<rparr>)"
proof -
  have "[0..1 :: int] = [0, 1]" by (simp add: upto_rec1)
  then show ?thesis
    by (simp add: accept_frame_def new_collector_def new_array_def store_frame_def received_def progress_def)
qed

lemma huge_count_throws:
  "2 ^ 32 \<le> n \<Longrightarrow> accept_frame Handoff_testnet \<lparr>qf_v = 1, qf_id = [], qf_net = Handoff_testnet, qf_i = 0, qf_n = n,
      qf_sum = [], qf_c = [], qf_d = ''x''\<rparr> new_collector = Inl (RangeError ''Invalid array length'')"
  by (simp add: accept_frame_def new_collector_def new_array_def)

section \<open>Comparing envelopes\<close>

lemma byte_less: "unat (b :: 8 word) < 256"
  using unsigned_less [of b] by simp

lemma hex_char_0: "hex_char 0 = CHR ''0''"
  by code_simp

lemma toHex_simps: "toHex [] = []"
  "toHex (b # bs) = hex_char (unat b div 16) # hex_char (unat b mod 16) # toHex bs"
proof -
  have "unat b div 16 < 16" using byte_less [of b] by simp
  then show "toHex (b # bs) = hex_char (unat b div 16) # hex_char (unat b mod 16) # toHex bs"
    by (simp add: toHex_def pad_start_def hex_of_nat.simps [of "unat b"] hex_of_nat.simps [of "unat b div 16"]
          hex_char_0)
qed (simp add: toHex_def)

lemma hex_char_code: "n < 16 \<Longrightarrow> (of_char (hex_char n) :: nat) = (if n < 10 then 48 + n else 87 + n)"
  by (simp add: hex_char_def)

lemma hex_char_inj:
  assumes "m < 16" "n < 16" shows "hex_char m = hex_char n \<longleftrightarrow> m = n"
proof
  assume e: "hex_char m = hex_char n"
  have "(if m < 10 then 48 + m else 87 + m) = (if n < 10 then 48 + n else 87 + n)"
    using hex_char_code [OF assms(1)] hex_char_code [OF assms(2)] unfolding e by linarith
  then show "m = n" using assms by (auto split: if_splits)
qed simp

lemma hex_char_not_colon: "n < 16 \<Longrightarrow> hex_char n \<noteq> CHR '':''"
  using hex_char_code [of n] by (auto split: if_splits)

lemma signature_key_inj: "toHex a @ '':'' @ toHex b = toHex c @ '':'' @ toHex d \<longleftrightarrow> a = c \<and> b = d"
proof -
  have nib: "unat (x :: 8 word) div 16 < 16" for x using byte_less [of x] by simp
  have byte: "unat x div 16 = unat y div 16 \<and> unat x mod 16 = unat y mod 16 \<longleftrightarrow> x = y" for x y :: "8 word"
    using div_mult_mod_eq [of "unat x" 16] div_mult_mod_eq [of "unat y" 16] by (metis word_unat_eq_iff)
  have same: "toHex b = toHex d \<longleftrightarrow> b = d"
  proof (induction b arbitrary: d)
    case Nil
    then show ?case by (cases d) (simp_all add: toHex_simps)
  next
    case (Cons x b)
    then show ?case using nib byte [of x] by (cases d) (auto simp: toHex_simps hex_char_inj)
  qed
  show ?thesis
  proof (induction a arbitrary: c)
    case Nil
    have "CHR '':'' \<noteq> hex_char (unat y div 16)" for y :: "8 word"
      using hex_char_not_colon [OF nib] by metis
    then show ?case by (cases c) (auto simp: toHex_simps same)
  next
    case (Cons x a)
    then show ?case using nib byte [of x] hex_char_not_colon [OF nib, of x]
      by (cases c) (auto simp: toHex_simps hex_char_inj)
  qed
qed

lemma keys_image: "set (signatureKeys tx) = (\<lambda>(h, g). toHex h @ '':'' @ toHex g) ` set (ht_signatures tx)"
  "inj (\<lambda>(h, g). toHex h @ '':'' @ toHex g)"
  by (simp add: signatureKeys_def) (rule injI, clarsimp simp: signature_key_inj [simplified])

lemma length_filter_dedupe: "length (filter (\<lambda>k. k \<notin> B) (dedupe xs)) = card (set xs - B)"
  by (subst distinct_length_filter) (auto intro: arg_cong [of _ _ card])

text \<open>
  The comparison: the bodies agree iff their hashes do, and the counts are those of the sets of
  (hint, signature) pairs, the keys being injective.
\<close>

lemma equalBytes_iff [simp]: "equalBytes l r \<longleftrightarrow> l = r"
  using nth_equalityI [of l r] by (auto simp: equalBytes_def list_all_iff)

lemma card_inj_image: "inj f \<Longrightarrow> card (f ` A) = card A" "inj f \<Longrightarrow> card (f ` A - f ` B) = card (A - B)"
proof -
  assume i: "inj f"
  show "card (f ` C) = card C" for C by (rule card_image) (rule inj_on_subset [OF i], simp)
  then show "card (f ` A - f ` B) = card (A - B)" by (simp only: image_set_diff [OF i, symmetric])
qed

lemma card_keys:
  "card (set (signatureKeys a) - set (signatureKeys b)) = card (set (ht_signatures a) - set (ht_signatures b))"
  "length (dedupe (signatureKeys a)) = card (set (ht_signatures a))"
  unfolding keys_image(1) card_inj_image [OF keys_image(2)]
    distinct_card [OF distinct_dedupe, of "signatureKeys a", symmetric] set_dedupe
  by (rule refl)+

lemma compare_counts_signatures:
  "compareHandoffTransactions from_xdr currentXdr incomingXdr network =
     (case (from_xdr currentXdr network, from_xdr incomingXdr network) of
        (Some c, Some i) \<Rightarrow> Inr \<lparr>sg_sameBody = (ht_hash c = ht_hash i),
          sg_addedSignatures = card (set (ht_signatures i) - set (ht_signatures c)),
          sg_removedSignatures = card (set (ht_signatures c) - set (ht_signatures i)),
          sg_currentSignatures = card (set (ht_signatures c)),
          sg_incomingSignatures = card (set (ht_signatures i))\<rparr>
      | _ \<Rightarrow> Inl Invalid_transaction)"
  by (simp add: compareHandoffTransactions_def Let_def length_filter_dedupe card_keys split: option.splits)

end
