(* ===== verification/Spec2Isabelle.thy ===== *)
theory Spec2Isabelle
  imports Prelude JsNumber DecimalUtil LpMath SlippageLab BoundedTtlMap PasskeyChallenges MultisigWeights
    SequencePlanner Orderbook TradeTape LeaseStore MonitorConfig MonitorLeader MonitorRules StateEvaluation
    AlertDelivery MonitorDigest DigestFlush EventIngestion StreamPolling StreamManager SsrfGuard AccountGraph
    WorkspaceSanitizer WorkspaceStore AuthSessions TransactionSequence
    Pagination WebhookSignature WebhookTester Strkey QrHandoff
begin

text \<open>
  A verification library for Savitools, a toolkit for Stellar developers: a NestJS service
  (\<open>apps/api\<close>) that answers simulator, planning and monitoring requests over Horizon data, and a
  web client (\<open>apps/web\<close>). The library models the code that computes: the exact arithmetic of the
  simulators, the in-memory stores, the monitor (who may evaluate alerts, and which alerts
  are raised) and the codecs of the client. Calls of the ledger (Horizon), the database, Redis, the
  clock, \<open>JSON.parse\<close>, \<open>Intl\<close>, \<open>Buffer\<close> and the Stellar SDK are arguments of the definitions that
  make them.

  \<^bold>\<open>Conventions.\<close> A thrown error is \<open>Inl\<close>, a returned value \<open>Inr\<close> (\<open>and_then\<close> sequences
  them); a BigInt is an \<open>int\<close>, a number a rational on the grid of the IEEE doubles
  (\<open>JsNumber\<close>), a bit operator's operand a word; a \<open>Map\<close> is an association list in insertion
  order (\<open>jm_get\<close>, \<open>jm_set\<close>, \<open>jm_delete\<close>); a text is a list of Latin-1 characters. Time is an
  argument, in milliseconds.

  \<^bold>\<open>Foundations.\<close>
  \<^item> \<open>Prelude\<close>: results, BigInt division, digits, strings, sorting with a comparator, maps.
  \<^item> \<open>JsNumber\<close>: rounding to doubles (\<open>fl\<close>), \<open>Math.round\<close>, \<open>toFixed\<close>, \<open>parseInt\<close>, with the
    exactness and error lemmas the components use.
  \<^item> \<open>DecimalUtil\<close> (\<open>common/decimal.util.ts\<close>): amounts in stroops; parsing and printing are
    inverse.

  \<^bold>\<open>Simulators.\<close>
  \<^item> \<open>LpMath\<close> (\<open>simulator/lp-math.ts\<close>): deposit, withdrawal and impermanent-loss quotes of a
    constant-product pool. No deposit dilutes the pool, a deposit followed by a withdrawal never
    profits, withdrawals stay within the pool, the Newton loop of \<open>isqrt\<close> ends.
  \<^item> \<open>SlippageLab\<close> (\<open>simulator/slippage-lab.ts\<close>): slippage guarantees, the comparison table and
    its recommendation.
  \<^item> \<open>Orderbook\<close> and \<open>TradeTape\<close> (\<open>simulator/orderbook.service.ts\<close>, \<open>common/horizon-cursor.ts\<close>):
    depth chart, analytics and best-execution quotes; the paged trade tape, whose loop reads at
    most five Horizon pages, resumes exactly where it stopped; the cursor explorer.
  \<^item> \<open>MultisigWeights\<close> (\<open>multisig/multisig-weights.ts\<close>, \<open>multisig.service.ts\<close>): what a set of
    signers can authorise, smallest signer sets, risks.
  \<^item> \<open>SequencePlanner\<close> (\<open>sequence-planner.service.ts\<close>): assignment of sequence numbers, conflicts,
    gaps and the dependency graph.

  \<^bold>\<open>Stores.\<close>
  \<^item> \<open>BoundedTtlMap\<close> (\<open>common/bounded-ttl-map.ts\<close>): the cache, its bound, eviction and expiry.
  \<^item> \<open>PasskeyChallenges\<close> (\<open>auth.service.ts\<close>): WebAuthn challenges, used at most once.
  \<^item> \<open>AuthSessions\<close> (\<open>auth.service.ts\<close>): refresh tokens, logins and password resets as requests that
    interleave at their repository calls (\<open>auth_step\<close>), with \<open>auth_inv\<close>: one working token per
    family. Rotation, reuse detection and reset as they run alone, the races that escape them, and
    the limiter of resets.

  \<^bold>\<open>Monitor\<close> (\<open>apps/api/src/modules/monitor\<close>). One replica of many holds a lease and evaluates the
  state rules of the watches.
  \<^item> \<open>LeaseStore\<close>: the in-memory and the Redis lease store behind the locale \<open>lease_store\<close>; the
    Redis scripts and the in-memory code give the same replies.
  \<^item> \<open>MonitorLeader\<close>: \<open>MonitorLeaderService\<close> as handlers of an instance, and \<open>cluster_step\<close>, the
    interleaving of any number of instances with the store, the clock and shutdowns; the locale
    \<open>election\<close> proves the invariant from the laws of the lease store alone.
  \<^item> \<open>MonitorConfig\<close>: the environment read at start. \<open>MonitorRules\<close>: alert rules, decimal comparison
    and quiet hours. \<open>StateEvaluation\<close>: the watch registry and the evaluation of the state rules,
    edge-triggered; the transaction scan stops after the code's 1000 records and its counts are
    exact below that.
  \<^item> \<open>EventIngestion\<close>: \<open>EventIngestionService\<close> with the event, alert and watch tables; any database
    or queue call may reject, by an environment, and every event is still stored, announced and
    alerted exactly once. \<open>StreamPolling\<close>: normalisation, polls, streamed records and status of
    \<open>stream-manager.service.ts\<close>; polls never leave a gap below a cursor (\<open>no_gap\<close>), streams and
    contract polls can. \<open>StreamManager\<close>: the stream groups as objects in a heap, one step between
    two \<open>await\<close>s, any order of completions; the budget of connections.
  \<^item> \<open>AlertDelivery\<close>: the notification worker, one run of a job with its retries, and the producer that
    re-queues pending alerts. \<open>MonitorDigest\<close>: digest preferences and the grouping of held alerts.
    \<open>DigestFlush\<close>: claiming and flushing, as steps of any number of replicas with the clock, crashes
    and the workers. No channel is delivered twice; no alert is in two completed digests as
    long as flushes end before their claims expire.
  \<^item> \<open>SsrfGuard\<close> (\<open>common/ssrf-guard.ts\<close> and the redirect loop of \<open>notification.worker.ts\<close>): which
    destinations a webhook may be sent to.
  \<^item> This theory composes them: the evaluation timers of the replicas follow the leases
    (\<open>one_replica_evaluates\<close>).

  \<^bold>\<open>Accounts\<close> (\<open>apps/api/src/modules/transaction\<close>).
  \<^item> \<open>AccountGraph\<close> (\<open>graph.service.ts\<close>): the graph of signers, offers and payments around an
    account, under a budget of requests and nodes. The signers' breadth-first search is shown to
    find exactly the accounts within its depth (\<open>bfs_inv\<close>); its loop ends by a multiset order.

  \<^bold>\<open>Composer\<close> (\<open>apps/api/src/modules/composer\<close>).
  \<^item> \<open>TransactionSequence\<close> (\<open>transaction-sequence.service.ts\<close>): transactions that depend on one
    another, the references between their steps and the sequence numbers they are built from
    (\<open>seq_inv\<close>).

  \<^bold>\<open>Webhook tester\<close> (\<open>apps/api/src/modules/webhook\<close>).
  \<^item> \<open>WebhookSignature\<close> (\<open>signature.ts\<close>, \<open>webhook-signature.ts\<close> of the client): signing and verifying
    over an abstract HMAC; what is accepted is stated apart from the code (\<open>accepted\<close>).
  \<^item> \<open>WebhookTester\<close> (\<open>webhook.service.ts\<close>): deliveries with repeats and redirects, templates,
    history and replay. Every signed request verifies at its receiver (\<open>carries\<close>); the history is
    bounded and redacted (\<open>tester_inv\<close>). \<open>Pagination\<close>: the paging contract of the list endpoints,
    whose pages give every row once (\<open>pages_complete\<close>).

  \<^bold>\<open>Workspaces\<close> (\<open>apps/api/src/modules/workspace\<close>, \<open>apps/web/src/lib/workspace-format.ts\<close>).
  \<^item> \<open>WorkspaceSanitizer\<close>: the sanitizers of the service and of the client over JSON values, with
    their patterns as functions on texts, and the versioned export format. No secret is left
    (\<open>texts_and_names\<close>), and exports can be imported.
  \<^item> \<open>WorkspaceStore\<close> (\<open>workspace.service.ts\<close>): the table with its unique indexes and the requests
    as sequences of repository calls that interleave (\<open>ws_step\<close>); isolation of users, upserts and
    share links.

  \<^bold>\<open>Client codecs\<close> (\<open>apps/web/src/lib\<close>).
  \<^item> \<open>Strkey\<close> (\<open>strkey.ts\<close>): base32, CRC16 and Stellar keys; a key decodes to its payload, and a
    key with one wrong character is never accepted.
  \<^item> \<open>QrHandoff\<close> (\<open>qr-handoff.ts\<close>): the frames of an offline handoff, collected in any order.

  \<^bold>\<open>Bounds and fuel.\<close> No definition runs on fuel: every loop is structural or has a termination
  proof, the Newton loop of \<open>isqrt\<close> included. Bounds in the definitions (five pages, 1000
  transactions, 256 frames, the cache's capacity) are the code's own constants.

  \<^bold>\<open>Not modelled.\<close> Controllers, DTO decorators, entities' columns, migrations and module wiring; the
  services whose lines are requests to Horizon, RPC servers, mail or the database and the
  assembling of their answers; the parts that decode or build XDR through the SDK; log lines and
  metrics; the React interface. Contract event filters, pool and path quotes around the modelled
  mathematics and the client's search are plain code that this library does not cover.
\<close>

section \<open>Leadership and the evaluation loop\<close>

text \<open>
  The evaluation timer of a replica: \<open>StateEvaluationService\<close> starts and stops it in the listener it
  subscribes, so it is what the notifications of that listener leave.
\<close>

definition evaluation_timer :: "js_num \<Rightarrow> nat \<Rightarrow> leader_instance \<Rightarrow> js_num option" where
  "evaluation_timer intervalMs l r =
     fold (on_leadership intervalMs) (map snd (filter (\<lambda>h. fst h = l) (li_heard r))) None"

lemma fold_on_leadership:
  "0 < intervalMs \<Longrightarrow> fold (on_leadership intervalMs) (bs @ [b]) None = (if b then Some intervalMs else None)"
proof -
  assume pos: "0 < intervalMs"
  have "fold (on_leadership intervalMs) bs None \<in> {None, Some intervalMs}" for bs
    using pos by (induction bs rule: rev_induct)
      (auto simp: on_leadership_def startEvaluationLoop_def stopEvaluationLoop_def)
  from this [of bs] pos show ?thesis
    by (auto simp: on_leadership_def startEvaluationLoop_def stopEvaluationLoop_def)
qed

lemma heard_last_split:
  assumes "heard_last l r = Some b"
  shows "\<exists>bs. map snd (filter (\<lambda>h. fst h = l) (li_heard r)) = bs @ [b]"
proof -
  from assms obtain h where h: "find (\<lambda>h. fst h = l) (rev (li_heard r)) = Some h" "snd h = b"
    by (auto simp: heard_last_def)
  then obtain i where i: "i < length (rev (li_heard r))" "fst h = l" "h = rev (li_heard r) ! i"
    "\<forall>j < i. fst (rev (li_heard r) ! j) \<noteq> l"
    unfolding find_Some_iff by blast
  have "rev (li_heard r) = take i (rev (li_heard r)) @ h # drop (Suc i) (rev (li_heard r))"
    using i(1,3) by (simp add: id_take_nth_drop)
  then have "filter (\<lambda>h. fst h = l) (rev (li_heard r)) =
      filter (\<lambda>h. fst h = l) (take i (rev (li_heard r)) @ h # drop (Suc i) (rev (li_heard r)))"
    by (rule arg_cong)
  moreover have "filter (\<lambda>h. fst h = l) (take i (rev (li_heard r))) = []"
    using i(1,4) by (fastforce simp: filter_empty_conv in_set_conv_nth)
  ultimately have "rev (filter (\<lambda>h. fst h = l) (li_heard r)) = h # filter (\<lambda>h. fst h = l) (drop (Suc i) (rev (li_heard r)))"
    using i(2) by (simp add: rev_filter)
  then have "filter (\<lambda>h. fst h = l) (li_heard r) = rev (filter (\<lambda>h. fst h = l) (drop (Suc i) (rev (li_heard r)))) @ [h]"
    by (metis rev_rev_ident rev.simps(2))
  then show ?thesis using h(2) by auto
qed

lemma timer_follows_leadership:
  assumes "cluster_run store cfg (start_cluster enabled now s) tr c"
    and "l \<in> set (li_listeners (cl_instance c i))" "0 < intervalMs"
  shows "evaluation_timer intervalMs l (cl_instance c i) = (if li_leader (cl_instance c i) then Some intervalMs else None)"
proof -
  have "\<forall>i. informed (cl_instance (start_cluster enabled now s) i)"
    by (simp add: start_cluster_def new_instance_def informed_def)
  from run_informed [OF assms(1) this] assms(2)
  have "heard_last l (cl_instance c i) = Some (li_leader (cl_instance c i))" by (auto simp: informed_def)
  from heard_last_split [OF this] fold_on_leadership [OF assms(3)] show ?thesis
    unfolding evaluation_timer_def by metis
qed

text \<open>
  C22. The composition of the lease store, the election, the listeners and the evaluation service: in
  every run of any number of replicas, the state-rule timer of a replica with a subscribed listener
  runs, at the configured interval, exactly while that replica leads; and when it runs on two
  replicas that are not shutting down, one of them has gone a whole lease period without a
  confirmed grant.
\<close>

theorem one_replica_evaluates:
  assumes "cluster_run createInMemoryMonitorLockStore cfg (start_cluster enabled now []) tr c"
    and "0 < lc_leaderLeaseMs cfg" "0 < intervalMs"
    and "l \<in> set (li_listeners (cl_instance c i))" "m \<in> set (li_listeners (cl_instance c j))"
    and "\<not> li_stopping (cl_instance c i)" "\<not> li_stopping (cl_instance c j)" "i \<noteq> j"
  shows "evaluation_timer intervalMs l (cl_instance c i) =
      (if li_leader (cl_instance c i) then Some intervalMs else None)
    \<and> (evaluation_timer intervalMs l (cl_instance c i) \<noteq> None
        \<and> evaluation_timer intervalMs m (cl_instance c j) \<noteq> None
       \<longrightarrow> (\<exists>k \<in> {i, j}. \<exists>t. last_grant k tr = Some t \<and> t + lc_leaderLeaseMs cfg \<le> cl_now c))"
  using timer_follows_leadership [OF assms(1,4,3)] timer_follows_leadership [OF assms(1,5,3)]
    memory_election.fresh_leader_unique [OF memory_inv [OF assms(1,2)], of i j] assms(6-8)
  by (simp split: if_splits)

text \<open>The takeover of a stalled leader, both replicas evaluating every minute.\<close>

theorem one_replica_evaluates_witness:
  "\<exists>tr c k t. cluster_run createInMemoryMonitorLockStore sample_config sample_start tr c
     \<and> evaluation_timer 60000 1 (cl_instance c ''a'') = Some 60000
     \<and> evaluation_timer 60000 1 (cl_instance c ''b'') = Some 60000
     \<and> last_grant k tr = Some t \<and> t + 30000 \<le> cl_now c"
proof -
  let ?S = createInMemoryMonitorLockStore
  obtain tr c where r: "cluster_run ?S sample_config sample_start tr c"
    "li_leader (cl_instance c ''a'')" "\<not> li_stopping (cl_instance c ''a'')"
    "li_leader (cl_instance c ''b'')" "\<not> li_stopping (cl_instance c ''b'')"
    using sample_takeover by blast
  let ?c1 = "on_instance ''a'' (onLeadershipChange 1) c"
  let ?c = "on_instance ''b'' (onLeadershipChange 1) ?c1"
  let ?tr = "(tr @ [(cl_now c, Subscribe ''a'' 1)]) @ [(cl_now ?c1, Subscribe ''b'' 1)]"
  have run: "cluster_run ?S sample_config sample_start ?tr ?c"
    by (rule run_step [OF run_step [OF r(1) step_subscribe] step_subscribe])
  have l: "1 \<in> set (li_listeners (cl_instance ?c ''a''))" "1 \<in> set (li_listeners (cl_instance ?c ''b''))"
    "li_leader (cl_instance ?c ''a'')" "li_leader (cl_instance ?c ''b'')"
    "\<not> li_stopping (cl_instance ?c ''a'')" "\<not> li_stopping (cl_instance ?c ''b'')"
    using r(2-5) by (simp_all add: onLeadershipChange_def)
  have pos: "0 < lc_leaderLeaseMs sample_config" "(0 :: js_num) < 60000" "(''a'' :: string) \<noteq> ''b''"
    by (simp_all add: sample_config_def)
  have both: "evaluation_timer 60000 1 (cl_instance ?c ''a'') = Some 60000"
    "evaluation_timer 60000 1 (cl_instance ?c ''b'') = Some 60000"
    using one_replica_evaluates [OF run pos(1,2) l(1,2,5,6) pos(3)]
      one_replica_evaluates [OF run pos(1,2) l(2,1,6,5) pos(3) [symmetric]] l(3,4) by simp_all
  then obtain k t where "last_grant k ?tr = Some t" "t + lc_leaderLeaseMs sample_config \<le> cl_now ?c"
    using one_replica_evaluates [OF run pos(1,2) l(1,2,5,6) pos(3)] by auto
  then show ?thesis using run both unfolding sample_config_def by (intro exI [of _ ?tr] exI [of _ ?c] exI [of _ k] exI [of _ t]) simp
qed

end
